(* ===== verification/Prelude.thy ===== *)
theory Prelude
  imports Main "HOL-Library.Word"
begin

text \<open>
  The shared library of the xv6 development: the integer types of \<^verbatim>\<open>types.h\<close>, the outcome of
  running a piece of kernel code, the state-passing programs built from it, and two small
  calculi for reasoning about them: \<open>wp\<close> (the program returns, and its result satisfies the
  postcondition) and \<open>wlp\<close> (whatever it returns satisfies it).  The collection \<open>prog_simps\<close>
  holds the rewrite rules that push both through the program combinators, so that the
  component proofs are calls of \<open>simp\<close> with that collection.
\<close>

unbundle bit_operations_syntax

section \<open>Integer types\<close>

text \<open>
  \<^verbatim>\<open>types.h\<close>: \<^verbatim>\<open>uint\<close> is a 32-bit, \<^verbatim>\<open>ushort\<close> a 16-bit and \<^verbatim>\<open>uchar\<close> an 8-bit unsigned integer.
  Where the code computes addresses the model keeps the machine word; where it computes
  indices and sizes the model uses \<^typ>\<open>nat\<close> or \<^typ>\<open>int\<close> and writes the wrap-around out.
\<close>

type_synonym u8 = "8 word"
type_synonym u16 = "16 word"
type_synonym u32 = "32 word"

section \<open>Sleep channels\<close>

text \<open>
  A sleep channel of \<^verbatim>\<open>sleep(chan, lk)\<close> is the address of a kernel object used as a name.
  Distinct objects have distinct addresses, so the model names the object: a process table
  slot, a buffer, an inode, a sleep lock of either, the log, the tick counter, the console
  read index, the read and write counters of a pipe (by its page address) and a semaphore.
  \<open>NoChan\<close> is the null pointer that \<^verbatim>\<open>p->chan\<close> holds outside \<^verbatim>\<open>sleep\<close>.
\<close>

datatype chan =
    NoChan
  | ChanProc nat
  | ChanBuf nat
  | ChanBufLock nat
  | ChanInodeLock nat
  | ChanLog
  | ChanTicks
  | ChanInputR
  | ChanNread u32
  | ChanNwrite u32
  | ChanSem nat

section \<open>Outcomes and programs\<close>

text \<open>
  Running a piece of kernel code from a state either returns a value and a state, or stops
  in \<^verbatim>\<open>panic(msg)\<close>, or puts the current process to sleep on a channel (the state is the one at
  the moment of the context switch), or never comes back (\<open>Spin\<close>: a loop on a condition
  nothing in the model changes).
\<close>

datatype ('a, 's) outcome =
    Ret 'a 's
  | Panic string
  | Sleep chan 's
  | Spin

type_synonym ('s, 'a) prog = "'s \<Rightarrow> ('a, 's) outcome"

definition ret :: "'a \<Rightarrow> ('s, 'a) prog" where
  "ret a = (\<lambda>s. Ret a s)"

definition bnd :: "('s, 'a) prog \<Rightarrow> ('a \<Rightarrow> ('s, 'b) prog) \<Rightarrow> ('s, 'b) prog" where
  "bnd m f = (\<lambda>s. case m s of
       Ret a s' \<Rightarrow> f a s'
     | Panic e \<Rightarrow> Panic e
     | Sleep c s' \<Rightarrow> Sleep c s'
     | Spin \<Rightarrow> Spin)"

definition seqp :: "('s, 'a) prog \<Rightarrow> ('s, 'b) prog \<Rightarrow> ('s, 'b) prog" where
  "seqp m n = bnd m (\<lambda>_. n)"

definition panic :: "string \<Rightarrow> ('s, 'a) prog" where
  "panic e = (\<lambda>s. Panic e)"

definition gets :: "('s \<Rightarrow> 'a) \<Rightarrow> ('s, 'a) prog" where
  "gets f = (\<lambda>s. Ret (f s) s)"

definition modify :: "('s \<Rightarrow> 's) \<Rightarrow> ('s, unit) prog" where
  "modify f = (\<lambda>s. Ret () (f s))"

text \<open>\<open>whenp c m\<close> is an \<^verbatim>\<open>if\<close> without an \<^verbatim>\<open>else\<close>.\<close>

definition whenp :: "bool \<Rightarrow> ('s, unit) prog \<Rightarrow> ('s, unit) prog" where
  "whenp c m = (if c then m else ret ())"

text \<open>\<open>forp xs f\<close> is a counting loop over the values \<open>xs\<close> of its index.\<close>

fun forp :: "'i list \<Rightarrow> ('i \<Rightarrow> ('s, unit) prog) \<Rightarrow> ('s, unit) prog" where
  "forp [] f = ret ()"
| "forp (x # xs) f = bnd (f x) (\<lambda>_. forp xs f)"

lemma bnd_ret [simp]: "bnd (ret a) f = f a"
  by (simp add: bnd_def ret_def fun_eq_iff)

lemma bnd_ret_right [simp]: "bnd m ret = m"
  by (auto simp: bnd_def ret_def fun_eq_iff split: outcome.split)

lemma bnd_assoc: "bnd (bnd m f) g = bnd m (\<lambda>a. bnd (f a) g)"
  by (auto simp: bnd_def fun_eq_iff split: outcome.split)

lemma seqp_assoc: "seqp (seqp m n) k = seqp m (seqp n k)"
  by (simp add: seqp_def bnd_assoc)

lemma bnd_panic [simp]: "bnd (panic e) f = panic e"
  by (simp add: bnd_def panic_def fun_eq_iff)

section \<open>Weakest preconditions\<close>

named_theorems prog_simps

definition wp :: "('s, 'a) prog \<Rightarrow> ('a \<Rightarrow> 's \<Rightarrow> bool) \<Rightarrow> 's \<Rightarrow> bool" where
  "wp m Q s \<longleftrightarrow> (\<exists>a s'. m s = Ret a s' \<and> Q a s')"

definition wlp :: "('s, 'a) prog \<Rightarrow> ('a \<Rightarrow> 's \<Rightarrow> bool) \<Rightarrow> 's \<Rightarrow> bool" where
  "wlp m Q s \<longleftrightarrow> (\<forall>a s'. m s = Ret a s' \<longrightarrow> Q a s')"

lemma wp_ret [prog_simps]: "wp (ret a) Q = Q a"
  by (simp add: wp_def ret_def fun_eq_iff)

lemma wp_bnd [prog_simps]: "wp (bnd m f) Q = wp m (\<lambda>a. wp (f a) Q)"
  by (auto simp: wp_def bnd_def fun_eq_iff split: outcome.splits)

lemma wp_seqp [prog_simps]: "wp (seqp m n) Q = wp m (\<lambda>_. wp n Q)"
  by (simp add: seqp_def wp_bnd)

lemma wp_panic [prog_simps]: "wp (panic e) Q = (\<lambda>_. False)"
  by (simp add: wp_def panic_def fun_eq_iff)

lemma wp_gets [prog_simps]: "wp (gets f) Q = (\<lambda>s. Q (f s) s)"
  by (simp add: wp_def gets_def fun_eq_iff)

lemma wp_modify [prog_simps]: "wp (modify f) Q = (\<lambda>s. Q () (f s))"
  by (simp add: wp_def modify_def fun_eq_iff)

lemma wp_whenp [prog_simps]: "wp (whenp c m) Q = (\<lambda>s. if c then wp m Q s else Q () s)"
  by (simp add: whenp_def wp_ret)

lemma wp_if [prog_simps]: "wp (if c then m else n) Q = (\<lambda>s. if c then wp m Q s else wp n Q s)"
  by simp

lemma wlp_ret [prog_simps]: "wlp (ret a) Q = Q a"
  by (simp add: wlp_def ret_def fun_eq_iff)

lemma wlp_bnd [prog_simps]: "wlp (bnd m f) Q = wlp m (\<lambda>a. wlp (f a) Q)"
  by (auto simp: wlp_def bnd_def fun_eq_iff split: outcome.splits)

lemma wlp_seqp [prog_simps]: "wlp (seqp m n) Q = wlp m (\<lambda>_. wlp n Q)"
  by (simp add: seqp_def wlp_bnd)

lemma wlp_panic [prog_simps]: "wlp (panic e) Q = (\<lambda>_. True)"
  by (simp add: wlp_def panic_def fun_eq_iff)

lemma wlp_gets [prog_simps]: "wlp (gets f) Q = (\<lambda>s. Q (f s) s)"
  by (simp add: wlp_def gets_def fun_eq_iff)

lemma wlp_modify [prog_simps]: "wlp (modify f) Q = (\<lambda>s. Q () (f s))"
  by (simp add: wlp_def modify_def fun_eq_iff)

lemma wlp_whenp [prog_simps]: "wlp (whenp c m) Q = (\<lambda>s. if c then wlp m Q s else Q () s)"
  by (simp add: whenp_def wlp_ret)

lemma wlp_if [prog_simps]: "wlp (if c then m else n) Q = (\<lambda>s. if c then wlp m Q s else wlp n Q s)"
  by simp

lemma wpI: "m s = Ret a s' \<Longrightarrow> Q a s' \<Longrightarrow> wp m Q s"
  by (auto simp: wp_def)

lemma wpE: "wp m Q s \<Longrightarrow> (\<And>a s'. m s = Ret a s' \<Longrightarrow> Q a s' \<Longrightarrow> P) \<Longrightarrow> P"
  by (auto simp: wp_def)

lemma wlpI: "(\<And>a s'. m s = Ret a s' \<Longrightarrow> Q a s') \<Longrightarrow> wlp m Q s"
  by (auto simp: wlp_def)

lemma wlpD: "wlp m Q s \<Longrightarrow> m s = Ret a s' \<Longrightarrow> Q a s'"
  by (auto simp: wlp_def)

lemma wp_mono: "wp m Q s \<Longrightarrow> (\<And>a s'. Q a s' \<Longrightarrow> R a s') \<Longrightarrow> wp m R s"
  by (auto simp: wp_def)

lemma wlp_mono: "wlp m Q s \<Longrightarrow> (\<And>a s'. Q a s' \<Longrightarrow> R a s') \<Longrightarrow> wlp m R s"
  by (auto simp: wlp_def)

lemma wp_imp_wlp: "wp m Q s \<Longrightarrow> wlp m Q s"
  by (auto simp: wp_def wlp_def)

lemma wlp_conj: "wlp m Q s \<Longrightarrow> wlp m R s \<Longrightarrow> wlp m (\<lambda>a s'. Q a s' \<and> R a s') s"
  by (auto simp: wlp_def)

lemma wp_wlp_conj: "wp m Q s \<Longrightarrow> wlp m R s \<Longrightarrow> wp m (\<lambda>a s'. Q a s' \<and> R a s') s"
  by (auto simp: wp_def wlp_def)

lemma bnd_Ret: "m s = Ret a s' \<Longrightarrow> bnd m f s = f a s'"
  by (simp add: bnd_def)

lemma bnd_eq_Ret: "bnd m f s = Ret b s'' \<longleftrightarrow> (\<exists>a s'. m s = Ret a s' \<and> f a s' = Ret b s'')"
  by (auto simp: bnd_def split: outcome.splits)

text \<open>A program that, when it returns, has not changed the component \<open>f\<close> of the state.\<close>

named_theorems keeps_intros

definition keeps :: "('s \<Rightarrow> 'b) \<Rightarrow> ('s, 'a) prog \<Rightarrow> bool" where
  "keeps f m \<longleftrightarrow> (\<forall>s a s'. m s = Ret a s' \<longrightarrow> f s' = f s)"

lemma keepsD: "keeps f m \<Longrightarrow> m s = Ret a s' \<Longrightarrow> f s' = f s"
  by (simp add: keeps_def)

lemma keeps_wlp: "keeps f m \<Longrightarrow> wlp m (\<lambda>_ s'. f s' = f s) s"
  by (auto simp: keeps_def wlp_def)

lemma keeps_ret [keeps_intros]: "keeps f (ret a)"
  by (simp add: keeps_def ret_def)

lemma keeps_bnd [keeps_intros]: "keeps f m \<Longrightarrow> (\<And>a. keeps f (g a)) \<Longrightarrow> keeps f (bnd m g)"
  by (fastforce simp: keeps_def bnd_def split: outcome.splits)

lemma keeps_seqp [keeps_intros]: "keeps f m \<Longrightarrow> keeps f n \<Longrightarrow> keeps f (seqp m n)"
  by (simp add: seqp_def keeps_bnd)

lemma keeps_panic [keeps_intros]: "keeps f (panic e)"
  by (simp add: keeps_def panic_def)

lemma keeps_gets [keeps_intros]: "keeps f (gets h)"
  by (simp add: keeps_def gets_def)

lemma keeps_modify [keeps_intros]: "(\<And>s. f (h s) = f s) \<Longrightarrow> keeps f (modify h)"
  by (simp add: keeps_def modify_def)

lemma keeps_whenp [keeps_intros]: "keeps f m \<Longrightarrow> keeps f (whenp c m)"
  by (simp add: whenp_def keeps_ret)

lemma keeps_if [keeps_intros]: "keeps f m \<Longrightarrow> keeps f n \<Longrightarrow> keeps f (if c then m else n)"
  by simp

lemma keeps_option [keeps_intros]: "keeps f m \<Longrightarrow> (\<And>x. keeps f (n x)) \<Longrightarrow> keeps f (case z of None \<Rightarrow> m | Some x \<Rightarrow> n x)"
  by (simp split: option.split)

lemma keeps_prod [keeps_intros]: "(\<And>x y. keeps f (n x y)) \<Longrightarrow> keeps f (case z of (x, y) \<Rightarrow> n x y)"
  by (simp split: prod.split)

lemma keeps_forp [keeps_intros]: "(\<And>x. keeps f (g x)) \<Longrightarrow> keeps f (forp xs g)"
  by (induction xs) (simp_all add: keeps_ret keeps_bnd)

text \<open>The loop rules: an invariant indexed by the part of the index list still to run.\<close>

lemma wp_forp:
  assumes "\<And>x xs s. I (x # xs) s \<Longrightarrow> wp (f x) (\<lambda>_. I xs) s"
  shows "I xs s \<Longrightarrow> wp (forp xs f) (\<lambda>_. I []) s"
proof (induction xs arbitrary: s)
  case Nil
  then show ?case by (simp add: prog_simps)
next
  case (Cons x xs)
  from assms [OF Cons.prems] show ?case
    by (auto simp: prog_simps intro: wp_mono Cons.IH)
qed

lemma wlp_forp:
  assumes "\<And>x xs s. I (x # xs) s \<Longrightarrow> wlp (f x) (\<lambda>_. I xs) s"
  shows "I xs s \<Longrightarrow> wlp (forp xs f) (\<lambda>_. I []) s"
proof (induction xs arbitrary: s)
  case Nil
  then show ?case by (simp add: prog_simps)
next
  case (Cons x xs)
  from assms [OF Cons.prems] show ?case
    by (auto simp: prog_simps intro: wlp_mono Cons.IH)
qed

text \<open>The same for a counter running from \<open>m\<close> up to \<open>n\<close>.\<close>

lemma wp_for_upt:
  assumes "\<And>k s. m \<le> k \<Longrightarrow> k < n \<Longrightarrow> I k s \<Longrightarrow> wp (f k) (\<lambda>_. I (Suc k)) s" "m \<le> n" "I m s"
  shows "wp (forp [m..<n] f) (\<lambda>_. I n) s"
proof -
  let ?J = "\<lambda>xs s. \<exists>k. m \<le> k \<and> k \<le> n \<and> xs = [k..<n] \<and> I k s"
  have "wp (f x) (\<lambda>_. ?J xs) t" if "?J (x # xs) t" for x xs t
  proof -
    from that obtain k where k: "m \<le> k" "x # xs = [k..<n]" "I k t" by blast
    then have "k < n" by (metis list.distinct(1) upt_eq_Nil_conv not_less)
    with k have "x = k" "xs = [Suc k..<n]" by (simp_all add: upt_conv_Cons)
    moreover have "wp (f k) (\<lambda>_. ?J [Suc k..<n]) t"
      by (rule wp_mono [OF assms(1) [OF k(1) \<open>k < n\<close> k(3)]]) (use \<open>k < n\<close> k(1) in \<open>auto intro!: exI [of _ "Suc k"]\<close>)
    ultimately show ?thesis by simp
  qed
  moreover have "?J [m..<n] s" using assms(2,3) by blast
  ultimately have "wp (forp [m..<n] f) (\<lambda>_. ?J []) s" by (rule wp_forp [where I = ?J])
  then show ?thesis
  proof (rule wp_mono, elim exE conjE)
    fix s' k assume k: "k \<le> n" "[] = [k..<n]" "I k s'"
    then have "k = n" using upt_eq_Nil_conv [of k n] by auto
    with k(3) show "I n s'" by simp
  qed
qed

section \<open>Transition systems\<close>

text \<open>
  The contract of a component run as interleaved steps: initial states, a step relation and
  an invariant every step keeps.  Its one client lemma, that the invariant holds in every
  reachable state, is proved here once and used through the interpretations of the
  concurrent components.
\<close>

inductive reach :: "('s \<Rightarrow> bool) \<Rightarrow> ('s \<Rightarrow> 's \<Rightarrow> bool) \<Rightarrow> 's \<Rightarrow> bool"
  for init :: "'s \<Rightarrow> bool" and step :: "'s \<Rightarrow> 's \<Rightarrow> bool" where
  reach_init: "init s \<Longrightarrow> reach init step s"
| reach_step: "reach init step s \<Longrightarrow> step s t \<Longrightarrow> reach init step t"

locale transition_system =
  fixes init :: "'s \<Rightarrow> bool"
    and step :: "'s \<Rightarrow> 's \<Rightarrow> bool"
    and inv :: "'s \<Rightarrow> bool"
  assumes init_inv: "init s \<Longrightarrow> inv s"
    and step_inv: "inv s \<Longrightarrow> step s t \<Longrightarrow> inv t"
begin

lemma reach_inv: "reach init step s \<Longrightarrow> inv s"
  by (induction rule: reach.induct) (auto intro: init_inv step_inv)

lemma reach_run_inv: "reach init step s \<Longrightarrow> step\<^sup>*\<^sup>* s t \<Longrightarrow> inv t"
proof -
  assume "reach init step s" "step\<^sup>*\<^sup>* s t"
  from this(2,1) have "reach init step t"
    by (induction rule: rtranclp_induct) (auto intro: reach_step)
  then show ?thesis by (rule reach_inv)
qed

end

section \<open>Lists and words\<close>

lemma list_update_swap_nth: "i < length xs \<Longrightarrow> (xs[i := x]) ! j = (if j = i then x else xs ! j)"
  by (simp add: nth_list_update)

lemma map_update_same: "i < length xs \<Longrightarrow> f x = f (xs ! i) \<Longrightarrow> map f (xs[i := x]) = map f xs"
  by (metis list_update_id map_update)

lemma find_Some_props: "find P xs = Some x \<Longrightarrow> x \<in> set xs \<and> P x"
  by (auto simp: find_Some_iff in_set_conv_nth)

lemma find_upt_SomeD: "find P [0..<n] = Some i \<Longrightarrow> i < n \<and> P i \<and> (\<forall>j<i. \<not> P j)"
  by (auto simp: find_Some_iff)

lemma find_upt_SomeI: "i < n \<Longrightarrow> P i \<Longrightarrow> (\<And>j. j < i \<Longrightarrow> \<not> P j) \<Longrightarrow> find P [0..<n] = Some i"
  unfolding find_Some_iff by (rule exI [of _ i]) simp

lemma find_upt_NoneD: "find P [0..<n] = None \<Longrightarrow> i < n \<Longrightarrow> \<not> P i"
  by (auto simp: find_None_iff)

lemma unat_u32_lt: "unat (x :: u32) < 4294967296"
  by (rule order_less_le_trans [OF unsigned_less]) simp

lemma unat_u8_lt: "unat (x :: u8) < 256"
  by (rule order_less_le_trans [OF unsigned_less]) simp

lemma unat_add_nowrap32:
  "unat (x :: u32) + unat y < 4294967296 \<Longrightarrow> unat (x + y) = unat x + unat y"
  by (simp add: unat_word_ariths)

end
