(* ===== verification/Mmu.thy ===== *)
theory Mmu
  imports Prelude "HOL-Library.Signed_Division"
begin

text \<open>
  The machine below the kernel: the constants of \<^verbatim>\<open>param.h\<close> and \<^verbatim>\<open>memlayout.h\<close>, the address
  macros of \<^verbatim>\<open>mmu.h\<close> on 32-bit words, and the byte-addressed memory with the 32-bit loads,
  stores and string instructions of \<^verbatim>\<open>x86.h\<close>.  The lemmas say what the macros compute on
  the numbers behind the words, and how loads see stores.
\<close>

section \<open>Constants\<close>

text \<open>\<^verbatim>\<open>param.h\<close>\<close>

abbreviation (input) NPROC :: nat where "NPROC \<equiv> 64"
abbreviation (input) KSTACKSIZE :: u32 where "KSTACKSIZE \<equiv> 4096"
abbreviation (input) NCPU :: nat where "NCPU \<equiv> 8"
abbreviation (input) NOFILE :: nat where "NOFILE \<equiv> 16"
abbreviation (input) NFILE :: nat where "NFILE \<equiv> 100"
abbreviation (input) NINODE :: nat where "NINODE \<equiv> 50"
abbreviation (input) NDEV :: nat where "NDEV \<equiv> 10"
abbreviation (input) ROOTDEV :: nat where "ROOTDEV \<equiv> 1"
abbreviation (input) MAXARG :: nat where "MAXARG \<equiv> 32"
abbreviation (input) MAXOPBLOCKS :: nat where "MAXOPBLOCKS \<equiv> 10"
abbreviation (input) LOGSIZE :: nat where "LOGSIZE \<equiv> 30"
abbreviation (input) NBUF :: nat where "NBUF \<equiv> 30"
abbreviation (input) FSSIZE :: nat where "FSSIZE \<equiv> 1000"

text \<open>\<^verbatim>\<open>memlayout.h\<close>\<close>

abbreviation (input) EXTMEM :: u32 where "EXTMEM \<equiv> 0x100000"
abbreviation (input) PHYSTOP :: u32 where "PHYSTOP \<equiv> 0xE000000"
abbreviation (input) DEVSPACE :: u32 where "DEVSPACE \<equiv> 0xFE000000"
abbreviation (input) KERNBASE :: u32 where "KERNBASE \<equiv> 0x80000000"
abbreviation (input) KERNLINK :: u32 where "KERNLINK \<equiv> 0x80100000"

definition V2P :: "u32 \<Rightarrow> u32" where
  "V2P a = a - KERNBASE"

definition P2V :: "u32 \<Rightarrow> u32" where
  "P2V a = a + KERNBASE"

lemma V2P_P2V [simp]: "V2P (P2V a) = a" "P2V (V2P a) = a"
  by (simp_all add: V2P_def P2V_def)

text \<open>\<^verbatim>\<open>mmu.h\<close>\<close>

abbreviation (input) PGSIZE :: u32 where "PGSIZE \<equiv> 4096"
abbreviation (input) NPDENTRIES :: nat where "NPDENTRIES \<equiv> 1024"
abbreviation (input) PTE_P :: u32 where "PTE_P \<equiv> 1"
abbreviation (input) PTE_W :: u32 where "PTE_W \<equiv> 2"
abbreviation (input) PTE_U :: u32 where "PTE_U \<equiv> 4"
abbreviation (input) FL_IF :: u32 where "FL_IF \<equiv> 0x200"

definition PDX :: "u32 \<Rightarrow> u32" where
  "PDX va = drop_bit 22 va AND 0x3FF"

definition PTX :: "u32 \<Rightarrow> u32" where
  "PTX va = drop_bit 12 va AND 0x3FF"

definition PGADDR :: "u32 \<Rightarrow> u32 \<Rightarrow> u32 \<Rightarrow> u32" where
  "PGADDR d t off = push_bit 22 d OR push_bit 12 t OR off"

definition PGROUNDUP :: "u32 \<Rightarrow> u32" where
  "PGROUNDUP sz = (sz + PGSIZE - 1) AND NOT (PGSIZE - 1)"

definition PGROUNDDOWN :: "u32 \<Rightarrow> u32" where
  "PGROUNDDOWN a = a AND NOT (PGSIZE - 1)"

definition PTE_ADDR :: "u32 \<Rightarrow> u32" where
  "PTE_ADDR pte = pte AND NOT 0xFFF"

definition PTE_FLAGS :: "u32 \<Rightarrow> u32" where
  "PTE_FLAGS pte = pte AND 0xFFF"

section \<open>What the macros compute\<close>

lemma and_not_mask_eq: "(x :: u32) AND NOT (mask n) = push_bit n (drop_bit n x)"
  by (rule bit_word_eqI) (auto simp: bit_simps)

lemma unat_drop_bit32: "unat (drop_bit n (x :: u32)) = unat x div 2 ^ n"
  unfolding unsigned_drop_bit_eq
  by (simp add: drop_bit_eq_div take_bit_nat_eq_self unat_u32_lt div_le_dividend [THEN order_le_less_trans])

lemma unat_round32: "unat (push_bit n (drop_bit n (x :: u32))) = unat x div 2 ^ n * 2 ^ n"
proof -
  have "unat x div 2 ^ n * 2 ^ n < 2 ^ 32"
    using unat_u32_lt [of x] by (auto intro: order_le_less_trans [OF div_times_less_eq_dividend])
  then show ?thesis
    by (simp only: unsigned_push_bit_eq unat_drop_bit32) (simp add: push_bit_eq_mult take_bit_nat_eq_self)
qed

lemma unat_and_not_4095: "unat ((x :: u32) AND NOT 4095) = unat x div 4096 * 4096"
  using unat_round32 [of 12 x] unfolding and_not_mask_eq [symmetric] by (simp add: mask_eq_exp_minus_1)

lemma unat_and_4095: "unat ((x :: u32) AND 0xFFF) = unat x mod 4096"
proof -
  have "unat (take_bit 12 x) = unat x mod 2 ^ 12"
    unfolding unsigned_take_bit_eq by (simp only: take_bit_eq_mod)
  then show ?thesis by (simp add: take_bit_eq_mask mask_eq_exp_minus_1)
qed

lemma unat_and_1023: "unat ((x :: u32) AND 0x3FF) = unat x mod 1024"
proof -
  have "unat (take_bit 10 x) = unat x mod 2 ^ 10"
    unfolding unsigned_take_bit_eq by (simp only: take_bit_eq_mod)
  then show ?thesis by (simp add: take_bit_eq_mask mask_eq_exp_minus_1)
qed

lemma unat_PGROUNDDOWN: "unat (PGROUNDDOWN a) = unat a div 4096 * 4096"
  unfolding PGROUNDDOWN_def by (simp add: unat_and_not_4095 [simplified])

lemma unat_PGROUNDUP:
  assumes "unat sz \<le> 0xFFFFF000"
  shows "unat (PGROUNDUP sz) = (unat sz + 4095) div 4096 * 4096"
proof -
  have "unat (sz + 4095) = unat sz + 4095"
    using assms by (simp add: unat_word_ariths)
  then show ?thesis
    unfolding PGROUNDUP_def by (simp add: unat_and_not_4095 [simplified] add.commute)
qed

lemma unat_PTE_ADDR: "unat (PTE_ADDR pte) = unat pte div 4096 * 4096"
  unfolding PTE_ADDR_def by (simp add: unat_and_not_4095 [simplified])

lemma unat_PTE_FLAGS: "unat (PTE_FLAGS pte) = unat pte mod 4096"
  unfolding PTE_FLAGS_def by (simp add: unat_and_4095 [simplified])

lemma unat_PDX: "unat (PDX va) = unat va div 4194304"
  using unat_u32_lt [of va] by (simp only: PDX_def unat_and_1023 unat_drop_bit32) simp

lemma unat_PTX: "unat (PTX va) = unat va div 4096 mod 1024"
  by (simp only: PTX_def unat_and_1023 unat_drop_bit32) simp

lemma PDX_lt: "unat (PDX va) < 1024"
  using unat_u32_lt [of va] by (simp add: unat_PDX less_mult_imp_div_less)

lemma PTX_lt: "unat (PTX va) < 1024"
  by (simp add: unat_PTX)

text \<open>A page-aligned address or'ed with flag bits splits again into both.\<close>

lemma PTE_ADDR_or:
  assumes "unat pa mod 4096 = 0" and "unat fl < 4096"
  shows "PTE_ADDR (pa OR fl) = pa" and "PTE_FLAGS (pa OR fl) = fl"
proof -
  have lowpa: "take_bit 12 pa = 0"
    using assms(1) by (simp add: take_bit_eq_mask mask_eq_exp_minus_1 unat_and_4095 word_unat_eq_iff)
  have bpa: "12 \<le> n" if "bit pa n" for n
    using lowpa that by (auto simp: bit_eq_iff bit_simps not_less [symmetric])
  have bfl: "n < 12" if "bit fl n" for n
  proof -
    have "take_bit 12 fl = fl"
      using assms(2) by (simp add: take_bit_eq_mask mask_eq_exp_minus_1 word_unat_eq_iff unat_and_4095)
    then show ?thesis using that by (metis bit_take_bit_iff not_le)
  qed
  have m: "(0xFFF :: u32) = mask 12" by (simp add: mask_eq_exp_minus_1)
  show "PTE_ADDR (pa OR fl) = pa"
    unfolding PTE_ADDR_def m by (rule bit_word_eqI) (auto simp: bit_simps dest: bpa bfl)
  show "PTE_FLAGS (pa OR fl) = fl"
    unfolding PTE_FLAGS_def m by (rule bit_word_eqI) (auto simp: bit_simps dest: bpa bfl)
qed

section \<open>Byte memory\<close>

text \<open>
  Memory as the kernel sees it: a byte at every 32-bit address.  \<open>load32\<close> and \<open>store32\<close> are
  the little-endian accesses behind a \<^verbatim>\<open>uint*\<close>.
\<close>

type_synonym memory = "u32 \<Rightarrow> u8"

definition load32 :: "memory \<Rightarrow> u32 \<Rightarrow> u32" where
  "load32 m a = ucast (m a) OR push_bit 8 (ucast (m (a + 1)))
     OR push_bit 16 (ucast (m (a + 2))) OR push_bit 24 (ucast (m (a + 3)))"

definition store32 :: "memory \<Rightarrow> u32 \<Rightarrow> u32 \<Rightarrow> memory" where
  "store32 m a v = m(a := ucast v, a + 1 := ucast (drop_bit 8 v),
     a + 2 := ucast (drop_bit 16 v), a + 3 := ucast (drop_bit 24 v))"

text \<open>\<open>fill m a n c\<close>: the \<open>n\<close> bytes from \<open>a\<close> (wrapping at the top) set to \<open>c\<close>.\<close>

definition fill :: "memory \<Rightarrow> u32 \<Rightarrow> nat \<Rightarrow> u8 \<Rightarrow> memory" where
  "fill m a n c = (\<lambda>x. if unat (x - a) < n then c else m x)"

text \<open>The string instructions \<^verbatim>\<open>rep stosb\<close> and \<^verbatim>\<open>rep stosl\<close> of \<^verbatim>\<open>x86.h\<close>.\<close>

fun stosb :: "memory \<Rightarrow> u32 \<Rightarrow> u8 \<Rightarrow> nat \<Rightarrow> memory" where
  "stosb m a c 0 = m"
| "stosb m a c (Suc n) = stosb (m(a := c)) (a + 1) c n"

fun stosl :: "memory \<Rightarrow> u32 \<Rightarrow> u32 \<Rightarrow> nat \<Rightarrow> memory" where
  "stosl m a v 0 = m"
| "stosl m a v (Suc n) = stosl (store32 m a v) (a + 4) v n"

lemma store32_other: "unat (x - a) \<ge> 4 \<Longrightarrow> store32 m a v x = m x"
  by (auto simp: store32_def)

lemma load32_cong: "(\<And>x. unat (x - a) < 4 \<Longrightarrow> m' x = m x) \<Longrightarrow> load32 m' a = load32 m a"
  by (simp add: load32_def)

lemma bit_u8_ge: "bit (w :: u8) n \<Longrightarrow> n < 8"
  using bit_imp_le_length by fastforce

lemma load32_store32 [simp]: "load32 (store32 m a v) a = v"
proof (rule bit_word_eqI)
  fix n assume "n < LENGTH(32)"
  then consider "n < 8" | "8 \<le> n" "n < 16" | "16 \<le> n" "n < 24" | "24 \<le> n" "n < 32" by force
  then show "bit (load32 (store32 m a v) a) n = bit v n"
    by cases (auto simp: load32_def store32_def bit_simps)
qed

lemma aligned_disjoint:
  assumes "unat (a :: u32) mod 4 = 0" "unat b mod 4 = 0" "a \<noteq> b" "unat (x - b) < 4"
  shows "unat (x - a) \<ge> 4"
proof (rule ccontr)
  assume "\<not> ?thesis"
  then have xa: "unat (x - a) < 4" by simp
  have x1: "x = a + (x - a)" and x2: "x = b + (x - b)" by simp_all
  have lim: "unat a + unat (x - a) < 4294967296" "unat b + unat (x - b) < 4294967296"
    using assms(1,2,4) xa unat_u32_lt [of a] unat_u32_lt [of b] by presburger+
  have "unat x = unat a + unat (x - a)" "unat x = unat b + unat (x - b)"
    using unat_add_nowrap32 [OF lim(1)] unat_add_nowrap32 [OF lim(2)] by simp_all
  then have "unat a = unat b" using assms(1,2,4) xa by presburger
  then show False using assms(3) by (simp add: word_unat_eq_iff)
qed

lemma load32_store32_other:
  "unat a mod 4 = 0 \<Longrightarrow> unat b mod 4 = 0 \<Longrightarrow> a \<noteq> b \<Longrightarrow> load32 (store32 m a v) b = load32 m b"
  by (rule load32_cong) (auto intro!: store32_other aligned_disjoint)

end
