(* ===== verification/Strings.thy ===== *)
theory Strings
  imports Mmu
begin

text \<open>
  The string routines: \<^verbatim>\<open>string.c\<close> of the kernel and \<^verbatim>\<open>ulib.c\<close> of the user library.  A
  \<^verbatim>\<open>char*\<close> that is only read is the function from offsets to bytes it denotes; the routines
  that store through a pointer are functions on the byte memory (\<^verbatim>\<open>memset\<close>, \<^verbatim>\<open>memmove\<close>) or give
  the list of bytes they store at their destination (\<^verbatim>\<open>strncpy\<close>, \<^verbatim>\<open>safestrcpy\<close>, \<^verbatim>\<open>strcpy\<close>).
  Routines that run until a NUL byte are \<open>None\<close> where no NUL byte stops them.
\<close>

type_synonym cstr = "nat \<Rightarrow> u8"

text \<open>\<open>adv p\<close> is \<^verbatim>\<open>p + 1\<close>.\<close>

abbreviation (input) adv :: "cstr \<Rightarrow> cstr" where
  "adv p \<equiv> (\<lambda>i. p (Suc i))"

section \<open>string.c\<close>

definition memset :: "memory \<Rightarrow> u32 \<Rightarrow> u32 \<Rightarrow> u32 \<Rightarrow> memory" where
  "memset m dst c n =
     (if sint dst smod 4 = 0 \<and> unat n mod 4 = 0 then
        let c = c AND 0xFF in
        stosl m dst (push_bit 24 c OR push_bit 16 c OR push_bit 8 c OR c) (unat n div 4)
      else stosb m dst (ucast c) (unat n))"

fun memcmp :: "cstr \<Rightarrow> cstr \<Rightarrow> nat \<Rightarrow> int" where
  "memcmp s1 s2 0 = 0"
| "memcmp s1 s2 (Suc n) =
     (if s1 0 \<noteq> s2 0 then uint (s1 0) - uint (s2 0) else memcmp (adv s1) (adv s2) n)"

fun copy_fwd :: "memory \<Rightarrow> u32 \<Rightarrow> u32 \<Rightarrow> nat \<Rightarrow> memory" where
  "copy_fwd m d s 0 = m"
| "copy_fwd m d s (Suc n) = copy_fwd (m(d := m s)) (d + 1) (s + 1) n"

fun copy_bwd :: "memory \<Rightarrow> u32 \<Rightarrow> u32 \<Rightarrow> nat \<Rightarrow> memory" where
  "copy_bwd m d s 0 = m"
| "copy_bwd m d s (Suc n) = copy_bwd (m(d - 1 := m (s - 1))) (d - 1) (s - 1) n"

definition memmove :: "memory \<Rightarrow> u32 \<Rightarrow> u32 \<Rightarrow> u32 \<Rightarrow> memory" where
  "memmove m dst src n =
     (if src < dst \<and> src + n > dst then copy_bwd m (dst + n) (src + n) (unat n)
      else copy_fwd m dst src (unat n))"

fun strncmp :: "cstr \<Rightarrow> cstr \<Rightarrow> nat \<Rightarrow> int" where
  "strncmp p q 0 = 0"
| "strncmp p q (Suc n) =
     (if p 0 \<noteq> 0 \<and> p 0 = q 0 then strncmp (adv p) (adv q) n else uint (p 0) - uint (q 0))"

fun strncpy :: "cstr \<Rightarrow> nat \<Rightarrow> u8 list" where
  "strncpy t 0 = []"
| "strncpy t (Suc n) = (if t 0 = 0 then 0 # replicate n 0 else t 0 # strncpy (adv t) n)"

fun safestrcpy :: "cstr \<Rightarrow> nat \<Rightarrow> u8 list" where
  "safestrcpy t 0 = []"
| "safestrcpy t (Suc 0) = [0]"
| "safestrcpy t (Suc (Suc n)) =
     (if t 0 = 0 then [0, 0] else t 0 # safestrcpy (adv t) (Suc n))"

partial_function (option) strlen_from :: "cstr \<Rightarrow> nat \<Rightarrow> nat option" where
  "strlen_from s n = (if s n = 0 then Some n else strlen_from s (Suc n))"

definition strlen :: "cstr \<Rightarrow> nat option" where
  "strlen s = strlen_from s 0"

section \<open>ulib.c\<close>

partial_function (option) strcpy_from :: "cstr \<Rightarrow> nat \<Rightarrow> u8 list \<Rightarrow> u8 list option" where
  "strcpy_from t i acc =
     (if t i = 0 then Some (acc @ [t i]) else strcpy_from t (Suc i) (acc @ [t i]))"

definition strcpy :: "cstr \<Rightarrow> u8 list option" where
  "strcpy t = strcpy_from t 0 []"

partial_function (option) strcmp_from :: "cstr \<Rightarrow> cstr \<Rightarrow> nat \<Rightarrow> int option" where
  "strcmp_from p q i =
     (if p i \<noteq> 0 \<and> p i = q i then strcmp_from p q (Suc i)
      else Some (uint (p i) - uint (q i)))"

definition strcmp :: "cstr \<Rightarrow> cstr \<Rightarrow> int option" where
  "strcmp p q = strcmp_from p q 0"

text \<open>
  \<^verbatim>\<open>strchr\<close> returns a pointer, here the offset of the character, or the null pointer, here
  the inner \<open>None\<close>.
\<close>

partial_function (option) strchr_from :: "cstr \<Rightarrow> u8 \<Rightarrow> nat \<Rightarrow> nat option option" where
  "strchr_from s c i =
     (if s i = 0 then Some None
      else if s i = c then Some (Some i) else strchr_from s c (Suc i))"

definition strchr :: "cstr \<Rightarrow> u8 \<Rightarrow> nat option option" where
  "strchr s c = strchr_from s c 0"

text \<open>\<^verbatim>\<open>atoi\<close>: the accumulator is an \<^verbatim>\<open>int\<close>, so it wraps as a 32-bit word does.\<close>

partial_function (option) atoi_from :: "cstr \<Rightarrow> nat \<Rightarrow> u32 \<Rightarrow> u32 option" where
  "atoi_from s i n =
     (if 48 \<le> s i \<and> s i \<le> 57 then atoi_from s (Suc i) (n * 10 + ucast (s i) - 48)
      else Some n)"

definition atoi :: "cstr \<Rightarrow> u32 option" where
  "atoi s = atoi_from s 0 0"

definition ulib_memset :: "memory \<Rightarrow> u32 \<Rightarrow> u32 \<Rightarrow> u32 \<Rightarrow> memory" where
  "ulib_memset m dst c n = stosb m dst (ucast c) (unat n)"

definition ulib_memmove :: "memory \<Rightarrow> u32 \<Rightarrow> u32 \<Rightarrow> int \<Rightarrow> memory" where
  "ulib_memmove m vdst vsrc n = copy_fwd m vdst vsrc (nat n)"

section \<open>Filling memory\<close>

lemma unat_minus_one32: "(w :: u32) \<noteq> 0 \<Longrightarrow> unat (w - 1) = unat w - 1"
  by (simp add: unat_minus_one)

lemma unat_sub_of_nat32:
  assumes "k \<le> unat (y :: u32)"
  shows "unat (y - of_nat k) = unat y - k"
proof -
  have "k < 4294967296" using assms unat_u32_lt [of y] by simp
  then have "unat (of_nat k :: u32) = k" by (simp add: unat_of_nat)
  then show ?thesis using assms by (simp add: unat_sub word_le_nat_alt)
qed

lemma fill_0 [simp]: "fill m a 0 c = m"
  by (simp add: fill_def)

lemma fill_fill:
  assumes "k + n \<le> 4294967296"
  shows "fill (fill m a k c) (a + of_nat k) n c = fill m a (k + n) c"
proof
  fix x
  have eq: "x - (a + of_nat k) = (x - a) - of_nat k" by simp
  show "fill (fill m a k c) (a + of_nat k) n c x = fill m a (k + n) c x"
  proof (cases "k \<le> unat (x - a)")
    case True
    then have "unat ((x - a) - of_nat k) = unat (x - a) - k" by (rule unat_sub_of_nat32)
    with True show ?thesis unfolding fill_def eq by auto
  next
    case False
    then show ?thesis unfolding fill_def by auto
  qed
qed

lemma fill_1: "fill m a (Suc 0) c = m(a := c)"
  by (auto simp: fill_def fun_eq_iff unat_eq_zero)

lemma stosb_fill: "n \<le> 4294967296 \<Longrightarrow> stosb m a c n = fill m a n c"
proof (induction n arbitrary: m a)
  case (Suc n)
  then have "stosb m a c (Suc n) = fill (m(a := c)) (a + 1) n c" by simp
  also have "\<dots> = fill m a (Suc n) c"
    using fill_fill [of "Suc 0" n m a c] Suc.prems by (simp add: fill_1)
  finally show ?case .
qed simp

text \<open>The word that \<^verbatim>\<open>memset\<close> hands to \<^verbatim>\<open>stosl\<close>: four copies of the byte.\<close>

lemma rep_byte_bytes:
  fixes c :: u32
  defines "v \<equiv> push_bit 24 (c AND 0xFF) OR push_bit 16 (c AND 0xFF) OR push_bit 8 (c AND 0xFF) OR (c AND 0xFF)"
  shows "(ucast v :: u8) = ucast c" "(ucast (drop_bit 8 v) :: u8) = ucast c"
    "(ucast (drop_bit 16 v) :: u8) = ucast c" "(ucast (drop_bit 24 v) :: u8) = ucast c"
proof -
  have m: "(0xFF :: u32) = mask 8" by (simp add: mask_eq_exp_minus_1)
  show "(ucast v :: u8) = ucast c" "(ucast (drop_bit 8 v) :: u8) = ucast c"
    "(ucast (drop_bit 16 v) :: u8) = ucast c" "(ucast (drop_bit 24 v) :: u8) = ucast c"
    unfolding v_def m by (rule bit_word_eqI, simp add: bit_simps)+
qed

lemma store32_rep_fill:
  "store32 m a (push_bit 24 (c AND 0xFF) OR push_bit 16 (c AND 0xFF) OR push_bit 8 (c AND 0xFF) OR (c AND 0xFF))
     = fill m a 4 (ucast c)"
proof -
  have s: "m(a := x, a + 1 := x, a + 2 := x, a + 3 := x) = stosb m a x 4" for x
    by (simp add: numeral_eq_Suc add.assoc)
  show ?thesis
    unfolding store32_def rep_byte_bytes s by (simp add: stosb_fill)
qed

lemma stosl_fill:
  assumes "\<And>m a. store32 m a v = fill m a 4 c" and "4 * n \<le> 4294967296"
  shows "stosl m a v n = fill m a (4 * n) c"
  using assms(2)
proof (induction n arbitrary: m a)
  case (Suc n)
  then have "stosl m a v (Suc n) = fill (fill m a 4 c) (a + 4) (4 * n) c"
    by (simp add: assms(1))
  also have "\<dots> = fill m a (4 * Suc n) c"
    using fill_fill [of 4 "4 * n" m a c] Suc.prems by (simp add: add.commute)
  finally show ?case .
qed simp

lemma smod4_iff: "sint (dst :: u32) smod 4 = 0 \<longleftrightarrow> unat dst mod 4 = 0"
proof -
  have "sint dst smod 4 = 0 \<longleftrightarrow> 4 dvd sint dst"
    by (auto simp: smod_int_alt_def sgn_eq_0_iff mod_eq_0_iff_dvd)
  also have "\<dots> \<longleftrightarrow> 4 dvd uint dst"
    by (simp add: uint_sint take_bit_eq_mod dvd_mod_iff)
  also have "\<dots> \<longleftrightarrow> unat dst mod 4 = 0"
    using int_dvd_int_iff [of 4 "unat dst"] by (simp add: mod_eq_0_iff_dvd)
  finally show ?thesis .
qed

lemma memset_fill: "memset m dst c n = fill m dst (unat n) (ucast c)"
proof (cases "sint dst smod 4 = 0 \<and> unat n mod 4 = 0")
  case True
  have "4 * (unat n div 4) = unat n" using True by presburger
  then show ?thesis
    using True stosl_fill [OF store32_rep_fill, of "unat n div 4"] unat_u32_lt [of n]
    by (simp add: memset_def)
next
  case False
  then show ?thesis
    using unat_u32_lt [of n] by (auto simp: memset_def stosb_fill)
qed

section \<open>Copying memory\<close>

lemma unat_diff_less_iff:
  assumes "unat (d :: u32) + n \<le> 4294967296"
  shows "unat (x - d) < n \<longleftrightarrow> unat d \<le> unat x \<and> unat x < unat d + n"
  using assms unat_u32_lt [of x] unat_u32_lt [of d]
  by (auto simp: unat_sub_if_size word_size)

text \<open>
  The forward loop copies correctly when the destination starts at or below the source, or
  the blocks are disjoint; the backward loop when it starts above.
\<close>

lemma copy_fwd_spec:
  assumes "unat d + n \<le> 4294967296" "unat s + n \<le> 4294967296"
    and "unat d \<le> unat s \<or> unat s + n \<le> unat d"
  shows "copy_fwd m d s n = (\<lambda>x. if unat (x - d) < n then m (s + (x - d)) else m x)"
  using assms
proof (induction n arbitrary: m d s)
  case 0
  then show ?case by simp
next
  case (Suc n)
  let ?m = "m(d := m s)"
  show ?case
  proof (cases "n = 0")
    case True
    then show ?thesis by (auto simp: fun_eq_iff unat_eq_zero)
  next
    case False
    have d1: "unat (d + 1) = unat d + 1" and s1: "unat (s + 1) = unat s + 1"
      using Suc.prems False by (auto simp: unat_word_ariths)
    have IH: "copy_fwd ?m (d + 1) (s + 1) n =
        (\<lambda>x. if unat (x - (d + 1)) < n then ?m (s + 1 + (x - (d + 1))) else ?m x)"
      by (rule Suc.IH) (use Suc.prems d1 s1 in auto)
    show ?thesis
    proof
      fix x
      have shift: "s + 1 + (x - (d + 1)) = s + (x - d)" by simp
      show "copy_fwd m d s (Suc n) x = (if unat (x - d) < Suc n then m (s + (x - d)) else m x)"
      proof (cases "x = d")
        case True
        have "\<not> unat (d - (d + 1)) < n" using Suc.prems d1
          by (subst unat_diff_less_iff) auto
        then show ?thesis using IH True by simp
      next
        case False
        have in_iff: "unat (x - (d + 1)) < n \<longleftrightarrow> unat (x - d) < Suc n"
          using False Suc.prems d1 word_unat_eq_iff [of x d]
          by (subst unat_diff_less_iff, simp, subst unat_diff_less_iff) auto
        have "s + (x - d) \<noteq> d" if "unat (x - d) < Suc n"
        proof
          assume e: "s + (x - d) = d"
          have "unat (s + (x - d)) = unat s + unat (x - d)"
            using that Suc.prems by (simp add: unat_word_ariths)
          then have "unat d = unat s + unat (x - d)" unfolding e .
          then have "unat (x - d) = 0" using Suc.prems that by auto
          then show False using False by (simp add: unat_eq_zero)
        qed
        then show ?thesis using IH in_iff False shift by auto
      qed
    qed
  qed
qed

lemma copy_bwd_spec:
  assumes "unat d + n \<le> 4294967296" "unat s + n \<le> 4294967296" "unat s \<le> unat d"
  shows "copy_bwd m (d + of_nat n) (s + of_nat n) n =
    (\<lambda>x. if unat (x - d) < n then m (s + (x - d)) else m x)"
  using assms
proof (induction n arbitrary: m)
  case 0
  then show ?case by simp
next
  case (Suc n)
  let ?m = "m(d + of_nat n := m (s + of_nat n))"
  have IH: "copy_bwd ?m (d + of_nat n) (s + of_nat n) n =
      (\<lambda>x. if unat (x - d) < n then ?m (s + (x - d)) else ?m x)"
    by (rule Suc.IH) (use Suc.prems in auto)
  have n32: "unat (of_nat n :: u32) = n"
    using Suc.prems by (simp add: unat_of_nat)
  have top: "x - d = of_nat n \<longleftrightarrow> x = d + of_nat n" for x by (auto simp: algebra_simps)
  have lt_Suc: "unat (x - d) < Suc n \<longleftrightarrow> unat (x - d) < n \<or> x = d + of_nat n" for x
    using n32 word_unat_eq_iff [of "x - d" "of_nat n"] top [of x] by auto
  have sep: "s + (x - d) \<noteq> d + of_nat n" if "unat (x - d) < n" for x
  proof
    assume e: "s + (x - d) = d + of_nat n"
    have "unat (s + (x - d)) = unat s + unat (x - d)"
      using that Suc.prems by (simp add: unat_word_ariths)
    moreover have "unat (d + of_nat n) = unat d + n"
      using Suc.prems n32 by (simp add: unat_word_ariths)
    ultimately show False using that Suc.prems(3) unfolding e by simp
  qed
  show ?case
  proof
    fix x
    have "copy_bwd m (d + of_nat (Suc n)) (s + of_nat (Suc n)) (Suc n) x =
        (if unat (x - d) < n then ?m (s + (x - d)) else ?m x)"
      using IH by (simp add: algebra_simps)
    also have "\<dots> = (if unat (x - d) < Suc n then m (s + (x - d)) else m x)"
      using sep [of x] lt_Suc [of x] by (auto simp: algebra_simps)
    finally show "copy_bwd m (d + of_nat (Suc n)) (s + of_nat (Suc n)) (Suc n) x =
        (if unat (x - d) < Suc n then m (s + (x - d)) else m x)" .
  qed
qed

lemma memmove_copies:
  assumes "unat dst + unat n < 4294967296" "unat src + unat n < 4294967296"
  shows "memmove m dst src n = (\<lambda>x. if unat (x - dst) < unat n then m (src + (x - dst)) else m x)"
proof (cases "src < dst \<and> src + n > dst")
  case True
  then show ?thesis
    using copy_bwd_spec [of dst "unat n" src m] assms
    by (auto simp: memmove_def word_less_nat_alt)
next
  case False
  have "unat (src + n) = unat src + unat n" using assms by (simp add: unat_word_ariths)
  with False have "unat dst \<le> unat src \<or> unat src + unat n \<le> unat dst"
    by (auto simp: word_less_nat_alt)
  then show ?thesis
    using False copy_fwd_spec [of dst "unat n" src m] assms by (auto simp: memmove_def)
qed

section \<open>Comparing and copying strings\<close>

lemma memcmp_0_iff: "memcmp p q n = 0 \<longleftrightarrow> (\<forall>i<n. p i = q i)"
proof (induction n arbitrary: p q)
  case (Suc n)
  show ?case
    using Suc.IH [of "adv p" "adv q"] by (auto simp: less_Suc_eq_0_disj simp flip: word_uint_eq_iff)
qed simp

text \<open>\<^verbatim>\<open>strncmp\<close> is 0 exactly if the strings agree up to a common NUL or for \<open>n\<close> bytes.\<close>

lemma strncmp_0_iff:
  "strncmp p q n = 0 \<longleftrightarrow> (\<forall>i<n. (\<forall>j<i. p j \<noteq> 0) \<longrightarrow> p i = q i)"
proof (induction n arbitrary: p q)
  case (Suc n)
  show ?case
    using Suc.IH [of "adv p" "adv q"]
    by (auto simp: All_less_Suc2 simp flip: word_uint_eq_iff)
qed simp

lemma strncmp_agree:
  assumes "strncmp p q n = 0" "i < n" "\<forall>j<i. q j \<noteq> 0"
  shows "(\<forall>j<i. p j \<noteq> 0) \<and> q i = p i"
  using assms(2,3)
proof (induction i rule: less_induct)
  case (less i)
  have "p j \<noteq> 0" if "j < i" for j
  proof -
    have "q j = p j" using less that by auto
    then show ?thesis using less.prems(2) that by auto
  qed
  moreover from this have "p i = q i" using assms(1) less.prems(1) strncmp_0_iff by blast
  ultimately show ?case by simp
qed

lemma strncmp_sym0: "strncmp p q n = 0 \<longleftrightarrow> strncmp q p n = 0"
  using strncmp_agree [of p q n] strncmp_agree [of q p n] strncmp_0_iff by metis

lemma length_strncpy [simp]: "length (strncpy t n) = n"
  by (induction t n rule: strncpy.induct) auto

lemma strncpy_nth:
  "i < n \<Longrightarrow> strncpy t n ! i = (if \<forall>j<i. t j \<noteq> 0 then t i else 0)"
proof (induction n arbitrary: t i)
  case (Suc n)
  show ?case
  proof (cases i)
    case 0
    then show ?thesis by simp
  next
    case (Suc k)
    with Suc.prems Suc.IH [of k "adv t"] show ?thesis
      by (auto simp: less_Suc_eq_0_disj)
  qed
qed simp

text \<open>A name stored by \<^verbatim>\<open>strncpy\<close> compares equal to the string it came from.\<close>

lemma strncmp_strncpy: "strncmp t (\<lambda>i. if i < n then strncpy t n ! i else x i) n = 0"
  by (auto simp: strncmp_0_iff strncpy_nth)

lemma safestrcpy_bounds:
  "0 < n \<Longrightarrow> length (safestrcpy t n) \<le> n \<and> safestrcpy t n \<noteq> [] \<and> last (safestrcpy t n) = 0"
  by (induction t n rule: safestrcpy.induct) auto

lemma strlen_from_Some_iff:
  "i \<le> n \<Longrightarrow> (\<And>j. i \<le> j \<Longrightarrow> j < n \<Longrightarrow> s j \<noteq> 0) \<Longrightarrow> s n = 0 \<Longrightarrow> strlen_from s i = Some n"
proof (induction "n - i" arbitrary: i)
  case 0
  then show ?case by (simp add: strlen_from.simps)
next
  case (Suc k)
  then have "s i \<noteq> 0" by simp
  then show ?case using Suc by (subst strlen_from.simps) auto
qed

lemma strlen_Some: "(\<And>j. j < n \<Longrightarrow> s j \<noteq> 0) \<Longrightarrow> s n = 0 \<Longrightarrow> strlen s = Some n"
  by (simp add: strlen_def strlen_from_Some_iff)

end
