(* ===== verification/Kalloc.thy ===== *)
theory Kalloc
  imports Strings "HOL-Library.Multiset"
begin

text \<open>
  The physical page allocator, \<^verbatim>\<open>kalloc.c\<close>.  Its state is the byte memory together with the
  head of the free list; the list itself lives in the free pages, each of which starts with
  the address of the next one, exactly as \<^verbatim>\<open>struct run\<close> lays it out.  \<open>kend\<close> is the linker
  symbol \<^verbatim>\<open>end\<close>, the first address after the loaded kernel, \<open>kdata\<close> the symbol \<^verbatim>\<open>data\<close> and
  \<open>kpgdir\<close> the variable of \<^verbatim>\<open>vm.c\<close>, which are not used here.  The section under
  \<^verbatim>\<open>kmem.lock\<close> of each routine is one step of the model.

  The locale \<open>page_pool\<close> is the contract the rest of the kernel relies on: an abstract list
  of free pages.  Its client lemma, that clients which free only what they own never see a
  page twice and never lose one, is interpreted on \<^verbatim>\<open>kalloc\<close> and \<^verbatim>\<open>kfree\<close>.
\<close>

record mem_st =
  mem :: memory
  freelist :: u32
  use_lock :: bool
  kend :: u32
  kdata :: u32
  kpgdir :: u32

definition kfree :: "u32 \<Rightarrow> ('a mem_st_scheme, unit) prog" where
  "kfree v =
     bnd (gets kend) (\<lambda>e.
     if unat v mod 4096 \<noteq> 0 \<or> v < e \<or> V2P v \<ge> PHYSTOP then panic ''kfree''
     else
       seqp (modify (\<lambda>s. s\<lparr>mem := memset (mem s) v 1 PGSIZE\<rparr>))
       (seqp (modify (\<lambda>s. s\<lparr>mem := store32 (mem s) v (freelist s)\<rparr>))
        (modify (\<lambda>s. s\<lparr>freelist := v\<rparr>))))"

definition kalloc :: "('a mem_st_scheme, u32) prog" where
  "kalloc =
     bnd (gets freelist) (\<lambda>r.
     seqp (whenp (r \<noteq> 0) (modify (\<lambda>s. s\<lparr>freelist := load32 (mem s) r\<rparr>)))
     (ret r))"

text \<open>
  \<^verbatim>\<open>freerange\<close>'s loop.  It ends because \<^verbatim>\<open>kfree\<close> panics on an address at or above
  \<^verbatim>\<open>PHYSTOP\<close>, so the loop variable cannot wrap.
\<close>

definition page_ok :: "u32 \<Rightarrow> u32 \<Rightarrow> bool" where
  "page_ok e v \<longleftrightarrow> unat v mod 4096 = 0 \<and> e \<le> v \<and> V2P v < PHYSTOP"

lemma kfree_Ret_page_ok: "kfree v s = Ret x s' \<Longrightarrow> page_ok (kend s) v"
  by (auto simp: kfree_def page_ok_def bnd_def gets_def panic_def not_less not_le split: if_splits)

lemma V2P_lt_PHYSTOP: "V2P v < PHYSTOP \<longleftrightarrow> 2147483648 \<le> unat v \<and> unat v < 2382364672"
  using unat_u32_lt [of v]
  by (auto simp: V2P_def word_less_nat_alt unat_sub_if_size word_size)

lemma page_ok_range: "page_ok e v \<Longrightarrow> 2147483648 \<le> unat v \<and> unat v < 2382364672 \<and> unat v mod 4096 = 0"
  by (simp add: page_ok_def V2P_lt_PHYSTOP)

lemma page_ok_nonzero: "page_ok e v \<Longrightarrow> v \<noteq> 0"
  using page_ok_range [of e v] by auto

function freerange_loop :: "u32 \<Rightarrow> u32 \<Rightarrow> ('a mem_st_scheme, unit) prog" where
  "freerange_loop p vend s =
     (if p + PGSIZE \<le> vend then
        (case kfree p s of
           Ret _ s' \<Rightarrow> freerange_loop (p + PGSIZE) vend s'
         | Panic e \<Rightarrow> Panic e
         | Sleep c s' \<Rightarrow> Sleep c s'
         | Spin \<Rightarrow> Spin)
      else Ret () s)"
  by pat_completeness auto
termination
proof (relation "measure (\<lambda>(p, vend, s). 4294967296 - unat p)", goal_cases)
  case 1
  show ?case by simp
next
  case (2 p vend s x s')
  then have "unat p < 2382364672"
    by (auto dest!: kfree_Ret_page_ok page_ok_range)
  then have "unat (p + 4096) = unat p + 4096"
    by (simp add: unat_word_ariths)
  with \<open>unat p < 2382364672\<close> show ?case by simp
qed

declare freerange_loop.simps [simp del]

definition freerange :: "u32 \<Rightarrow> u32 \<Rightarrow> ('a mem_st_scheme, unit) prog" where
  "freerange vstart vend = freerange_loop (PGROUNDUP vstart) vend"

definition kinit1 :: "u32 \<Rightarrow> u32 \<Rightarrow> ('a mem_st_scheme, unit) prog" where
  "kinit1 vstart vend =
     seqp (modify (\<lambda>s. s\<lparr>use_lock := False\<rparr>)) (freerange vstart vend)"

definition kinit2 :: "u32 \<Rightarrow> u32 \<Rightarrow> ('a mem_st_scheme, unit) prog" where
  "kinit2 vstart vend =
     seqp (freerange vstart vend) (modify (\<lambda>s. s\<lparr>use_lock := True\<rparr>))"

section \<open>The free list as a list\<close>

primrec flist :: "memory \<Rightarrow> u32 \<Rightarrow> u32 list \<Rightarrow> bool" where
  "flist m p [] \<longleftrightarrow> p = 0"
| "flist m p (x # xs) \<longleftrightarrow> p = x \<and> p \<noteq> 0 \<and> flist m (load32 m p) xs"

definition free_pages :: "'a mem_st_scheme \<Rightarrow> u32 list \<Rightarrow> bool" where
  "free_pages s xs \<longleftrightarrow> flist (mem s) (freelist s) xs \<and> distinct xs \<and> (\<forall>x\<in>set xs. page_ok (kend s) x)"

definition page_of :: "u32 \<Rightarrow> u32" where
  "page_of a = PGROUNDDOWN a"

lemma nat_page_iff:
  assumes "(v :: nat) mod 4096 = 0"
  shows "v \<le> x \<and> x < v + 4096 \<longleftrightarrow> x div 4096 * 4096 = v"
proof -
  obtain k where k: "v = k * 4096" using assms by (auto simp: mod_eq_0_iff_dvd dvd_def)
  have "v \<le> x \<and> x < v + 4096 \<longleftrightarrow> x div 4096 = k"
    unfolding k by (auto simp: div_nat_eqI)
  then show ?thesis by (simp add: k)
qed

lemma nat_page_top: "(v :: nat) mod 4096 = 0 \<Longrightarrow> v < n * 4096 \<Longrightarrow> v + 4096 \<le> n * 4096"
proof -
  assume "v mod 4096 = 0" "v < n * 4096"
  then obtain k where "v = k * 4096" "k < n" by (auto simp: mod_eq_0_iff_dvd dvd_def)
  then show ?thesis by simp
qed

lemma in_page_iff:
  assumes "unat v mod 4096 = 0"
  shows "unat (x - v) < 4096 \<longleftrightarrow> page_of x = v"
proof -
  have v: "unat v + 4096 \<le> 4294967296" using nat_page_top [OF assms, of 1048576] unat_u32_lt [of v] by simp
  have "unat (x - v) < 4096 \<longleftrightarrow> unat v \<le> unat x \<and> unat x < unat v + 4096"
    by (rule unat_diff_less_iff [OF v])
  also have "\<dots> \<longleftrightarrow> unat x div 4096 * 4096 = unat v"
    by (rule nat_page_iff [OF assms])
  finally show ?thesis by (simp add: page_of_def word_unat_eq_iff unat_PGROUNDDOWN)
qed

lemma page_of_add:
  assumes "unat v mod 4096 = 0" "unat k < 4096"
  shows "page_of (v + k) = v"
  using assms by (simp flip: in_page_iff)

lemma load32_page_cong:
  assumes "unat v mod 4096 = 0" "\<And>x. page_of x = v \<Longrightarrow> m' x = m x"
  shows "load32 m' v = load32 m v"
proof (rule load32_cong)
  fix x assume "unat (x - v) < 4"
  then have "page_of x = v" by (simp add: in_page_iff [OF assms(1), symmetric])
  then show "m' x = m x" by (rule assms(2))
qed

lemma flist_cong:
  assumes "\<And>x y. x \<in> set xs \<Longrightarrow> page_of y = x \<Longrightarrow> m' y = m y"
    and "\<And>x. x \<in> set xs \<Longrightarrow> unat x mod 4096 = 0"
  shows "flist m' p xs = flist m p xs"
  using assms
proof (induction xs arbitrary: p)
  case (Cons x xs)
  have "load32 m' x = load32 m x"
    by (rule load32_page_cong) (simp_all add: Cons.prems(2), rule Cons.prems(1), simp_all)
  moreover have "flist m' q xs = flist m q xs" for q
  proof (rule Cons.IH)
    show "m' y = m y" if "x \<in> set xs" "page_of y = x" for x y
      using that by (intro Cons.prems(1) [of x y]) simp_all
  qed (simp add: Cons.prems(2))
  ultimately show ?case by (cases "p = x") simp_all
qed simp

lemma kfree_state:
  assumes "page_ok (kend s) v"
  shows "kfree v s = Ret () (s\<lparr>mem := store32 (memset (mem s) v 1 PGSIZE) v (freelist s), freelist := v\<rparr>)"
  using assms by (auto simp: kfree_def page_ok_def bnd_def gets_def seqp_def modify_def not_less not_le)

lemma kfree_panics: "\<not> page_ok (kend s) v \<Longrightarrow> kfree v s = Panic ''kfree''"
  by (auto simp: kfree_def page_ok_def bnd_def gets_def panic_def not_less not_le)

lemma kfree_outside:
  assumes "page_of x \<noteq> v" "unat v mod 4096 = 0"
  shows "store32 (memset m v 1 PGSIZE) v w x = m x"
proof -
  have "\<not> unat (x - v) < 4096" using assms by (simp add: in_page_iff)
  then show ?thesis by (simp add: store32_other memset_fill fill_def)
qed

lemma kfree_pages:
  assumes "free_pages s xs" "page_ok (kend s) v" "v \<notin> set xs"
  shows "\<exists>s'. kfree v s = Ret () s' \<and> free_pages s' (v # xs) \<and> kend s' = kend s
    \<and> (\<forall>x. page_of x \<noteq> v \<longrightarrow> mem s' x = mem s x)"
proof -
  let ?m = "store32 (memset (mem s) v 1 PGSIZE) v (freelist s)"
  have v: "unat v mod 4096 = 0" using assms(2) by (simp add: page_ok_def)
  have out: "?m x = mem s x" if "page_of x \<noteq> v" for x
    using kfree_outside [OF that v] .
  have "flist ?m (freelist s) xs = flist (mem s) (freelist s) xs"
  proof (rule flist_cong)
    show "?m y = mem s y" if "x \<in> set xs" "page_of y = x" for x y
      using assms(3) that by (intro out) auto
    show "unat x mod 4096 = 0" if "x \<in> set xs" for x
      using assms(1) that by (simp add: free_pages_def page_ok_def)
  qed
  with assms have "free_pages (s\<lparr>mem := ?m, freelist := v\<rparr>) (v # xs)"
    by (auto simp: free_pages_def page_ok_nonzero)
  with kfree_state [OF assms(2)] out show ?thesis by auto
qed

lemma kalloc_empty: "free_pages s [] \<Longrightarrow> kalloc s = Ret 0 s"
  by (simp add: free_pages_def kalloc_def bnd_def gets_def seqp_def whenp_def ret_def)

lemma kalloc_page:
  "free_pages s (x # xs) \<Longrightarrow>
     kalloc s = Ret x (s\<lparr>freelist := load32 (mem s) x\<rparr>) \<and> free_pages (s\<lparr>freelist := load32 (mem s) x\<rparr>) xs"
  by (auto simp: free_pages_def kalloc_def bnd_def gets_def seqp_def whenp_def ret_def modify_def)

section \<open>The contract of a page pool\<close>

text \<open>
  A run of a client: allocations, and frees of pages it names.  The client keeps the list
  of the pages it owns and passes to the allocator only pages on it.
\<close>

datatype pool_op = AllocPage | FreePage u32

fun pool_run :: "('s, u32) prog \<Rightarrow> (u32 \<Rightarrow> ('s, unit) prog) \<Rightarrow> pool_op list \<Rightarrow> u32 list \<Rightarrow> ('s, u32 list) prog" where
  "pool_run alloc free [] own = ret own"
| "pool_run alloc free (AllocPage # ops) own =
     bnd alloc (\<lambda>p. pool_run alloc free ops (if p = 0 then own else p # own))"
| "pool_run alloc free (FreePage v # ops) own =
     (if v \<in> set own then bnd (free v) (\<lambda>_. pool_run alloc free ops (remove1 v own))
      else pool_run alloc free ops own)"

locale page_pool =
  fixes alloc :: "('s, u32) prog"
    and free :: "u32 \<Rightarrow> ('s, unit) prog"
    and pages :: "'s \<Rightarrow> u32 list \<Rightarrow> bool"
    and valid :: "'s \<Rightarrow> u32 \<Rightarrow> bool"
    and bytes :: "'s \<Rightarrow> memory"
  assumes pages_valid: "pages s xs \<Longrightarrow> x \<in> set xs \<Longrightarrow> valid s x"
    and pages_distinct: "pages s xs \<Longrightarrow> distinct xs"
    and valid_nonzero: "valid s v \<Longrightarrow> v \<noteq> 0"
    and alloc_none: "pages s [] \<Longrightarrow> alloc s = Ret 0 s"
    and alloc_some: "pages s (x # xs) \<Longrightarrow>
      \<exists>s'. alloc s = Ret x s' \<and> pages s' xs \<and> valid s' = valid s \<and> bytes s' = bytes s"
    and free_some: "pages s xs \<Longrightarrow> valid s v \<Longrightarrow> v \<notin> set xs \<Longrightarrow>
      \<exists>s'. free v s = Ret () s' \<and> pages s' (v # xs) \<and> valid s' = valid s
        \<and> (\<forall>x. page_of x \<noteq> v \<longrightarrow> bytes s' x = bytes s x)"
begin

lemma run_conserves:
  assumes "pages s xs" "\<forall>v\<in>set own. valid s v" "distinct (own @ xs)"
  shows "\<exists>own' s' xs'. pool_run alloc free ops own s = Ret own' s' \<and> pages s' xs'
    \<and> distinct (own' @ xs') \<and> mset own' + mset xs' = mset own + mset xs \<and> valid s' = valid s"
  using assms
proof (induction ops arbitrary: s xs own)
  case Nil
  have "pool_run alloc free [] own s = Ret own s" by (simp add: ret_def)
  with Nil show ?case by blast
next
  case (Cons op ops)
  show ?case
  proof (cases op)
    case AllocPage
    show ?thesis
    proof (cases xs)
      case Nil
      with Cons.prems(1) have "alloc s = Ret 0 s" by (simp add: alloc_none)
      then show ?thesis using Cons.IH [OF Cons.prems] unfolding AllocPage by (simp add: bnd_Ret)
    next
      case (Cons x ys)
      with Cons.prems(1) obtain s1
        where s1: "alloc s = Ret x s1" "pages s1 ys" "valid s1 = valid s"
        using alloc_some [of s x ys] by auto
      have x: "valid s x" using pages_valid Cons.prems(1) Cons by auto
      then have x0: "x \<noteq> 0" by (rule valid_nonzero)
      have "\<forall>v\<in>set (x # own). valid s1 v" "distinct ((x # own) @ ys)"
        using s1(3) x Cons.prems(2,3) Cons by auto
      then have "\<exists>own' s' xs'. pool_run alloc free ops (x # own) s1 = Ret own' s' \<and> pages s' xs'
          \<and> distinct (own' @ xs') \<and> mset own' + mset xs' = mset (x # own) + mset ys \<and> valid s' = valid s1"
        by (rule Cons.IH [OF s1(2)])
      with s1(1,3) x0 show ?thesis unfolding AllocPage Cons by (simp add: bnd_Ret)
    qed
  next
    case (FreePage v)
    show ?thesis
    proof (cases "v \<in> set own")
      case True
      then have v: "valid s v" "v \<notin> set xs" using Cons.prems by auto
      then obtain s1 where s1: "free v s = Ret () s1" "pages s1 (v # xs)" "valid s1 = valid s"
        using free_some [OF Cons.prems(1), of v] by auto
      have "\<forall>w\<in>set (remove1 v own). valid s1 w" "distinct (remove1 v own @ v # xs)"
        using s1(3) v Cons.prems(2,3) by (auto dest: notin_set_remove1)
      then have "\<exists>own' s' xs'. pool_run alloc free ops (remove1 v own) s1 = Ret own' s' \<and> pages s' xs'
          \<and> distinct (own' @ xs') \<and> mset own' + mset xs' = mset (remove1 v own) + mset (v # xs)
          \<and> valid s' = valid s1"
        by (rule Cons.IH [OF s1(2)])
      moreover have "mset (remove1 v own) + mset (v # xs) = mset own + mset xs"
        using True by simp
      ultimately show ?thesis using s1(1,3) True unfolding FreePage by (simp add: bnd_Ret)
    next
      case False
      then show ?thesis using Cons.IH [OF Cons.prems] unfolding FreePage by simp
    qed
  qed
qed

end

interpretation kmem: page_pool kalloc kfree free_pages "\<lambda>s. page_ok (kend s)" mem
proof
  show "free_pages s xs \<Longrightarrow> x \<in> set xs \<Longrightarrow> page_ok (kend s) x" for s :: "'a mem_st_scheme" and xs x
    by (simp add: free_pages_def)
  show "free_pages s xs \<Longrightarrow> distinct xs" for s :: "'a mem_st_scheme" and xs
    by (simp add: free_pages_def)
  show "page_ok (kend s) v \<Longrightarrow> v \<noteq> 0" for s :: "'a mem_st_scheme" and v
    by (rule page_ok_nonzero)
  show "free_pages s [] \<Longrightarrow> kalloc s = Ret 0 s" for s :: "'a mem_st_scheme"
    by (rule kalloc_empty)
  show "\<exists>s'. kalloc s = Ret x s' \<and> free_pages s' xs \<and> page_ok (kend s') = page_ok (kend s) \<and> mem s' = mem s"
    if "free_pages s (x # xs)" for s :: "'a mem_st_scheme" and x xs
    using kalloc_page [OF that] by auto
  show "\<exists>s'. kfree v s = Ret () s' \<and> free_pages s' (v # xs) \<and> page_ok (kend s') = page_ok (kend s)
      \<and> (\<forall>x. page_of x \<noteq> v \<longrightarrow> mem s' x = mem s x)"
    if "free_pages s xs" "page_ok (kend s) v" "v \<notin> set xs" for s :: "'a mem_st_scheme" and xs v
    using kfree_pages [OF that] by auto
qed

section \<open>Initialisation\<close>

definition range_pages :: "u32 \<Rightarrow> u32 \<Rightarrow> u32 set" where
  "range_pages p vend = {v. unat v mod 4096 = 0 \<and> unat p \<le> unat v \<and> unat v + 4096 \<le> unat vend}"

lemma range_pages_step:
  assumes "unat p mod 4096 = 0" "unat p + 4096 \<le> unat vend" "unat (p + 4096) = unat p + 4096"
  shows "range_pages p vend = insert p (range_pages (p + 4096) vend)"
proof -
  have "unat p + 4096 \<le> unat v" if "unat v mod 4096 = 0" "unat p \<le> unat v" "v \<noteq> p" for v
  proof -
    have "unat p < unat v" using that by (simp add: word_unat_eq_iff)
    then show ?thesis using assms(1) that(1) nat_page_top [of "unat p" "unat v div 4096"]
      by (simp add: mod_0_imp_dvd)
  qed
  then show ?thesis using assms by (auto simp: range_pages_def)
qed

lemma freerange_loop_pages:
  assumes "free_pages s xs" "unat p mod 4096 = 0" "kend s \<le> p"
    "2147483648 \<le> unat p" "unat p \<le> 2382364672" "unat vend \<le> 2382364672"
    "set xs \<inter> range_pages p vend = {}"
  shows "\<exists>s' ys. freerange_loop p vend s = Ret () s' \<and> free_pages s' (ys @ xs)
    \<and> set ys = range_pages p vend \<and> kend s' = kend s"
  using assms
proof (induction p vend s arbitrary: xs rule: freerange_loop.induct)
  case (1 p vend s)
  have p4: "unat (p + 4096) = unat p + 4096"
    using "1.prems"(5) by (simp add: unat_word_ariths)
  have guard: "p + 4096 \<le> vend \<longleftrightarrow> unat p + 4096 \<le> unat vend"
    by (simp add: word_le_nat_alt p4)
  show ?case
  proof (cases "unat p + 4096 \<le> unat vend")
    case False
    then have "range_pages p vend = {}" by (auto simp: range_pages_def)
    moreover have "freerange_loop p vend s = Ret () s"
      using False guard by (simp add: freerange_loop.simps)
    ultimately show ?thesis
      using "1.prems"(1) by (intro exI [of _ s] exI [of _ "[]"]) simp
  next
    case True
    note step = range_pages_step [OF "1.prems"(2) True p4]
    have ok: "page_ok (kend s) p"
      using "1.prems" True by (simp add: page_ok_def V2P_lt_PHYSTOP)
    have "p \<notin> set xs" using "1.prems"(7) step by auto
    then obtain s1 where s1: "kfree p s = Ret () s1" "free_pages s1 (p # xs)" "kend s1 = kend s"
      using kfree_pages [OF "1.prems"(1) ok] by auto
    have "p \<notin> range_pages (p + 4096) vend" by (simp add: range_pages_def p4)
    then have disj: "set (p # xs) \<inter> range_pages (p + 4096) vend = {}"
      using "1.prems"(7) step by auto
    have mod: "unat (p + 4096) mod 4096 = 0" using "1.prems"(2) by (simp add: p4)
    have le: "kend s1 \<le> p + 4096"
      using "1.prems"(3) s1(3) by (simp add: word_le_nat_alt p4)
    have "\<exists>s' ys. freerange_loop (p + 4096) vend s1 = Ret () s' \<and> free_pages s' (ys @ p # xs)
        \<and> set ys = range_pages (p + 4096) vend \<and> kend s' = kend s1"
      by (rule "1.IH" [OF _ s1(1) s1(2) mod le _ _ "1.prems"(6) disj])
        (use "1.prems" True p4 guard in simp_all)
    then obtain s' ys where s': "freerange_loop (p + 4096) vend s1 = Ret () s'"
      "free_pages s' (ys @ p # xs)" "set ys = range_pages (p + 4096) vend" "kend s' = kend s1"
      by blast
    have "freerange_loop p vend s = Ret () s'"
      using True guard s1(1) s'(1) by (simp add: freerange_loop.simps [of p vend s])
    with s' s1(3) step show ?thesis
      by (intro exI [of _ s'] exI [of _ "ys @ [p]"]) simp
  qed
qed

lemma PGROUNDUP_bounds:
  assumes "unat a \<le> 2382364672"
  shows "unat (PGROUNDUP a) mod 4096 = 0" "unat a \<le> unat (PGROUNDUP a)" "unat (PGROUNDUP a) < unat a + 4096"
proof -
  have eq: "unat (PGROUNDUP a) = (unat a + 4095) div 4096 * 4096"
    using assms by (simp add: unat_PGROUNDUP)
  show "unat (PGROUNDUP a) mod 4096 = 0" by (simp add: eq)
  have "unat a + 4095 < (unat a + 4095) div 4096 * 4096 + 4096"
    using div_mult_mod_eq [of "unat a + 4095" 4096] mod_less_divisor [of 4096 "unat a + 4095"] by linarith
  then show "unat a \<le> unat (PGROUNDUP a)" by (simp add: eq)
  show "unat (PGROUNDUP a) < unat a + 4096"
    using div_times_less_eq_dividend [of "unat a + 4095" 4096] by (simp add: eq)
qed

lemma PGROUNDUP_least:
  assumes "unat a \<le> 2382364672" "unat v mod 4096 = 0" "unat a \<le> unat v"
  shows "unat (PGROUNDUP a) \<le> unat v"
proof (rule ccontr)
  assume "\<not> ?thesis"
  then have "unat v + 4096 \<le> unat (PGROUNDUP a)"
    using nat_page_top [OF assms(2), of "unat (PGROUNDUP a) div 4096"] PGROUNDUP_bounds(1) [OF assms(1)]
    by (simp add: mod_0_imp_dvd)
  with PGROUNDUP_bounds(3) [OF assms(1)] assms(3) show False by simp
qed

lemma freerange_pages:
  assumes "free_pages s xs" "kend s \<le> vstart" "2147483648 \<le> unat vstart"
    "unat vstart \<le> 2382360576" "unat vend \<le> 2382364672"
    "set xs \<inter> range_pages (PGROUNDUP vstart) vend = {}"
  shows "\<exists>s' ys. freerange vstart vend s = Ret () s' \<and> free_pages s' (ys @ xs)
    \<and> set ys = range_pages (PGROUNDUP vstart) vend \<and> kend s' = kend s"
proof -
  have v: "unat vstart \<le> 2382364672" using assms(4) by simp
  note b = PGROUNDUP_bounds [OF v]
  have "unat (PGROUNDUP vstart) \<le> 2382364672" using b(3) assms(4) by simp
  then show ?thesis
    unfolding freerange_def
    by (intro freerange_loop_pages) (use assms b in \<open>auto simp: word_le_nat_alt\<close>)
qed

section \<open>Properties\<close>

text \<open>
  C29. Booting the allocator (\<^verbatim>\<open>kinit1(end, P2V(4MB))\<close> and then \<^verbatim>\<open>kinit2(P2V(4MB), P2V(PHYSTOP))\<close>,
  as \<^verbatim>\<open>main\<close> calls them) from an empty free list returns, and the free list then holds every
  page-aligned address between the end of the kernel and \<^verbatim>\<open>PHYSTOP\<close> exactly once.
\<close>

theorem kinit_frees_every_page:
  fixes s :: "'a mem_st_scheme"
  assumes "freelist s = 0" "2147483648 \<le> unat (kend s)" "unat (kend s) \<le> 2151677952"
  shows "\<exists>s' ys. seqp (kinit1 (kend s) (P2V 0x400000)) (kinit2 (P2V 0x400000) (P2V PHYSTOP)) s = Ret () s'
    \<and> free_pages s' ys \<and> set ys = {v. page_ok (kend s) v} \<and> use_lock s'"
proof -
  let ?s0 = "s\<lparr>use_lock := False\<rparr>"
  let ?mid = "P2V 0x400000" and ?top = "P2V PHYSTOP"
  have mid: "unat ?mid = 2151677952" and top: "unat ?top = 2382364672" by (simp_all add: P2V_def)
  have r: "PGROUNDUP ?mid = ?mid" by (simp add: PGROUNDUP_def P2V_def)
  have "free_pages ?s0 []" using assms(1) by (simp add: free_pages_def)
  from freerange_pages [OF this, of "kend s" ?mid]
  obtain s1 ys1 where s1: "freerange (kend s) ?mid ?s0 = Ret () s1" "free_pages s1 ys1"
    "set ys1 = range_pages (PGROUNDUP (kend s)) ?mid" "kend s1 = kend s"
    using assms mid by auto
  have "set ys1 \<inter> range_pages (PGROUNDUP ?mid) ?top = {}"
    using s1(3) by (auto simp: r range_pages_def)
  from freerange_pages [OF s1(2) _ _ _ _ this]
  obtain s2 ys2 where s2: "freerange ?mid ?top s1 = Ret () s2" "free_pages s2 (ys2 @ ys1)"
    "set ys2 = range_pages ?mid ?top" "kend s2 = kend s1"
    using assms mid top s1(4) r by (auto simp: word_le_nat_alt)
  have k: "unat (kend s) \<le> 2382364672" using assms(3) by simp
  have "set (ys2 @ ys1) = {v. page_ok (kend s) v}"
  proof (intro set_eqI iffI)
    fix v assume "v \<in> set (ys2 @ ys1)"
    then show "v \<in> {v. page_ok (kend s) v}"
      using s1(3) s2(3) assms(2,3) mid top PGROUNDUP_bounds(2) [OF k]
      by (auto simp: range_pages_def page_ok_def V2P_lt_PHYSTOP word_le_nat_alt)
  next
    fix v assume "v \<in> {v. page_ok (kend s) v}"
    then have v: "unat v mod 4096 = 0" "unat (kend s) \<le> unat v" "unat v < 2382364672"
      by (auto simp: page_ok_def V2P_lt_PHYSTOP word_le_nat_alt)
    have "unat v + 4096 \<le> 2151677952 \<or> 2151677952 \<le> unat v"
      using nat_page_top [OF v(1), of 525312] by simp linarith
    moreover have "unat v + 4096 \<le> 2382364672"
      using nat_page_top [OF v(1), of 581632] v(3) by simp
    ultimately show "v \<in> set (ys2 @ ys1)"
      using v s1(3) s2(3) mid top PGROUNDUP_least [OF k v(1,2)] by (auto simp: range_pages_def)
  qed
  moreover have "free_pages (s2\<lparr>use_lock := True\<rparr>) (ys2 @ ys1)"
    using s2(2) by (simp add: free_pages_def)
  moreover have "seqp (kinit1 (kend s) ?mid) (kinit2 ?mid ?top) s = Ret () (s2\<lparr>use_lock := True\<rparr>)"
    using s1(1) s2(1) by (simp add: kinit1_def kinit2_def seqp_def bnd_def modify_def)
  ultimately show ?thesis
    by (intro exI [of _ "s2\<lparr>use_lock := True\<rparr>"] exI [of _ "ys2 @ ys1"]) simp
qed

definition boot_mem :: mem_st where
  "boot_mem = \<lparr>mem = \<lambda>_. 0, freelist = 0, use_lock = False, kend = 0x80115000, kdata = 0x80108000, kpgdir = 0\<rparr>"

theorem kinit_frees_every_page_witness:
  "freelist boot_mem = 0 \<and> (\<exists>s' ys. seqp (kinit1 (kend boot_mem) (P2V 0x400000))
       (kinit2 (P2V 0x400000) (P2V PHYSTOP)) boot_mem = Ret () s'
     \<and> free_pages s' ys \<and> set ys = {v. page_ok (kend boot_mem) v} \<and> use_lock s')"
  using kinit_frees_every_page [of boot_mem] by (simp add: boot_mem_def)

text \<open>
  C28. Whatever sequence of \<^verbatim>\<open>kalloc\<close> and \<^verbatim>\<open>kfree\<close> calls clients make, as long as they free only
  pages they own, every call returns (no panic), the pages handed out and the pages on the
  free list stay disjoint and without duplicates, and no page is lost: together they are the
  same multiset of pages as at the start.
\<close>

theorem kalloc_kfree_conserve_pages:
  fixes s :: "'a mem_st_scheme"
  assumes "free_pages s xs" "\<forall>v\<in>set own. page_ok (kend s) v" "distinct (own @ xs)"
  shows "\<exists>own' s' xs'. pool_run kalloc kfree ops own s = Ret own' s' \<and> free_pages s' xs'
    \<and> distinct (own' @ xs') \<and> mset own' + mset xs' = mset own + mset xs"
  using kmem.run_conserves [OF assms, of ops] by blast

theorem kalloc_kfree_conserve_pages_witness:
  "\<exists>own' s' xs'. pool_run kalloc kfree [AllocPage, FreePage 0x80200000, AllocPage] [0x80200000] boot_mem
       = Ret own' s' \<and> free_pages s' xs' \<and> distinct (own' @ xs')
     \<and> mset own' + mset xs' = {#0x80200000#}"
  using kalloc_kfree_conserve_pages [of boot_mem "[]" "[0x80200000]" "[AllocPage, FreePage 0x80200000, AllocPage]"]
  by (simp add: free_pages_def page_ok_def boot_mem_def V2P_def)

end
