(* ===== verification/Proc.thy ===== *)
theory Proc
  imports Kalloc
begin

text \<open>
  The process table, \<^verbatim>\<open>proc.h\<close> and the part of \<^verbatim>\<open>proc.c\<close> that works on the table alone:
  \<^verbatim>\<open>allocproc\<close>, the scheduler and the switch into it, \<^verbatim>\<open>sleep\<close> and \<^verbatim>\<open>wakeup\<close>, \<^verbatim>\<open>kill\<close>.  (The
  operations that also touch address spaces and files are in the theory of the process life
  cycle.)  A pointer to a process is the index of its slot.  Each section under
  \<^verbatim>\<open>ptable.lock\<close> is one step, so \<^verbatim>\<open>acquire\<close> and \<^verbatim>\<open>release\<close> of that lock do not appear, nor do the
  lock and interrupt-flag checks of \<^verbatim>\<open>sched\<close>, which the theory of spin locks covers.

  The trap frame and the saved context of a process live on its kernel stack; the model
  keeps their contents in the process record and the pointers to them as addresses.
\<close>

section \<open>Process records\<close>

record trapframe =
  tf_edi :: u32
  tf_esi :: u32
  tf_ebp :: u32
  tf_oesp :: u32
  tf_ebx :: u32
  tf_edx :: u32
  tf_ecx :: u32
  tf_eax :: u32
  tf_gs :: u16
  tf_fs :: u16
  tf_es :: u16
  tf_ds :: u16
  tf_trapno :: u32
  tf_err :: u32
  tf_eip :: u32
  tf_cs :: u16
  tf_eflags :: u32
  tf_esp :: u32
  tf_ss :: u16

text \<open>\<open>sizeof\<close> of \<^verbatim>\<open>struct trapframe\<close> (nineteen words, paddings included) and of \<^verbatim>\<open>struct context\<close>.\<close>

abbreviation (input) sizeof_trapframe :: u32 where "sizeof_trapframe \<equiv> 76"
abbreviation (input) sizeof_context :: u32 where "sizeof_context \<equiv> 20"

definition zero_tf :: trapframe where
  "zero_tf = \<lparr>tf_edi = 0, tf_esi = 0, tf_ebp = 0, tf_oesp = 0, tf_ebx = 0, tf_edx = 0, tf_ecx = 0,
     tf_eax = 0, tf_gs = 0, tf_fs = 0, tf_es = 0, tf_ds = 0, tf_trapno = 0, tf_err = 0, tf_eip = 0,
     tf_cs = 0, tf_eflags = 0, tf_esp = 0, tf_ss = 0\<rparr>"

record kcontext =
  c_edi :: u32
  c_esi :: u32
  c_ebx :: u32
  c_ebp :: u32
  c_eip :: u32

datatype procstate = UNUSED | EMBRYO | SLEEPING | RUNNABLE | RUNNING | ZOMBIE

text \<open>
  \<^verbatim>\<open>struct proc\<close>.  \<open>p_ofile\<close> holds indices of the open file table, \<open>p_cwd\<close> an index of the
  inode cache.  \<open>p_retaddr\<close> is the word \<^verbatim>\<open>allocproc\<close> leaves on the stack above the context.
\<close>

record proc =
  p_sz :: u32
  p_pgdir :: u32
  p_kstack :: u32
  p_state :: procstate
  p_pid :: int
  p_parent :: "nat option"
  p_tfp :: u32
  p_tf :: trapframe
  p_contextp :: u32
  p_context :: kcontext
  p_retaddr :: u32
  p_chan :: chan
  p_killed :: bool
  p_ofile :: "nat option list"
  p_cwd :: "nat option"
  p_name :: "u8 list"

text \<open>
  The state of \<^verbatim>\<open>proc.c\<close>, with the running process of the CPU at hand (\<^verbatim>\<open>mycpu()->proc\<close>) and the
  link-time addresses of the two assembly entry points.
\<close>

record proc_st = mem_st +
  ptable :: "proc list"
  initproc :: "nat option"
  nextpid :: int
  curproc :: "nat option"
  forkret_addr :: u32
  trapret_addr :: u32

definition upd_proc :: "nat \<Rightarrow> (proc \<Rightarrow> proc) \<Rightarrow> 'a proc_st_scheme \<Rightarrow> 'a proc_st_scheme" where
  "upd_proc i f s = s\<lparr>ptable := (ptable s)[i := f (ptable s ! i)]\<rparr>"

section \<open>Operations\<close>

definition myproc :: "('a proc_st_scheme, nat option) prog" where
  "myproc = gets curproc"

text \<open>
  Where the code follows the pointer \<^verbatim>\<open>myproc()\<close> without a test, a null pointer is a page
  fault in the kernel, which \<^verbatim>\<open>trap\<close> turns into a panic.
\<close>

definition deref :: "nat option \<Rightarrow> ('s, nat) prog" where
  "deref p = (case p of None \<Rightarrow> panic ''trap'' | Some i \<Rightarrow> ret i)"

definition find_unused :: "proc list \<Rightarrow> nat option" where
  "find_unused t = find (\<lambda>i. p_state (t ! i) = UNUSED) [0..<NPROC]"

definition allocproc :: "('a proc_st_scheme, nat option) prog" where
  "allocproc =
     bnd (gets (\<lambda>s. find_unused (ptable s))) (\<lambda>found.
     case found of
       None \<Rightarrow> ret None
     | Some p \<Rightarrow>
         seqp (modify (\<lambda>s. upd_proc p (\<lambda>q. q\<lparr>p_state := EMBRYO, p_pid := nextpid s\<rparr>) s))
         (seqp (modify (\<lambda>s. s\<lparr>nextpid := nextpid s + 1\<rparr>))
         (bnd kalloc (\<lambda>ks.
          seqp (modify (upd_proc p (\<lambda>q. q\<lparr>p_kstack := ks\<rparr>)))
          (if ks = 0 then
             seqp (modify (upd_proc p (\<lambda>q. q\<lparr>p_state := UNUSED\<rparr>))) (ret None)
           else
             (let sp = ks + KSTACKSIZE;
                  sp1 = sp - sizeof_trapframe;
                  sp2 = sp1 - 4;
                  sp3 = sp2 - sizeof_context
              in
             seqp (modify (\<lambda>s. upd_proc p (\<lambda>q. q\<lparr>p_tfp := sp1, p_retaddr := trapret_addr s, p_contextp := sp3,
                     p_context := \<lparr>c_edi = 0, c_esi = 0, c_ebx = 0, c_ebp = 0, c_eip = forkret_addr s\<rparr>\<rparr>) s))
             (ret (Some p))))))))"

definition wakeup1 :: "chan \<Rightarrow> ('a proc_st_scheme, unit) prog" where
  "wakeup1 c = modify (\<lambda>s. s\<lparr>ptable :=
     map (\<lambda>p. if p_state p = SLEEPING \<and> p_chan p = c then p\<lparr>p_state := RUNNABLE\<rparr> else p) (ptable s)\<rparr>)"

definition wakeup :: "chan \<Rightarrow> ('a proc_st_scheme, unit) prog" where
  "wakeup c = wakeup1 c"

definition kill :: "int \<Rightarrow> ('a proc_st_scheme, int) prog" where
  "kill pid =
     bnd (gets (\<lambda>s. find (\<lambda>i. p_pid (ptable s ! i) = pid) [0..<NPROC])) (\<lambda>found.
     case found of
       None \<Rightarrow> ret (-1)
     | Some i \<Rightarrow>
         seqp (modify (upd_proc i (\<lambda>p. p\<lparr>p_killed := True\<rparr>)))
         (seqp (modify (upd_proc i (\<lambda>p. if p_state p = SLEEPING then p\<lparr>p_state := RUNNABLE\<rparr> else p)))
          (ret 0)))"

text \<open>
  \<^verbatim>\<open>switchuvm\<close> of \<^verbatim>\<open>vm.c\<close>: its effect is on the segment and page table registers, which the
  model does not have; its checks are panics.
\<close>

definition switchuvm :: "nat \<Rightarrow> ('a proc_st_scheme, unit) prog" where
  "switchuvm p =
     bnd (gets (\<lambda>s. ptable s ! p)) (\<lambda>q.
     if p_kstack q = 0 then panic ''switchuvm: no kstack''
     else if p_pgdir q = 0 then panic ''switchuvm: no pgdir''
     else ret ())"

text \<open>
  \<^verbatim>\<open>sched\<close>: the current process gives the CPU up.  The outcome \<open>Sleep c s\<close> carries the state
  at the switch and the channel the process waits on (\<open>NoChan\<close> after \<^verbatim>\<open>yield\<close> and \<^verbatim>\<open>exit\<close>).
\<close>

definition sched :: "('a proc_st_scheme, unit) prog" where
  "sched =
     bnd myproc (\<lambda>me. bnd (deref me) (\<lambda>p.
     bnd (gets (\<lambda>s. ptable s ! p)) (\<lambda>q.
     if p_state q = RUNNING then panic ''sched running''
     else (\<lambda>s. Sleep (p_chan q) s))))"

definition yield :: "('a proc_st_scheme, unit) prog" where
  "yield =
     bnd myproc (\<lambda>me. bnd (deref me) (\<lambda>p.
     seqp (modify (upd_proc p (\<lambda>q. q\<lparr>p_state := RUNNABLE\<rparr>))) sched))"

definition sleep :: "chan \<Rightarrow> ('a proc_st_scheme, unit) prog" where
  "sleep c =
     bnd myproc (\<lambda>me.
     case me of
       None \<Rightarrow> panic ''sleep''
     | Some p \<Rightarrow>
         seqp (modify (upd_proc p (\<lambda>q. q\<lparr>p_chan := c, p_state := SLEEPING\<rparr>))) sched)"

text \<open>What \<^verbatim>\<open>sleep\<close> does when \<^verbatim>\<open>sched\<close> returns, before it takes its caller's lock again.\<close>

definition sleep_resume :: "('a proc_st_scheme, unit) prog" where
  "sleep_resume =
     bnd myproc (\<lambda>me. bnd (deref me) (\<lambda>p.
     modify (upd_proc p (\<lambda>q. q\<lparr>p_chan := NoChan\<rparr>))))"

text \<open>
  One pass of the loop of \<^verbatim>\<open>scheduler\<close> over the table.  \<open>run p\<close> stands for what happens between
  \<^verbatim>\<open>swtch\<close> to the process and its switch back: the process' own code.
\<close>

definition dispatch :: "nat \<Rightarrow> ('a proc_st_scheme, unit) prog" where
  "dispatch p =
     seqp (modify (\<lambda>s. s\<lparr>curproc := Some p\<rparr>))
     (seqp (switchuvm p)
      (modify (upd_proc p (\<lambda>q. q\<lparr>p_state := RUNNING\<rparr>))))"

definition scheduler_pass :: "(nat \<Rightarrow> ('a proc_st_scheme, unit) prog) \<Rightarrow> ('a proc_st_scheme, unit) prog" where
  "scheduler_pass run =
     forp [0..<NPROC] (\<lambda>p.
       bnd (gets (\<lambda>s. p_state (ptable s ! p))) (\<lambda>st.
       if st \<noteq> RUNNABLE then ret ()
       else seqp (dispatch p)
            (seqp (run p)
             (modify (\<lambda>s. s\<lparr>curproc := None\<rparr>)))))"

text \<open>
  The part of \<^verbatim>\<open>exit\<close> that runs under \<^verbatim>\<open>ptable.lock\<close>: wake the parent, give the children to
  \<^verbatim>\<open>init\<close> (waking it for each that is already dead), become a zombie, switch away.  A null
  \<^verbatim>\<open>parent\<close> wakes nobody, since no process sleeps on the null channel.
\<close>

definition proc_chan :: "nat option \<Rightarrow> chan" where
  "proc_chan p = (case p of None \<Rightarrow> NoChan | Some i \<Rightarrow> ChanProc i)"

definition reparent :: "nat \<Rightarrow> ('a proc_st_scheme, unit) prog" where
  "reparent cp =
     bnd (gets initproc) (\<lambda>ip.
     forp [0..<NPROC] (\<lambda>i.
       bnd (gets (\<lambda>s. ptable s ! i)) (\<lambda>p.
       whenp (p_parent p = Some cp)
         (seqp (modify (upd_proc i (\<lambda>q. q\<lparr>p_parent := ip\<rparr>)))
          (whenp (p_state p = ZOMBIE) (wakeup1 (proc_chan ip)))))))"

definition exit_table :: "('a proc_st_scheme, unit) prog" where
  "exit_table =
     bnd myproc (\<lambda>me. bnd (deref me) (\<lambda>cp.
     bnd (gets (\<lambda>s. p_parent (ptable s ! cp))) (\<lambda>par.
     seqp (wakeup1 (proc_chan par))
     (seqp (reparent cp)
     (seqp (modify (upd_proc cp (\<lambda>q. q\<lparr>p_state := ZOMBIE\<rparr>)))
     (seqp sched
      (panic ''zombie exit'')))))))"

text \<open>The table as the loader leaves it (all zero) and the state of a machine with one free page.\<close>

definition zero_proc :: proc where
  "zero_proc = \<lparr>p_sz = 0, p_pgdir = 0, p_kstack = 0, p_state = UNUSED, p_pid = 0, p_parent = None, p_tfp = 0,
     p_tf = zero_tf, p_contextp = 0, p_context = \<lparr>c_edi = 0, c_esi = 0, c_ebx = 0, c_ebp = 0, c_eip = 0\<rparr>,
     p_retaddr = 0, p_chan = NoChan, p_killed = False, p_ofile = replicate 16 None, p_cwd = None,
     p_name = replicate 16 0\<rparr>"

definition boot_proc :: proc_st where
  "boot_proc = \<lparr>mem = \<lambda>_. 0, freelist = 0x80200000, use_lock = True, kend = 0x80115000, kdata = 0x80108000, kpgdir = 0,
     ptable = replicate 64 zero_proc, initproc = None, nextpid = 1, curproc = None,
     forkret_addr = 0x80103a10, trapret_addr = 0x80105a3c\<rparr>"

text \<open>A machine whose slot 3 holds process 2, asleep on the tick counter.\<close>

definition one_sleeper :: proc_st where
  "one_sleeper = boot_proc\<lparr>nextpid := 3,
     ptable := (replicate 64 zero_proc)[3 := zero_proc\<lparr>p_state := SLEEPING, p_pid := 2, p_chan := ChanTicks\<rparr>]\<rparr>"

section \<open>Lemmas\<close>

lemma upd_proc_sel [simp]:
  "mem (upd_proc i f s) = mem s" "freelist (upd_proc i f s) = freelist s" "kend (upd_proc i f s) = kend s"
  "initproc (upd_proc i f s) = initproc s" "nextpid (upd_proc i f s) = nextpid s"
  "curproc (upd_proc i f s) = curproc s" "length (ptable (upd_proc i f s)) = length (ptable s)"
  "forkret_addr (upd_proc i f s) = forkret_addr s" "trapret_addr (upd_proc i f s) = trapret_addr s"
  "proc_st.more (upd_proc i f s) = proc_st.more s"
  by (simp_all add: upd_proc_def)

lemma ptable_upd_proc: "ptable (upd_proc i f s) = (ptable s)[i := f (ptable s ! i)]"
  by (simp add: upd_proc_def)

lemma nth_upd_proc [simp]:
  "i < length (ptable s) \<Longrightarrow> ptable (upd_proc i f s) ! j = (if j = i then f (ptable s ! i) else ptable s ! j)"
  by (simp add: upd_proc_def nth_list_update)

lemma find_unused_Some: "find_unused t = Some i \<Longrightarrow> i < NPROC \<and> p_state (t ! i) = UNUSED"
  unfolding find_unused_def by (drule find_upt_SomeD) simp

lemma find_unused_None: "find_unused t = None \<Longrightarrow> i < NPROC \<Longrightarrow> p_state (t ! i) \<noteq> UNUSED"
  unfolding find_unused_def by (drule find_upt_NoneD)

lemma free_pages_cong:
  "mem s' = mem s \<Longrightarrow> freelist s' = freelist s \<Longrightarrow> kend s' = kend s \<Longrightarrow> free_pages s' xs = free_pages s xs"
  by (simp add: free_pages_def)

lemma wakeup1_nth:
  "i < length (ptable s) \<Longrightarrow> wakeup1 c s = Ret () s' \<Longrightarrow>
     ptable s' ! i = (if p_state (ptable s ! i) = SLEEPING \<and> p_chan (ptable s ! i) = c
                      then (ptable s ! i)\<lparr>p_state := RUNNABLE\<rparr> else ptable s ! i)"
  by (auto simp: wakeup1_def modify_def)

definition pid_inv :: "'a proc_st_scheme \<Rightarrow> bool" where
  "pid_inv s \<longleftrightarrow> length (ptable s) = NPROC \<and> 0 < nextpid s
     \<and> (\<forall>i<NPROC. p_state (ptable s ! i) \<noteq> UNUSED \<longrightarrow> 0 < p_pid (ptable s ! i) \<and> p_pid (ptable s ! i) < nextpid s)
     \<and> (\<forall>i<NPROC. \<forall>j<NPROC. p_state (ptable s ! i) \<noteq> UNUSED \<longrightarrow> p_state (ptable s ! j) \<noteq> UNUSED
          \<longrightarrow> p_pid (ptable s ! i) = p_pid (ptable s ! j) \<longrightarrow> i = j)"

lemma pid_inv_length [simp]: "pid_inv s \<Longrightarrow> length (ptable s) = NPROC"
  by (simp add: pid_inv_def)

lemma pid_inv_next: "pid_inv s \<Longrightarrow> 0 < nextpid s"
  by (simp add: pid_inv_def)

lemma pid_inv_used:
  "pid_inv s \<Longrightarrow> i < NPROC \<Longrightarrow> p_state (ptable s ! i) \<noteq> UNUSED \<Longrightarrow>
     0 < p_pid (ptable s ! i) \<and> p_pid (ptable s ! i) < nextpid s"
  by (simp add: pid_inv_def)

lemma pid_inv_inj:
  "pid_inv s \<Longrightarrow> i < NPROC \<Longrightarrow> j < NPROC \<Longrightarrow> p_state (ptable s ! i) \<noteq> UNUSED \<Longrightarrow>
     p_state (ptable s ! j) \<noteq> UNUSED \<Longrightarrow> p_pid (ptable s ! i) = p_pid (ptable s ! j) \<Longrightarrow> i = j"
  by (simp add: pid_inv_def)

text \<open>Changing slots without giving a used slot a new pid keeps the invariant.\<close>

lemma pid_inv_mono:
  assumes "pid_inv s" "length (ptable s') = NPROC" "nextpid s \<le> nextpid s'"
    and "\<And>i. i < NPROC \<Longrightarrow> p_state (ptable s' ! i) \<noteq> UNUSED \<Longrightarrow>
      p_state (ptable s ! i) \<noteq> UNUSED \<and> p_pid (ptable s' ! i) = p_pid (ptable s ! i)"
  shows "pid_inv s'"
  unfolding pid_inv_def
proof (intro conjI allI impI)
  show "length (ptable s') = NPROC" by fact
  show "0 < nextpid s'" using pid_inv_next [OF assms(1)] assms(3) by simp
  fix i assume i: "i < NPROC" "p_state (ptable s' ! i) \<noteq> UNUSED"
  note a = assms(4) [OF i]
  then have "0 < p_pid (ptable s ! i)" "p_pid (ptable s ! i) < nextpid s"
    using pid_inv_used [OF assms(1) i(1)] by simp_all
  then show "0 < p_pid (ptable s' ! i)" "p_pid (ptable s' ! i) < nextpid s'"
    using a assms(3) by simp_all
  fix j assume j: "j < NPROC" "p_state (ptable s' ! j) \<noteq> UNUSED" "p_pid (ptable s' ! i) = p_pid (ptable s' ! j)"
  have "p_state (ptable s ! j) \<noteq> UNUSED" "p_pid (ptable s ! i) = p_pid (ptable s ! j)"
    using assms(4) [OF j(1,2)] a j(3) by auto
  then show "i = j" using pid_inv_inj [OF assms(1) i(1) j(1)] a by simp
qed

lemma pid_inv_fresh:
  assumes "pid_inv s" "i < NPROC" "p_state (ptable s ! i) = UNUSED"
    and "ptable s' = (ptable s)[i := q]" "p_pid q = nextpid s" "nextpid s' = nextpid s + 1"
  shows "pid_inv s'"
proof -
  have n: "ptable s' ! j = (if j = i then q else ptable s ! j)" if "j < NPROC" for j
    using assms that by (simp add: nth_list_update)
  note old = pid_inv_used [OF assms(1)] and inj = pid_inv_inj [OF assms(1)]
  show ?thesis
    unfolding pid_inv_def
  proof (intro conjI allI impI)
    show "length (ptable s') = NPROC" using assms by simp
    show "0 < nextpid s'" using pid_inv_next [OF assms(1)] assms(6) by simp
    fix j assume j: "j < NPROC" "p_state (ptable s' ! j) \<noteq> UNUSED"
    show "0 < p_pid (ptable s' ! j)" "p_pid (ptable s' ! j) < nextpid s'"
      using j old [of j] n [of j] assms(5,6) pid_inv_next [OF assms(1)] by (cases "j = i"; simp)+
    fix k assume k: "k < NPROC" "p_state (ptable s' ! k) \<noteq> UNUSED" "p_pid (ptable s' ! j) = p_pid (ptable s' ! k)"
    show "j = k"
      using j k n [of j] n [of k] old [of j] old [of k] inj [of j k] assms(5)
      by (cases "j = i"; cases "k = i") simp_all
  qed
qed

lemma kalloc_frame:
  "kalloc s = Ret r s' \<Longrightarrow> s' = s\<lparr>freelist := freelist s'\<rparr>"
  by (auto simp: kalloc_def bnd_def gets_def seqp_def whenp_def ret_def modify_def split: if_splits)

section \<open>Properties of the table operations\<close>

lemma upd_proc_upd_proc:
  "i < length (ptable s) \<Longrightarrow> upd_proc i f (upd_proc i g s) = upd_proc i (f \<circ> g) s"
  by (simp add: upd_proc_def)

lemma allocproc_found:
  fixes s :: "'a proc_st_scheme"
  assumes "pid_inv s" "free_pages s (k # xs)" "find_unused (ptable s) = Some i"
  shows "\<exists>s'. allocproc s = Ret (Some i) s' \<and> pid_inv s' \<and> free_pages s' xs
    \<and> nextpid s' = nextpid s + 1
    \<and> ptable s' = (ptable s)[i := (ptable s ! i)\<lparr>p_state := EMBRYO, p_pid := nextpid s, p_kstack := k,
          p_tfp := k + 4020, p_retaddr := trapret_addr s, p_contextp := k + 3996,
          p_context := \<lparr>c_edi = 0, c_esi = 0, c_ebx = 0, c_ebp = 0, c_eip = forkret_addr s\<rparr>\<rparr>]
    \<and> mem s' = mem s"
proof -
  have i: "i < NPROC" "p_state (ptable s ! i) = UNUSED"
    using find_unused_Some [OF assms(3)] by auto
  have k: "k \<noteq> 0" using assms(2) by (auto simp: free_pages_def page_ok_nonzero)
  let ?s1 = "(upd_proc i (\<lambda>q. q\<lparr>p_state := EMBRYO, p_pid := nextpid s\<rparr>) s)\<lparr>nextpid := nextpid s + 1\<rparr>"
  have "free_pages ?s1 (k # xs)" using assms(2) by (auto simp: free_pages_def)
  from kalloc_page [OF this]
  have ka: "kalloc ?s1 = Ret k (?s1\<lparr>freelist := load32 (mem s) k\<rparr>)"
    and fp: "free_pages (?s1\<lparr>freelist := load32 (mem s) k\<rparr>) xs" by simp_all
  define s' where "s' = s\<lparr>nextpid := nextpid s + 1, freelist := load32 (mem s) k,
    ptable := (ptable s)[i := (ptable s ! i)\<lparr>p_state := EMBRYO,
      p_pid := nextpid s, p_kstack := k, p_tfp := k + 4020, p_retaddr := trapret_addr s, p_contextp := k + 3996,
      p_context := \<lparr>c_edi = 0, c_esi = 0, c_ebx = 0, c_ebp = 0, c_eip = forkret_addr s\<rparr>\<rparr>]\<rparr>"
  have "allocproc s = Ret (Some i) s'"
    using assms(1,3) i(1) k ka
    by (simp add: allocproc_def bnd_def seqp_def modify_def gets_def ret_def s'_def Let_def upd_proc_def add.commute)
  moreover have "pid_inv s'"
    by (rule pid_inv_fresh [OF assms(1) i]) (auto simp: s'_def)
  moreover have "free_pages s' xs"
    using fp by (simp add: free_pages_def s'_def)
  ultimately show ?thesis by (simp add: s'_def)
qed

lemma allocproc_no_slot:
  "find_unused (ptable s) = None \<Longrightarrow> allocproc s = Ret None s"
  by (simp add: allocproc_def bnd_def gets_def ret_def)

lemma allocproc_no_memory:
  assumes "pid_inv s" "free_pages s []" "find_unused (ptable s) = Some i"
  shows "allocproc s = Ret None (s\<lparr>nextpid := nextpid s + 1,
      ptable := (ptable s)[i := (ptable s ! i)\<lparr>p_pid := nextpid s, p_kstack := 0\<rparr>]\<rparr>)"
proof -
  have i: "i < NPROC" "p_state (ptable s ! i) = UNUSED"
    using find_unused_Some [OF assms(3)] by auto
  let ?s1 = "(upd_proc i (\<lambda>q. q\<lparr>p_state := EMBRYO, p_pid := nextpid s\<rparr>) s)\<lparr>nextpid := nextpid s + 1\<rparr>"
  have "free_pages ?s1 []" using assms(2) by (simp add: free_pages_def)
  from kalloc_empty [OF this] have ka: "kalloc ?s1 = Ret 0 ?s1" .
  have "(ptable s ! i)\<lparr>p_pid := nextpid s, p_kstack := 0, p_state := UNUSED\<rparr>
      = (ptable s ! i)\<lparr>p_pid := nextpid s, p_kstack := 0\<rparr>"
    using i(2) by (cases "ptable s ! i") simp
  then show ?thesis using assms(1,3) i(1) ka
    by (simp add: allocproc_def bnd_def seqp_def modify_def gets_def ret_def upd_proc_def)
qed


lemma pid_inv_boot_proc: "pid_inv boot_proc"
  by (simp add: pid_inv_def boot_proc_def zero_proc_def)

lemma load32_zero: "load32 (\<lambda>_. 0) a = 0"
  by (simp add: load32_def)

lemma free_pages_boot_proc: "free_pages boot_proc [0x80200000]"
  by (simp add: free_pages_def boot_proc_def page_ok_def V2P_def load32_zero)




lemma kill_found:
  assumes "length (ptable s) = NPROC" "find (\<lambda>i. p_pid (ptable s ! i) = pid) [0..<NPROC] = Some i"
  shows "kill pid s = Ret 0 (upd_proc i (\<lambda>p. p\<lparr>p_killed := True,
      p_state := (if p_state p = SLEEPING then RUNNABLE else p_state p)\<rparr>) s)"
proof -
  have "i < NPROC" using find_upt_SomeD [OF assms(2)] by simp
  with assms show ?thesis
    by (simp add: kill_def bnd_def gets_def seqp_def modify_def ret_def upd_proc_def)
qed

lemma find_pid_unique:
  assumes "pid_inv s" "i < NPROC" "p_state (ptable s ! i) \<noteq> UNUSED"
    and "\<And>j. j < NPROC \<Longrightarrow> p_state (ptable s ! j) = UNUSED \<Longrightarrow> p_pid (ptable s ! j) \<noteq> p_pid (ptable s ! i)"
  shows "find (\<lambda>j. p_pid (ptable s ! j) = p_pid (ptable s ! i)) [0..<NPROC] = Some i"
proof -
  obtain j where j: "find (\<lambda>j. p_pid (ptable s ! j) = p_pid (ptable s ! i)) [0..<NPROC] = Some j"
    using assms(2) find_upt_NoneD [of "\<lambda>j. p_pid (ptable s ! j) = p_pid (ptable s ! i)" NPROC i]
    by (cases "find (\<lambda>j. p_pid (ptable s ! j) = p_pid (ptable s ! i)) [0..<NPROC]") auto
  note jD = find_upt_SomeD [OF j]
  have "p_state (ptable s ! j) \<noteq> UNUSED" using assms(4) [of j] jD by auto
  then have "j = i" using pid_inv_inj [OF assms(1), of j i] jD assms(2,3) by simp
  with j show ?thesis by simp
qed

text \<open>
  \<^verbatim>\<open>kill\<close> of a live process marks exactly that process and, if it sleeps, makes it
  runnable, so that it gets to the check of \<^verbatim>\<open>killed\<close> on its way to user space; \<^verbatim>\<open>kill\<close> of a
  pid nobody has fails and changes nothing.  The hypothesis on unused slots says that no stale
  pid is the one asked for.
\<close>

theorem kill_marks_target:
  fixes s :: "'a proc_st_scheme"
  assumes "pid_inv s"
    and "\<forall>j<NPROC. p_state (ptable s ! j) = UNUSED \<longrightarrow> p_pid (ptable s ! j) \<noteq> pid"
  shows "(\<forall>i<NPROC. p_state (ptable s ! i) \<noteq> UNUSED \<longrightarrow> p_pid (ptable s ! i) = pid \<longrightarrow>
      (\<exists>s'. kill pid s = Ret 0 s' \<and> pid_inv s' \<and> p_killed (ptable s' ! i) \<and> p_state (ptable s' ! i) \<noteq> SLEEPING
         \<and> p_pid (ptable s' ! i) = pid \<and> (\<forall>j<NPROC. j \<noteq> i \<longrightarrow> ptable s' ! j = ptable s ! j)))
    \<and> ((\<forall>i<NPROC. p_pid (ptable s ! i) \<noteq> pid) \<longrightarrow> kill pid s = Ret (-1) s)"
proof (intro conjI allI impI)
  fix i assume i: "i < NPROC" "p_state (ptable s ! i) \<noteq> UNUSED" "p_pid (ptable s ! i) = pid"
  let ?s' = "upd_proc i (\<lambda>p. p\<lparr>p_killed := True, p_state := (if p_state p = SLEEPING then RUNNABLE else p_state p)\<rparr>) s"
  have "find (\<lambda>j. p_pid (ptable s ! j) = pid) [0..<NPROC] = Some i"
    using find_pid_unique [OF assms(1) i(1,2)] assms(2) i(3) by simp
  then have "kill pid s = Ret 0 ?s'" using assms(1) by (simp add: kill_found)
  moreover have "pid_inv ?s'"
    by (rule pid_inv_mono [OF assms(1)]) (use assms(1) i in \<open>auto split: if_splits\<close>)
  ultimately show "\<exists>s'. kill pid s = Ret 0 s' \<and> pid_inv s' \<and> p_killed (ptable s' ! i) \<and> p_state (ptable s' ! i) \<noteq> SLEEPING
         \<and> p_pid (ptable s' ! i) = pid \<and> (\<forall>j<NPROC. j \<noteq> i \<longrightarrow> ptable s' ! j = ptable s ! j)"
    using assms(1) i by (intro exI [of _ ?s']) simp
next
  assume "\<forall>i<NPROC. p_pid (ptable s ! i) \<noteq> pid"
  then have "find (\<lambda>i. p_pid (ptable s ! i) = pid) [0..<NPROC] = None"
    by (simp add: find_None_iff)
  then show "kill pid s = Ret (-1) s" by (simp add: kill_def bnd_def gets_def ret_def)
qed

lemma pid_inv_one_sleeper: "pid_inv one_sleeper"
  by (auto simp: pid_inv_def one_sleeper_def zero_proc_def nth_list_update split: if_splits)

theorem kill_marks_target_witness:
  "\<exists>s'. kill 2 one_sleeper = Ret 0 s' \<and> pid_inv s' \<and> p_killed (ptable s' ! 3) \<and> p_state (ptable s' ! 3) \<noteq> SLEEPING"
proof -
  have "\<forall>j<NPROC. p_state (ptable one_sleeper ! j) = UNUSED \<longrightarrow> p_pid (ptable one_sleeper ! j) \<noteq> 2"
    by (auto simp: one_sleeper_def zero_proc_def nth_list_update)
  note k = kill_marks_target [OF pid_inv_one_sleeper this, THEN conjunct1, rule_format, of 3]
  have "p_state (ptable one_sleeper ! 3) = SLEEPING" "p_pid (ptable one_sleeper ! 3) = 2"
    by (simp_all add: one_sleeper_def)
  with k show ?thesis by auto
qed

text \<open>
  C33. A defect of \<^verbatim>\<open>kill\<close>: it does not look at the state of a slot, and an unused slot has
  pid 0, so \<^verbatim>\<open>kill(0)\<close> succeeds on the first unused slot and leaves \<^verbatim>\<open>killed\<close> set there.
  \<^verbatim>\<open>allocproc\<close> does not clear the flag: the next process to be created in the slot is born
  killed, although nobody ever asked for its death.
\<close>

theorem kill_0_poisons_next_process:
  fixes s :: "'a proc_st_scheme"
  assumes "pid_inv s" "free_pages s (k # xs)" "i < NPROC" "p_state (ptable s ! i) = UNUSED" "p_pid (ptable s ! i) = 0"
    and "\<forall>j<i. p_state (ptable s ! j) \<noteq> UNUSED"
  shows "\<exists>s1 s2. kill 0 s = Ret 0 s1 \<and> allocproc s1 = Ret (Some i) s2
    \<and> p_state (ptable s2 ! i) = EMBRYO \<and> p_pid (ptable s2 ! i) = nextpid s \<and> p_killed (ptable s2 ! i)"
proof -
  let ?s1 = "upd_proc i (\<lambda>p. p\<lparr>p_killed := True, p_state := (if p_state p = SLEEPING then RUNNABLE else p_state p)\<rparr>) s"
  have "find (\<lambda>i. p_pid (ptable s ! i) = 0) [0..<NPROC] = Some i"
  proof (rule find_upt_SomeI)
    show "p_pid (ptable s ! j) \<noteq> 0" if "j < i" for j
      using pid_inv_used [OF assms(1), of j] assms(3,6) that by auto
  qed (use assms in simp_all)
  then have k: "kill 0 s = Ret 0 ?s1" using assms(1) by (simp add: kill_found)
  have inv: "pid_inv ?s1"
    by (rule pid_inv_mono [OF assms(1)]) (use assms in \<open>auto split: if_splits\<close>)
  have fp: "free_pages ?s1 (k # xs)" using assms(2) by (simp add: free_pages_cong [of ?s1 s])
  have "find_unused (ptable ?s1) = Some i"
    unfolding find_unused_def using assms(1,3,4,6) by (intro find_upt_SomeI) simp_all
  from allocproc_found [OF inv fp this] obtain s2 where
    "allocproc ?s1 = Ret (Some i) s2" "ptable s2 = (ptable ?s1)[i := (ptable ?s1 ! i)\<lparr>p_state := EMBRYO,
       p_pid := nextpid ?s1, p_kstack := k, p_tfp := k + 4020, p_retaddr := trapret_addr ?s1, p_contextp := k + 3996,
       p_context := \<lparr>c_edi = 0, c_esi = 0, c_ebx = 0, c_ebp = 0, c_eip = forkret_addr ?s1\<rparr>\<rparr>]"
    by blast
  with k show ?thesis using assms(1,3) by (intro exI [of _ ?s1] exI [of _ s2]) simp
qed

theorem kill_0_poisons_next_process_witness:
  "\<exists>s1 s2. kill 0 boot_proc = Ret 0 s1 \<and> allocproc s1 = Ret (Some 0) s2 \<and> p_killed (ptable s2 ! 0)"
  using kill_0_poisons_next_process [OF pid_inv_boot_proc free_pages_boot_proc, of 0]
  by (auto simp: boot_proc_def zero_proc_def)

section \<open>One pass of the scheduler\<close>

text \<open>
  A pass run with a process body that records who ran.  The record is a list kept in an
  extension of the state; the body must give the CPU back, not touch the record and not
  take another runnable process off the run queue.
\<close>

record trace_st = proc_st +
  ran_log :: "nat list"

definition traced :: "(nat \<Rightarrow> ('a trace_st_scheme, unit) prog) \<Rightarrow> nat \<Rightarrow> ('a trace_st_scheme, unit) prog" where
  "traced run p = seqp (modify (\<lambda>s. s\<lparr>ran_log := ran_log s @ [p]\<rparr>)) (run p)"

definition runnable :: "'a proc_st_scheme \<Rightarrow> nat \<Rightarrow> bool" where
  "runnable s i \<longleftrightarrow> i < NPROC \<and> p_state (ptable s ! i) = RUNNABLE"

definition table_ok :: "'a proc_st_scheme \<Rightarrow> bool" where
  "table_ok s \<longleftrightarrow> length (ptable s) = NPROC \<and> (\<forall>i<NPROC. p_state (ptable s ! i) = RUNNABLE \<longrightarrow>
     p_kstack (ptable s ! i) \<noteq> 0 \<and> p_pgdir (ptable s ! i) \<noteq> 0)"

definition fair_body :: "(nat \<Rightarrow> ('a trace_st_scheme, unit) prog) \<Rightarrow> bool" where
  "fair_body run \<longleftrightarrow> (\<forall>p s. table_ok s \<longrightarrow> p < NPROC \<longrightarrow> wp (run p)
     (\<lambda>_ s'. table_ok s' \<and> ran_log s' = ran_log s \<and> (\<forall>j. j \<noteq> p \<longrightarrow> runnable s j \<longrightarrow> runnable s' j)) s)"

lemma table_ok_sel [simp]:
  "table_ok (s\<lparr>curproc := c\<rparr>) = table_ok s" "table_ok ((s' :: 'a trace_st_scheme)\<lparr>ran_log := r\<rparr>) = table_ok s'"
  "runnable (s\<lparr>curproc := c\<rparr>) i = runnable s i" "runnable ((s' :: 'a trace_st_scheme)\<lparr>ran_log := r\<rparr>) i = runnable s' i"
  by (simp_all add: table_ok_def runnable_def)

lemma dispatch_wp:
  fixes s :: "'a trace_st_scheme"
  assumes "table_ok s" "runnable s p"
  shows "wp (dispatch p) (\<lambda>_ s'. table_ok s' \<and> ran_log s' = ran_log s \<and> p_state (ptable s' ! p) = RUNNING
    \<and> curproc s' = Some p \<and> (\<forall>j. j \<noteq> p \<longrightarrow> runnable s j \<longrightarrow> runnable s' j)) s"
proof -
  have p: "p < NPROC" "p < length (ptable s)" "p_kstack (ptable s ! p) \<noteq> 0" "p_pgdir (ptable s ! p) \<noteq> 0"
    using assms by (auto simp: table_ok_def runnable_def)
  have "ran_log (upd_proc p f t) = ran_log t" for f and t :: "'a trace_st_scheme"
    by (simp add: upd_proc_def)
  with p assms(1) show ?thesis
    by (auto simp: dispatch_def switchuvm_def prog_simps table_ok_def runnable_def)
qed

definition pass_inv :: "'a trace_st_scheme \<Rightarrow> nat list \<Rightarrow> 'a trace_st_scheme \<Rightarrow> bool" where
  "pass_inv s0 xs s \<longleftrightarrow> table_ok s \<and> (\<exists>ys new. ys @ xs = [0..<NPROC] \<and> ran_log s = ran_log s0 @ new
     \<and> sorted new \<and> distinct new \<and> set new \<subseteq> set ys \<and> (\<forall>j\<in>set ys. runnable s0 j \<longrightarrow> j \<in> set new)
     \<and> (\<forall>j\<in>set xs. runnable s0 j \<longrightarrow> runnable s j))"

lemma split_upt:
  assumes "ys @ x # xs = [0..<n]"
  shows "ys = [0..<x]" "x < n" "xs = [Suc x..<n]"
proof -
  have "length ys < n" using arg_cong [OF assms, of length] by simp
  moreover have "[0..<n] ! length ys = x" by (simp flip: assms)
  ultimately have x: "length ys = x" "x < n" by auto
  have "[0..<n] = [0..<x] @ x # [Suc x..<n]"
    using x(2) upt_add_eq_append [of 0 x "n - x"] by (simp add: upt_conv_Cons)
  with assms x(1) show "ys = [0..<x]" "xs = [Suc x..<n]" "x < n" using x(2)
    by (auto simp: append_eq_append_conv)
qed

lemma pass_inv_skip:
  "pass_inv s0 (x # xs) s \<Longrightarrow> \<not> runnable s x \<Longrightarrow> pass_inv s0 xs s"
  unfolding pass_inv_def
  by (elim conjE exE, intro conjI, assumption) (rule_tac x = "ys @ [x]" in exI, auto)

lemma pass_inv_run:
  assumes "pass_inv s0 (x # xs) s" "table_ok s'" "ran_log s' = ran_log s @ [x]"
    and "\<And>j. j \<noteq> x \<Longrightarrow> runnable s j \<Longrightarrow> runnable s' j"
  shows "pass_inv s0 xs s'"
proof -
  from assms(1) obtain ys new where I: "ys @ x # xs = [0..<NPROC]" "ran_log s = ran_log s0 @ new"
    "sorted new" "distinct new" "set new \<subseteq> set ys" "\<forall>j\<in>set ys. runnable s0 j \<longrightarrow> j \<in> set new"
    "\<forall>j\<in>set (x # xs). runnable s0 j \<longrightarrow> runnable s j"
    unfolding pass_inv_def by blast
  note u = split_upt [OF I(1)]
  have "sorted (new @ [x])" "distinct (new @ [x])"
    using I(3-5) u(1) by (auto simp: sorted_append)
  moreover have "\<forall>j\<in>set xs. runnable s0 j \<longrightarrow> runnable s' j"
    using I(7) u(3) assms(4) by auto
  ultimately show ?thesis
    unfolding pass_inv_def using assms(2,3) I
    by (intro conjI exI [of _ "ys @ [x]"] exI [of _ "new @ [x]"]) auto
qed


text \<open>A body for the witness: a process that runs and goes back to the run queue, as \<^verbatim>\<open>yield\<close> leaves it.\<close>

definition yield_body :: "nat \<Rightarrow> ('a proc_st_scheme, unit) prog" where
  "yield_body p = bnd (gets (\<lambda>s. ptable s ! p)) (\<lambda>q.
     whenp (p_kstack q \<noteq> 0 \<and> p_pgdir q \<noteq> 0) (modify (upd_proc p (\<lambda>q. q\<lparr>p_state := RUNNABLE\<rparr>))))"

lemma ran_log_upd_proc [simp]: "ran_log (upd_proc p f s) = ran_log s"
  by (simp add: upd_proc_def)

lemma fair_yield_body: "fair_body yield_body"
  by (auto simp: fair_body_def yield_body_def prog_simps table_ok_def runnable_def)

definition two_runnable :: trace_st where
  "two_runnable = proc_st.extend (boot_proc\<lparr>ptable := (replicate 64 zero_proc)
      [2 := zero_proc\<lparr>p_state := RUNNABLE, p_kstack := 0x80300000, p_pgdir := 0x80301000\<rparr>,
       5 := zero_proc\<lparr>p_state := RUNNABLE, p_kstack := 0x80302000, p_pgdir := 0x80303000\<rparr>]\<rparr>)
     (trace_st.fields [])"


section \<open>Exit\<close>

text \<open>What \<open>reparent\<close> has done to slot \<open>i\<close> of the table \<open>t\<close> once the slots in \<open>D\<close> are done.\<close>

definition dead_child :: "nat \<Rightarrow> proc list \<Rightarrow> nat set \<Rightarrow> bool" where
  "dead_child cp t D \<longleftrightarrow> (\<exists>j\<in>D. p_parent (t ! j) = Some cp \<and> p_state (t ! j) = ZOMBIE)"

definition reparented :: "nat \<Rightarrow> nat option \<Rightarrow> proc list \<Rightarrow> nat set \<Rightarrow> nat \<Rightarrow> proc" where
  "reparented cp ip t D i = (let p = t ! i;
       q = (if i \<in> D \<and> p_parent p = Some cp then p\<lparr>p_parent := ip\<rparr> else p)
     in if dead_child cp t D \<and> p_state p = SLEEPING \<and> p_chan p = proc_chan ip
        then q\<lparr>p_state := RUNNABLE\<rparr> else q)"

lemma dead_child_insert:
  "dead_child cp t (insert i D) \<longleftrightarrow> p_parent (t ! i) = Some cp \<and> p_state (t ! i) = ZOMBIE \<or> dead_child cp t D"
  by (auto simp: dead_child_def)

definition wake_on :: "chan \<Rightarrow> proc \<Rightarrow> proc" where
  "wake_on c p = (if p_state p = SLEEPING \<and> p_chan p = c then p\<lparr>p_state := RUNNABLE\<rparr> else p)"

lemma wakeup1_eq: "wakeup1 c s = Ret () (s\<lparr>ptable := map (wake_on c) (ptable s)\<rparr>)"
  by (simp add: wakeup1_def modify_def wake_on_def)

definition reparent_tab :: "nat \<Rightarrow> nat option \<Rightarrow> nat \<Rightarrow> proc list \<Rightarrow> proc list" where
  "reparent_tab cp ip i u = (if p_parent (u ! i) = Some cp then
       (let v = u[i := (u ! i)\<lparr>p_parent := ip\<rparr>] in
        if p_state (u ! i) = ZOMBIE then map (wake_on (proc_chan ip)) v else v) else u)"

lemma reparent_tab_nth:
  assumes "i \<notin> D" "i < length u" "j < length u"
    and "u ! i = reparented cp ip t D i" "u ! j = reparented cp ip t D j"
  shows "reparent_tab cp ip i u ! j = reparented cp ip t (insert i D) j"
proof (cases "p_parent (t ! i) = Some cp")
  case False
  then have "p_parent (u ! i) \<noteq> Some cp"
    using assms(1,4) by (simp add: reparented_def Let_def)
  then show ?thesis using False assms(1,5)
    by (cases "j = i") (simp_all add: reparent_tab_def reparented_def Let_def dead_child_insert)
next
  case True
  have i: "p_parent (u ! i) = Some cp" "p_state (u ! i) = ZOMBIE \<longleftrightarrow> p_state (t ! i) = ZOMBIE"
    using assms(1,4) True by (simp_all add: reparented_def Let_def)
  show ?thesis
  proof (cases "j = i")
    case True
    with i \<open>p_parent (t ! i) = Some cp\<close> assms show ?thesis
      by (simp add: reparent_tab_def reparented_def Let_def dead_child_insert wake_on_def)
  next
    case False
    with i \<open>p_parent (t ! i) = Some cp\<close> assms show ?thesis
      by (simp add: reparent_tab_def reparented_def Let_def dead_child_insert wake_on_def)
  qed
qed

lemma reparent_eq:
  "reparent cp s = Ret () (s\<lparr>ptable := fold (reparent_tab cp (initproc s)) [0..<NPROC] (ptable s)\<rparr>)"
proof -
  have "forp xs (\<lambda>i. bnd (gets (\<lambda>s. ptable s ! i)) (\<lambda>p. whenp (p_parent p = Some cp)
         (seqp (modify (upd_proc i (\<lambda>q. q\<lparr>p_parent := ip\<rparr>)))
          (whenp (p_state p = ZOMBIE) (wakeup1 (proc_chan ip)))))) t
      = Ret () (t\<lparr>ptable := fold (reparent_tab cp ip) xs (ptable t)\<rparr>)" for xs ip and t :: "'a proc_st_scheme"
    by (induction xs arbitrary: t)
      (simp_all add: bnd_def gets_def whenp_def seqp_def modify_def ret_def wakeup1_eq reparent_tab_def upd_proc_def)
  then show ?thesis by (simp add: reparent_def bnd_def gets_def)
qed

lemma fold_reparent_tab:
  "k \<le> length t \<Longrightarrow> length (fold (reparent_tab cp ip) [0..<k] t) = length t
     \<and> (\<forall>j<length t. fold (reparent_tab cp ip) [0..<k] t ! j = reparented cp ip t {..<k} j)"
proof (induction k)
  case 0
  then show ?case by (simp add: reparented_def dead_child_def Let_def)
next
  case (Suc k)
  let ?u = "fold (reparent_tab cp ip) [0..<k] t"
  have "length (reparent_tab cp ip k ?u) = length ?u" by (simp add: reparent_tab_def Let_def)
  moreover have "reparent_tab cp ip k ?u ! j = reparented cp ip t (insert k {..<k}) j" if "j < length t" for j
    by (rule reparent_tab_nth) (use Suc that in simp_all)
  ultimately show ?case using Suc by (simp add: lessThan_Suc)
qed

definition exited :: "nat \<Rightarrow> nat option \<Rightarrow> proc list \<Rightarrow> proc list" where
  "exited cp ip t = (let u = fold (reparent_tab cp ip) [0..<NPROC] (map (wake_on (proc_chan (p_parent (t ! cp)))) t)
     in u[cp := (u ! cp)\<lparr>p_state := ZOMBIE\<rparr>])"

lemma exit_table_eq:
  assumes "length (ptable s) = NPROC" "curproc s = Some cp" "cp < NPROC"
  shows "\<exists>c. exit_table s = Sleep c (s\<lparr>ptable := exited cp (initproc s) (ptable s)\<rparr>)"
proof -
  let ?u = "map (wake_on (proc_chan (p_parent (ptable s ! cp)))) (ptable s)"
  have "length (fold (reparent_tab cp (initproc s)) [0..<NPROC] ?u) = NPROC"
    using fold_reparent_tab [of NPROC ?u cp "initproc s"] assms(1) by simp
  then show ?thesis using assms
    by (simp add: exit_table_def myproc_def deref_def bnd_def gets_def seqp_def ret_def wakeup1_eq reparent_eq
        modify_def upd_proc_def sched_def exited_def Let_def)
qed

lemma wake_on_sel [simp]:
  "p_parent (wake_on c p) = p_parent p" "p_chan (wake_on c p) = p_chan p" "p_pid (wake_on c p) = p_pid p"
  "p_state (wake_on c p) = (if p_state p = SLEEPING \<and> p_chan p = c then RUNNABLE else p_state p)"
  by (simp_all add: wake_on_def)

lemma wake_on_ZOMBIE: "p_state (wake_on c p) = ZOMBIE \<longleftrightarrow> p_state p = ZOMBIE"
  by (simp add: wake_on_def)

lemma exited_nth:
  assumes "length t = NPROC" "cp < NPROC" "i < NPROC"
  defines "pc \<equiv> proc_chan (p_parent (t ! cp))"
  shows "exited cp ip t ! i = (if i = cp
      then (reparented cp ip (map (wake_on pc) t) {..<NPROC} i)\<lparr>p_state := ZOMBIE\<rparr>
      else reparented cp ip (map (wake_on pc) t) {..<NPROC} i)"
  using fold_reparent_tab [of NPROC "map (wake_on pc) t" cp ip] assms
  by (simp add: exited_def Let_def)

text \<open>
  C23. The table part of \<^verbatim>\<open>exit\<close> on a table with an \<^verbatim>\<open>init\<close>: it gives up the CPU for good with
  the process a zombie; every child of the process now has \<^verbatim>\<open>init\<close> as parent, so nobody's
  parent is the dead process; a parent asleep in \<^verbatim>\<open>wait\<close> is runnable, and so is \<^verbatim>\<open>init\<close> asleep in
  \<^verbatim>\<open>wait\<close> if it inherited a zombie: no zombie waits for a parent that sleeps on.
\<close>

theorem exit_hands_over:
  fixes s :: "'a proc_st_scheme"
  assumes "length (ptable s) = NPROC" "curproc s = Some cp" "cp < NPROC" "initproc s = Some ip" "ip \<noteq> cp"
  shows "\<exists>c s'. exit_table s = Sleep c s' \<and> p_state (ptable s' ! cp) = ZOMBIE
    \<and> (\<forall>i<NPROC. p_parent (ptable s' ! i) =
         (if p_parent (ptable s ! i) = Some cp then Some ip else p_parent (ptable s ! i)))
    \<and> (\<forall>i<NPROC. i \<noteq> cp \<longrightarrow> p_state (ptable s' ! i) =
         (if p_state (ptable s ! i) = SLEEPING \<and>
              (p_chan (ptable s ! i) = proc_chan (p_parent (ptable s ! cp)) \<or>
               p_chan (ptable s ! i) = ChanProc ip \<and> (\<exists>j<NPROC. p_parent (ptable s ! j) = Some cp \<and> p_state (ptable s ! j) = ZOMBIE))
          then RUNNABLE else p_state (ptable s ! i)))
    \<and> (\<forall>i<NPROC. p_pid (ptable s' ! i) = p_pid (ptable s ! i))"
proof -
  let ?pc = "proc_chan (p_parent (ptable s ! cp))"
  let ?t = "map (wake_on ?pc) (ptable s)"
  obtain c where e: "exit_table s = Sleep c (s\<lparr>ptable := exited cp (Some ip) (ptable s)\<rparr>)"
    using exit_table_eq [OF assms(1-3)] assms(4) by auto
  have dead: "dead_child cp ?t {..<NPROC} \<longleftrightarrow>
      (\<exists>j<NPROC. p_parent (ptable s ! j) = Some cp \<and> p_state (ptable s ! j) = ZOMBIE)"
    using assms(1) by (auto simp: dead_child_def wake_on_ZOMBIE simp del: wake_on_sel(4))
  have sel: "p_parent (exited cp (Some ip) (ptable s) ! i)
        = (if p_parent (ptable s ! i) = Some cp then Some ip else p_parent (ptable s ! i))"
      "p_pid (exited cp (Some ip) (ptable s) ! i) = p_pid (ptable s ! i)" if "i < NPROC" for i
    using that assms(1) by (simp_all add: exited_nth [OF assms(1,3) that] reparented_def Let_def)
  have st: "p_state (exited cp (Some ip) (ptable s) ! i) = (if i = cp then ZOMBIE else
        if p_state (ptable s ! i) = SLEEPING \<and> (p_chan (ptable s ! i) = ?pc \<or>
          p_chan (ptable s ! i) = ChanProc ip \<and> dead_child cp ?t {..<NPROC}) then RUNNABLE else p_state (ptable s ! i))"
      if "i < NPROC" for i
    using that assms(1) by (auto simp: exited_nth [OF assms(1,3) that] reparented_def Let_def proc_chan_def [of "Some ip"])
  show ?thesis
    unfolding e using sel st assms(3)
    by (intro exI [of _ c] exI [of _ "s\<lparr>ptable := exited cp (Some ip) (ptable s)\<rparr>"]) (simp add: dead)
qed

definition dying_child :: proc_st where
  "dying_child = boot_proc\<lparr>curproc := Some 1, initproc := Some 0, nextpid := 4, ptable := (replicate 64 zero_proc)
     [0 := zero_proc\<lparr>p_state := SLEEPING, p_pid := 1, p_chan := ChanProc 0\<rparr>,
      1 := zero_proc\<lparr>p_state := RUNNING, p_pid := 2, p_parent := Some 0\<rparr>,
      2 := zero_proc\<lparr>p_state := ZOMBIE, p_pid := 3, p_parent := Some 1\<rparr>]\<rparr>"

theorem exit_hands_over_witness:
  "\<exists>c s'. exit_table dying_child = Sleep c s' \<and> p_state (ptable s' ! 1) = ZOMBIE
     \<and> p_state (ptable s' ! 0) = RUNNABLE \<and> p_parent (ptable s' ! 2) = Some 0"
proof -
  have "p_state (ptable dying_child ! 0) = SLEEPING" "p_chan (ptable dying_child ! 0) = ChanProc 0"
    "p_parent (ptable dying_child ! 1) = Some 0" "p_parent (ptable dying_child ! 2) = Some 1"
    by (simp_all add: dying_child_def)
  moreover have "length (ptable dying_child) = NPROC" "curproc dying_child = Some 1" "initproc dying_child = Some 0"
    by (simp_all add: dying_child_def)
  note exit_hands_over [OF this(1,2) _ this(3)]
  ultimately show ?thesis by (auto simp: proc_chan_def)
qed

end
