(* ===== verification/Sem.thy ===== *)
theory Sem
  imports Proc
begin

text \<open>
  The system calls this repository adds to the kernel at the end of \<^verbatim>\<open>proc.c\<close>: the largest prime
  factor \<^verbatim>\<open>flpf\<close> and the semaphores \<^verbatim>\<open>sem_init\<close>, \<^verbatim>\<open>sem_acquire\<close> and \<^verbatim>\<open>sem_release\<close>; and the user
  program \<^verbatim>\<open>philosopher.c\<close>, five copies of which share the semaphores.  The philosophers run
  on the process table of the kernel model: a philosopher that finds a spoon taken is put to
  sleep by \<^verbatim>\<open>sleep\<close> and made runnable by \<^verbatim>\<open>wakeup\<close>, and their interleavings are a transition
  system.
\<close>

section \<open>The largest prime factor\<close>

text \<open>
  \<^verbatim>\<open>flpf\<close>: trial division, a loop with no evident bound, so a run that does not end is \<open>None\<close>.
  \<open>num\<close> and \<open>i\<close> are positive inside the loop, so C's \<^verbatim>\<open>%\<close> and \<^verbatim>\<open>/\<close> are \<open>mod\<close> and \<open>div\<close>.
\<close>

partial_function (option) flpf_loop :: "int \<Rightarrow> int \<Rightarrow> int option" where
  "flpf_loop num i =
     (if num > 1 then
        (if num mod i = 0 then flpf_loop (num div i) i
         else flpf_loop num (i + 1))
      else Some i)"

declare flpf_loop.simps [code]

definition flpf :: "int \<Rightarrow> int option" where
  "flpf num = flpf_loop num 2"

definition is_prime :: "int \<Rightarrow> bool" where
  "is_prime p \<longleftrightarrow> 1 < p \<and> (\<forall>d. 1 < d \<longrightarrow> d < p \<longrightarrow> \<not> d dvd p)"

section \<open>Semaphores\<close>

record semaphore =
  sem_val :: int
  sem_owner :: int
  sem_locked :: bool

record sem_st = proc_st +
  spoons :: "semaphore list"

definition upd_spoon :: "nat \<Rightarrow> (semaphore \<Rightarrow> semaphore) \<Rightarrow> 'a sem_st_scheme \<Rightarrow> 'a sem_st_scheme" where
  "upd_spoon i f s = s\<lparr>spoons := (spoons s)[i := f (spoons s ! i)]\<rparr>"

text \<open>
  \<^verbatim>\<open>spoons[i]\<close> with an index the caller chose.  No code checks it; an access outside the six
  entries reads and writes unrelated kernel memory, and the model stops there.
\<close>

definition spoon :: "int \<Rightarrow> ('a sem_st_scheme, nat) prog" where
  "spoon i = (if 0 \<le> i \<and> i < 6 then ret (nat i) else panic ''spoons index'')"

definition sem_init :: "int \<Rightarrow> int \<Rightarrow> ('a sem_st_scheme, int) prog" where
  "sem_init i v =
     bnd (spoon i) (\<lambda>n.
     bnd (gets (\<lambda>s. spoons s ! n)) (\<lambda>m.
     if sem_locked m then ret (-1)
     else seqp (modify (upd_spoon n (\<lambda>m. m\<lparr>sem_locked := True, sem_val := v, sem_owner := -1\<rparr>))) (ret 0)))"

definition sem_take :: "nat \<Rightarrow> ('a sem_st_scheme, int) prog" where
  "sem_take n = seqp (modify (upd_spoon n (\<lambda>m. m\<lparr>sem_owner := int n, sem_val := sem_val m - 1\<rparr>))) (ret 0)"

text \<open>
  The \<^verbatim>\<open>while\<close> loop of \<^verbatim>\<open>sem_acquire\<close> from its test on.  If the test holds the process sleeps; it
  runs \<open>sem_resume\<close> when it is woken and scheduled again.
\<close>

definition sem_wait :: "nat \<Rightarrow> ('a sem_st_scheme, int) prog" where
  "sem_wait n =
     bnd (gets (\<lambda>s. sem_val (spoons s ! n))) (\<lambda>v.
     if v < 1 then seqp (sleep (ChanSem n)) (ret 0) else sem_take n)"

definition sem_resume :: "nat \<Rightarrow> ('a sem_st_scheme, int) prog" where
  "sem_resume n = seqp sleep_resume (sem_wait n)"

definition sem_acquire :: "int \<Rightarrow> ('a sem_st_scheme, int) prog" where
  "sem_acquire i =
     bnd (spoon i) (\<lambda>n.
     bnd (gets (\<lambda>s. sem_val (spoons s ! n))) (\<lambda>v.
     if v > 0 then sem_take n else sem_wait n))"

definition sem_release :: "int \<Rightarrow> ('a sem_st_scheme, int) prog" where
  "sem_release i =
     bnd (spoon i) (\<lambda>n.
     seqp (modify (upd_spoon n (\<lambda>m. m\<lparr>sem_owner := -1, sem_val := sem_val m + 1\<rparr>)))
     (seqp (wakeup (ChanSem n))
      (ret 0)))"

section \<open>The dining philosophers\<close>

text \<open>
  The program of philosopher \<open>k\<close> as its sequence of system calls: lines 0 to 2 announce it,
  the loop is lines 3 to 14.  Printing and \<^verbatim>\<open>sleep(n)\<close> do not touch the semaphores.
\<close>

datatype phil_op = SemAcquire nat | SemRelease nat | Elsewhere

definition first_spoon :: "nat \<Rightarrow> nat" where
  "first_spoon k = (if k mod 2 = 0 then k else (k + 1) mod 5)"

definition second_spoon :: "nat \<Rightarrow> nat" where
  "second_spoon k = (if k mod 2 = 0 then (k + 1) mod 5 else k)"

definition philosopher :: "nat \<Rightarrow> nat \<Rightarrow> phil_op" where
  "philosopher k pc =
     (if pc = 0 then SemAcquire 5
      else if pc = 2 then SemRelease 5
      else if pc = 3 then SemAcquire (first_spoon k)
      else if pc = 4 then SemAcquire (second_spoon k)
      else if pc = 6 then SemAcquire 5
      else if pc = 8 then SemRelease 5
      else if pc = 9 then SemRelease ((k + 1) mod 5)
      else if pc = 10 then SemRelease k
      else if pc = 12 then SemAcquire 5
      else if pc = 14 then SemRelease 5
      else Elsewhere)"

definition next_pc :: "nat \<Rightarrow> nat" where
  "next_pc pc = (if pc = 14 then 3 else pc + 1)"

text \<open>The start of \<^verbatim>\<open>philosophers.c\<close>: six semaphores of value one.\<close>

definition philosophers_main :: "('a sem_st_scheme, unit) prog" where
  "philosophers_main = forp [0..<6] (\<lambda>i. bnd (sem_init (int i) 1) (\<lambda>_. ret ()))"

record phil_st = sem_st +
  phil_pc :: "nat list"

text \<open>Philosopher \<open>k\<close> runs in slot \<open>k + 3\<close>, after \<^verbatim>\<open>init\<close>, the shell and the parent.\<close>

definition slot :: "nat \<Rightarrow> nat" where
  "slot k = k + 3"

definition phil_exec :: "nat \<Rightarrow> ('a phil_st_scheme, int) prog" where
  "phil_exec k =
     bnd (gets (\<lambda>s. (philosopher k (phil_pc s ! k), p_chan (ptable s ! slot k)))) (\<lambda>(op, ch).
     case op of
       SemAcquire i \<Rightarrow> if ch = NoChan then sem_acquire (int i) else sem_resume i
     | SemRelease i \<Rightarrow> sem_release (int i)
     | Elsewhere \<Rightarrow> ret 0)"

text \<open>The scheduler gives the CPU to a philosopher that is not asleep.\<close>

definition on_cpu :: "nat \<Rightarrow> 'a phil_st_scheme \<Rightarrow> 'a phil_st_scheme" where
  "on_cpu k s = (upd_proc (slot k) (\<lambda>p. p\<lparr>p_state := RUNNING\<rparr>) s)\<lparr>curproc := Some (slot k)\<rparr>"

inductive phil_step :: "phil_st \<Rightarrow> phil_st \<Rightarrow> bool" where
  phil_done: "k < 5 \<Longrightarrow> p_state (ptable s ! slot k) \<noteq> SLEEPING \<Longrightarrow> phil_exec k (on_cpu k s) = Ret r t \<Longrightarrow>
    phil_step s (t\<lparr>phil_pc := (phil_pc t)[k := next_pc (phil_pc t ! k)]\<rparr>)"
| phil_blocked: "k < 5 \<Longrightarrow> p_state (ptable s ! slot k) \<noteq> SLEEPING \<Longrightarrow> phil_exec k (on_cpu k s) = Sleep c t \<Longrightarrow>
    phil_step s t"

inductive_cases phil_stepE: "phil_step s t"

text \<open>The initial states: the loader's zero semaphores after \<^verbatim>\<open>philosophers.c\<close> has set them up.\<close>

definition phil_init :: "phil_st \<Rightarrow> bool" where
  "phil_init s \<longleftrightarrow> (\<exists>s0. spoons s0 = replicate 6 \<lparr>sem_val = 0, sem_owner = 0, sem_locked = False\<rparr>
     \<and> philosophers_main s0 = Ret () s)
   \<and> length (ptable s) = NPROC \<and> phil_pc s = replicate 5 0
   \<and> (\<forall>k<5. p_state (ptable s ! slot k) = RUNNABLE \<and> p_chan (ptable s ! slot k) = NoChan)"

text \<open>The spoons philosopher \<open>k\<close> has when it is at line \<open>pc\<close>.\<close>

definition phil_holds :: "nat \<Rightarrow> nat \<Rightarrow> nat list" where
  "phil_holds k pc =
     (if pc \<in> {1, 2, 13, 14} then [5]
      else if pc = 4 then [first_spoon k]
      else if pc \<in> {5, 6, 9} then [first_spoon k, second_spoon k]
      else if pc \<in> {7, 8} then [first_spoon k, second_spoon k, 5]
      else if pc = 10 then [k]
      else [])"

definition holders :: "nat list \<Rightarrow> nat \<Rightarrow> nat" where
  "holders pcs i = (\<Sum>k<5. if i \<in> set (phil_holds k (pcs ! k)) then 1 else 0)"

definition phil_inv :: "phil_st \<Rightarrow> bool" where
  "phil_inv s \<longleftrightarrow> length (ptable s) = NPROC \<and> length (spoons s) = 6 \<and> length (phil_pc s) = 5
     \<and> (\<forall>k<5. phil_pc s ! k < 15)
     \<and> (\<forall>i<6. sem_val (spoons s ! i) + int (holders (phil_pc s) i) = 1 \<and> 0 \<le> sem_val (spoons s ! i))
     \<and> (\<forall>k<5. p_chan (ptable s ! slot k) \<noteq> NoChan \<longrightarrow>
          (\<exists>i<6. philosopher k (phil_pc s ! k) = SemAcquire i \<and> p_chan (ptable s ! slot k) = ChanSem i))
     \<and> (\<forall>k<5. p_state (ptable s ! slot k) = SLEEPING \<longrightarrow>
          (\<exists>i<6. p_chan (ptable s ! slot k) = ChanSem i \<and> sem_val (spoons s ! i) = 0))"

section \<open>The largest prime factor: correctness\<close>

lemma least_divisor_prime:
  "2 \<le> i \<Longrightarrow> i dvd num \<Longrightarrow> (\<And>d. 2 \<le> d \<Longrightarrow> d < i \<Longrightarrow> \<not> d dvd num) \<Longrightarrow> is_prime i"
  by (auto simp: is_prime_def dest: dvd_trans)

lemma prime_dvd_quotient:
  assumes "is_prime p" "p dvd i * m" "0 < i" "i < p"
  shows "p dvd m"
proof -
  have "gcd p i dvd p" "gcd p i dvd i" by simp_all
  moreover have "gcd p i \<le> i" using assms(3) by (simp add: gcd_le2_int)
  ultimately have "\<not> 1 < gcd p i" using assms(1,4) by (auto simp: is_prime_def)
  moreover have "0 < gcd p i" using assms(3) by (simp only: gcd_pos_int) simp
  ultimately have "gcd p i = 1" by linarith
  then have "coprime p i" by (simp only: coprime_iff_gcd_eq_1)
  then show ?thesis using assms(2) by (simp add: coprime_dvd_mult_right_iff)
qed

lemma flpf_loop_correct:
  assumes "1 \<le> num" "2 \<le> i" "\<And>d. 2 \<le> d \<Longrightarrow> d < i \<Longrightarrow> \<not> d dvd num"
  shows "\<exists>r. flpf_loop num i = Some r \<and> i \<le> r \<and> (num = 1 \<longrightarrow> r = i)
    \<and> (1 < num \<longrightarrow> is_prime r \<and> r dvd num \<and> (\<forall>p. is_prime p \<longrightarrow> p dvd num \<longrightarrow> p \<le> r))"
  using assms
proof (induction "nat num + nat (num - i)" arbitrary: num i rule: less_induct)
  case less
  show ?case
  proof (cases "1 < num")
    case False
    then show ?thesis using less.prems(1) by (simp add: flpf_loop.simps)
  next
    case True
    have le: "i \<le> num" using less.prems(3) [of num] True by force
    show ?thesis
    proof (cases "i dvd num")
      case False
      have "flpf_loop num i = flpf_loop num (i + 1)"
        using True False by (subst flpf_loop.simps) (simp add: dvd_eq_mod_eq_0)
      moreover have "i < num" using le False by (cases "i = num") auto
      moreover have "\<not> d dvd num" if "2 \<le> d" "d < i + 1" for d
        using less.prems(3) [of d] False that by (cases "d = i") auto
      ultimately show ?thesis using less.hyps [of num "i + 1"] less.prems(1,2) True by auto
    next
      case dvd: True
      define m where "m = num div i"
      have num: "num = i * m" using dvd by (simp add: m_def)
      have "0 < i * m" using True by (simp flip: num)
      then have m: "1 \<le> m" using less.prems(2) by (simp add: zero_less_mult_iff)
      have "2 * m \<le> num" using m less.prems(2) by (simp add: num mult_right_mono)
      then have "nat m + nat (m - i) < nat num + nat (num - i)" using m by linarith
      moreover have "\<not> d dvd m" if "2 \<le> d" "d < i" for d
        using less.prems(3) [OF that] by (auto simp: num)
      ultimately obtain r where r: "flpf_loop m i = Some r" "i \<le> r" "m = 1 \<longrightarrow> r = i"
        "1 < m \<longrightarrow> is_prime r \<and> r dvd m \<and> (\<forall>p. is_prime p \<longrightarrow> p dvd m \<longrightarrow> p \<le> r)"
        using less.hyps [of m i] m less.prems(2) by auto
      have "flpf_loop num i = Some r"
        using True dvd r(1) by (subst flpf_loop.simps) (simp add: dvd_eq_mod_eq_0 m_def)
      moreover have "is_prime i" using less.prems(2) dvd less.prems(3) by (rule least_divisor_prime)
      moreover have "p \<le> r" if "is_prime p" "p dvd num" for p
      proof (cases "p \<le> i")
        case False
        then have "p dvd m" using prime_dvd_quotient [of p i m] that less.prems(2) by (simp add: num)
        then show ?thesis using r that m False
          by (cases "m = 1") (auto simp: is_prime_def)
      qed (use r in simp)
      ultimately show ?thesis using r m True by (cases "m = 1") (auto simp: num)
    qed
  qed
qed

text \<open>
  C27. \<^verbatim>\<open>flpf\<close> ends on every argument.  For a number above one the result is prime, divides the
  number and is at least as large as every prime divisor of it; for any other argument the
  result is 2.
\<close>

theorem flpf_largest_prime_factor:
  "\<exists>r. flpf num = Some r \<and> (if 1 < num
     then is_prime r \<and> r dvd num \<and> (\<forall>p. is_prime p \<longrightarrow> p dvd num \<longrightarrow> p \<le> r) else r = 2)"
proof (cases "1 < num")
  case True
  then show ?thesis using flpf_loop_correct [of num 2] by (auto simp: flpf_def)
next
  case False
  then show ?thesis by (simp add: flpf_def flpf_loop.simps)
qed

theorem flpf_largest_prime_factor_witness: "flpf 60 = Some 5 \<and> is_prime 5 \<and> (5 :: int) dvd 60"
proof -
  have "flpf 60 = Some 5" by (simp add: flpf_def flpf_loop.simps)
  with flpf_largest_prime_factor [of 60] show ?thesis by auto
qed

section \<open>The philosophers: lemmas\<close>

lemmas prog_defs = bnd_def seqp_def gets_def modify_def ret_def panic_def

lemma proc_upd_comm: "p\<lparr>p_chan := c, p_state := x\<rparr> = p\<lparr>p_state := x, p_chan := c\<rparr>"
  by (cases p) simp

lemma on_cpu_sel [simp]:
  "spoons (on_cpu k s) = spoons s" "phil_pc (on_cpu k s) = phil_pc s" "curproc (on_cpu k s) = Some (slot k)"
  "ptable (on_cpu k s) = (ptable s)[slot k := (ptable s ! slot k)\<lparr>p_state := RUNNING\<rparr>]"
  by (simp_all add: on_cpu_def upd_proc_def)

lemma sleep_eq:
  assumes "curproc s = Some p" "p < length (ptable s)"
  shows "sleep c s = Sleep c (upd_proc p (\<lambda>q. q\<lparr>p_chan := c, p_state := SLEEPING\<rparr>) s)"
  using assms by (simp add: sleep_def myproc_def sched_def deref_def prog_defs)

lemma sem_wait_eq:
  assumes "curproc s = Some p" "p < length (ptable s)"
  shows "sem_wait n s = (if sem_val (spoons s ! n) < 1
     then Sleep (ChanSem n) (upd_proc p (\<lambda>q. q\<lparr>p_chan := ChanSem n, p_state := SLEEPING\<rparr>) s)
     else Ret 0 (upd_spoon n (\<lambda>m. m\<lparr>sem_owner := int n, sem_val := sem_val m - 1\<rparr>) s))"
  using assms by (simp add: sem_wait_def sem_take_def sleep_eq prog_defs)

lemma phil_exec_acquire:
  fixes s :: "'a phil_st_scheme"
  assumes "philosopher k (phil_pc s ! k) = SemAcquire i" "i < 6" "slot k < length (ptable s)"
  shows "if 0 < sem_val (spoons s ! i)
    then \<exists>r t. phil_exec k (on_cpu k s) = Ret r t \<and> phil_pc t = phil_pc s
      \<and> spoons t = (spoons s)[i := (spoons s ! i)\<lparr>sem_owner := int i, sem_val := sem_val (spoons s ! i) - 1\<rparr>]
      \<and> ptable t = (ptable s)[slot k := (ptable s ! slot k)\<lparr>p_state := RUNNING, p_chan := NoChan\<rparr>]
    else \<exists>c t. phil_exec k (on_cpu k s) = Sleep c t \<and> phil_pc t = phil_pc s \<and> spoons t = spoons s
      \<and> ptable t = (ptable s)[slot k := (ptable s ! slot k)\<lparr>p_state := SLEEPING, p_chan := ChanSem i\<rparr>]"
proof (cases "p_chan (ptable s ! slot k) = NoChan")
  case True
  have same: "(ptable s ! slot k)\<lparr>p_state := RUNNING, p_chan := NoChan\<rparr> = (ptable s ! slot k)\<lparr>p_state := RUNNING\<rparr>"
    using True by (cases "ptable s ! slot k") simp
  have "phil_exec k (on_cpu k s) = sem_acquire (int i) (on_cpu k s)"
    using assms True by (simp add: phil_exec_def prog_defs)
  also have "\<dots> = sem_wait i (on_cpu k s)"
    using assms(2,3) by (simp add: sem_acquire_def spoon_def prog_defs sem_wait_eq sem_take_def)
  finally show ?thesis using assms same by (simp add: sem_wait_eq upd_spoon_def upd_proc_def proc_upd_comm)
next
  case False
  have "phil_exec k (on_cpu k s) = sem_wait i (upd_proc (slot k) (\<lambda>q. q\<lparr>p_chan := NoChan\<rparr>) (on_cpu k s))"
    using assms False by (simp add: phil_exec_def sem_resume_def sleep_resume_def myproc_def deref_def prog_defs)
  then show ?thesis using assms by (simp add: sem_wait_eq upd_spoon_def upd_proc_def proc_upd_comm)
qed

lemma phil_exec_release:
  fixes s :: "'a phil_st_scheme"
  assumes "philosopher k (phil_pc s ! k) = SemRelease i" "i < 6" "slot k < length (ptable s)"
  shows "\<exists>r t. phil_exec k (on_cpu k s) = Ret r t \<and> phil_pc t = phil_pc s
      \<and> spoons t = (spoons s)[i := (spoons s ! i)\<lparr>sem_owner := -1, sem_val := sem_val (spoons s ! i) + 1\<rparr>]
      \<and> ptable t = map (wake_on (ChanSem i)) ((ptable s)[slot k := (ptable s ! slot k)\<lparr>p_state := RUNNING\<rparr>])"
  using assms by (simp add: phil_exec_def sem_release_def spoon_def wakeup_def wakeup1_eq prog_defs upd_spoon_def)

lemma phil_exec_elsewhere:
  "philosopher k (phil_pc s ! k) = Elsewhere \<Longrightarrow> phil_exec k (on_cpu k s) = Ret 0 (on_cpu k s)"
  by (simp add: phil_exec_def prog_defs)

text \<open>What each line of the program does to the set of spoons held, by running through all of them.\<close>

definition line_ok :: "nat \<Rightarrow> nat \<Rightarrow> bool" where
  "line_ok k pc \<longleftrightarrow> next_pc pc < 15 \<and> (\<forall>i\<in>set (phil_holds k pc). i < 6) \<and> (case philosopher k pc of
       SemAcquire i \<Rightarrow> i < 6 \<and> i \<notin> set (phil_holds k pc) \<and> set (phil_holds k (next_pc pc)) = insert i (set (phil_holds k pc))
     | SemRelease i \<Rightarrow> i < 6 \<and> i \<in> set (phil_holds k pc) \<and> set (phil_holds k (next_pc pc)) = set (phil_holds k pc) - {i}
     | Elsewhere \<Rightarrow> set (phil_holds k (next_pc pc)) = set (phil_holds k pc))"

lemma all_lines_ok: "\<forall>k\<in>set [0..<5]. \<forall>pc\<in>set [0..<15]. line_ok k pc"
  by code_simp

lemma line_okD: "k < 5 \<Longrightarrow> pc < 15 \<Longrightarrow> line_ok k pc"
  using all_lines_ok [unfolded set_upt, rule_format, of k pc] by simp

lemma holders_update:
  assumes "k < 5" "length pcs = 5"
  shows "int (holders (pcs[k := pc]) i) = int (holders pcs i)
    - (if i \<in> set (phil_holds k (pcs ! k)) then 1 else 0) + (if i \<in> set (phil_holds k pc) then 1 else 0)"
proof -
  let ?f = "\<lambda>pcs k. if i \<in> set (phil_holds k (pcs ! k)) then 1 else (0 :: nat)"
  have split: "holders p i = ?f p k + sum (?f p) ({..<5} - {k})" for p
    unfolding holders_def using assms(1) by (intro sum.remove) auto
  have "sum (?f (pcs[k := pc])) ({..<5} - {k}) = sum (?f pcs) ({..<5} - {k})"
    by (rule sum.cong) auto
  then show ?thesis using assms by (simp add: split [of pcs] split [of "pcs[k := pc]"])
qed

lemma slot_simps [simp]: "slot j = slot k \<longleftrightarrow> j = k" "k < 5 \<Longrightarrow> slot k < 64"
  by (simp_all add: slot_def)

lemma phil_invD:
  assumes "phil_inv s"
  shows "length (ptable s) = NPROC" "length (spoons s) = 6" "length (phil_pc s) = 5"
    "k < 5 \<Longrightarrow> phil_pc s ! k < 15"
    "i < 6 \<Longrightarrow> sem_val (spoons s ! i) + int (holders (phil_pc s) i) = 1"
    "i < 6 \<Longrightarrow> 0 \<le> sem_val (spoons s ! i)"
    "k < 5 \<Longrightarrow> p_chan (ptable s ! slot k) \<noteq> NoChan \<Longrightarrow>
       \<exists>i<6. philosopher k (phil_pc s ! k) = SemAcquire i \<and> p_chan (ptable s ! slot k) = ChanSem i"
    "k < 5 \<Longrightarrow> p_state (ptable s ! slot k) = SLEEPING \<Longrightarrow>
       \<exists>i<6. p_chan (ptable s ! slot k) = ChanSem i \<and> sem_val (spoons s ! i) = 0"
  using assms by (simp_all add: phil_inv_def)

lemma phil_invI:
  assumes "length (ptable s) = NPROC" "length (spoons s) = 6" "length (phil_pc s) = 5"
    "\<And>k. k < 5 \<Longrightarrow> phil_pc s ! k < 15"
    "\<And>i. i < 6 \<Longrightarrow> sem_val (spoons s ! i) + int (holders (phil_pc s) i) = 1 \<and> 0 \<le> sem_val (spoons s ! i)"
    "\<And>k. k < 5 \<Longrightarrow> p_chan (ptable s ! slot k) \<noteq> NoChan \<Longrightarrow>
       \<exists>i<6. philosopher k (phil_pc s ! k) = SemAcquire i \<and> p_chan (ptable s ! slot k) = ChanSem i"
    "\<And>k. k < 5 \<Longrightarrow> p_state (ptable s ! slot k) = SLEEPING \<Longrightarrow>
       \<exists>i<6. p_chan (ptable s ! slot k) = ChanSem i \<and> sem_val (spoons s ! i) = 0"
  shows "phil_inv s"
  using assms by (simp add: phil_inv_def)

lemma inv_take_spoon:
  assumes I: "phil_inv s" and k: "k < 5" and op: "philosopher k (phil_pc s ! k) = SemAcquire i" and i: "i < 6"
    and v: "0 < sem_val (spoons s ! i)"
    and t: "phil_pc t = (phil_pc s)[k := next_pc (phil_pc s ! k)]"
      "spoons t = (spoons s)[i := (spoons s ! i)\<lparr>sem_owner := int i, sem_val := sem_val (spoons s ! i) - 1\<rparr>]"
      "ptable t = (ptable s)[slot k := (ptable s ! slot k)\<lparr>p_state := RUNNING, p_chan := NoChan\<rparr>]"
  shows "phil_inv t"
proof (rule phil_invI)
  note D = phil_invD [OF I]
  have L: "line_ok k (phil_pc s ! k)" using k D(4) [OF k] by (rule line_okD)
  show "length (ptable t) = NPROC" "length (spoons t) = 6" "length (phil_pc t) = 5" using D(1-3) t by simp_all
  show "phil_pc t ! j < 15" if "j < 5" for j
    using D(3) D(4) [OF that] L k by (cases "j = k") (simp_all add: t line_ok_def)
  show "sem_val (spoons t ! n) + int (holders (phil_pc t) n) = 1 \<and> 0 \<le> sem_val (spoons t ! n)" if "n < 6" for n
    using D(2) D(5,6) [OF that] L op v by (auto simp: t holders_update [OF k D(3)] line_ok_def nth_list_update)
  show "\<exists>i<6. philosopher j (phil_pc t ! j) = SemAcquire i \<and> p_chan (ptable t ! slot j) = ChanSem i"
    if "j < 5" "p_chan (ptable t ! slot j) \<noteq> NoChan" for j
    using D(1,3) D(7) [OF that(1)] that k by (cases "j = k") (simp_all add: t)
  show "\<exists>i<6. p_chan (ptable t ! slot j) = ChanSem i \<and> sem_val (spoons t ! i) = 0"
    if "j < 5" "p_state (ptable t ! slot j) = SLEEPING" for j
    using D(1,2) D(8) [OF that(1)] that k v i by (cases "j = k") (auto simp: t nth_list_update split: if_splits)
qed

lemma inv_block:
  assumes I: "phil_inv s" and k: "k < 5" and op: "philosopher k (phil_pc s ! k) = SemAcquire i" and i: "i < 6"
    and v: "\<not> 0 < sem_val (spoons s ! i)"
    and t: "phil_pc t = phil_pc s" "spoons t = spoons s"
      "ptable t = (ptable s)[slot k := (ptable s ! slot k)\<lparr>p_state := SLEEPING, p_chan := ChanSem i\<rparr>]"
  shows "phil_inv t"
proof (rule phil_invI)
  note D = phil_invD [OF I]
  have v0: "sem_val (spoons s ! i) = 0" using v D(6) [OF i] by simp
  show "length (ptable t) = NPROC" "length (spoons t) = 6" "length (phil_pc t) = 5" using D(1-3) t by simp_all
  show "phil_pc t ! j < 15" if "j < 5" for j using D(4) [OF that] by (simp add: t)
  show "sem_val (spoons t ! n) + int (holders (phil_pc t) n) = 1 \<and> 0 \<le> sem_val (spoons t ! n)" if "n < 6" for n
    using D(5,6) [OF that] by (simp add: t)
  show "\<exists>i<6. philosopher j (phil_pc t ! j) = SemAcquire i \<and> p_chan (ptable t ! slot j) = ChanSem i"
    if "j < 5" "p_chan (ptable t ! slot j) \<noteq> NoChan" for j
    using D(1) D(7) [OF that(1)] that k op i by (cases "j = k") (simp_all add: t)
  show "\<exists>i<6. p_chan (ptable t ! slot j) = ChanSem i \<and> sem_val (spoons t ! i) = 0"
    if "j < 5" "p_state (ptable t ! slot j) = SLEEPING" for j
    using D(1) D(8) [OF that(1)] that k v0 i by (cases "j = k") (simp_all add: t)
qed

lemma inv_put_spoon:
  assumes I: "phil_inv s" and k: "k < 5" and op: "philosopher k (phil_pc s ! k) = SemRelease i" and i: "i < 6"
    and t: "phil_pc t = (phil_pc s)[k := next_pc (phil_pc s ! k)]"
      "spoons t = (spoons s)[i := (spoons s ! i)\<lparr>sem_owner := -1, sem_val := sem_val (spoons s ! i) + 1\<rparr>]"
      "ptable t = map (wake_on (ChanSem i)) ((ptable s)[slot k := (ptable s ! slot k)\<lparr>p_state := RUNNING\<rparr>])"
  shows "phil_inv t"
proof (rule phil_invI)
  note D = phil_invD [OF I]
  have L: "line_ok k (phil_pc s ! k)" using k D(4) [OF k] by (rule line_okD)
  have pt: "ptable t ! slot j = wake_on (ChanSem i) (if j = k then (ptable s ! slot k)\<lparr>p_state := RUNNING\<rparr> else ptable s ! slot j)"
    if "j < 5" for j using D(1) that k by (simp add: t)
  have ck: "p_chan (ptable s ! slot k) = NoChan"
    using D(7) [OF k] op by (cases "p_chan (ptable s ! slot k) = NoChan") auto
  show "length (ptable t) = NPROC" "length (spoons t) = 6" "length (phil_pc t) = 5" using D(1-3) t by simp_all
  show "phil_pc t ! j < 15" if "j < 5" for j
    using D(3) D(4) [OF that] L k by (cases "j = k") (simp_all add: t line_ok_def)
  show "sem_val (spoons t ! n) + int (holders (phil_pc t) n) = 1 \<and> 0 \<le> sem_val (spoons t ! n)" if "n < 6" for n
    using D(2) D(5,6) [OF that] L op by (auto simp: t holders_update [OF k D(3)] line_ok_def nth_list_update)
  show "\<exists>i<6. philosopher j (phil_pc t ! j) = SemAcquire i \<and> p_chan (ptable t ! slot j) = ChanSem i"
    if "j < 5" "p_chan (ptable t ! slot j) \<noteq> NoChan" for j
    using D(3) D(7) [OF that(1)] that(2) pt [OF that(1)] ck t(1) by (cases "j = k") simp_all
  show "\<exists>i<6. p_chan (ptable t ! slot j) = ChanSem i \<and> sem_val (spoons t ! i) = 0"
    if "j < 5" "p_state (ptable t ! slot j) = SLEEPING" for j
    using D(2) D(8) [OF that(1)] that(2) pt [OF that(1)] t(2)
    by (cases "j = k") (auto simp: nth_list_update split: if_splits)
qed

lemma inv_elsewhere:
  assumes I: "phil_inv s" and k: "k < 5" and op: "philosopher k (phil_pc s ! k) = Elsewhere"
    and t: "phil_pc t = (phil_pc s)[k := next_pc (phil_pc s ! k)]" "spoons t = spoons s"
      "ptable t = (ptable s)[slot k := (ptable s ! slot k)\<lparr>p_state := RUNNING\<rparr>]"
  shows "phil_inv t"
proof (rule phil_invI)
  note D = phil_invD [OF I]
  have L: "line_ok k (phil_pc s ! k)" using k D(4) [OF k] by (rule line_okD)
  have ck: "p_chan (ptable s ! slot k) = NoChan"
    using D(7) [OF k] op by (cases "p_chan (ptable s ! slot k) = NoChan") auto
  show "length (ptable t) = NPROC" "length (spoons t) = 6" "length (phil_pc t) = 5" using D(1-3) t by simp_all
  show "phil_pc t ! j < 15" if "j < 5" for j
    using D(3) D(4) [OF that] L k by (cases "j = k") (simp_all add: t line_ok_def)
  show "sem_val (spoons t ! n) + int (holders (phil_pc t) n) = 1 \<and> 0 \<le> sem_val (spoons t ! n)" if "n < 6" for n
    using D(5,6) [OF that] L op by (auto simp: t holders_update [OF k D(3)] line_ok_def)
  show "\<exists>i<6. philosopher j (phil_pc t ! j) = SemAcquire i \<and> p_chan (ptable t ! slot j) = ChanSem i"
    if "j < 5" "p_chan (ptable t ! slot j) \<noteq> NoChan" for j
    using D(1,3) D(7) [OF that(1)] that k ck by (cases "j = k") (simp_all add: t)
  show "\<exists>i<6. p_chan (ptable t ! slot j) = ChanSem i \<and> sem_val (spoons t ! i) = 0"
    if "j < 5" "p_state (ptable t ! slot j) = SLEEPING" for j
    using D(1) D(8) [OF that(1)] that k by (cases "j = k") (simp_all add: t)
qed

lemma phil_step_inv:
  assumes "phil_inv s" "phil_step s t"
  shows "phil_inv t"
  using assms(2)
proof cases
  case (phil_done k r u)
  note D = phil_invD [OF assms(1)]
  have L: "line_ok k (phil_pc s ! k)" using phil_done(2) D(4) by (intro line_okD)
  have sl: "slot k < length (ptable s)" using phil_done(2) D(1) by simp
  show ?thesis
  proof (cases "philosopher k (phil_pc s ! k)")
    case (SemAcquire i)
    then have i: "i < 6" using L by (simp add: line_ok_def)
    show ?thesis using phil_exec_acquire [OF SemAcquire i sl] phil_done
      inv_take_spoon [OF assms(1) phil_done(2) SemAcquire i, of t] by (auto split: if_splits)
  next
    case (SemRelease i)
    then have i: "i < 6" using L by (simp add: line_ok_def)
    show ?thesis using phil_exec_release [OF SemRelease i sl] phil_done
      inv_put_spoon [OF assms(1) phil_done(2) SemRelease i, of t] by auto
  next
    case Elsewhere
    show ?thesis using phil_exec_elsewhere [OF Elsewhere] phil_done
      inv_elsewhere [OF assms(1) phil_done(2) Elsewhere, of t] by auto
  qed
next
  case (phil_blocked k c)
  note D = phil_invD [OF assms(1)]
  have L: "line_ok k (phil_pc s ! k)" using phil_blocked(1) D(4) by (intro line_okD)
  have sl: "slot k < length (ptable s)" using phil_blocked(1) D(1) by simp
  show ?thesis
  proof (cases "philosopher k (phil_pc s ! k)")
    case (SemAcquire i)
    then have i: "i < 6" using L by (simp add: line_ok_def)
    show ?thesis using phil_exec_acquire [OF SemAcquire i sl] phil_blocked
      inv_block [OF assms(1) phil_blocked(1) SemAcquire i, of t] by (auto split: if_splits)
  next
    case (SemRelease i)
    then have i: "i < 6" using L by (simp add: line_ok_def)
    show ?thesis using phil_exec_release [OF SemRelease i sl] phil_blocked by auto
  next
    case Elsewhere
    show ?thesis using phil_exec_elsewhere [OF Elsewhere] phil_blocked by auto
  qed
qed

lemma philosophers_main_eq:
  assumes "spoons s = replicate 6 \<lparr>sem_val = 0, sem_owner = 0, sem_locked = False\<rparr>"
  shows "philosophers_main s = Ret () (s\<lparr>spoons := replicate 6 \<lparr>sem_val = 1, sem_owner = -1, sem_locked = True\<rparr>\<rparr>)"
  using assms
  by (simp add: philosophers_main_def upt_rec sem_init_def spoon_def prog_defs upd_spoon_def numeral_eq_Suc)

lemma phil_init_inv:
  assumes "phil_init s"
  shows "phil_inv s"
proof -
  have s: "spoons s = replicate 6 \<lparr>sem_val = 1, sem_owner = -1, sem_locked = True\<rparr>"
    "length (ptable s) = NPROC" "phil_pc s = replicate 5 0"
    "\<forall>k<5. p_state (ptable s ! slot k) = RUNNABLE \<and> p_chan (ptable s ! slot k) = NoChan"
    using assms by (auto simp: phil_init_def philosophers_main_eq)
  have "holders (replicate 5 0) i = 0" for i
    by (simp add: holders_def phil_holds_def)
  with s show ?thesis by (intro phil_invI) simp_all
qed

interpretation dinner: transition_system phil_init phil_step phil_inv
  by unfold_locales (auto intro: phil_init_inv phil_step_inv)

lemma holder_exists:
  assumes "phil_inv s" "i < 6" "sem_val (spoons s ! i) = 0"
  shows "\<exists>k<5. i \<in> set (phil_holds k (phil_pc s ! k))"
proof (rule ccontr)
  assume "\<not> ?thesis"
  then have "holders (phil_pc s) i = 0" by (simp add: holders_def)
  then show False using phil_invD(5) [OF assms(1,2)] assms(3) by simp
qed

lemma holders_two:
  assumes "i \<in> set (phil_holds j (pcs ! j))" "i \<in> set (phil_holds k (pcs ! k))" "j < 5" "k < 5" "j \<noteq> k"
  shows "2 \<le> holders pcs i"
proof -
  let ?f = "\<lambda>k. if i \<in> set (phil_holds k (pcs ! k)) then 1 else (0 :: nat)"
  have "sum ?f {j, k} \<le> sum ?f {..<5}" by (rule sum_mono2) (use assms in auto)
  then show ?thesis using assms by (simp add: holders_def)
qed

lemma holders_unique:
  assumes "phil_inv s" "i < 6" "j < 5" "k < 5"
    "i \<in> set (phil_holds j (phil_pc s ! j))" "i \<in> set (phil_holds k (phil_pc s ! k))"
  shows "j = k"
proof (rule ccontr)
  assume "j \<noteq> k"
  then have "2 \<le> holders (phil_pc s) i" using assms by (intro holders_two)
  then show False using phil_invD(5,6) [OF assms(1,2)] by simp
qed

section \<open>The philosophers: properties\<close>

definition eating :: "phil_st \<Rightarrow> nat \<Rightarrow> bool" where
  "eating s k \<longleftrightarrow> 5 \<le> phil_pc s ! k \<and> phil_pc s ! k \<le> 9"

text \<open>
  C21. Two neighbours never eat at the same time, whatever the interleaving of the five
  philosophers' system calls: between taking its second spoon and releasing the first of
  the two, a philosopher excludes both of its neighbours.
\<close>

theorem philosophers_exclude_neighbours:
  assumes "reach phil_init phil_step s" "k < 5" "eating s k"
  shows "\<not> eating s ((k + 1) mod 5)"
proof
  assume e: "eating s ((k + 1) mod 5)"
  have I: "phil_inv s" using assms(1) by (rule dinner.reach_inv)
  have both: "{j, (j + 1) mod 5} \<subseteq> set (phil_holds j (phil_pc s ! j))" if "eating s j" for j
  proof -
    have "phil_pc s ! j \<in> {5, 6, 7, 8, 9}" using that by (auto simp: eating_def)
    then show ?thesis by (auto simp: phil_holds_def first_spoon_def second_spoon_def)
  qed
  have "k = (k + 1) mod 5"
    by (rule holders_unique [OF I, of "(k + 1) mod 5"]) (use both [OF assms(3)] both [OF e] assms(2) in auto)
  then show False using assms(2) by presburger
qed

lemma asleep_waits:
  assumes "phil_inv s" "k < 5" "p_state (ptable s ! slot k) = SLEEPING"
  shows "\<exists>i<6. philosopher k (phil_pc s ! k) = SemAcquire i \<and> sem_val (spoons s ! i) = 0"
  using phil_invD(7,8) [OF assms(1,2)] assms(3) by fastforce

lemma acquire_lines:
  "philosopher k pc = SemAcquire i \<longleftrightarrow> pc \<in> {0, 6, 12} \<and> i = 5 \<or> pc = 3 \<and> i = first_spoon k \<or> pc = 4 \<and> i = second_spoon k"
  by (auto simp: philosopher_def)

lemma first_spoon_values: "k < 5 \<Longrightarrow> first_spoon k \<in> {0, 2, 4} \<and> (first_spoon k = 2 \<longrightarrow> k = 1 \<or> k = 2)"
proof -
  assume "k < 5"
  then consider "k = 0" | "k = 1" | "k = 2" | "k = 3" | "k = 4" by linarith
  then show ?thesis by cases (simp_all add: first_spoon_def)
qed


text \<open>The five philosophers in their slots, after \<^verbatim>\<open>philosophers.c\<close> has initialised the semaphores.\<close>

definition dinner_start :: phil_st where
  "dinner_start = \<lparr>mem = \<lambda>_. 0, freelist = 0, use_lock = True, kend = 0x80115000, kdata = 0x80108000, kpgdir = 0,
     ptable = map (\<lambda>i. if 3 \<le> i \<and> i < 8 then zero_proc\<lparr>p_state := RUNNABLE, p_pid := int i + 1\<rparr> else zero_proc) [0..<64],
     initproc = Some 0, nextpid = 9, curproc = None, forkret_addr = 0, trapret_addr = 0,
     spoons = replicate 6 \<lparr>sem_val = 1, sem_owner = -1, sem_locked = True\<rparr>, phil_pc = replicate 5 0\<rparr>"

lemma dinner_start_init: "phil_init dinner_start"
  unfolding phil_init_def
proof (intro conjI)
  let ?s0 = "dinner_start\<lparr>spoons := replicate 6 \<lparr>sem_val = 0, sem_owner = 0, sem_locked = False\<rparr>\<rparr>"
  have "spoons ?s0 = replicate 6 \<lparr>sem_val = 0, sem_owner = 0, sem_locked = False\<rparr>" by simp
  moreover from philosophers_main_eq [OF this] have "philosophers_main ?s0 = Ret () dinner_start"
    by (simp add: dinner_start_def)
  ultimately show "\<exists>s0. spoons s0 = replicate 6 \<lparr>sem_val = 0, sem_owner = 0, sem_locked = False\<rparr>
      \<and> philosophers_main s0 = Ret () dinner_start" by blast
qed (simp_all add: dinner_start_def slot_def zero_proc_def)

lemma dinner_start_reach: "reach phil_init phil_step dinner_start"
  by (rule reach_init) (rule dinner_start_init)

text \<open>A philosopher whose next spoon, if it asks for one, is on the table gets to the next line.\<close>

lemma phil_advance:
  assumes "reach phil_init phil_step s" "k < 5" "p_state (ptable s ! slot k) \<noteq> SLEEPING"
    and "\<And>i. philosopher k (phil_pc s ! k) = SemAcquire i \<Longrightarrow> holders (phil_pc s) i = 0"
  shows "\<exists>t. reach phil_init phil_step t \<and> phil_pc t = (phil_pc s)[k := next_pc (phil_pc s ! k)]
    \<and> p_state (ptable t ! slot k) \<noteq> SLEEPING"
proof -
  have I: "phil_inv s" using assms(1) by (rule dinner.reach_inv)
  note D = phil_invD [OF I]
  have L: "line_ok k (phil_pc s ! k)" using assms(2) D(4) by (intro line_okD)
  have sl: "slot k < length (ptable s)" using assms(2) D(1) by simp
  have "\<exists>r t. phil_exec k (on_cpu k s) = Ret r t \<and> phil_pc t = phil_pc s \<and> p_state (ptable t ! slot k) \<noteq> SLEEPING"
  proof (cases "philosopher k (phil_pc s ! k)")
    case (SemAcquire i)
    then have i: "i < 6" using L by (simp add: line_ok_def)
    then have "0 < sem_val (spoons s ! i)" using D(5) [OF i] assms(4) [OF SemAcquire] by simp
    then show ?thesis using phil_exec_acquire [OF SemAcquire i sl] sl by auto
  next
    case (SemRelease i)
    then have i: "i < 6" using L by (simp add: line_ok_def)
    then show ?thesis using phil_exec_release [OF SemRelease i sl] sl by auto
  next
    case Elsewhere
    then show ?thesis using phil_exec_elsewhere [OF Elsewhere] sl by simp
  qed
  then obtain r t where t: "phil_exec k (on_cpu k s) = Ret r t" "phil_pc t = phil_pc s" "p_state (ptable t ! slot k) \<noteq> SLEEPING"
    by blast
  with reach_step [OF assms(1) phil_done [OF assms(2,3) t(1)]] show ?thesis by auto
qed

lemma dinner_eating: "\<exists>s. reach phil_init phil_step s \<and> eating s 0"
proof -
  have alone: "\<forall>n\<in>set [0..<5]. \<forall>i\<in>set [0..<6]. philosopher 0 n = SemAcquire i \<longrightarrow> holders [n, 0, 0, 0, 0] i = 0"
    by code_simp
  have run: "\<exists>t. reach phil_init phil_step t \<and> phil_pc t = [n, 0, 0, 0, 0] \<and> p_state (ptable t ! slot 0) \<noteq> SLEEPING"
    if "n \<le> 5" for n
    using that
  proof (induction n)
    case 0
    show ?case
      by (rule exI [of _ dinner_start], intro conjI dinner_start_reach)
        (simp_all add: dinner_start_def slot_def zero_proc_def numeral_eq_Suc)
  next
    case (Suc n)
    then obtain s where s: "reach phil_init phil_step s" "phil_pc s = [n, 0, 0, 0, 0]" "p_state (ptable s ! slot 0) \<noteq> SLEEPING"
      by auto
    have n: "n \<in> {0, 1, 2, 3, 4}" using Suc.prems by auto
    have "holders (phil_pc s) i = 0" if "philosopher 0 (phil_pc s ! 0) = SemAcquire i" for i
    proof -
      have "i < 6" using that n by (auto simp: s(2) acquire_lines first_spoon_def second_spoon_def)
      then show ?thesis using alone that Suc.prems by (simp add: s(2))
    qed
    from phil_advance [OF s(1) _ s(3) this] n show ?case by (auto simp: s(2) next_pc_def)
  qed
  from run [of 5] show ?thesis by (auto simp: eating_def)
qed

theorem philosophers_exclude_neighbours_witness:
  "\<exists>s. reach phil_init phil_step s \<and> eating s 0 \<and> \<not> eating s 1"
  using dinner_eating philosophers_exclude_neighbours [of _ 0] by auto


text \<open>
  C40. A lost wakeup in \<^verbatim>\<open>sem_init\<close>: a process that acquires a semaphore before it is
  initialised goes to sleep on it, and \<^verbatim>\<open>sem_init\<close> then makes the semaphore available without
  waking anybody.  The sleeper stays asleep although the value is positive.
\<close>

theorem sem_init_loses_sleeper:
  fixes s :: "'a sem_st_scheme"
  assumes "i < 6" "length (spoons s) = 6" "spoons s ! i = \<lparr>sem_val = 0, sem_owner = 0, sem_locked = False\<rparr>"
    and "curproc s = Some p" "p < length (ptable s)" "0 < v"
  shows "\<exists>c s1 s2. sem_acquire (int i) s = Sleep c s1 \<and> sem_init (int i) v s1 = Ret 0 s2
    \<and> 0 < sem_val (spoons s2 ! i) \<and> p_state (ptable s2 ! p) = SLEEPING \<and> p_chan (ptable s2 ! p) = ChanSem i"
proof -
  let ?s1 = "upd_proc p (\<lambda>q. q\<lparr>p_chan := ChanSem i, p_state := SLEEPING\<rparr>) s"
  have "sem_acquire (int i) s = Sleep (ChanSem i) ?s1"
    using assms by (simp add: sem_acquire_def spoon_def sem_wait_eq prog_defs)
  moreover have "spoons ?s1 = spoons s" by (simp add: upd_proc_def)
  ultimately show ?thesis
    using assms by (simp add: sem_init_def spoon_def prog_defs upd_spoon_def)
qed

theorem sem_init_loses_sleeper_witness:
  "let s = dinner_start\<lparr>spoons := replicate 6 \<lparr>sem_val = 0, sem_owner = 0, sem_locked = False\<rparr>, curproc := Some 3\<rparr> in
   \<exists>c s1 s2. sem_acquire 2 s = Sleep c s1 \<and> sem_init 2 1 s1 = Ret 0 s2
    \<and> 0 < sem_val (spoons s2 ! 2) \<and> p_state (ptable s2 ! 3) = SLEEPING"
  using sem_init_loses_sleeper [of 2 "dinner_start\<lparr>spoons := replicate 6 \<lparr>sem_val = 0, sem_owner = 0, sem_locked = False\<rparr>,
    curproc := Some 3\<rparr>" 3 1] by (auto simp: dinner_start_def)

end
