(* ===== verification/Sleeplock.thy ===== *)
theory Sleeplock
  imports Sem
begin

text \<open>
  Sleep locks, \<^verbatim>\<open>sleeplock.c\<close>.  A sleep lock is embedded in a buffer or an inode, so the
  operations take the way to read and to update it in the kernel state and the channel that
  stands for its address.  The locale \<open>sleeplock_cell\<close> is the contract of such a cell; the
  buffer cache and the inode cache interpret it for their own locks.
\<close>

record sleeplock =
  sl_locked :: bool
  sl_pid :: int

definition initsleeplock :: sleeplock where
  "initsleeplock = \<lparr>sl_locked = False, sl_pid = 0\<rparr>"

text \<open>
  \<^verbatim>\<open>acquiresleep\<close>: the loop tests the lock; when it is taken the process sleeps and, woken up,
  runs the call from its test again.
\<close>

definition acquiresleep ::
  "('a proc_st_scheme \<Rightarrow> sleeplock) \<Rightarrow> ((sleeplock \<Rightarrow> sleeplock) \<Rightarrow> 'a proc_st_scheme \<Rightarrow> 'a proc_st_scheme) \<Rightarrow>
    chan \<Rightarrow> ('a proc_st_scheme, unit) prog" where
  "acquiresleep get upd ch =
     bnd (gets get) (\<lambda>l.
     if sl_locked l then sleep ch
     else
       seqp (modify (upd (\<lambda>l. l\<lparr>sl_locked := True\<rparr>)))
       (bnd myproc (\<lambda>me. bnd (deref me) (\<lambda>p.
        bnd (gets (\<lambda>s. p_pid (ptable s ! p))) (\<lambda>pid.
        modify (upd (\<lambda>l. l\<lparr>sl_pid := pid\<rparr>)))))))"

definition releasesleep ::
  "((sleeplock \<Rightarrow> sleeplock) \<Rightarrow> 'a proc_st_scheme \<Rightarrow> 'a proc_st_scheme) \<Rightarrow> chan \<Rightarrow> ('a proc_st_scheme, unit) prog" where
  "releasesleep upd ch =
     seqp (modify (upd (\<lambda>l. l\<lparr>sl_locked := False, sl_pid := 0\<rparr>)))
      (wakeup ch)"

definition holdingsleep :: "('a proc_st_scheme \<Rightarrow> sleeplock) \<Rightarrow> ('a proc_st_scheme, bool) prog" where
  "holdingsleep get =
     bnd (gets get) (\<lambda>l.
     if \<not> sl_locked l then ret False
     else bnd myproc (\<lambda>me. bnd (deref me) (\<lambda>p.
        gets (\<lambda>s. sl_pid l = p_pid (ptable s ! p)))))"

text \<open>The pid of the running process, for the statements about who holds a lock.\<close>

definition curpid :: "'a proc_st_scheme \<Rightarrow> int" where
  "curpid s = (case curproc s of None \<Rightarrow> 0 | Some p \<Rightarrow> p_pid (ptable s ! p))"

locale sleeplock_cell =
  fixes get :: "'a proc_st_scheme \<Rightarrow> sleeplock"
    and upd :: "(sleeplock \<Rightarrow> sleeplock) \<Rightarrow> 'a proc_st_scheme \<Rightarrow> 'a proc_st_scheme"
    and ok :: "'a proc_st_scheme \<Rightarrow> bool"
    and ch :: chan
  assumes get_upd: "ok s \<Longrightarrow> get (upd f s) = f (get s)"
    and upd_upd: "ok s \<Longrightarrow> upd f (upd g s) = upd (\<lambda>l. f (g l)) s"
    and upd_table: "ptable (upd f s) = ptable s" "curproc (upd f s) = curproc s"
    and get_table: "get (s\<lparr>ptable := t\<rparr>) = get s"
    and ok_upd: "ok s \<Longrightarrow> ok (upd f s)"
begin

lemma acquire_free:
  assumes "ok s" "\<not> sl_locked (get s)" "curproc s = Some p"
  shows "acquiresleep get upd ch s = Ret () (upd (\<lambda>l. l\<lparr>sl_locked := True, sl_pid := curpid s\<rparr>) s)"
  using assms by (simp add: acquiresleep_def myproc_def deref_def prog_defs upd_table upd_upd curpid_def)

lemma acquire_taken:
  assumes "sl_locked (get s)" "curproc s = Some p" "p < length (ptable s)"
  shows "acquiresleep get upd ch s = Sleep ch (upd_proc p (\<lambda>q. q\<lparr>p_chan := ch, p_state := SLEEPING\<rparr>) s)"
  using assms by (simp add: acquiresleep_def prog_defs sleep_eq)

lemma holding_iff:
  assumes "curproc s = Some p"
  shows "holdingsleep get s = Ret (sl_locked (get s) \<and> sl_pid (get s) = curpid s) s"
  using assms by (simp add: holdingsleep_def myproc_def deref_def prog_defs curpid_def)

lemma release_wakes:
  "releasesleep upd ch s = Ret () ((upd (\<lambda>l. l\<lparr>sl_locked := False, sl_pid := 0\<rparr>) s)
     \<lparr>ptable := map (wake_on ch) (ptable s)\<rparr>)"
  by (simp add: releasesleep_def wakeup_def wakeup1_eq prog_defs upd_table)

end

end
