(* ===== verification/Bio.thy ===== *)
theory Bio
  imports Sleeplock
begin

text \<open>
  The buffer cache, \<^verbatim>\<open>bio.c\<close> and \<^verbatim>\<open>buf.h\<close>, over the memory disk of \<^verbatim>\<open>memide.c\<close>, whose \<^verbatim>\<open>iderw\<close> has the
  contract of the IDE driver (theory Ide) without the interrupts.  A pointer to a buffer
  is its index in \<^verbatim>\<open>bcache.buf\<close>, and 30, one past the last, stands for \<^verbatim>\<open>bcache.head\<close>; the \<^verbatim>\<open>prev\<close>
  and \<^verbatim>\<open>next\<close> fields of the 31 buffers are the two functions \<open>bprev\<close> and \<open>bnext\<close>.  The section
  under \<^verbatim>\<open>bcache.lock\<close> of each call is one step; the sleep lock of each buffer is state.

  The disk is a map from block numbers to blocks of bytes.  \<open>dwrites\<close> is the history of
  block writes, oldest first: a crash leaves the disk with some prefix of it applied.

  What the clients of the cache rely on is stated for \<open>bview\<close>, the contents of a block as a
  reader sees it: the cached copy if there is one, the disk block otherwise.
\<close>

abbreviation (input) BSIZE :: nat where "BSIZE \<equiv> 512"
abbreviation (input) HEAD :: nat where "HEAD \<equiv> 30"

declare One_nat_def [simp del]

type_synonym block = "u8 list"

record buf =
  b_valid :: bool
  b_dirty :: bool
  b_dev :: nat
  b_blockno :: nat
  b_lock :: sleeplock
  b_refcnt :: int
  b_data :: block

record bio_st = sem_st +
  disk :: "nat \<Rightarrow> block"
  disksize :: nat
  dwrites :: "(nat \<times> block) list"
  bufs :: "buf list"
  bprev :: "nat \<Rightarrow> nat"
  bnext :: "nat \<Rightarrow> nat"

definition upd_buf :: "nat \<Rightarrow> (buf \<Rightarrow> buf) \<Rightarrow> 'a bio_st_scheme \<Rightarrow> 'a bio_st_scheme" where
  "upd_buf b f s = s\<lparr>bufs := (bufs s)[b := f (bufs s ! b)]\<rparr>"

definition get_buflock :: "nat \<Rightarrow> 'a bio_st_scheme \<Rightarrow> sleeplock" where
  "get_buflock b s = b_lock (bufs s ! b)"

definition upd_buflock :: "nat \<Rightarrow> (sleeplock \<Rightarrow> sleeplock) \<Rightarrow> 'a bio_st_scheme \<Rightarrow> 'a bio_st_scheme" where
  "upd_buflock b f = upd_buf b (\<lambda>x. x\<lparr>b_lock := f (b_lock x)\<rparr>)"

section \<open>The memory disk\<close>

definition ideinit :: "nat \<Rightarrow> ('a bio_st_scheme, unit) prog" where
  "ideinit imgsize = modify (\<lambda>s. s\<lparr>disksize := imgsize div BSIZE\<rparr>)"

definition iderw :: "nat \<Rightarrow> ('a bio_st_scheme, unit) prog" where
  "iderw b =
     bnd (holdingsleep (get_buflock b)) (\<lambda>h.
     if \<not> h then panic ''iderw: buf not locked''
     else
     bnd (gets (\<lambda>s. bufs s ! b)) (\<lambda>x.
     bnd (gets disksize) (\<lambda>n.
     if b_valid x \<and> \<not> b_dirty x then panic ''iderw: nothing to do''
     else if b_dev x \<noteq> 1 then panic ''iderw: request not for disk 1''
     else if b_blockno x \<ge> n then panic ''iderw: block out of range''
     else
       seqp (if b_dirty x then
               seqp (modify (upd_buf b (\<lambda>x. x\<lparr>b_dirty := False\<rparr>)))
                (modify (\<lambda>s. s\<lparr>disk := (disk s)(b_blockno x := b_data x),
                               dwrites := dwrites s @ [(b_blockno x, b_data x)]\<rparr>))
             else modify (\<lambda>s. upd_buf b (\<lambda>y. y\<lparr>b_data := disk s (b_blockno x)\<rparr>) s))
        (modify (upd_buf b (\<lambda>x. x\<lparr>b_valid := True\<rparr>))))))"

section \<open>The buffer cache\<close>

text \<open>
  \<^verbatim>\<open>binit\<close>: insert the buffers one by one behind the head.  \<open>insert_head\<close> is the four
  assignments that \<^verbatim>\<open>brelse\<close> makes too.
\<close>

definition insert_head :: "nat \<Rightarrow> 'a bio_st_scheme \<Rightarrow> 'a bio_st_scheme" where
  "insert_head b s =
     (let s1 = s\<lparr>bnext := (bnext s)(b := bnext s HEAD)\<rparr>;
          s2 = s1\<lparr>bprev := (bprev s1)(b := HEAD)\<rparr>;
          s3 = s2\<lparr>bprev := (bprev s2)(bnext s2 HEAD := b)\<rparr>
      in s3\<lparr>bnext := (bnext s3)(HEAD := b)\<rparr>)"

definition unlink_buf :: "nat \<Rightarrow> 'a bio_st_scheme \<Rightarrow> 'a bio_st_scheme" where
  "unlink_buf b s =
     (let s1 = s\<lparr>bprev := (bprev s)(bnext s b := bprev s b)\<rparr>
      in s1\<lparr>bnext := (bnext s1)(bprev s1 b := bnext s1 b)\<rparr>)"

definition binit :: "('a bio_st_scheme, unit) prog" where
  "binit =
     seqp (modify (\<lambda>s. s\<lparr>bprev := (bprev s)(HEAD := HEAD), bnext := (bnext s)(HEAD := HEAD)\<rparr>))
     (forp [0..<NBUF] (\<lambda>b.
        seqp (modify (upd_buflock b (\<lambda>_. initsleeplock)))
         (modify (insert_head b))))"

text \<open>
  A walk along one of the two link fields from \<open>b\<close> to the head, looking for a buffer.  The
  result \<open>None\<close> is a walk that has not come back to the head after \<open>n\<close> links; with the ring
  intact 31 links are enough.
\<close>

fun bscan :: "(nat \<Rightarrow> nat) \<Rightarrow> (buf \<Rightarrow> bool) \<Rightarrow> buf list \<Rightarrow> nat \<Rightarrow> nat \<Rightarrow> nat option option" where
  "bscan link P bs 0 b = None"
| "bscan link P bs (Suc n) b =
     (if b = HEAD then Some None
      else if P (bs ! b) then Some (Some b)
      else bscan link P bs n (link b))"

definition bget :: "nat \<Rightarrow> nat \<Rightarrow> ('a bio_st_scheme, nat) prog" where
  "bget dev blockno =
     bnd (gets (\<lambda>s. bscan (bnext s) (\<lambda>b. b_dev b = dev \<and> b_blockno b = blockno) (bufs s) 31 (bnext s HEAD))) (\<lambda>hit.
     case hit of
       None \<Rightarrow> (\<lambda>s. Spin)
     | Some (Some b) \<Rightarrow>
         seqp (modify (upd_buf b (\<lambda>x. x\<lparr>b_refcnt := b_refcnt x + 1\<rparr>)))
         (seqp (acquiresleep (get_buflock b) (upd_buflock b) (ChanBufLock b)) (ret b))
     | Some None \<Rightarrow>
         bnd (gets (\<lambda>s. bscan (bprev s) (\<lambda>b. b_refcnt b = 0 \<and> \<not> b_dirty b) (bufs s) 31 (bprev s HEAD))) (\<lambda>free.
         case free of
           None \<Rightarrow> (\<lambda>s. Spin)
         | Some (Some b) \<Rightarrow>
             seqp (modify (upd_buf b (\<lambda>x. x\<lparr>b_dev := dev, b_blockno := blockno, b_valid := False, b_dirty := False,
                     b_refcnt := 1\<rparr>)))
             (seqp (acquiresleep (get_buflock b) (upd_buflock b) (ChanBufLock b)) (ret b))
         | Some None \<Rightarrow> panic ''bget: no buffers''))"

definition bread :: "nat \<Rightarrow> nat \<Rightarrow> ('a bio_st_scheme, nat) prog" where
  "bread dev blockno =
     bnd (bget dev blockno) (\<lambda>b.
     bnd (gets (\<lambda>s. b_valid (bufs s ! b))) (\<lambda>v.
     seqp (whenp (\<not> v) (iderw b)) (ret b)))"

definition bwrite :: "nat \<Rightarrow> ('a bio_st_scheme, unit) prog" where
  "bwrite b =
     bnd (holdingsleep (get_buflock b)) (\<lambda>h.
     if \<not> h then panic ''bwrite''
     else seqp (modify (upd_buf b (\<lambda>x. x\<lparr>b_dirty := True\<rparr>))) (iderw b))"

definition brelse :: "nat \<Rightarrow> ('a bio_st_scheme, unit) prog" where
  "brelse b =
     bnd (holdingsleep (get_buflock b)) (\<lambda>h.
     if \<not> h then panic ''brelse''
     else
       seqp (releasesleep (upd_buflock b) (ChanBufLock b))
       (seqp (modify (upd_buf b (\<lambda>x. x\<lparr>b_refcnt := b_refcnt x - 1\<rparr>)))
       (bnd (gets (\<lambda>s. b_refcnt (bufs s ! b))) (\<lambda>r.
        whenp (r = 0)
         (seqp (modify (unlink_buf b)) (modify (insert_head b)))))))"

text \<open>The two ways a client changes the data of a buffer it holds: replace it, or one range of it.\<close>

definition set_data :: "nat \<Rightarrow> block \<Rightarrow> ('a bio_st_scheme, unit) prog" where
  "set_data b d = modify (upd_buf b (\<lambda>x. x\<lparr>b_data := d\<rparr>))"

definition get_data :: "nat \<Rightarrow> ('a bio_st_scheme, block) prog" where
  "get_data b = gets (\<lambda>s. b_data (bufs s ! b))"

section \<open>The ring\<close>

primrec seg :: "(nat \<Rightarrow> nat) \<Rightarrow> (nat \<Rightarrow> nat) \<Rightarrow> nat \<Rightarrow> nat list \<Rightarrow> nat \<Rightarrow> bool" where
  "seg nx pv a [] z \<longleftrightarrow> nx a = z \<and> pv z = a"
| "seg nx pv a (x # xs) z \<longleftrightarrow> nx a = x \<and> pv x = a \<and> seg nx pv x xs z"

definition ring :: "'a bio_st_scheme \<Rightarrow> nat list \<Rightarrow> bool" where
  "ring s xs \<longleftrightarrow> seg (bnext s) (bprev s) HEAD xs HEAD \<and> distinct xs \<and> set xs = {..<NBUF}"

lemma seg_append: "seg nx pv a (xs @ y # ys) z \<longleftrightarrow> seg nx pv a xs y \<and> seg nx pv y ys z"
  by (induction xs arbitrary: a) auto

lemma seg_cong:
  "(\<And>x. x \<in> set (a # xs) \<Longrightarrow> nx' x = nx x) \<Longrightarrow> (\<And>x. x \<in> set (xs @ [z]) \<Longrightarrow> pv' x = pv x) \<Longrightarrow>
     seg nx' pv' a xs z = seg nx pv a xs z"
  by (induction xs arbitrary: a) auto

lemma seg_first: "seg nx pv a xs z \<Longrightarrow> nx a = hd (xs @ [z])"
  by (cases xs) auto

lemma seg_unlink:
  assumes "seg nx pv a (us @ b # vs) z" "distinct (a # us @ b # vs)" "z \<notin> set (us @ b # vs)"
  shows "seg (nx(pv b := nx b)) (pv(nx b := pv b)) a (us @ vs) z"
  using assms
proof (induction us arbitrary: a)
  case Nil
  then have b: "nx a = b" "pv b = a" "seg nx pv b vs z" by simp_all
  show ?case
  proof (cases vs)
    case Nil
    then show ?thesis using b by simp
  next
    case (Cons c ws)
    have "seg (nx(a := c)) (pv(c := a)) c ws z = seg nx pv c ws z"
      by (rule seg_cong) (use Nil.prems Cons in auto)
    then show ?thesis using b Cons by (simp add: fun_upd_def)
  qed
next
  case (Cons x us)
  have IH: "seg (nx(pv b := nx b)) (pv(nx b := pv b)) x (us @ vs) z"
    by (rule Cons.IH) (use Cons.prems in auto)
  have s: "seg nx pv x us b" "seg nx pv b vs z" using Cons.prems(1) by (simp_all add: seg_append)
  have "pv b \<in> set (x # us)" using s(1) by (induction us arbitrary: x) auto
  moreover have "nx b \<in> set (vs @ [z])" using s(2) by (cases vs) auto
  ultimately show ?case using Cons.prems IH by (auto simp: fun_upd_def)
qed

lemma seg_insert:
  assumes "seg nx pv h xs h" "b \<notin> set (h # xs)" "h \<notin> set xs" "distinct xs"
  shows "seg (nx(b := nx h, h := b)) (pv(b := h, nx h := b)) h (b # xs) h"
proof (cases xs)
  case Nil
  then show ?thesis using assms by auto
next
  case (Cons x ys)
  then have "nx h = x" using assms(1) by simp
  moreover have "seg (nx(b := x, h := b)) (pv(b := h, x := b)) x ys h = seg nx pv x ys h"
    by (rule seg_cong) (use assms Cons in auto)
  ultimately show ?thesis using assms Cons by auto
qed

lemma insert_head_sel [simp]:
  "bufs (insert_head b s) = bufs s" "bnext (insert_head b s) = (bnext s)(b := bnext s HEAD, HEAD := b)"
  "b \<noteq> HEAD \<Longrightarrow> bprev (insert_head b s) = (bprev s)(b := HEAD, bnext s HEAD := b)"
  by (simp_all add: insert_head_def Let_def)

lemma unlink_buf_sel [simp]:
  "bufs (unlink_buf b s) = bufs s" "bprev (unlink_buf b s) = (bprev s)(bnext s b := bprev s b)"
  "bnext s b \<noteq> b \<Longrightarrow> bnext (unlink_buf b s) = (bnext s)(bprev s b := bnext s b)"
  by (simp_all add: unlink_buf_def Let_def)

lemma relink_frame:
  "insert_head b s = s\<lparr>bnext := bnext (insert_head b s), bprev := bprev (insert_head b s)\<rparr>"
  "unlink_buf b s = s\<lparr>bnext := bnext (unlink_buf b s), bprev := bprev (unlink_buf b s)\<rparr>"
  by (simp_all add: insert_head_def unlink_buf_def Let_def)

text \<open>Moving a buffer to the front of the ring, the last act of \<^verbatim>\<open>brelse\<close>.\<close>

lemma ring_split:
  assumes "ring s xs" "b < NBUF"
  obtains us vs where "xs = us @ b # vs" "remove1 b xs = us @ vs"
proof -
  from assms have "b \<in> set xs" by (simp add: ring_def)
  then obtain us vs where x: "xs = us @ b # vs" by (auto simp: in_set_conv_decomp)
  then have "remove1 b xs = us @ vs" using assms by (auto simp: ring_def remove1_append)
  with x show thesis by (rule that)
qed

lemma ring_to_front:
  assumes "ring s xs" "b < NBUF"
  shows "ring (insert_head b (unlink_buf b s)) (b # remove1 b xs)"
proof -
  obtain us vs where x: "xs = us @ b # vs" "remove1 b xs = us @ vs" using assms by (rule ring_split)
  have r: "seg (bnext s) (bprev s) HEAD (us @ b # vs) HEAD" "distinct xs" "set xs = {..<NBUF}"
    using assms x by (simp_all add: ring_def)
  have H: "HEAD \<notin> set xs" using r(3) by auto
  have "bnext s b \<in> set (vs @ [HEAD])" using r(1) by (cases vs) (auto simp: seg_append)
  then have nb: "bnext s b \<noteq> b" using r(2) H x assms(2) by auto
  let ?t = "unlink_buf b s"
  have "seg (bnext ?t) (bprev ?t) HEAD (us @ vs) HEAD"
    using seg_unlink [OF r(1)] r(2) H x nb by simp
  then have "seg ((bnext ?t)(b := bnext ?t HEAD, HEAD := b)) ((bprev ?t)(b := HEAD, bnext ?t HEAD := b)) HEAD (b # us @ vs) HEAD"
    by (rule seg_insert) (use r(2) H x assms(2) in auto)
  moreover have "set (b # us @ vs) = {..<NBUF}" using r(3) x(1) by auto
  ultimately show ?thesis using r(2) x assms(2) by (simp add: ring_def)
qed

lemma bscan_fwd:
  assumes "seg nx pv a xs HEAD" "HEAD \<notin> set xs" "length xs < n"
  shows "bscan nx P bs n (nx a) = Some (find (\<lambda>b. P (bs ! b)) xs)"
  using assms
proof (induction xs arbitrary: a n)
  case Nil
  then show ?case by (cases n) simp_all
next
  case (Cons x xs)
  then show ?case by (cases n) auto
qed

lemma bscan_bwd:
  assumes "seg nx pv HEAD xs z" "HEAD \<notin> set xs" "length xs < n"
  shows "bscan pv P bs n (pv z) = Some (find (\<lambda>b. P (bs ! b)) (rev xs))"
  using assms
proof (induction xs arbitrary: z n rule: rev_induct)
  case Nil
  then show ?case by (cases n) simp_all
next
  case (snoc x xs)
  then show ?case by (cases n) (auto simp: seg_append)
qed

lemma ring_scan:
  assumes "ring s xs"
  shows "bscan (bnext s) P (bufs s) 31 (bnext s HEAD) = Some (find (\<lambda>b. P (bufs s ! b)) xs)"
    and "bscan (bprev s) P (bufs s) 31 (bprev s HEAD) = Some (find (\<lambda>b. P (bufs s ! b)) (rev xs))"
proof -
  have r: "seg (bnext s) (bprev s) HEAD xs HEAD" "HEAD \<notin> set xs" using assms by (auto simp: ring_def)
  have "card (set xs) = length xs" using assms by (intro distinct_card) (simp add: ring_def)
  then have l: "length xs < 31" using assms by (simp add: ring_def)
  show "bscan (bnext s) P (bufs s) 31 (bnext s HEAD) = Some (find (\<lambda>b. P (bufs s ! b)) xs)"
    by (rule bscan_fwd [OF r l])
  show "bscan (bprev s) P (bufs s) 31 (bprev s HEAD) = Some (find (\<lambda>b. P (bufs s ! b)) (rev xs))"
    by (rule bscan_bwd [OF r l])
qed

section \<open>The locks of the buffers\<close>

lemma upd_buf_sel [simp]:
  "disk (upd_buf b f s) = disk s" "disksize (upd_buf b f s) = disksize s" "dwrites (upd_buf b f s) = dwrites s"
  "bprev (upd_buf b f s) = bprev s" "bnext (upd_buf b f s) = bnext s" "ptable (upd_buf b f s) = ptable s"
  "curproc (upd_buf b f s) = curproc s" "bufs (upd_buf b f s) = (bufs s)[b := f (bufs s ! b)]"
  by (simp_all add: upd_buf_def)

lemma upd_buf_upd_buf:
  "b < length (bufs s) \<Longrightarrow> upd_buf b f (upd_buf b g s) = upd_buf b (\<lambda>x. f (g x)) s"
  by (simp add: upd_buf_def)

lemma curpid_cong: "ptable s' = ptable s \<Longrightarrow> curproc s' = curproc s \<Longrightarrow> curpid s' = curpid s"
  by (simp add: curpid_def split: option.split)

interpretation blk: sleeplock_cell "get_buflock b" "upd_buflock b" "\<lambda>s. b < length (bufs s)" "ChanBufLock b" for b
  by unfold_locales
    (simp_all add: get_buflock_def upd_buflock_def upd_buf_upd_buf)

section \<open>Invariant and abstraction\<close>

definition held_buf :: "'a bio_st_scheme \<Rightarrow> nat \<Rightarrow> bool" where
  "held_buf s b \<longleftrightarrow> b < NBUF \<and> sl_locked (b_lock (bufs s ! b)) \<and> sl_pid (b_lock (bufs s ! b)) = curpid s"

definition cached :: "'a bio_st_scheme \<Rightarrow> nat \<Rightarrow> nat \<Rightarrow> bool" where
  "cached s n b \<longleftrightarrow> b < NBUF \<and> b_dev (bufs s ! b) = 1 \<and> b_blockno (bufs s ! b) = n"

definition bview :: "'a bio_st_scheme \<Rightarrow> nat \<Rightarrow> block" where
  "bview s n = (case find (\<lambda>b. b_dev (bufs s ! b) = 1 \<and> b_blockno (bufs s ! b) = n \<and> b_valid (bufs s ! b)) [0..<NBUF] of
     Some b \<Rightarrow> b_data (bufs s ! b) | None \<Rightarrow> disk s n)"

definition buf_ok :: "(nat \<Rightarrow> block) \<Rightarrow> buf \<Rightarrow> bool" where
  "buf_ok d x \<longleftrightarrow> b_refcnt x = (if sl_locked (b_lock x) then 1 else 0) \<and> (b_dirty x \<longrightarrow> b_valid x \<and> b_dev x = 1)
     \<and> (b_dev x = 1 \<and> b_valid x \<and> \<not> b_dirty x \<and> \<not> sl_locked (b_lock x) \<longrightarrow> b_data x = d (b_blockno x))"

definition bio_inv :: "'a bio_st_scheme \<Rightarrow> bool" where
  "bio_inv s \<longleftrightarrow> length (bufs s) = NBUF \<and> (\<exists>xs. ring s xs) \<and> (\<forall>b<NBUF. buf_ok (disk s) (bufs s ! b))
     \<and> (\<forall>a<NBUF. \<forall>b<NBUF. b_dev (bufs s ! a) = 1 \<longrightarrow> b_dev (bufs s ! b) = 1 \<longrightarrow>
          b_blockno (bufs s ! a) = b_blockno (bufs s ! b) \<longrightarrow> a = b)"

lemma bio_invD:
  assumes "bio_inv s"
  shows "length (bufs s) = NBUF" "\<exists>xs. ring s xs" "b < NBUF \<Longrightarrow> buf_ok (disk s) (bufs s ! b)"
    "cached s n a \<Longrightarrow> cached s n b \<Longrightarrow> a = b"
  using assms by (simp_all add: bio_inv_def cached_def)

lemma bview_cached:
  assumes "bio_inv s" "cached s n b" "b_valid (bufs s ! b)"
  shows "bview s n = b_data (bufs s ! b)"
proof -
  have "find (\<lambda>b. b_dev (bufs s ! b) = 1 \<and> b_blockno (bufs s ! b) = n \<and> b_valid (bufs s ! b)) [0..<NBUF] = Some b"
  proof (rule find_upt_SomeI)
    show "\<not> (b_dev (bufs s ! j) = 1 \<and> b_blockno (bufs s ! j) = n \<and> b_valid (bufs s ! j))" if "j < b" for j
      using bio_invD(4) [OF assms(1), of n j b] assms(2) that by (auto simp: cached_def)
  qed (use assms in \<open>auto simp: cached_def\<close>)
  then show ?thesis by (simp add: bview_def)
qed

lemma bview_uncached:
  assumes "\<And>b. cached s n b \<Longrightarrow> \<not> b_valid (bufs s ! b)"
  shows "bview s n = disk s n"
proof -
  have "find (\<lambda>b. b_dev (bufs s ! b) = 1 \<and> b_blockno (bufs s ! b) = n \<and> b_valid (bufs s ! b)) [0..<NBUF] = None"
    using assms by (auto simp: find_None_iff cached_def)
  then show ?thesis by (simp add: bview_def)
qed

text \<open>A block nobody has dirtied or is holding reads as it is on disk.\<close>

lemma bview_clean:
  assumes "bio_inv s" "\<And>b. cached s n b \<Longrightarrow> \<not> b_dirty (bufs s ! b) \<and> \<not> sl_locked (b_lock (bufs s ! b))"
  shows "bview s n = disk s n"
proof (cases "\<exists>b. cached s n b \<and> b_valid (bufs s ! b)")
  case True
  then obtain b where b: "cached s n b" "b_valid (bufs s ! b)" by blast
  then have "b_data (bufs s ! b) = disk s n"
    using bio_invD(3) [OF assms(1), of b] assms(2) [OF b(1)] by (auto simp: cached_def buf_ok_def)
  then show ?thesis using bview_cached [OF assms(1) b] by simp
next
  case False
  then show ?thesis by (intro bview_uncached) blast
qed

section \<open>The operations under the invariant\<close>

lemma locked_by_me:
  "held_buf s b \<Longrightarrow> curproc s = Some p \<Longrightarrow> holdingsleep (get_buflock b) s = Ret True s"
  by (simp add: blk.holding_iff held_buf_def get_buflock_def)

lemma iderw_read:
  assumes "held_buf s b" "curproc s = Some p" "\<not> b_valid (bufs s ! b)" "\<not> b_dirty (bufs s ! b)"
    "b_dev (bufs s ! b) = 1" "b_blockno (bufs s ! b) < disksize s" "b < length (bufs s)"
  shows "iderw b s = Ret () (upd_buf b (\<lambda>x. x\<lparr>b_data := disk s (b_blockno x), b_valid := True\<rparr>) s)"
  using assms by (simp add: iderw_def locked_by_me prog_defs upd_buf_def)

lemma iderw_write:
  assumes "held_buf s b" "curproc s = Some p" "b_dirty (bufs s ! b)"
    "b_dev (bufs s ! b) = 1" "b_blockno (bufs s ! b) < disksize s" "b < length (bufs s)"
  shows "iderw b s = Ret () ((upd_buf b (\<lambda>x. x\<lparr>b_dirty := False, b_valid := True\<rparr>) s)
    \<lparr>disk := (disk s)(b_blockno (bufs s ! b) := b_data (bufs s ! b)),
     dwrites := dwrites s @ [(b_blockno (bufs s ! b), b_data (bufs s ! b))]\<rparr>)"
  using assms by (simp add: iderw_def locked_by_me prog_defs upd_buf_def)

lemma curpid_upd_buf [simp]: "curpid (upd_buf b f s) = curpid s"
  by (rule curpid_cong) simp_all

text \<open>The buffer a successful \<^verbatim>\<open>bread\<close> leaves, given the one it picked.\<close>

definition read_into :: "'a bio_st_scheme \<Rightarrow> nat \<Rightarrow> nat \<Rightarrow> buf" where
  "read_into s n b = (let x = bufs s ! b in
     if cached s n b then x\<lparr>b_refcnt := b_refcnt x + 1, b_lock := \<lparr>sl_locked = True, sl_pid = curpid s\<rparr>,
         b_data := bview s n, b_valid := True\<rparr>
     else x\<lparr>b_dev := 1, b_blockno := n, b_dirty := False, b_refcnt := 1,
         b_lock := \<lparr>sl_locked = True, sl_pid = curpid s\<rparr>, b_data := bview s n, b_valid := True\<rparr>)"

definition recyclable :: "'a bio_st_scheme \<Rightarrow> nat \<Rightarrow> bool" where
  "recyclable s b \<longleftrightarrow> b < NBUF \<and> b_refcnt (bufs s ! b) = 0 \<and> \<not> b_dirty (bufs s ! b)"

lemma sleeplock_eta: "l\<lparr>sl_locked := True, sl_pid := p\<rparr> = \<lparr>sl_locked = True, sl_pid = p\<rparr>" for l :: sleeplock
  by (cases l) simp

lemma bget_hit:
  assumes I: "bio_inv s" and p: "curproc s = Some p" and c: "cached s n b"
    and free: "\<not> sl_locked (b_lock (bufs s ! b))"
  shows "bget 1 n s = Ret b (upd_buf b (\<lambda>x. x\<lparr>b_refcnt := b_refcnt x + 1,
    b_lock := \<lparr>sl_locked = True, sl_pid = curpid s\<rparr>\<rparr>) s)"
proof -
  obtain xs where r: "ring s xs" using bio_invD(2) [OF I] by blast
  have b: "b < NBUF" "b < length (bufs s)" using c bio_invD(1) [OF I] by (auto simp: cached_def)
  have "find (\<lambda>b. b_dev (bufs s ! b) = 1 \<and> b_blockno (bufs s ! b) = n) xs = Some b"
  proof -
    obtain a where a: "find (\<lambda>b. b_dev (bufs s ! b) = 1 \<and> b_blockno (bufs s ! b) = n) xs = Some a"
      using c r by (cases "find (\<lambda>b. b_dev (bufs s ! b) = 1 \<and> b_blockno (bufs s ! b) = n) xs")
        (auto simp: find_None_iff cached_def ring_def)
    then have "cached s n a" using r find_Some_props [OF a] by (auto simp: cached_def ring_def)
    with bio_invD(4) [OF I this c] a show ?thesis by simp
  qed
  then have hit: "bscan (bnext s) (\<lambda>b. b_dev b = 1 \<and> b_blockno b = n) (bufs s) 31 (bnext s HEAD) = Some (Some b)"
    by (simp add: ring_scan [OF r])
  let ?s1 = "upd_buf b (\<lambda>x. x\<lparr>b_refcnt := b_refcnt x + 1\<rparr>) s"
  have "acquiresleep (get_buflock b) (upd_buflock b) (ChanBufLock b) ?s1
      = Ret () (upd_buflock b (\<lambda>l. l\<lparr>sl_locked := True, sl_pid := curpid ?s1\<rparr>) ?s1)"
    by (rule blk.acquire_free) (use b free p in \<open>simp_all add: get_buflock_def\<close>)
  then show ?thesis using b hit
    by (simp add: bget_def prog_defs upd_buflock_def upd_buf_upd_buf sleeplock_eta)
qed

lemma bget_miss:
  assumes I: "bio_inv s" and p: "curproc s = Some p" and c: "\<And>b. \<not> cached s n b"
    and r: "ring s xs" and f: "find (recyclable s) (rev xs) = Some b"
  shows "bget 1 n s = Ret b (upd_buf b (\<lambda>x. x\<lparr>b_dev := 1, b_blockno := n, b_valid := False, b_dirty := False,
    b_refcnt := 1, b_lock := \<lparr>sl_locked = True, sl_pid = curpid s\<rparr>\<rparr>) s)"
proof -
  have b: "b < NBUF" "recyclable s b" using find_Some_props [OF f] by (auto simp: recyclable_def)
  then have len: "b < length (bufs s)" using bio_invD(1) [OF I] by simp
  have free: "\<not> sl_locked (b_lock (bufs s ! b))"
    using bio_invD(3) [OF I b(1)] b(2) by (auto simp: buf_ok_def recyclable_def split: if_splits)
  have "find (\<lambda>b. b_dev (bufs s ! b) = 1 \<and> b_blockno (bufs s ! b) = n) xs = None"
    using c r by (auto simp: find_None_iff cached_def ring_def)
  then have miss: "bscan (bnext s) (\<lambda>b. b_dev b = 1 \<and> b_blockno b = n) (bufs s) 31 (bnext s HEAD) = Some None"
    by (simp add: ring_scan [OF r])
  have "find (\<lambda>b. b_refcnt (bufs s ! b) = 0 \<and> \<not> b_dirty (bufs s ! b)) (rev xs) = find (recyclable s) (rev xs)"
    by (rule find_cong) (use r in \<open>auto simp: recyclable_def ring_def\<close>)
  then have rec: "bscan (bprev s) (\<lambda>b. b_refcnt b = 0 \<and> \<not> b_dirty b) (bufs s) 31 (bprev s HEAD) = Some (Some b)"
    using f by (simp add: ring_scan [OF r])
  let ?s1 = "upd_buf b (\<lambda>x. x\<lparr>b_dev := 1, b_blockno := n, b_valid := False, b_dirty := False, b_refcnt := 1\<rparr>) s"
  have "acquiresleep (get_buflock b) (upd_buflock b) (ChanBufLock b) ?s1
      = Ret () (upd_buflock b (\<lambda>l. l\<lparr>sl_locked := True, sl_pid := curpid ?s1\<rparr>) ?s1)"
    by (rule blk.acquire_free) (use len free p in \<open>simp_all add: get_buflock_def\<close>)
  then show ?thesis using len miss rec
    by (simp add: bget_def prog_defs upd_buflock_def upd_buf_upd_buf sleeplock_eta)
qed

lemma bread_eq:
  assumes I: "bio_inv s" and p: "curproc s = Some p" and n: "n < disksize s"
    and free: "\<And>b. cached s n b \<Longrightarrow> \<not> sl_locked (b_lock (bufs s ! b))"
    and room: "(\<exists>b. cached s n b) \<or> (\<exists>b. recyclable s b)"
  shows "\<exists>b. bread 1 n s = Ret b (s\<lparr>bufs := (bufs s)[b := read_into s n b]\<rparr>) \<and> b < NBUF
    \<and> (cached s n b \<or> (\<forall>b. \<not> cached s n b) \<and> recyclable s b)"
proof (cases "\<exists>b. cached s n b")
  case True
  then obtain b where c: "cached s n b" by blast
  have b: "b < NBUF" "b < length (bufs s)" using c bio_invD(1) [OF I] by (auto simp: cached_def)
  let ?s1 = "upd_buf b (\<lambda>x. x\<lparr>b_refcnt := b_refcnt x + 1, b_lock := \<lparr>sl_locked = True, sl_pid = curpid s\<rparr>\<rparr>) s"
  have get: "bget 1 n s = Ret b ?s1" by (rule bget_hit [OF I p c free [OF c]])
  have h: "held_buf ?s1 b" using b by (simp add: held_buf_def)
  have nd: "\<not> b_valid (bufs s ! b) \<Longrightarrow> \<not> b_dirty (bufs s ! b)"
    using bio_invD(3) [OF I b(1)] by (auto simp: buf_ok_def)
  show ?thesis
  proof (intro exI conjI)
    show "bread 1 n s = Ret b (s\<lparr>bufs := (bufs s)[b := read_into s n b]\<rparr>)"
    proof (cases "b_valid (bufs s ! b)")
      case True
      then have "read_into s n b = (bufs s ! b)\<lparr>b_refcnt := b_refcnt (bufs s ! b) + 1,
          b_lock := \<lparr>sl_locked = True, sl_pid = curpid s\<rparr>\<rparr>"
        using c bview_cached [OF I c] by (cases "bufs s ! b") (simp add: read_into_def)
      then show ?thesis using True b by (simp add: bread_def get prog_defs whenp_def upd_buf_def)
    next
      case False
      have v: "bview s n = disk s n"
        by (rule bview_uncached) (use False bio_invD(4) [OF I c] in blast)
      have "iderw b ?s1 = Ret () (upd_buf b (\<lambda>x. x\<lparr>b_data := disk ?s1 (b_blockno x), b_valid := True\<rparr>) ?s1)"
        by (rule iderw_read [OF h]) (use False nd p n c b in \<open>auto simp: cached_def\<close>)
      then show ?thesis using False b c v
        by (simp add: bread_def get prog_defs whenp_def upd_buf_def read_into_def cached_def Let_def)
    qed
  qed (use b c in simp_all)
next
  case False
  then obtain a where a: "recyclable s a" using room by blast
  obtain xs where r: "ring s xs" using bio_invD(2) [OF I] by blast
  obtain b where f: "find (recyclable s) (rev xs) = Some b"
    using a r by (cases "find (recyclable s) (rev xs)") (auto simp: find_None_iff ring_def recyclable_def)
  have b: "b < NBUF" "b < length (bufs s)" "recyclable s b"
    using find_Some_props [OF f] bio_invD(1) [OF I] by (auto simp: recyclable_def)
  let ?s1 = "upd_buf b (\<lambda>x. x\<lparr>b_dev := 1, b_blockno := n, b_valid := False, b_dirty := False,
    b_refcnt := 1, b_lock := \<lparr>sl_locked = True, sl_pid = curpid s\<rparr>\<rparr>) s"
  have get: "bget 1 n s = Ret b ?s1" using False by (intro bget_miss [OF I p _ r f]) blast
  have h: "held_buf ?s1 b" using b by (simp add: held_buf_def)
  have v: "bview s n = disk s n" by (rule bview_uncached) (use False in blast)
  have "iderw b ?s1 = Ret () (upd_buf b (\<lambda>x. x\<lparr>b_data := disk ?s1 (b_blockno x), b_valid := True\<rparr>) ?s1)"
    by (rule iderw_read [OF h]) (use p n b in simp_all)
  then have "bread 1 n s = Ret b (s\<lparr>bufs := (bufs s)[b := read_into s n b]\<rparr>)"
    using False b v by (simp add: bread_def get prog_defs whenp_def upd_buf_def read_into_def Let_def)
  then show ?thesis using b False by blast
qed

section \<open>What a client sees\<close>

text \<open>
  \<open>hold s b n d f\<close>: the running process has buffer \<open>b\<close>, which holds block \<open>n\<close> with contents \<open>d\<close>
  and dirty flag \<open>f\<close>.  \<open>locked_bufs\<close> is the set of all buffers in use and \<open>dirty_blocks\<close> the blocks
  that are pinned in the cache.  \<open>bio_frame s s'\<close> says that nothing outside the cache, the disk
  and the sleep states of processes has changed.
\<close>

definition hold :: "'a bio_st_scheme \<Rightarrow> nat \<Rightarrow> nat \<Rightarrow> block \<Rightarrow> bool \<Rightarrow> bool" where
  "hold s b n d f \<longleftrightarrow> held_buf s b \<and> cached s n b \<and> b_valid (bufs s ! b) \<and> b_data (bufs s ! b) = d \<and> b_dirty (bufs s ! b) = f"

definition locked_bufs :: "'a bio_st_scheme \<Rightarrow> nat set" where
  "locked_bufs s = {b. b < NBUF \<and> sl_locked (b_lock (bufs s ! b))}"

definition dirty_blocks :: "'a bio_st_scheme \<Rightarrow> nat set" where
  "dirty_blocks s = {n. \<exists>b. cached s n b \<and> b_dirty (bufs s ! b)}"

definition woken :: "proc list \<Rightarrow> proc list \<Rightarrow> bool" where
  "woken t t' \<longleftrightarrow> length t' = length t \<and> (\<forall>i<length t. t' ! i = t ! i \<or>
     p_state (t ! i) = SLEEPING \<and> t' ! i = (t ! i)\<lparr>p_state := RUNNABLE\<rparr>)"

definition bio_frame :: "'a bio_st_scheme \<Rightarrow> 'a bio_st_scheme \<Rightarrow> bool" where
  "bio_frame s s' \<longleftrightarrow> woken (ptable s) (ptable s') \<and> s' = s\<lparr>ptable := ptable s', disk := disk s', dwrites := dwrites s',
     bufs := bufs s', bprev := bprev s', bnext := bnext s'\<rparr>"

definition running :: "'a proc_st_scheme \<Rightarrow> bool" where
  "running s \<longleftrightarrow> (case curproc s of None \<Rightarrow> False | Some p \<Rightarrow> p < length (ptable s))"

lemma woken_refl [simp]: "woken t t"
  by (simp add: woken_def)

lemma woken_trans:
  assumes "woken t u" "woken u v"
  shows "woken t v"
  unfolding woken_def
proof (intro conjI allI impI)
  show "length v = length t" using assms by (simp add: woken_def)
  fix i assume i: "i < length t"
  then have "u ! i = t ! i \<or> p_state (t ! i) = SLEEPING \<and> u ! i = (t ! i)\<lparr>p_state := RUNNABLE\<rparr>"
    "v ! i = u ! i \<or> p_state (u ! i) = SLEEPING \<and> v ! i = (u ! i)\<lparr>p_state := RUNNABLE\<rparr>"
    using assms by (simp_all add: woken_def)
  then show "v ! i = t ! i \<or> p_state (t ! i) = SLEEPING \<and> v ! i = (t ! i)\<lparr>p_state := RUNNABLE\<rparr>" by auto
qed

lemma woken_wake: "woken t (map (wake_on c) t)"
  by (simp add: woken_def wake_on_def)

lemma woken_pid: "woken t u \<Longrightarrow> i < length t \<Longrightarrow> p_pid (u ! i) = p_pid (t ! i)"
  by (auto simp: woken_def)

lemma bio_frame_refl [simp]: "bio_frame s s"
  by (simp add: bio_frame_def)

lemma bio_frame_trans: "bio_frame s t \<Longrightarrow> bio_frame t u \<Longrightarrow> bio_frame s u"
  unfolding bio_frame_def
  by (elim conjE, intro conjI, erule (1) woken_trans) (erule ssubst, erule ssubst, simp)

lemma bio_frame_sel:
  assumes "bio_frame s s'"
  shows "curproc s' = curproc s" "disksize s' = disksize s" "bio_st.more s' = bio_st.more s"
    "mem s' = mem s" "freelist s' = freelist s" "kend s' = kend s" "initproc s' = initproc s" "nextpid s' = nextpid s"
    "spoons s' = spoons s"
proof -
  note e = assms [unfolded bio_frame_def, THEN conjunct2]
  show "curproc s' = curproc s" "disksize s' = disksize s" "bio_st.more s' = bio_st.more s"
    "mem s' = mem s" "freelist s' = freelist s" "kend s' = kend s" "initproc s' = initproc s" "nextpid s' = nextpid s"
    "spoons s' = spoons s"
    by (subst e, simp)+
qed

lemma bio_frame_running:
  assumes "bio_frame s s'" "running s"
  shows "running s'" "curpid s' = curpid s"
  using assms bio_frame_sel(1) [OF assms(1)] woken_pid [of "ptable s" "ptable s'"]
  by (auto simp: running_def curpid_def bio_frame_def woken_def split: option.splits)

lemma running_curproc: "running s \<Longrightarrow> \<exists>p. curproc s = Some p"
  by (auto simp: running_def split: option.splits)

lemma read_into_sel:
  "b_dev (read_into s n b) = 1 \<or> cached s n b" "b_valid (read_into s n b)" "b_data (read_into s n b) = bview s n"
  "b_lock (read_into s n b) = \<lparr>sl_locked = True, sl_pid = curpid s\<rparr>"
  "b_dirty (read_into s n b) = (cached s n b \<and> b_dirty (bufs s ! b))"
  "b_refcnt (read_into s n b) = (if cached s n b then b_refcnt (bufs s ! b) + 1 else 1)"
  by (simp_all add: read_into_def Let_def)

lemma read_into_block: "b_dev (read_into s n b) = 1" "b_blockno (read_into s n b) = n"
  by (auto simp: read_into_def Let_def cached_def)

lemma bread_spec:
  assumes I: "bio_inv s" and run: "running s" and n: "n < disksize s"
    and free: "\<And>b. cached s n b \<Longrightarrow> b \<notin> locked_bufs s"
    and room: "n \<in> dirty_blocks s \<or> (\<exists>b. recyclable s b)"
  shows "wp (bread 1 n) (\<lambda>b s'. bio_inv s' \<and> bio_frame s s' \<and> disk s' = disk s \<and> dwrites s' = dwrites s
    \<and> hold s' b n (bview s n) (n \<in> dirty_blocks s) \<and> b \<notin> locked_bufs s \<and> locked_bufs s' = insert b (locked_bufs s)
    \<and> bview s' = bview s \<and> dirty_blocks s' = dirty_blocks s
    \<and> (\<forall>a m d f. hold s a m d f \<longrightarrow> hold s' a m d f)) s"
proof -
  obtain p where p: "curproc s = Some p" using running_curproc [OF run] by blast
  have "(\<exists>b. cached s n b) \<or> (\<exists>b. recyclable s b)" using room by (auto simp: dirty_blocks_def)
  moreover have "\<not> sl_locked (b_lock (bufs s ! b))" if "cached s n b" for b
    using free [OF that] that by (simp add: locked_bufs_def cached_def)
  ultimately obtain b where b: "bread 1 n s = Ret b (s\<lparr>bufs := (bufs s)[b := read_into s n b]\<rparr>)" "b < NBUF"
      "cached s n b \<or> (\<forall>b. \<not> cached s n b) \<and> recyclable s b"
    using bread_eq [OF I p n] by blast
  let ?s = "s\<lparr>bufs := (bufs s)[b := read_into s n b]\<rparr>"
  have len: "length (bufs s) = NBUF" by (rule bio_invD(1) [OF I])
  have nth: "(bufs s)[b := read_into s n b] ! a = (if a = b then read_into s n b else bufs s ! a)" for a
    using b(2) len by simp
  have c: "cached ?s m a \<longleftrightarrow> (if a = b then m = n else cached s m a)" for m a
    using b(2) by (auto simp: cached_def nth read_into_block)
  have ub: "\<not> sl_locked (b_lock (bufs s ! b))"
    using b(2,3) free bio_invD(3) [OF I b(2)]
    by (auto simp: recyclable_def buf_ok_def locked_bufs_def split: if_splits)
  have nb: "cached s n a \<Longrightarrow> a = b" for a using b(3) bio_invD(4) [OF I] by blast
  have pid: "curpid ?s = curpid s" by (rule curpid_cong) simp_all
  have inv: "bio_inv ?s"
    unfolding bio_inv_def
  proof (intro conjI allI impI)
    show "length (bufs ?s) = NBUF" using len by simp
    show "\<exists>xs. ring ?s xs" using bio_invD(2) [OF I] by (simp add: ring_def)
    show "buf_ok (disk ?s) (bufs ?s ! a)" if "a < NBUF" for a
      using bio_invD(3) [OF I that] ub b(3) by (cases "a = b") (auto simp: nth buf_ok_def read_into_sel read_into_block)
    show "a = a'" if "a < NBUF" "a' < NBUF" "b_dev (bufs ?s ! a) = 1" "b_dev (bufs ?s ! a') = 1"
        "b_blockno (bufs ?s ! a) = b_blockno (bufs ?s ! a')" for a a'
    proof -
      have "cached ?s (b_blockno (bufs ?s ! a)) a" "cached ?s (b_blockno (bufs ?s ! a)) a'"
        using that by (simp_all add: cached_def)
      then show ?thesis using c nb bio_invD(4) [OF I] by (metis)
    qed
  qed
  have dirty: "dirty_blocks ?s = dirty_blocks s"
  proof -
    have "(\<exists>a. cached ?s m a \<and> b_dirty (bufs ?s ! a)) \<longleftrightarrow> (\<exists>a. cached s m a \<and> b_dirty (bufs s ! a))" for m
    proof (cases "m = n")
      case True
      have "(\<exists>a. cached ?s m a \<and> b_dirty (bufs ?s ! a)) \<longleftrightarrow> cached s n b \<and> b_dirty (bufs s ! b)"
        unfolding True using nb by (auto simp: c nth read_into_sel split: if_splits)
      also have "\<dots> \<longleftrightarrow> (\<exists>a. cached s m a \<and> b_dirty (bufs s ! a))"
        unfolding True using nb by blast
      finally show ?thesis .
    next
      case False
      have "\<not> (cached s m b \<and> b_dirty (bufs s ! b))"
        using b(3) False by (auto simp: recyclable_def cached_def)
      then have "(\<exists>a. a \<noteq> b \<and> cached s m a \<and> b_dirty (bufs s ! a)) \<longleftrightarrow> (\<exists>a. cached s m a \<and> b_dirty (bufs s ! a))"
        by metis
      with False show ?thesis by (auto simp: c nth split: if_splits)
    qed
    then show ?thesis by (simp add: dirty_blocks_def)
  qed
  have view: "bview ?s m = bview s m" for m
  proof (cases "m = n")
    case True
    then show ?thesis using bview_cached [OF inv, of n b] b(2) by (simp add: c nth read_into_sel)
  next
    case False
    show ?thesis
    proof (cases "\<exists>a. a \<noteq> b \<and> cached s m a \<and> b_valid (bufs s ! a)")
      case True
      then obtain a where a: "a \<noteq> b" "cached s m a" "b_valid (bufs s ! a)" by blast
      then show ?thesis using bview_cached [OF I, of m a] bview_cached [OF inv, of m a] by (simp add: c nth)
    next
      case other: False
      have 1: "bview ?s m = disk ?s m"
        by (rule bview_uncached) (use other False in \<open>auto simp: c nth split: if_splits\<close>)
      have "bview s m = disk s m"
      proof (cases "cached s m b \<and> b_valid (bufs s ! b)")
        case True
        then have "recyclable s b" using b(3) False by (auto simp: cached_def)
        then have "b_data (bufs s ! b) = disk s m"
          using bio_invD(3) [OF I b(2)] ub True by (auto simp: buf_ok_def recyclable_def cached_def)
        then show ?thesis using bview_cached [OF I, of m b] True by simp
      next
        case False
        then show ?thesis using other by (intro bview_uncached) metis
      qed
      with 1 show ?thesis by simp
    qed
  qed
  have "bio_frame s ?s" by (simp add: bio_frame_def)
  moreover have "hold ?s b n (bview s n) (n \<in> dirty_blocks s)"
    using b(2) by (auto simp: hold_def held_buf_def c nth read_into_sel pid dirty_blocks_def dest: nb)
  moreover have "locked_bufs ?s = insert b (locked_bufs s)" "b \<notin> locked_bufs s"
    using b(2) ub by (auto simp: locked_bufs_def nth read_into_sel)
  moreover have "hold s a m d f \<longrightarrow> hold ?s a m d f" for a m d f
    using ub by (auto simp: hold_def held_buf_def c nth pid)
  ultimately show ?thesis using b(1) inv dirty view by (intro wpI) (auto simp: fun_eq_iff)
qed

text \<open>
  Changing one buffer that holds block \<open>n\<close>, without giving it to another block, and possibly
  that block on disk.
\<close>

lemma bio_inv_change:
  assumes I: "bio_inv s" and c: "cached s n b"
    and s': "bufs s' = (bufs s)[b := x]" "b_dev x = 1" "b_blockno x = n" "b_valid x"
      "ring s' xs" "\<And>m. m \<noteq> n \<Longrightarrow> disk s' m = disk s m" "buf_ok (disk s') x"
  shows "bio_inv s'" "cached s' m a = cached s m a"
    "bview s' = (bview s)(n := b_data x)"
    "dirty_blocks s' = (if b_dirty x then insert n (dirty_blocks s) else dirty_blocks s - {n})"
proof -
  have b: "b < NBUF" using c by (simp add: cached_def)
  have len: "length (bufs s) = NBUF" by (rule bio_invD(1) [OF I])
  have nth: "bufs s' ! a = (if a = b then x else bufs s ! a)" for a using b len by (simp add: s'(1))
  have cd: "cached s' m a = cached s m a" for m a
    using c s'(2,3) by (auto simp: cached_def nth)
  then show "cached s' m a = cached s m a" .
  have ok: "buf_ok (disk s') (bufs s ! a)" if "a < NBUF" "a \<noteq> b" for a
  proof (cases "b_dev (bufs s ! a) = 1")
    case True
    then have "b_blockno (bufs s ! a) \<noteq> n"
      using that c bio_invD(4) [OF I, of n a b] by (auto simp: cached_def)
    then show ?thesis using bio_invD(3) [OF I that(1)] s'(6) by (simp add: buf_ok_def)
  next
    case False
    then show ?thesis using bio_invD(3) [OF I that(1)] by (simp add: buf_ok_def)
  qed
  show inv: "bio_inv s'"
    unfolding bio_inv_def
  proof (intro conjI allI impI)
    show "length (bufs s') = NBUF" using len s'(1) by simp
    show "\<exists>xs. ring s' xs" using s'(5) by blast
    show "buf_ok (disk s') (bufs s' ! a)" if "a < NBUF" for a
      using ok [OF that] s'(7) by (simp add: nth)
    show "a = a'" if "a < NBUF" "a' < NBUF" "b_dev (bufs s' ! a) = 1" "b_dev (bufs s' ! a') = 1"
        "b_blockno (bufs s' ! a) = b_blockno (bufs s' ! a')" for a a'
    proof -
      have "cached s' (b_blockno (bufs s' ! a)) a" "cached s' (b_blockno (bufs s' ! a)) a'"
        using that by (simp_all add: cached_def)
      then show ?thesis unfolding cd by (rule bio_invD(4) [OF I])
    qed
  qed
  show "bview s' = (bview s)(n := b_data x)"
  proof
    fix m
    show "bview s' m = ((bview s)(n := b_data x)) m"
    proof (cases "m = n")
      case True
      then show ?thesis using bview_cached [OF inv, of n b] c s'(4) by (simp add: cd nth)
    next
      case False
      then have nb: "\<not> cached s m b" using c by (auto simp: cached_def)
      show ?thesis
      proof (cases "\<exists>a. cached s m a \<and> b_valid (bufs s ! a)")
        case True
        then obtain a where a: "cached s m a" "b_valid (bufs s ! a)" by blast
        then have "a \<noteq> b" using nb by auto
        then show ?thesis using False a bview_cached [OF I a] bview_cached [OF inv, of m a] by (simp add: cd nth)
      next
        case none: False
        have "bview s m = disk s m" by (rule bview_uncached) (use none in blast)
        moreover have "bview s' m = disk s' m"
          by (rule bview_uncached) (use none nb in \<open>auto simp: cd nth split: if_splits\<close>)
        ultimately show ?thesis using False s'(6) by simp
      qed
    qed
  qed
  have d: "m \<in> dirty_blocks s' \<longleftrightarrow> (if m = n then b_dirty x else m \<in> dirty_blocks s)" for m
  proof (cases "m = n")
    case True
    have "a = b" if "cached s n a" for a using bio_invD(4) [OF I that c] .
    then have "(\<exists>a. cached s n a \<and> b_dirty (bufs s' ! a)) \<longleftrightarrow> b_dirty (bufs s' ! b)" using c by metis
    then show ?thesis using True by (simp add: dirty_blocks_def cd nth)
  next
    case False
    then have "\<not> cached s m b" using c by (auto simp: cached_def)
    then have "(\<exists>a. cached s m a \<and> b_dirty (bufs s' ! a)) \<longleftrightarrow> (\<exists>a. cached s m a \<and> b_dirty (bufs s ! a))"
      by (metis nth)
    then show ?thesis using False by (simp add: dirty_blocks_def cd)
  qed
  show "dirty_blocks s' = (if b_dirty x then insert n (dirty_blocks s) else dirty_blocks s - {n})"
    by (rule set_eqI) (simp add: d)
qed

lemma holdD:
  assumes "hold s b n d f"
  shows "b < NBUF" "cached s n b" "b_data (bufs s ! b) = d" "b_dirty (bufs s ! b) = f" "b_valid (bufs s ! b)"
    "sl_locked (b_lock (bufs s ! b))" "held_buf s b" "b \<in> locked_bufs s"
  using assms by (auto simp: hold_def held_buf_def locked_bufs_def)

lemma hold_dirty:
  assumes "bio_inv s" "hold s b n d f"
  shows "n \<in> dirty_blocks s \<longleftrightarrow> f"
proof -
  note H = holdD [OF assms(2)]
  have "a = b" if "cached s n a" for a using bio_invD(4) [OF assms(1) that H(2)] .
  then have "(\<exists>a. cached s n a \<and> b_dirty (bufs s ! a)) \<longleftrightarrow> b_dirty (bufs s ! b)" using H(2) by metis
  then show ?thesis using H(4) by (simp add: dirty_blocks_def)
qed

lemma hold_view: "bio_inv s \<Longrightarrow> hold s b n d f \<Longrightarrow> bview s n = d"
  using bview_cached [of s n b] holdD(2,3,5) [of s b n d f] by simp

lemma hold_other:
  assumes "hold s a m d f" "a \<noteq> b" "bufs s' = (bufs s)[b := x]" "curpid s' = curpid s"
  shows "hold s' a m d f"
  using assms by (simp add: hold_def held_buf_def cached_def)

lemma locked_bufs_change:
  assumes "bufs s' = (bufs s)[b := x]" "b < NBUF" "length (bufs s) = NBUF"
  shows "locked_bufs s' = (if sl_locked (b_lock x) then insert b (locked_bufs s) else locked_bufs s - {b})"
  using assms by (auto simp: locked_bufs_def nth_list_update split: if_splits)

lemma set_data_spec:
  assumes I: "bio_inv s" and h: "hold s b n d0 f"
  shows "wp (set_data b d) (\<lambda>_ s'. bio_inv s' \<and> bio_frame s s' \<and> disk s' = disk s \<and> dwrites s' = dwrites s
    \<and> hold s' b n d f \<and> locked_bufs s' = locked_bufs s \<and> bview s' = (bview s)(n := d) \<and> dirty_blocks s' = dirty_blocks s
    \<and> (\<forall>a m d f. a \<noteq> b \<longrightarrow> hold s a m d f \<longrightarrow> hold s' a m d f)) s"
proof -
  note H = holdD [OF h]
  let ?x = "(bufs s ! b)\<lparr>b_data := d\<rparr>"
  let ?s = "s\<lparr>bufs := (bufs s)[b := ?x]\<rparr>"
  have len: "length (bufs s) = NBUF" by (rule bio_invD(1) [OF I])
  obtain xs where r: "ring s xs" using bio_invD(2) [OF I] by blast
  have pid: "curpid ?s = curpid s" by (rule curpid_cong) simp_all
  note ch = bio_inv_change [OF I H(2), of ?s ?x xs]
  have pre: "bufs ?s = (bufs s)[b := ?x]" "b_dev ?x = 1" "b_blockno ?x = n" "b_valid ?x" "ring ?s xs"
    "\<And>m. m \<noteq> n \<Longrightarrow> disk ?s m = disk s m" "buf_ok (disk ?s) ?x"
    using H r bio_invD(3) [OF I H(1)] by (auto simp: cached_def ring_def buf_ok_def)
  note C = ch [OF pre]
  have "dirty_blocks ?s = dirty_blocks s" using C(4) H(4) hold_dirty [OF I h] by auto
  moreover have "hold ?s b n d f" using H len by (simp add: hold_def held_buf_def C(2) pid)
  moreover have "locked_bufs ?s = locked_bufs s"
    using locked_bufs_change [OF pre(1) H(1) len] H(6,8) by auto
  moreover have "bio_frame s ?s" by (simp add: bio_frame_def)
  moreover have "\<forall>a m d f. a \<noteq> b \<longrightarrow> hold s a m d f \<longrightarrow> hold ?s a m d f"
    using hold_other [OF _ _ pre(1) pid] by blast
  moreover have e: "set_data b d s = Ret () ?s" by (simp add: set_data_def modify_def upd_buf_def)
  ultimately show ?thesis using C(1,3) by - (rule wpI, rule e, simp)
qed

lemma bwrite_spec:
  assumes I: "bio_inv s" and run: "running s" and h: "hold s b n d f" and n: "n < disksize s"
  shows "wp (bwrite b) (\<lambda>_ s'. bio_inv s' \<and> bio_frame s s' \<and> disk s' = (disk s)(n := d) \<and> dwrites s' = dwrites s @ [(n, d)]
    \<and> hold s' b n d False \<and> locked_bufs s' = locked_bufs s \<and> bview s' = bview s \<and> dirty_blocks s' = dirty_blocks s - {n}
    \<and> (\<forall>a m d f. a \<noteq> b \<longrightarrow> hold s a m d f \<longrightarrow> hold s' a m d f)) s"
proof -
  note H = holdD [OF h]
  obtain p where p: "curproc s = Some p" using running_curproc [OF run] by blast
  let ?x = "(bufs s ! b)\<lparr>b_dirty := False, b_valid := True\<rparr>"
  let ?s = "s\<lparr>bufs := (bufs s)[b := ?x], disk := (disk s)(n := d), dwrites := dwrites s @ [(n, d)]\<rparr>"
  have len: "length (bufs s) = NBUF" by (rule bio_invD(1) [OF I])
  obtain xs where r: "ring s xs" using bio_invD(2) [OF I] by blast
  have pid: "curpid ?s = curpid s" by (rule curpid_cong) simp_all
  have pre: "bufs ?s = (bufs s)[b := ?x]" "b_dev ?x = 1" "b_blockno ?x = n" "b_valid ?x" "ring ?s xs"
    "\<And>m. m \<noteq> n \<Longrightarrow> disk ?s m = disk s m" "buf_ok (disk ?s) ?x"
    using H r bio_invD(3) [OF I H(1)] by (auto simp: cached_def ring_def buf_ok_def)
  note C = bio_inv_change [OF I H(2) pre]
  have "held_buf (upd_buf b (\<lambda>x. x\<lparr>b_dirty := True\<rparr>) s) b"
    using H(1,7) len by (simp add: held_buf_def)
  from iderw_write [OF this, of p] have e: "bwrite b s = Ret () ?s"
    using locked_by_me [OF H(7) p] p H n len by (simp add: bwrite_def prog_defs cached_def upd_buf_def)
  have "dirty_blocks ?s = dirty_blocks s - {n}" using C(4) by simp
  moreover have "bview ?s = bview s" using C(3) hold_view [OF I h] H(3) by (simp add: fun_eq_iff)
  moreover have "hold ?s b n d False" using H len by (simp add: hold_def held_buf_def C(2) pid)
  moreover have "locked_bufs ?s = locked_bufs s"
    using locked_bufs_change [OF pre(1) H(1) len] H(6,8) by auto
  moreover have "bio_frame s ?s" by (simp add: bio_frame_def)
  moreover have "\<forall>a m d f. a \<noteq> b \<longrightarrow> hold s a m d f \<longrightarrow> hold ?s a m d f"
    using hold_other [OF _ _ pre(1) pid] by blast
  ultimately show ?thesis using C(1) by - (rule wpI, rule e, simp)
qed

lemma brelse_spec:
  assumes I: "bio_inv s" and run: "running s" and h: "hold s b n d f" and ok: "f \<or> d = disk s n"
  shows "wp (brelse b) (\<lambda>_ s'. bio_inv s' \<and> bio_frame s s' \<and> disk s' = disk s \<and> dwrites s' = dwrites s
    \<and> locked_bufs s' = locked_bufs s - {b} \<and> bview s' = bview s \<and> dirty_blocks s' = dirty_blocks s
    \<and> (\<forall>a m d f. a \<noteq> b \<longrightarrow> hold s a m d f \<longrightarrow> hold s' a m d f)) s"
proof -
  note H = holdD [OF h]
  obtain p where p: "curproc s = Some p" using running_curproc [OF run] by blast
  have len: "length (bufs s) = NBUF" by (rule bio_invD(1) [OF I])
  obtain xs where r: "ring s xs" using bio_invD(2) [OF I] by blast
  have ref: "b_refcnt (bufs s ! b) = 1" using bio_invD(3) [OF I H(1)] H(6) by (simp add: buf_ok_def)
  let ?x = "(bufs s ! b)\<lparr>b_lock := \<lparr>sl_locked = False, sl_pid = 0\<rparr>, b_refcnt := 0\<rparr>"
  let ?s1 = "s\<lparr>ptable := map (wake_on (ChanBufLock b)) (ptable s), bufs := (bufs s)[b := ?x]\<rparr>"
  let ?s = "insert_head b (unlink_buf b ?s1)"
  have fr: "?s = ?s1\<lparr>bprev := bprev ?s, bnext := bnext ?s\<rparr>"
    by (simp add: insert_head_def unlink_buf_def Let_def)
  have sel: "bufs ?s = (bufs s)[b := ?x]" "disk ?s = disk s" "dwrites ?s = dwrites s"
    "ptable ?s = map (wake_on (ChanBufLock b)) (ptable s)" "curproc ?s = curproc s"
    by (subst fr, simp)+
  have "ring ?s1 xs" using r by (simp add: ring_def)
  from ring_to_front [OF this H(1)] have rg: "ring ?s (b # remove1 b xs)" .
  have frame: "bio_frame s ?s"
    unfolding bio_frame_def sel(1-4) by (rule conjI, rule woken_wake) (subst fr, simp)
  have pid: "curpid ?s = curpid s" by (rule bio_frame_running(2) [OF frame run])
  have lk: "l\<lparr>sl_locked := False, sl_pid := 0\<rparr> = \<lparr>sl_locked = False, sl_pid = 0\<rparr>" for l :: sleeplock by (cases l) simp
  have e: "brelse b s = Ret () ?s"
    using locked_by_me [OF H(7) p] H(1) len ref blk.release_wakes [of b s]
    by (simp add: brelse_def prog_defs upd_buflock_def upd_buf_def whenp_def lk)
  have pre: "b_dev ?x = 1" "b_blockno ?x = n" "b_valid ?x" "buf_ok (disk ?s) ?x"
    using H ok bio_invD(3) [OF I H(1)] by (auto simp: cached_def buf_ok_def sel(2))
  note C = bio_inv_change [OF I H(2) sel(1) pre(1-3) rg _ pre(4)]
  have "dirty_blocks ?s = dirty_blocks s" using C(4) H(4) hold_dirty [OF I h] by (auto simp: sel(2))
  moreover have "bview ?s = bview s" using C(3) hold_view [OF I h] H(3) by (simp add: fun_eq_iff sel(2))
  moreover have "locked_bufs ?s = locked_bufs s - {b}"
    using locked_bufs_change [OF sel(1) H(1) len] by simp
  moreover have "\<forall>a m d f. a \<noteq> b \<longrightarrow> hold s a m d f \<longrightarrow> hold ?s a m d f"
    using hold_other [OF _ _ sel(1) pid] by blast
  ultimately show ?thesis using C(1) frame by - (rule wpI, rule e, simp add: sel)
qed

lemma get_data_spec: "hold s b n d f \<Longrightarrow> wp (get_data b) (\<lambda>r s'. r = d \<and> s' = s) s"
  by (simp add: get_data_def prog_simps holdD(3))

lemma dirty_blocks_finite: "finite (dirty_blocks s)"
proof (rule finite_subset)
  show "dirty_blocks s \<subseteq> (\<lambda>b. b_blockno (bufs s ! b)) ` {..<NBUF}"
    by (auto simp: dirty_blocks_def cached_def)
qed simp

lemma bview_quiet:
  assumes "bio_inv s" "locked_bufs s = {}" "n \<notin> dirty_blocks s"
  shows "bview s n = disk s n"
proof (rule bview_clean [OF assms(1)])
  fix b assume b: "cached s n b"
  then have "b \<notin> locked_bufs s" "\<not> b_dirty (bufs s ! b)" using assms by (auto simp: dirty_blocks_def)
  with b show "\<not> b_dirty (bufs s ! b) \<and> \<not> sl_locked (b_lock (bufs s ! b))" by (simp add: locked_bufs_def cached_def)
qed

lemma recyclable_exists:
  assumes I: "bio_inv s" and c: "card (dirty_blocks s) + card (locked_bufs s) < NBUF"
  shows "\<exists>b. recyclable s b"
proof (rule ccontr)
  assume "\<not> ?thesis"
  then have all: "b \<in> locked_bufs s \<or> b_dirty (bufs s ! b)" if "b < NBUF" for b
    using that bio_invD(3) [OF I that] by (auto simp: recyclable_def locked_bufs_def buf_ok_def split: if_splits)
  let ?D = "{b. b < NBUF \<and> b_dirty (bufs s ! b)}"
  have d: "cached s (b_blockno (bufs s ! b)) b" if "b \<in> ?D" for b
    using bio_invD(3) [OF I, of b] that by (simp add: buf_ok_def cached_def)
  have "inj_on (\<lambda>b. b_blockno (bufs s ! b)) ?D"
  proof (rule inj_onI)
    fix a b assume "a \<in> ?D" "b \<in> ?D" "b_blockno (bufs s ! a) = b_blockno (bufs s ! b)"
    then show "a = b" using d [of a] d [of b] bio_invD(4) [OF I, of "b_blockno (bufs s ! a)" a b] by simp
  qed
  moreover have "(\<lambda>b. b_blockno (bufs s ! b)) ` ?D \<subseteq> dirty_blocks s"
    using d unfolding dirty_blocks_def by blast
  ultimately have "card ?D \<le> card (dirty_blocks s)"
    by (rule card_inj_on_le) (rule dirty_blocks_finite)
  moreover have "{..<NBUF} \<subseteq> locked_bufs s \<union> ?D" using all by auto
  then have "card {..<NBUF} \<le> card (locked_bufs s \<union> ?D)"
    by (rule card_mono [rotated]) (simp add: locked_bufs_def)
  then have "NBUF \<le> card (locked_bufs s) + card ?D"
    using card_Un_le [of "locked_bufs s" ?D] by simp
  ultimately show False using c by simp
qed

section \<open>The contract of a block cache\<close>

text \<open>
  What the log and the file system need of the cache, over an abstract state: the blocks a
  reader sees (\<open>view\<close>), the blocks on disk, the history of writes, the pinned blocks and the
  buffers in use.  The client lemmas are the block-level steps of \<^verbatim>\<open>log.c\<close>.
\<close>

locale block_cache =
  fixes rd :: "nat \<Rightarrow> ('s, nat) prog"
    and wr :: "nat \<Rightarrow> ('s, unit) prog"
    and rel :: "nat \<Rightarrow> ('s, unit) prog"
    and get :: "nat \<Rightarrow> ('s, block) prog"
    and put :: "nat \<Rightarrow> block \<Rightarrow> ('s, unit) prog"
    and inv :: "'s \<Rightarrow> bool"
    and ready :: "'s \<Rightarrow> bool"
    and own :: "'s \<Rightarrow> nat \<Rightarrow> nat \<Rightarrow> block \<Rightarrow> bool \<Rightarrow> bool"
    and used :: "'s \<Rightarrow> nat set"
    and pinned :: "'s \<Rightarrow> nat set"
    and view :: "'s \<Rightarrow> nat \<Rightarrow> block"
    and dsk :: "'s \<Rightarrow> nat \<Rightarrow> block"
    and hist :: "'s \<Rightarrow> (nat \<times> block) list"
    and blocks :: "'s \<Rightarrow> nat"
    and frame :: "'s \<Rightarrow> 's \<Rightarrow> bool"
  assumes rd_spec: "inv s \<Longrightarrow> ready s \<Longrightarrow> n < blocks s \<Longrightarrow> (\<And>b d f. b \<in> used s \<Longrightarrow> \<not> own s b n d f) \<Longrightarrow>
      (\<And>b. b \<in> used s \<Longrightarrow> \<exists>m d f. own s b m d f) \<Longrightarrow>
      n \<in> pinned s \<or> card (pinned s) + card (used s) < NBUF \<Longrightarrow>
      wp (rd n) (\<lambda>b s'. inv s' \<and> frame s s' \<and> dsk s' = dsk s \<and> hist s' = hist s
        \<and> own s' b n (view s n) (n \<in> pinned s) \<and> b \<notin> used s \<and> used s' = insert b (used s)
        \<and> view s' = view s \<and> pinned s' = pinned s \<and> (\<forall>a m d f. own s a m d f \<longrightarrow> own s' a m d f)) s"
    and get_spec: "own s b n d f \<Longrightarrow> wp (get b) (\<lambda>r s'. r = d \<and> s' = s) s"
    and put_spec: "inv s \<Longrightarrow> own s b n d0 f \<Longrightarrow>
      wp (put b d) (\<lambda>_ s'. inv s' \<and> frame s s' \<and> dsk s' = dsk s \<and> hist s' = hist s
        \<and> own s' b n d f \<and> used s' = used s \<and> view s' = (view s)(n := d) \<and> pinned s' = pinned s
        \<and> (\<forall>a m d f. a \<noteq> b \<longrightarrow> own s a m d f \<longrightarrow> own s' a m d f)) s"
    and wr_spec: "inv s \<Longrightarrow> ready s \<Longrightarrow> own s b n d f \<Longrightarrow> n < blocks s \<Longrightarrow>
      wp (wr b) (\<lambda>_ s'. inv s' \<and> frame s s' \<and> dsk s' = (dsk s)(n := d) \<and> hist s' = hist s @ [(n, d)]
        \<and> own s' b n d False \<and> used s' = used s \<and> view s' = view s \<and> pinned s' = pinned s - {n}
        \<and> (\<forall>a m d f. a \<noteq> b \<longrightarrow> own s a m d f \<longrightarrow> own s' a m d f)) s"
    and rel_spec: "inv s \<Longrightarrow> ready s \<Longrightarrow> own s b n d f \<Longrightarrow> f \<or> d = dsk s n \<Longrightarrow>
      wp (rel b) (\<lambda>_ s'. inv s' \<and> frame s s' \<and> dsk s' = dsk s \<and> hist s' = hist s
        \<and> used s' = used s - {b} \<and> view s' = view s \<and> pinned s' = pinned s
        \<and> (\<forall>a m d f. a \<noteq> b \<longrightarrow> own s a m d f \<longrightarrow> own s' a m d f)) s"
    and own_used: "own s b n d f \<Longrightarrow> b \<in> used s"
    and own_block: "own s b n d f \<Longrightarrow> own s b m e g \<Longrightarrow> n = m"
    and quiet_view: "inv s \<Longrightarrow> used s = {} \<Longrightarrow> n \<notin> pinned s \<Longrightarrow> view s n = dsk s n"
    and frame_ready: "frame s s' \<Longrightarrow> ready s \<Longrightarrow> ready s'"
    and frame_blocks: "frame s s' \<Longrightarrow> blocks s' = blocks s"
    and frame_trans: "frame s s' \<Longrightarrow> frame s' s'' \<Longrightarrow> frame s s''"
begin

lemma rd_first:
  assumes "inv s" "ready s" "used s = {}" "n < blocks s" "card (pinned s) < NBUF"
  shows "wp (rd n) (\<lambda>b s'. inv s' \<and> ready s' \<and> frame s s' \<and> dsk s' = dsk s \<and> hist s' = hist s
      \<and> own s' b n (view s n) (n \<in> pinned s) \<and> used s' = {b} \<and> view s' = view s \<and> pinned s' = pinned s) s"
  by (rule wp_mono [OF rd_spec [of s n]]) (use assms frame_ready in auto)

lemma rd_second:
  assumes "inv s" "ready s" "own s a m d f" "used s = {a}" "m \<noteq> n" "n < blocks s"
    "n \<in> pinned s \<or> card (pinned s) + 1 < NBUF"
  shows "wp (rd n) (\<lambda>b s'. inv s' \<and> ready s' \<and> frame s s' \<and> dsk s' = dsk s \<and> hist s' = hist s
      \<and> own s' b n (view s n) (n \<in> pinned s) \<and> own s' a m d f \<and> a \<noteq> b \<and> used s' = {b, a}
      \<and> view s' = view s \<and> pinned s' = pinned s) s"
proof (rule wp_mono [OF rd_spec [of s n]])
  show "\<not> own s b n e g" if "b \<in> used s" for b e g
    using that assms(3-5) own_block [of s a m d f n e g] by auto
  show "\<exists>m d f. own s b m d f" if "b \<in> used s" for b using that assms(3,4) by auto
qed (use assms frame_ready in auto)

text \<open>Write a buffer and release it; release one of two buffers.\<close>

lemma put_wr:
  assumes "inv s" "ready s" "own s b n d0 f" "n < blocks s"
  shows "wp (seqp (put b d) (wr b)) (\<lambda>_ s'. inv s' \<and> ready s' \<and> frame s s' \<and> dsk s' = (dsk s)(n := d)
      \<and> hist s' = hist s @ [(n, d)] \<and> own s' b n d False \<and> used s' = used s \<and> view s' = (view s)(n := d)
      \<and> pinned s' = pinned s - {n} \<and> (\<forall>a m e g. a \<noteq> b \<longrightarrow> own s a m e g \<longrightarrow> own s' a m e g)) s"
  unfolding prog_simps
proof (rule wp_mono [OF put_spec [OF assms(1,3)]], elim conjE)
  fix s1
  assume s1: "inv s1" "frame s s1" "dsk s1 = dsk s" "hist s1 = hist s" "own s1 b n d f" "used s1 = used s"
    "view s1 = (view s)(n := d)" "pinned s1 = pinned s" "\<forall>a m d f. a \<noteq> b \<longrightarrow> own s a m d f \<longrightarrow> own s1 a m d f"
  have r1: "ready s1" "n < blocks s1" using s1(2) assms(2,4) by (simp_all add: frame_ready frame_blocks)
  show "wp (wr b) (\<lambda>_ s'. inv s' \<and> ready s' \<and> frame s s' \<and> dsk s' = (dsk s)(n := d)
      \<and> hist s' = hist s @ [(n, d)] \<and> own s' b n d False \<and> used s' = used s \<and> view s' = (view s)(n := d)
      \<and> pinned s' = pinned s - {n} \<and> (\<forall>a m e g. a \<noteq> b \<longrightarrow> own s a m e g \<longrightarrow> own s' a m e g)) s1"
    by (rule wp_mono [OF wr_spec [OF s1(1) r1(1) s1(5) r1(2)]])
      (use s1 r1 frame_trans [OF s1(2)] frame_ready in auto)
qed

text \<open>The body of \<^verbatim>\<open>write_head\<close>: read a block, replace its contents, write it, release it.\<close>

lemma rewrite_block:
  assumes "inv s" "ready s" "used s = {}" "n < blocks s" "card (pinned s) < NBUF"
  shows "wp (bnd (rd n) (\<lambda>b. bnd (get b) (\<lambda>d. seqp (seqp (put b (g d)) (wr b)) (rel b))))
    (\<lambda>_ s'. inv s' \<and> ready s' \<and> used s' = {} \<and> frame s s' \<and> dsk s' = (dsk s)(n := g (view s n))
      \<and> hist s' = hist s @ [(n, g (view s n))]
      \<and> view s' = (view s)(n := g (view s n)) \<and> pinned s' = pinned s - {n}) s"
    (is "wp _ ?Q s")
  unfolding wp_bnd
proof (rule wp_mono [OF rd_first [OF assms]], elim conjE)
  fix b s1
  assume s1: "inv s1" "ready s1" "frame s s1" "dsk s1 = dsk s" "hist s1 = hist s" "own s1 b n (view s n) (n \<in> pinned s)"
    "used s1 = {b}" "view s1 = view s" "pinned s1 = pinned s"
  have n1: "n < blocks s1" using s1(3) assms(4) by (simp add: frame_blocks)
  have "wp (seqp (seqp (put b (g (view s n))) (wr b)) (rel b)) ?Q s1"
    unfolding wp_seqp [of "seqp _ _"]
  proof (rule wp_mono [OF put_wr [OF s1(1,2,6) n1]], elim conjE)
    fix s2 :: 's and d
    assume s2: "inv s2" "ready s2" "frame s1 s2" "dsk s2 = (dsk s1)(n := g (view s n))"
      "hist s2 = hist s1 @ [(n, g (view s n))]" "own s2 b n (g (view s n)) False" "used s2 = used s1"
      "view s2 = (view s1)(n := g (view s n))" "pinned s2 = pinned s1 - {n}"
    show "wp (rel b) ?Q s2"
      by (rule wp_mono [OF rel_spec [OF s2(1,2,6)]])
        (use s1 s2 frame_trans [OF s1(3)] frame_trans [OF s2(3)] frame_ready in auto)
  qed
  then show "wp (get b) (\<lambda>d. wp (seqp (seqp (put b (g d)) (wr b)) (rel b)) ?Q) s1"
    by (intro wp_mono [OF get_spec [OF s1(6)]]) simp
qed

text \<open>The body of \<^verbatim>\<open>read_head\<close> and \<^verbatim>\<open>readsb\<close>: read a block, look at it, release it.\<close>

lemma peek_block:
  assumes "inv s" "ready s" "used s = {}" "n < blocks s" "card (pinned s) < NBUF"
  shows "wp (bnd (rd n) (\<lambda>b. bnd (get b) (\<lambda>d. seqp (rel b) (ret (g d)))))
    (\<lambda>r s'. r = g (view s n) \<and> inv s' \<and> ready s' \<and> used s' = {} \<and> frame s s' \<and> dsk s' = dsk s
      \<and> hist s' = hist s \<and> view s' = view s \<and> pinned s' = pinned s) s"
    (is "wp _ ?Q s")
  unfolding wp_bnd
proof (rule wp_mono [OF rd_first [OF assms]], elim conjE)
  fix b s1
  assume s1: "inv s1" "ready s1" "frame s s1" "dsk s1 = dsk s" "hist s1 = hist s" "own s1 b n (view s n) (n \<in> pinned s)"
    "used s1 = {b}" "view s1 = view s" "pinned s1 = pinned s"
  have "n \<in> pinned s \<or> view s n = dsk s1 n" using quiet_view [OF assms(1,3), of n] s1(4) by auto
  then have "wp (seqp (rel b) (ret (g (view s n)))) ?Q s1"
    unfolding wp_seqp wp_ret
    by (intro wp_mono [OF rel_spec [OF s1(1,2,6)]]) (use s1 frame_trans [OF s1(3)] frame_ready in auto)
  then show "wp (get b) (\<lambda>d. wp (seqp (rel b) (ret (g d))) ?Q) s1"
    by (intro wp_mono [OF get_spec [OF s1(6)]]) simp
qed

text \<open>
  The two block copies of \<^verbatim>\<open>log.c\<close>.  They differ in which of the two buffers is read first and
  in the order of the releases; \<open>copy_tail\<close> is what they share.
\<close>

lemma release_two:
  assumes "inv s" "ready s" "own s a m d f" "own s b n e g" "a \<noteq> b" "used s = {a, b}"
    "f \<or> d = dsk s m" "g \<or> e = dsk s n"
  shows "wp (seqp (rel a) (rel b)) (\<lambda>_ s'. inv s' \<and> ready s' \<and> used s' = {} \<and> frame s s' \<and> dsk s' = dsk s
    \<and> hist s' = hist s \<and> view s' = view s \<and> pinned s' = pinned s) s"
  unfolding wp_seqp
proof (rule wp_mono [OF rel_spec [OF assms(1-3,7)]], elim conjE)
  fix s1
  assume s1: "inv s1" "frame s s1" "dsk s1 = dsk s" "hist s1 = hist s" "used s1 = used s - {a}" "view s1 = view s"
    "pinned s1 = pinned s" "\<forall>c m d f. c \<noteq> a \<longrightarrow> own s c m d f \<longrightarrow> own s1 c m d f"
  have o: "own s1 b n e g" using s1(8) [rule_format, of b n e g] assms(4,5) by simp
  have r: "ready s1" using s1(2) assms(2) by (rule frame_ready)
  have k: "g \<or> e = dsk s1 n" using assms(8) s1(3) by simp
  show "wp (rel b) (\<lambda>_ s'. inv s' \<and> ready s' \<and> used s' = {} \<and> frame s s' \<and> dsk s' = dsk s
    \<and> hist s' = hist s \<and> view s' = view s \<and> pinned s' = pinned s) s1"
    by (rule wp_mono [OF rel_spec [OF s1(1) r o k]])
      (use s1 r assms(5,6) frame_trans [OF s1(2)] frame_ready in auto)
qed

lemma copy_tail:
  assumes I: "inv s" "ready s" and o: "own s a m d f" "own s b n e g" and ab: "a \<noteq> b" "used s = {a, b}"
    and n: "n < blocks s" "m \<noteq> n" and ok: "f \<or> d = dsk s m"
  shows "wp (bnd (get a) (\<lambda>x. seqp (seqp (put b x) (wr b)) (seqp (rel a) (rel b)))) (\<lambda>_ s'. inv s' \<and> ready s' \<and> used s' = {} \<and> frame s s'
    \<and> dsk s' = (dsk s)(n := d) \<and> hist s' = hist s @ [(n, d)] \<and> view s' = (view s)(n := d) \<and> pinned s' = pinned s - {n}) s"
    (is "wp _ ?Q s")
proof -
  have "wp (seqp (seqp (put b d) (wr b)) (seqp (rel a) (rel b))) ?Q s"
    unfolding wp_seqp [of "seqp (put _ _) _"]
  proof (rule wp_mono [OF put_wr [OF I o(2) n(1)]], elim conjE)
    fix s2
    assume s2: "inv s2" "ready s2" "frame s s2" "dsk s2 = (dsk s)(n := d)" "hist s2 = hist s @ [(n, d)]"
      "own s2 b n d False" "used s2 = used s" "view s2 = (view s)(n := d)" "pinned s2 = pinned s - {n}"
      "\<forall>c m e g. c \<noteq> b \<longrightarrow> own s c m e g \<longrightarrow> own s2 c m e g"
    have a: "own s2 a m d f" using s2(10) [rule_format, of a m d f] o(1) ab(1) by simp
    have u: "used s2 = {a, b}" using s2(7) ab(2) by simp
    have k: "f \<or> d = dsk s2 m" "False \<or> d = dsk s2 n" using ok n(2) s2(4) by auto
    show "wp (seqp (rel a) (rel b)) ?Q s2"
      by (rule wp_mono [OF release_two [OF s2(1,2) a s2(6) ab(1) u k]]) (use s2 frame_trans [OF s2(3)] in auto)
  qed
  then have "wp (get a) (\<lambda>x. wp (seqp (seqp (put b x) (wr b)) (seqp (rel a) (rel b))) ?Q) s"
    by (intro wp_mono [OF get_spec [OF o(1)]]) simp
  then show ?thesis unfolding wp_bnd .
qed

lemma copy_to_first:
  assumes "inv s" "ready s" "used s = {}" "src < blocks s" "dst < blocks s" "src \<noteq> dst"
    "card (pinned s) < NBUF" "src \<in> pinned s \<or> card (pinned s) + 1 < NBUF"
  shows "wp (bnd (rd dst) (\<lambda>b. bnd (rd src) (\<lambda>a. bnd (get a) (\<lambda>x. seqp (seqp (put b x) (wr b)) (seqp (rel a) (rel b))))))
    (\<lambda>_ s'. inv s' \<and> ready s' \<and> used s' = {} \<and> frame s s' \<and> dsk s' = (dsk s)(dst := view s src)
      \<and> hist s' = hist s @ [(dst, view s src)] \<and> view s' = (view s)(dst := view s src) \<and> pinned s' = pinned s - {dst}) s"
    (is "wp _ ?Q s")
  unfolding wp_bnd [of "rd _"]
proof (rule wp_mono [OF rd_first [OF assms(1-3,5,7)]], elim conjE)
  fix b s1
  assume s1: "inv s1" "ready s1" "frame s s1" "dsk s1 = dsk s" "hist s1 = hist s" "own s1 b dst (view s dst) (dst \<in> pinned s)"
    "used s1 = {b}" "view s1 = view s" "pinned s1 = pinned s"
  have p1: "dst \<noteq> src" "src < blocks s1" "src \<in> pinned s1 \<or> card (pinned s1) + 1 < NBUF"
    using assms(4,6,8) s1(3,9) by (simp_all add: frame_blocks)
  show "wp (rd src) (\<lambda>a. wp (bnd (get a) (\<lambda>x. seqp (seqp (put b x) (wr b)) (seqp (rel a) (rel b)))) ?Q) s1"
  proof (rule wp_mono [OF rd_second [OF s1(1,2,6,7) p1]], elim conjE)
    fix a s2
    assume s2: "inv s2" "ready s2" "frame s1 s2" "dsk s2 = dsk s1" "hist s2 = hist s1"
      "own s2 a src (view s1 src) (src \<in> pinned s1)" "own s2 b dst (view s dst) (dst \<in> pinned s)" "b \<noteq> a" "used s2 = {a, b}"
      "view s2 = view s1" "pinned s2 = pinned s1"
    have k: "src \<in> pinned s1 \<or> view s1 src = dsk s2 src" "dst < blocks s2"
      using quiet_view [OF assms(1,3), of src] s1 s2 assms(5) by (auto simp: frame_blocks)
    show "wp (bnd (get a) (\<lambda>x. seqp (seqp (put b x) (wr b)) (seqp (rel a) (rel b)))) ?Q s2"
      by (rule wp_mono [OF copy_tail [OF s2(1,2,6,7) s2(8) [symmetric] s2(9) k(2) assms(6) k(1)]])
        (use s1 s2 frame_trans [OF s1(3)] frame_trans [OF s2(3)] in auto)
  qed
qed

lemma copy_to_second:
  assumes "inv s" "ready s" "used s = {}" "src < blocks s" "dst < blocks s" "src \<noteq> dst"
    "card (pinned s) < NBUF" "dst \<in> pinned s \<or> card (pinned s) + 1 < NBUF"
  shows "wp (bnd (rd src) (\<lambda>a. bnd (rd dst) (\<lambda>b. bnd (get a) (\<lambda>x. seqp (seqp (put b x) (wr b)) (seqp (rel a) (rel b))))))
    (\<lambda>_ s'. inv s' \<and> ready s' \<and> used s' = {} \<and> frame s s' \<and> dsk s' = (dsk s)(dst := view s src)
      \<and> hist s' = hist s @ [(dst, view s src)] \<and> view s' = (view s)(dst := view s src) \<and> pinned s' = pinned s - {dst}) s"
    (is "wp _ ?Q s")
  unfolding wp_bnd [of "rd _"]
proof (rule wp_mono [OF rd_first [OF assms(1-4,7)]], elim conjE)
  fix a s1
  assume s1: "inv s1" "ready s1" "frame s s1" "dsk s1 = dsk s" "hist s1 = hist s" "own s1 a src (view s src) (src \<in> pinned s)"
    "used s1 = {a}" "view s1 = view s" "pinned s1 = pinned s"
  have p1: "src \<noteq> dst" "dst < blocks s1" "dst \<in> pinned s1 \<or> card (pinned s1) + 1 < NBUF"
    using assms(5,6,8) s1(3,9) by (simp_all add: frame_blocks)
  show "wp (rd dst) (\<lambda>b. wp (bnd (get a) (\<lambda>x. seqp (seqp (put b x) (wr b)) (seqp (rel a) (rel b)))) ?Q) s1"
  proof (rule wp_mono [OF rd_second [OF s1(1,2,6,7) p1]], elim conjE)
    fix b s2
    assume s2: "inv s2" "ready s2" "frame s1 s2" "dsk s2 = dsk s1" "hist s2 = hist s1"
      "own s2 b dst (view s1 dst) (dst \<in> pinned s1)" "own s2 a src (view s src) (src \<in> pinned s)" "a \<noteq> b" "used s2 = {b, a}"
      "view s2 = view s1" "pinned s2 = pinned s1"
    have k: "src \<in> pinned s \<or> view s src = dsk s2 src" "dst < blocks s2" "used s2 = {a, b}"
      using quiet_view [OF assms(1,3), of src] s1 s2 assms(5) by (auto simp: frame_blocks)
    show "wp (bnd (get a) (\<lambda>x. seqp (seqp (put b x) (wr b)) (seqp (rel a) (rel b)))) ?Q s2"
      by (rule wp_mono [OF copy_tail [OF s2(1,2,7,6,8) k(3,2) assms(6) k(1)]])
        (use s1 s2 frame_trans [OF s1(3)] frame_trans [OF s2(3)] in auto)
  qed
qed

end

interpretation bc: block_cache "bread 1" bwrite brelse get_data set_data bio_inv running hold
    locked_bufs dirty_blocks bview disk dwrites disksize bio_frame
proof
  fix s :: "'a bio_st_scheme" and n
  assume I: "bio_inv s" "running s" "n < disksize s" "\<And>b d f. b \<in> locked_bufs s \<Longrightarrow> \<not> hold s b n d f"
    "\<And>b. b \<in> locked_bufs s \<Longrightarrow> \<exists>m d f. hold s b m d f"
    "n \<in> dirty_blocks s \<or> card (dirty_blocks s) + card (locked_bufs s) < NBUF"
  show "wp (bread 1 n) (\<lambda>b s'. bio_inv s' \<and> bio_frame s s' \<and> disk s' = disk s \<and> dwrites s' = dwrites s
      \<and> hold s' b n (bview s n) (n \<in> dirty_blocks s) \<and> b \<notin> locked_bufs s \<and> locked_bufs s' = insert b (locked_bufs s)
      \<and> bview s' = bview s \<and> dirty_blocks s' = dirty_blocks s \<and> (\<forall>a m d f. hold s a m d f \<longrightarrow> hold s' a m d f)) s"
  proof (rule bread_spec [OF I(1-3)])
    show "b \<notin> locked_bufs s" if c: "cached s n b" for b
    proof
      assume b: "b \<in> locked_bufs s"
      then obtain m d f where h: "hold s b m d f" using I(5) by blast
      then have "m = n" using c by (simp add: hold_def cached_def)
      with h I(4) [OF b] show False by simp
    qed
    show "n \<in> dirty_blocks s \<or> (\<exists>b. recyclable s b)" using I(6) recyclable_exists [OF I(1)] by blast
  qed
next
  fix s s' s'' :: "'a bio_st_scheme" and b n m d d0 e f g
  show "hold s b n d f \<Longrightarrow> wp (get_data b) (\<lambda>r s'. r = d \<and> s' = s) s" by (rule get_data_spec)
  show "bio_inv s \<Longrightarrow> hold s b n d0 f \<Longrightarrow>
    wp (set_data b d) (\<lambda>_ s'. bio_inv s' \<and> bio_frame s s' \<and> disk s' = disk s \<and> dwrites s' = dwrites s
      \<and> hold s' b n d f \<and> locked_bufs s' = locked_bufs s \<and> bview s' = (bview s)(n := d) \<and> dirty_blocks s' = dirty_blocks s
      \<and> (\<forall>a m d f. a \<noteq> b \<longrightarrow> hold s a m d f \<longrightarrow> hold s' a m d f)) s" by (rule set_data_spec)
  show "bio_inv s \<Longrightarrow> running s \<Longrightarrow> hold s b n d f \<Longrightarrow> n < disksize s \<Longrightarrow>
    wp (bwrite b) (\<lambda>_ s'. bio_inv s' \<and> bio_frame s s' \<and> disk s' = (disk s)(n := d) \<and> dwrites s' = dwrites s @ [(n, d)]
      \<and> hold s' b n d False \<and> locked_bufs s' = locked_bufs s \<and> bview s' = bview s \<and> dirty_blocks s' = dirty_blocks s - {n}
      \<and> (\<forall>a m d f. a \<noteq> b \<longrightarrow> hold s a m d f \<longrightarrow> hold s' a m d f)) s" by (rule bwrite_spec)
  show "bio_inv s \<Longrightarrow> running s \<Longrightarrow> hold s b n d f \<Longrightarrow> f \<or> d = disk s n \<Longrightarrow>
    wp (brelse b) (\<lambda>_ s'. bio_inv s' \<and> bio_frame s s' \<and> disk s' = disk s \<and> dwrites s' = dwrites s
      \<and> locked_bufs s' = locked_bufs s - {b} \<and> bview s' = bview s \<and> dirty_blocks s' = dirty_blocks s
      \<and> (\<forall>a m d f. a \<noteq> b \<longrightarrow> hold s a m d f \<longrightarrow> hold s' a m d f)) s" by (rule brelse_spec)
  show "hold s b n d f \<Longrightarrow> b \<in> locked_bufs s" by (rule holdD)
  show "hold s b n d f \<Longrightarrow> hold s b m e g \<Longrightarrow> n = m" by (simp add: hold_def cached_def)
  show "bio_inv s \<Longrightarrow> locked_bufs s = {} \<Longrightarrow> n \<notin> dirty_blocks s \<Longrightarrow> bview s n = disk s n" by (rule bview_quiet)
  show "bio_frame s s' \<Longrightarrow> running s \<Longrightarrow> running s'" by (rule bio_frame_running)
  show "bio_frame s s' \<Longrightarrow> disksize s' = disksize s" by (rule bio_frame_sel)
  show "bio_frame s s' \<Longrightarrow> bio_frame s' s'' \<Longrightarrow> bio_frame s s''" by (rule bio_frame_trans)
qed

section \<open>Properties\<close>

definition zero_buf :: buf where
  "zero_buf = \<lparr>b_valid = False, b_dirty = False, b_dev = 0, b_blockno = 0,
     b_lock = \<lparr>sl_locked = False, sl_pid = 0\<rparr>, b_refcnt = 0, b_data = replicate 512 0\<rparr>"

lemma binit_step:
  assumes "seg (bnext s) (bprev s) HEAD (rev [0..<k]) HEAD" "k < NBUF"
  shows "seg (bnext (insert_head k s)) (bprev (insert_head k s)) HEAD (rev [0..<Suc k]) HEAD"
proof -
  have "seg ((bnext s)(k := bnext s HEAD, HEAD := k)) ((bprev s)(k := HEAD, bnext s HEAD := k)) HEAD (k # rev [0..<k]) HEAD"
    by (rule seg_insert [OF assms(1)]) (use assms(2) in auto)
  then show ?thesis using assms(2) by simp
qed

lemma replicate_update_same: "(replicate n x)[i := x] = replicate n x"
  using list_update_id [of "replicate n x" i] by (cases "i < n") (simp_all add: list_update_beyond)

lemma binit_ring:
  assumes "bufs s = replicate NBUF zero_buf"
  shows "wp binit (\<lambda>_ s'. ring s' (rev [0..<NBUF]) \<and> bufs s' = replicate NBUF zero_buf) s"
proof -
  let ?I = "\<lambda>xs s'. bufs s' = replicate NBUF zero_buf
    \<and> (\<exists>k\<le>NBUF. xs = [k..<NBUF] \<and> seg (bnext s') (bprev s') HEAD (rev [0..<k]) HEAD)"
  have step: "wp (seqp (modify (upd_buflock b (\<lambda>_. initsleeplock))) (modify (insert_head b))) (\<lambda>_. ?I xs) t"
    if I: "?I (b # xs) t" for b xs and t :: "'a bio_st_scheme"
  proof -
    from I obtain k where k: "k \<le> NBUF" "b # xs = [k..<NBUF]" "seg (bnext t) (bprev t) HEAD (rev [0..<k]) HEAD" by blast
    then have b: "b = k" "k < NBUF" "xs = [Suc k..<NBUF]"
      by (cases "k < NBUF"; simp add: upt_conv_Cons)+
    have u: "upd_buflock b (\<lambda>_. initsleeplock) t = t"
      using I b by (simp add: upd_buflock_def upd_buf_def initsleeplock_def zero_buf_def replicate_update_same)
    have "?I xs (insert_head b t)"
      using I b binit_step [OF k(3) b(2)] by (intro conjI exI [of _ "Suc k"]) simp_all
    then show ?thesis by (simp add: prog_simps u)
  qed
  let ?s = "s\<lparr>bprev := (bprev s)(HEAD := HEAD), bnext := (bnext s)(HEAD := HEAD)\<rparr>"
  have "?I [0..<NBUF] ?s" using assms by (intro conjI exI [of _ 0]) simp_all
  from wp_forp [where I = ?I, OF step this]
  have "wp (forp [0..<NBUF] (\<lambda>b. seqp (modify (upd_buflock b (\<lambda>_. initsleeplock))) (modify (insert_head b)))) (\<lambda>_. ?I []) ?s" .
  then have "wp binit (\<lambda>_. ?I []) s" by (simp add: binit_def prog_simps)
  then show ?thesis
  proof (rule wp_mono, elim conjE exE)
    fix s' :: "'a bio_st_scheme" and k
    assume "bufs s' = replicate NBUF zero_buf" "k \<le> NBUF" "[] = [k..<NBUF]" "seg (bnext s') (bprev s') HEAD (rev [0..<k]) HEAD"
    moreover from this(2,3) have "k = NBUF" using upt_eq_Nil_conv [of k NBUF] by simp
    ultimately show "ring s' (rev [0..<NBUF]) \<and> bufs s' = replicate NBUF zero_buf"
      by (auto simp: ring_def atLeast0LessThan)
  qed
qed

text \<open>
  \<^verbatim>\<open>binit\<close> on the zeroed cache the loader leaves establishes the invariant of the buffer
  cache: the 30 buffers form a doubly linked ring through the head, each exactly once, and
  none is in use, dirty, or claims a disk block.
\<close>

theorem binit_establishes_invariant:
  fixes s :: "'a bio_st_scheme"
  assumes "bufs s = replicate NBUF zero_buf"
  shows "wp binit (\<lambda>_ s'. bio_inv s' \<and> ring s' (rev [0..<NBUF]) \<and> locked_bufs s' = {} \<and> dirty_blocks s' = {}) s"
  by (rule wp_mono [OF binit_ring [OF assms]])
    (auto simp: bio_inv_def buf_ok_def zero_buf_def locked_bufs_def dirty_blocks_def cached_def)

definition boot_bio :: bio_st where
  "boot_bio = \<lparr>mem = \<lambda>_. 0, freelist = 0, use_lock = True, kend = 0x80115000, kdata = 0x80108000, kpgdir = 0,
     ptable = (replicate 64 zero_proc)[0 := zero_proc\<lparr>p_state := RUNNING, p_pid := 1\<rparr>], initproc = Some 0, nextpid = 2,
     curproc = Some 0, forkret_addr = 0, trapret_addr = 0, spoons = [],
     disk = \<lambda>n. replicate 512 (of_nat n), disksize = 1000, dwrites = [],
     bufs = replicate 30 zero_buf,
     bprev = (\<lambda>i. if i = 29 then 30 else if i = 30 then 0 else i + 1),
     bnext = (\<lambda>i. if i = 30 then 29 else if i = 0 then 30 else i - 1)\<rparr>"

theorem binit_establishes_invariant_witness:
  "wp binit (\<lambda>_ s'. bio_inv s' \<and> locked_bufs s' = {} \<and> dirty_blocks s' = {}) boot_bio"
  by (rule wp_mono [OF binit_establishes_invariant]) (simp_all add: boot_bio_def)

lemma boot_ring: "ring boot_bio (rev [0..<30])"
proof -
  have "seg (bnext boot_bio) (bprev boot_bio) 30 (rev [0..<30]) 30" by code_simp
  then show ?thesis by (auto simp: ring_def)
qed

lemma boot_bio_inv: "bio_inv boot_bio" "running boot_bio" "locked_bufs boot_bio = {}" "dirty_blocks boot_bio = {}"
  using boot_ring
  by (auto simp: bio_inv_def boot_bio_def zero_buf_def buf_ok_def running_def locked_bufs_def dirty_blocks_def cached_def)

text \<open>
  C12. \<^verbatim>\<open>bread\<close> from a consistent cache, of a block that no buffer in use holds and with a
  buffer to spare, returns a buffer locked by the caller that holds the current contents of
  the block (the cached ones, if it is cached, dirty or not, otherwise those on disk).  No
  block's contents change, nothing is written to disk, the buffers others hold are untouched
  and the cache stays consistent.
\<close>

theorem bread_returns_current_block:
  fixes s :: "'a bio_st_scheme"
  assumes "bio_inv s" "running s" "n < disksize s" "\<forall>b. cached s n b \<longrightarrow> b \<notin> locked_bufs s"
    and "card (dirty_blocks s) + card (locked_bufs s) < NBUF"
  shows "wp (bread 1 n) (\<lambda>b s'. hold s' b n (bview s n) (n \<in> dirty_blocks s) \<and> bio_inv s' \<and> bview s' = bview s
    \<and> disk s' = disk s \<and> dwrites s' = dwrites s \<and> locked_bufs s' = insert b (locked_bufs s) \<and> b \<notin> locked_bufs s
    \<and> (\<forall>a m d f. hold s a m d f \<longrightarrow> hold s' a m d f) \<and> bio_frame s s') s"
  by (rule wp_mono [OF bread_spec]) (use assms recyclable_exists [OF assms(1,5)] in auto)

theorem bread_returns_current_block_witness:
  "wp (bread 1 7) (\<lambda>b s'. hold s' b 7 (replicate 512 7) False \<and> bio_inv s' \<and> bview s' = bview boot_bio) boot_bio"
proof (rule wp_mono [OF bread_returns_current_block [OF boot_bio_inv(1,2)]])
  have "bview boot_bio 7 = replicate 512 7"
    using bview_uncached [of boot_bio 7] by (simp add: boot_bio_def cached_def zero_buf_def)
  then show "\<And>a s'. hold s' a 7 (bview boot_bio 7) (7 \<in> dirty_blocks boot_bio) \<and> bio_inv s' \<and> bview s' = bview boot_bio \<and>
      disk s' = disk boot_bio \<and> dwrites s' = dwrites boot_bio \<and> locked_bufs s' = insert a (locked_bufs boot_bio) \<and>
      a \<notin> locked_bufs boot_bio \<and> (\<forall>aa m d f. hold boot_bio aa m d f \<longrightarrow> hold s' aa m d f) \<and> bio_frame boot_bio s' \<Longrightarrow>
      hold s' a 7 (replicate 512 7) False \<and> bio_inv s' \<and> bview s' = bview boot_bio"
    by (simp add: boot_bio_inv(4))
qed (simp_all add: boot_bio_inv, simp add: boot_bio_def)

lemma bget_no_buffers:
  assumes "ring s xs" "\<And>b. \<not> cached s n b" "find (recyclable s) (rev xs) = None"
  shows "bget 1 n s = Panic ''bget: no buffers''"
proof -
  have "find (\<lambda>b. b_dev (bufs s ! b) = 1 \<and> b_blockno (bufs s ! b) = n) xs = None"
    using assms(1,2) by (auto simp: find_None_iff cached_def ring_def)
  moreover have "find (\<lambda>b. b_refcnt (bufs s ! b) = 0 \<and> \<not> b_dirty (bufs s ! b)) (rev xs) = find (recyclable s) (rev xs)"
    by (rule find_cong) (use assms(1) in \<open>auto simp: recyclable_def ring_def\<close>)
  ultimately show ?thesis using assms(3) by (simp add: bget_def ring_scan [OF assms(1)] prog_defs)
qed

lemma find_rev_split: "find P (rev xs) = Some b \<Longrightarrow> \<exists>us vs. xs = us @ b # vs \<and> P b \<and> (\<forall>v\<in>set vs. \<not> P v)"
proof (induction xs rule: rev_induct)
  case (snoc x xs)
  show ?case
  proof (cases "P x")
    case True
    then show ?thesis using snoc.prems by (intro exI [of _ xs] exI [of _ "[]"]) simp
  next
    case False
    then obtain us vs where "xs = us @ b # vs" "P b" "\<forall>v\<in>set vs. \<not> P v" using snoc by auto
    then show ?thesis using False by (intro exI [of _ us] exI [of _ "vs @ [x]"]) simp
  qed
qed simp

lemma brelse_ring:
  assumes I: "bio_inv s" and run: "running s" and r: "ring s xs" and h: "hold s b n d f"
  shows "wp (brelse b) (\<lambda>_ s'. ring s' (b # remove1 b xs)) s"
proof -
  note H = holdD [OF h]
  obtain p where p: "curproc s = Some p" using running_curproc [OF run] by blast
  have len: "length (bufs s) = NBUF" by (rule bio_invD(1) [OF I])
  have ref: "b_refcnt (bufs s ! b) = 1" using bio_invD(3) [OF I H(1)] H(6) by (simp add: buf_ok_def)
  show ?thesis
    using locked_by_me [OF H(7) p] H(1) len ref blk.release_wakes [of b s]
    by (simp add: wp_def brelse_def prog_defs upd_buflock_def upd_buf_def whenp_def)
      (intro ring_to_front H(1), use r in \<open>simp add: ring_def\<close>)
qed

text \<open>
  C37. The cache evicts in least recently used order.  On a miss \<^verbatim>\<open>bget\<close> takes the last buffer of
  the ring that is neither in use nor dirty: every buffer after it in the ring is pinned.
  And \<^verbatim>\<open>brelse\<close> moves a released buffer to the front, ahead of all the others, whose order it
  keeps.
\<close>

theorem bcache_is_lru:
  fixes s :: "'a bio_st_scheme"
  assumes "bio_inv s" "running s" "ring s xs"
  shows "(\<forall>n b s'. (\<forall>a. \<not> cached s n a) \<longrightarrow> bget 1 n s = Ret b s' \<longrightarrow> (\<exists>us vs. xs = us @ b # vs \<and> recyclable s b
        \<and> (\<forall>v\<in>set vs. \<not> recyclable s v)))
    \<and> (\<forall>n b d f. hold s b n d f \<longrightarrow> f \<or> d = disk s n \<longrightarrow> wp (brelse b) (\<lambda>_ s'. ring s' (b # remove1 b xs)) s)"
proof (intro conjI allI impI)
  fix n b s' assume miss: "\<forall>a. \<not> cached s n a" and g: "bget 1 n s = Ret b s'"
  obtain p where p: "curproc s = Some p" using running_curproc [OF assms(2)] by blast
  show "\<exists>us vs. xs = us @ b # vs \<and> recyclable s b \<and> (\<forall>v\<in>set vs. \<not> recyclable s v)"
  proof (cases "find (recyclable s) (rev xs)")
    case None
    then have "bget 1 n s = Panic ''bget: no buffers''"
      using miss assms(3) by (intro bget_no_buffers) auto
    with g show ?thesis by simp
  next
    case (Some a)
    from bget_miss [OF assms(1) p _ assms(3) Some] miss g have "a = b" by auto
    with Some show ?thesis using find_rev_split by metis
  qed
next
  fix n b d f assume h: "hold s b n d f" and ok: "f \<or> d = disk s n"
  show "wp (brelse b) (\<lambda>_ s'. ring s' (b # remove1 b xs)) s"
    by (rule brelse_ring [OF assms h])
qed

theorem bcache_is_lru_witness:
  "\<exists>b s'. bget 1 7 boot_bio = Ret b s' \<and> recyclable boot_bio b \<and> (\<exists>us. rev [0..<30] = us @ [b])"
proof -
  have miss: "\<forall>a. \<not> cached boot_bio 7 a" by (simp add: cached_def boot_bio_def zero_buf_def)
  have "find (recyclable boot_bio) (rev (rev [0..<30])) = Some 0"
    by (simp add: recyclable_def boot_bio_def zero_buf_def upt_conv_Cons)
  with bget_miss [OF boot_bio_inv(1) _ _ boot_ring this] miss obtain s' where "bget 1 7 boot_bio = Ret 0 s'"
    by (auto simp: boot_bio_def)
  with bcache_is_lru [OF boot_bio_inv(1,2) boot_ring, THEN conjunct1, rule_format, of 7 0 s'] miss
  obtain us vs where us: "bget 1 7 boot_bio = Ret 0 s'" "rev [0..<30] = us @ 0 # vs" "recyclable boot_bio 0"
    "\<forall>v\<in>set vs. \<not> recyclable boot_bio v" by auto
  have "vs = []"
  proof (rule ccontr)
    assume "vs \<noteq> []"
    then have "hd vs \<in> set vs" by simp
    moreover have "set (rev [0..<30]) = set (us @ 0 # vs)" by (simp only: us(2))
    ultimately have "hd vs < 30" by auto
    then have "recyclable boot_bio (hd vs)" by (simp add: recyclable_def boot_bio_def zero_buf_def)
    with us(4) \<open>hd vs \<in> set vs\<close> show False by blast
  qed
  with us show ?thesis by blast
qed

end
