(* ===== verification/Bytes.thy ===== *)
theory Bytes
  imports Prelude
begin

text \<open>
  Little-endian integers inside a block of bytes, the way the C structures of \<^verbatim>\<open>fs.h\<close> and the log
  header lie in a disk block: a \<^verbatim>\<open>uint\<close> or \<^verbatim>\<open>int\<close> is four bytes, a \<^verbatim>\<open>short\<close> or \<^verbatim>\<open>ushort\<close> two, and
  \<open>get_bytes\<close>/\<open>put_bytes\<close> move a range.  Values are natural numbers below the width; \<open>to_int\<close> and
  \<open>to_short\<close> read them as signed.  The lemmas are the round trips and the independence of
  disjoint fields, the leaf facts all the on-disk structures are built from.
\<close>

definition get16 :: "u8 list \<Rightarrow> nat \<Rightarrow> nat" where
  "get16 bs p = unat (bs ! p) + 256 * unat (bs ! (p + 1))"

definition put16 :: "u8 list \<Rightarrow> nat \<Rightarrow> nat \<Rightarrow> u8 list" where
  "put16 bs p v = bs[p := of_nat v, p + 1 := of_nat (v div 256)]"

definition get32 :: "u8 list \<Rightarrow> nat \<Rightarrow> nat" where
  "get32 bs p = get16 bs p + 65536 * get16 bs (p + 2)"

definition put32 :: "u8 list \<Rightarrow> nat \<Rightarrow> nat \<Rightarrow> u8 list" where
  "put32 bs p v = put16 (put16 bs p v) (p + 2) (v div 65536)"

definition to_int :: "nat \<Rightarrow> int" where
  "to_int v = (if v < 2147483648 then int v else int v - 4294967296)"

definition of_int32 :: "int \<Rightarrow> nat" where
  "of_int32 v = nat (v mod 4294967296)"

definition to_short :: "nat \<Rightarrow> int" where
  "to_short v = (if v < 32768 then int v else int v - 65536)"

definition of_short :: "int \<Rightarrow> nat" where
  "of_short v = nat (v mod 65536)"

definition get_bytes :: "u8 list \<Rightarrow> nat \<Rightarrow> nat \<Rightarrow> u8 list" where
  "get_bytes bs p n = take n (drop p bs)"

definition put_bytes :: "u8 list \<Rightarrow> nat \<Rightarrow> u8 list \<Rightarrow> u8 list" where
  "put_bytes bs p xs = take p bs @ xs @ drop (p + length xs) bs"

section \<open>Round trips\<close>

lemma length_put16 [simp]: "length (put16 bs p v) = length bs"
  by (simp add: put16_def)

lemma length_put32 [simp]: "length (put32 bs p v) = length bs"
  by (simp add: put32_def)

lemma unat_u8_of_nat: "unat (of_nat v :: u8) = v mod 256"
  by (simp add: unsigned_of_nat take_bit_eq_mod)

lemma get16_put16: "p + 2 \<le> length bs \<Longrightarrow> get16 (put16 bs p v) p = v mod 65536"
proof -
  assume p: "p + 2 \<le> length bs"
  have "v mod 65536 = 256 * (v div 256 mod 256) + v mod 256"
    using mod_mult2_eq [of v 256 256] by simp
  with p show ?thesis by (simp add: get16_def put16_def unat_u8_of_nat)
qed

lemma get16_put16_other: "p + 2 \<le> q \<or> q + 2 \<le> p \<Longrightarrow> get16 (put16 bs p v) q = get16 bs q"
  by (auto simp: get16_def put16_def)

lemma get32_put32: "p + 4 \<le> length bs \<Longrightarrow> v < 4294967296 \<Longrightarrow> get32 (put32 bs p v) p = v"
proof -
  assume p: "p + 4 \<le> length bs" and v: "v < 4294967296"
  have "v div 65536 < 65536" using v by (simp add: less_mult_imp_div_less)
  moreover have "v = v mod 65536 + 65536 * (v div 65536)" by simp
  ultimately show ?thesis
    using p by (simp add: get32_def put32_def get16_put16 get16_put16_other)
qed

lemma get32_put32_other: "p + 4 \<le> q \<or> q + 4 \<le> p \<Longrightarrow> get32 (put32 bs p v) q = get32 bs q"
  by (auto simp: get32_def put32_def get16_put16_other)

lemma get32_put16_other: "p + 2 \<le> q \<or> q + 4 \<le> p \<Longrightarrow> get32 (put16 bs p v) q = get32 bs q"
  by (auto simp: get32_def get16_put16_other)

lemma get16_put32_other: "p + 4 \<le> q \<or> q + 2 \<le> p \<Longrightarrow> get16 (put32 bs p v) q = get16 bs q"
  by (auto simp: put32_def get16_put16_other)

lemma get16_lt: "get16 bs p < 65536"
  using unat_u8_lt [of "bs ! p"] unat_u8_lt [of "bs ! (p + 1)"] by (simp add: get16_def)

lemma get32_lt: "get32 bs p < 4294967296"
  using get16_lt [of bs p] get16_lt [of bs "p + 2"] by (simp add: get32_def)

lemma mod_negative: "- m \<le> v \<Longrightarrow> v < 0 \<Longrightarrow> v mod m = v + m" for v m :: int
  using mod_add_self2 [of v m] mod_pos_pos_trivial [of "v + m" m] by simp

lemma to_int_of_int32: "-2147483648 \<le> v \<Longrightarrow> v < 2147483648 \<Longrightarrow> to_int (of_int32 v) = v"
  by (cases "v < 0") (simp_all add: to_int_def of_int32_def mod_negative nat_less_iff)

lemma of_int32_to_int: "v < 4294967296 \<Longrightarrow> of_int32 (to_int v) = v"
  by (auto simp: to_int_def of_int32_def)

lemma of_int32_lt: "of_int32 v < 4294967296"
  by (simp add: of_int32_def nat_less_iff)

lemma to_short_of_short: "-32768 \<le> v \<Longrightarrow> v < 32768 \<Longrightarrow> to_short (of_short v) = v"
  by (cases "v < 0") (simp_all add: to_short_def of_short_def mod_negative nat_less_iff)

lemma of_short_to_short: "v < 65536 \<Longrightarrow> of_short (to_short v) = v"
  by (auto simp: to_short_def of_short_def)

lemma of_short_lt: "of_short v < 65536"
  by (simp add: of_short_def nat_less_iff)

lemma length_put_bytes: "p + length xs \<le> length bs \<Longrightarrow> length (put_bytes bs p xs) = length bs"
  by (simp add: put_bytes_def)

lemma get_put_bytes: "p + length xs \<le> length bs \<Longrightarrow> get_bytes (put_bytes bs p xs) p (length xs) = xs"
  by (simp add: get_bytes_def put_bytes_def)

lemma nth_put_bytes:
  "p + length xs \<le> length bs \<Longrightarrow> i < length bs \<Longrightarrow>
     put_bytes bs p xs ! i = (if p \<le> i \<and> i < p + length xs then xs ! (i - p) else bs ! i)"
  by (auto simp: put_bytes_def nth_append min_def)

lemma nth_get_bytes: "p + n \<le> length bs \<Longrightarrow> i < n \<Longrightarrow> get_bytes bs p n ! i = bs ! (p + i)"
  by (simp add: get_bytes_def)

lemma length_get_bytes: "p + n \<le> length bs \<Longrightarrow> length (get_bytes bs p n) = n"
  by (simp add: get_bytes_def)

end
