(* ===== verification/Log.thy ===== *)
theory Log
  imports Bio Bytes
begin

text \<open>
  The redo log, \<^verbatim>\<open>log.c\<close>, with \<^verbatim>\<open>readsb\<close> of \<^verbatim>\<open>fs.c\<close>, which \<^verbatim>\<open>initlog\<close> calls.  The log header is decoded from
  and encoded into the bytes of its block.  Each section under \<^verbatim>\<open>log.lock\<close> is one step; \<^verbatim>\<open>begin_op\<close>
  that has to wait is the outcome \<open>Sleep\<close>, and the woken process runs it again from the test.

  A crash can come between any two block writes.  The history \<open>dwrites\<close> that the buffer cache
  keeps makes this explicit: the disk after a crash is the old disk with a prefix of the
  writes applied, and the theorems of this theory are about running \<^verbatim>\<open>recover_from_log\<close> on it.
\<close>

declare One_nat_def [simp del]

section \<open>State\<close>

record log_st = bio_st +
  lg_start :: nat
  lg_size :: nat
  lg_outstanding :: int
  lg_committing :: bool
  lg_dev :: nat
  lh_n :: int
  lh_block :: "nat list"

record superblock =
  sb_size :: nat
  sb_nblocks :: nat
  sb_ninodes :: nat
  sb_nlog :: nat
  sb_logstart :: nat
  sb_inodestart :: nat
  sb_bmapstart :: nat

definition decode_sb :: "block \<Rightarrow> superblock" where
  "decode_sb d = \<lparr>sb_size = get32 d 0, sb_nblocks = get32 d 4, sb_ninodes = get32 d 8, sb_nlog = get32 d 12,
     sb_logstart = get32 d 16, sb_inodestart = get32 d 20, sb_bmapstart = get32 d 24\<rparr>"

definition readsb :: "nat \<Rightarrow> ('a bio_st_scheme, superblock) prog" where
  "readsb dev =
     bnd (bread dev 1) (\<lambda>bp.
     bnd (get_data bp) (\<lambda>d.
     seqp (brelse bp) (ret (decode_sb d))))"

section \<open>Operations\<close>

definition install_trans :: "('a log_st_scheme, unit) prog" where
  "install_trans =
     bnd (gets lh_n) (\<lambda>n.
     forp [0..<nat n] (\<lambda>tail.
       bnd (gets (\<lambda>s. (lg_dev s, lg_start s, lh_block s ! tail))) (\<lambda>(dev, start, blk).
       bnd (bread dev (start + tail + 1)) (\<lambda>lbuf.
       bnd (bread dev blk) (\<lambda>dbuf.
       bnd (get_data lbuf) (\<lambda>d.
       seqp (set_data dbuf d)
       (seqp (bwrite dbuf)
       (seqp (brelse lbuf)
        (brelse dbuf)))))))))"

text \<open>
  \<^verbatim>\<open>read_head\<close>.  The array of the header has 30 entries; a count beyond that (no header the
  code writes has one) would overrun it, and the model stops there.
\<close>

definition read_head :: "('a log_st_scheme, unit) prog" where
  "read_head =
     bnd (gets (\<lambda>s. (lg_dev s, lg_start s))) (\<lambda>(dev, start).
     bnd (bread dev start) (\<lambda>buf.
     bnd (get_data buf) (\<lambda>lh.
     let n = to_int (get32 lh 0) in
     if n > int LOGSIZE then panic ''read_head: header overrun''
     else
       seqp (modify (\<lambda>s. s\<lparr>lh_n := n\<rparr>))
       (seqp (modify (\<lambda>s. s\<lparr>lh_block := map (\<lambda>i. if int i < n then get32 lh (4 + 4 * i) else lh_block s ! i) [0..<LOGSIZE]\<rparr>))
        (brelse buf)))))"

definition put_head :: "int \<Rightarrow> nat list \<Rightarrow> block \<Rightarrow> block" where
  "put_head n blks d = fold (\<lambda>i d. put32 d (4 + 4 * i) (blks ! i)) [0..<nat n] (put32 d 0 (of_int32 n))"

definition write_head :: "('a log_st_scheme, unit) prog" where
  "write_head =
     bnd (gets (\<lambda>s. (lg_dev s, lg_start s, lh_n s, lh_block s))) (\<lambda>(dev, start, n, blks).
     bnd (bread dev start) (\<lambda>buf.
     bnd (get_data buf) (\<lambda>hb.
     seqp (set_data buf (put_head n blks hb))
     (seqp (bwrite buf)
      (brelse buf)))))"

definition recover_from_log :: "('a log_st_scheme, unit) prog" where
  "recover_from_log =
     seqp read_head
     (seqp install_trans
     (seqp (modify (\<lambda>s. s\<lparr>lh_n := 0\<rparr>))
      write_head))"

definition initlog :: "nat \<Rightarrow> ('a log_st_scheme, unit) prog" where
  "initlog dev =
     bnd (readsb dev) (\<lambda>sb.
     seqp (modify (\<lambda>s. s\<lparr>lg_start := sb_logstart sb\<rparr>))
     (seqp (modify (\<lambda>s. s\<lparr>lg_size := sb_nlog sb\<rparr>))
     (seqp (modify (\<lambda>s. s\<lparr>lg_dev := dev\<rparr>))
      recover_from_log)))"

definition begin_op :: "('a log_st_scheme, unit) prog" where
  "begin_op =
     bnd (gets (\<lambda>s. (lg_committing s, lh_n s, lg_outstanding s))) (\<lambda>(committing, n, outstanding).
     if committing then sleep ChanLog
     else if n + (outstanding + 1) * int MAXOPBLOCKS > int LOGSIZE then sleep ChanLog
     else modify (\<lambda>s. s\<lparr>lg_outstanding := lg_outstanding s + 1\<rparr>))"

definition write_log :: "('a log_st_scheme, unit) prog" where
  "write_log =
     bnd (gets lh_n) (\<lambda>n.
     forp [0..<nat n] (\<lambda>tail.
       bnd (gets (\<lambda>s. (lg_dev s, lg_start s, lh_block s ! tail))) (\<lambda>(dev, start, blk).
       bnd (bread dev (start + tail + 1)) (\<lambda>to.
       bnd (bread dev blk) (\<lambda>from.
       bnd (get_data from) (\<lambda>d.
       seqp (set_data to d)
       (seqp (bwrite to)
       (seqp (brelse from)
        (brelse to)))))))))"

definition commit :: "('a log_st_scheme, unit) prog" where
  "commit =
     bnd (gets lh_n) (\<lambda>n.
     whenp (n > 0)
       (seqp write_log
       (seqp write_head
       (seqp install_trans
       (seqp (modify (\<lambda>s. s\<lparr>lh_n := 0\<rparr>))
        write_head)))))"

definition end_op :: "('a log_st_scheme, unit) prog" where
  "end_op =
     seqp (modify (\<lambda>s. s\<lparr>lg_outstanding := lg_outstanding s - 1\<rparr>))
     (bnd (gets (\<lambda>s. (lg_committing s, lg_outstanding s))) (\<lambda>(committing, outstanding).
     if committing then panic ''log.committing''
     else if outstanding = 0 then
       seqp (modify (\<lambda>s. s\<lparr>lg_committing := True\<rparr>))
       (seqp commit
       (seqp (modify (\<lambda>s. s\<lparr>lg_committing := False\<rparr>))
        (wakeup ChanLog)))
     else wakeup ChanLog))"

text \<open>The position of a block in the header, or the end of the list: log absorption.\<close>

definition log_slot :: "int \<Rightarrow> nat list \<Rightarrow> nat \<Rightarrow> nat" where
  "log_slot n blks b = (case find (\<lambda>i. blks ! i = b) [0..<nat n] of None \<Rightarrow> nat n | Some i \<Rightarrow> i)"

definition log_write :: "nat \<Rightarrow> ('a log_st_scheme, unit) prog" where
  "log_write b =
     bnd (gets (\<lambda>s. (lh_n s, lg_size s, lg_outstanding s))) (\<lambda>(n, size, outstanding).
     if n \<ge> int LOGSIZE \<or> n \<ge> int size - 1 then panic ''too big a transaction''
     else if outstanding < 1 then panic ''log_write outside of trans''
     else
       bnd (gets (\<lambda>s. (b_blockno (bufs s ! b), log_slot (lh_n s) (lh_block s) (b_blockno (bufs s ! b))))) (\<lambda>(blk, i).
       seqp (modify (\<lambda>s. s\<lparr>lh_block := (lh_block s)[i := blk]\<rparr>))
       (seqp (modify (\<lambda>s. if int i = lh_n s then s\<lparr>lh_n := lh_n s + 1\<rparr> else s))
        (modify (upd_buf b (\<lambda>x. x\<lparr>b_dirty := True\<rparr>))))))"

section \<open>The header in its block\<close>

abbreviation put_entries :: "nat list \<Rightarrow> nat \<Rightarrow> block \<Rightarrow> block" where
  "put_entries blks k \<equiv> fold (\<lambda>i d. put32 d (4 + 4 * i) (blks ! i)) [0..<k]"

lemma put_entries_low: "get32 (put_entries blks k d) 0 = get32 d 0" "length (put_entries blks k d) = length d"
  by (induction k) (simp_all add: get32_put32_other)

lemma put_entries_nth:
  assumes "i < k" "4 + 4 * k \<le> length d" "blks ! i < 4294967296"
  shows "get32 (put_entries blks k d) (4 + 4 * i) = blks ! i"
  using assms
proof (induction k)
  case (Suc k)
  then show ?case
    by (cases "i = k") (auto simp: get32_put32 get32_put32_other put_entries_low)
qed simp

lemma put_head_n:
  assumes "length d = BSIZE" "0 \<le> n" "n \<le> int LOGSIZE"
  shows "to_int (get32 (put_head n blks d) 0) = n" "length (put_head n blks d) = BSIZE"
  using assms by (simp_all add: put_head_def put_entries_low get32_put32 of_int32_lt to_int_of_int32)

lemma put_head_block:
  assumes "length d = BSIZE" "n \<le> int LOGSIZE" "int i < n" "blks ! i < 4294967296"
  shows "get32 (put_head n blks d) (4 + 4 * i) = blks ! i"
  unfolding put_head_def using assms by (intro put_entries_nth) auto

section \<open>Sequences of block writes\<close>

definition apply_writes :: "(nat \<times> block) list \<Rightarrow> (nat \<Rightarrow> block) \<Rightarrow> nat \<Rightarrow> block" where
  "apply_writes ws D = fold (\<lambda>(n, d) D. D(n := d)) ws D"

lemma apply_writes_simps [simp]:
  "apply_writes [] D = D" "apply_writes ((n, d) # ws) D = apply_writes ws (D(n := d))"
  "apply_writes (us @ ws) D = apply_writes ws (apply_writes us D)"
  by (simp_all add: apply_writes_def)

lemma apply_writes_other: "n \<notin> fst ` set ws \<Longrightarrow> apply_writes ws D n = D n"
  by (induction ws arbitrary: D) auto

text \<open>Writes that put \<open>E\<close> where they write: the result is \<open>E\<close> there and \<open>D\<close> elsewhere.\<close>

lemma apply_writes_map:
  "apply_writes (map (\<lambda>i. (f i, E (f i))) xs) D n = (if n \<in> f ` set xs then E n else D n)"
  by (induction xs arbitrary: D) auto

lemma apply_writes_range:
  assumes "i < k"
  shows "apply_writes (map (\<lambda>i. (a + i + 1, g i)) [0..<k]) D (a + i + 1) = g i"
  using assms by (induction k arbitrary: D) (auto simp: less_Suc_eq)

lemma bio_frame_log:
  assumes "bio_frame s s'"
  shows "lg_start s' = lg_start s" "lg_size s' = lg_size s" "lg_outstanding s' = lg_outstanding s"
    "lg_committing s' = lg_committing s" "lg_dev s' = lg_dev s" "lh_n s' = lh_n s" "lh_block s' = lh_block s"
  by (subst assms [unfolded bio_frame_def, THEN conjunct2], simp)+

lemma bio_frame_lh_n: "bio_frame s t \<Longrightarrow> bio_frame (s\<lparr>lh_n := n\<rparr>) (t\<lparr>lh_n := n\<rparr>)"
  by (cases s, cases t) (simp add: bio_frame_def)

section \<open>The loops under the invariant of the cache\<close>

text \<open>The blocks of the transaction, and the writes of the loops that copy them.\<close>

definition log_blocks :: "'a log_st_scheme \<Rightarrow> nat list" where
  "log_blocks s = take (nat (lh_n s)) (lh_block s)"

abbreviation log_writes :: "nat \<Rightarrow> nat list \<Rightarrow> (nat \<Rightarrow> block) \<Rightarrow> nat \<Rightarrow> (nat \<times> block) list" where
  "log_writes start bs v k \<equiv> map (\<lambda>i. (start + i + 1, v (bs ! i))) [0..<k]"

abbreviation home_writes :: "nat \<Rightarrow> nat list \<Rightarrow> (nat \<Rightarrow> block) \<Rightarrow> nat \<Rightarrow> (nat \<times> block) list" where
  "home_writes start bs v k \<equiv> map (\<lambda>i. (bs ! i, v (start + i + 1))) [0..<k]"

text \<open>
  What the loops need: a quiet cache, and a transaction whose log area and home blocks are
  on the disk and apart.
\<close>

definition log_shape :: "'a log_st_scheme \<Rightarrow> bool" where
  "log_shape s \<longleftrightarrow> lg_dev s = 1 \<and> 0 \<le> lh_n s \<and> lh_n s \<le> int LOGSIZE \<and> length (lh_block s) = LOGSIZE
     \<and> lg_start s + nat (lh_n s) < disksize s \<and> card (dirty_blocks s) < NBUF
     \<and> (\<forall>i<nat (lh_n s). lh_block s ! i < disksize s
          \<and> (lh_block s ! i < lg_start s \<or> lg_start s + nat (lh_n s) < lh_block s ! i))"

definition quiet :: "'a bio_st_scheme \<Rightarrow> bool" where
  "quiet s \<longleftrightarrow> bio_inv s \<and> running s \<and> locked_bufs s = {}"

lemma write_log_spec:
  fixes s :: "'a log_st_scheme"
  assumes q: "quiet s" and sh: "log_shape s" and d: "set (log_blocks s) \<subseteq> dirty_blocks s"
    and disj: "\<And>i. i < nat (lh_n s) \<Longrightarrow> lg_start s + i + 1 \<notin> dirty_blocks s"
  shows "wp write_log (\<lambda>_ s'. quiet s' \<and> bio_frame s s'
    \<and> disk s' = apply_writes (log_writes (lg_start s) (lh_block s) (bview s) (nat (lh_n s))) (disk s)
    \<and> dwrites s' = dwrites s @ log_writes (lg_start s) (lh_block s) (bview s) (nat (lh_n s))
    \<and> bview s' = apply_writes (log_writes (lg_start s) (lh_block s) (bview s) (nat (lh_n s))) (bview s)
    \<and> dirty_blocks s' = dirty_blocks s) s"
proof -
  let ?n = "nat (lh_n s)" and ?W = "log_writes (lg_start s) (lh_block s) (bview s)"
  let ?I = "\<lambda>k s'. quiet s' \<and> bio_frame s s' \<and> disk s' = apply_writes (?W k) (disk s)
    \<and> dwrites s' = dwrites s @ ?W k \<and> bview s' = apply_writes (?W k) (bview s) \<and> dirty_blocks s' = dirty_blocks s"
  have "wp (bnd (gets (\<lambda>s. (lg_dev s, lg_start s, lh_block s ! k))) (\<lambda>(dev, start, blk).
       bnd (bread dev (start + k + 1)) (\<lambda>to. bnd (bread dev blk) (\<lambda>from. bnd (get_data from) (\<lambda>d.
       seqp (set_data to d) (seqp (bwrite to) (seqp (brelse from) (brelse to)))))))) (\<lambda>_. ?I (Suc k)) t"
    if I: "?I k t" and x: "k < ?n" for k and t :: "'a log_st_scheme"
  proof -
    have fr: "bio_frame s t" using I by simp
    note f = bio_frame_log [OF fr] bio_frame_sel(2) [OF fr]
    let ?src = "lh_block s ! k" and ?dst = "lg_start s + k + 1"
    have src: "?src < disksize s" "?src < lg_start s \<or> lg_start s + ?n < ?src" "?src \<in> dirty_blocks s"
      using sh x d nth_mem [of k "log_blocks s"] by (auto simp: log_shape_def log_blocks_def)
    have v: "apply_writes (?W k) (bview s) ?src = bview s ?src"
      by (rule apply_writes_other) (use x src(2) in auto)
    have "wp (bnd (bread 1 ?dst) (\<lambda>b. bnd (bread 1 ?src) (\<lambda>a. bnd (get_data a) (\<lambda>x.
        seqp (seqp (set_data b x) (bwrite b)) (seqp (brelse a) (brelse b)))))) (\<lambda>_. ?I (Suc k)) t"
      by (rule wp_mono [OF bc.copy_to_first])
        (use I x f src v sh disj [OF x] bio_frame_trans [OF fr] in \<open>auto simp: quiet_def log_shape_def\<close>)
    then show ?thesis using f x sh by (simp add: wp_bnd wp_gets seqp_assoc log_shape_def)
  qed
  from wp_for_upt [where I = ?I, OF this] q show ?thesis by (simp add: write_log_def wp_bnd wp_gets)
qed

text \<open>The home block of each entry is pinned, or there is a buffer to spare for it.\<close>

lemma install_trans_spec:
  fixes s :: "'a log_st_scheme"
  assumes q: "quiet s" and sh: "log_shape s"
    and room: "card (dirty_blocks s) + 1 < NBUF \<or> distinct (log_blocks s) \<and> set (log_blocks s) \<subseteq> dirty_blocks s"
  shows "wp install_trans (\<lambda>_ s'. quiet s' \<and> bio_frame s s'
    \<and> disk s' = apply_writes (home_writes (lg_start s) (lh_block s) (bview s) (nat (lh_n s))) (disk s)
    \<and> dwrites s' = dwrites s @ home_writes (lg_start s) (lh_block s) (bview s) (nat (lh_n s))
    \<and> bview s' = apply_writes (home_writes (lg_start s) (lh_block s) (bview s) (nat (lh_n s))) (bview s)
    \<and> dirty_blocks s' = dirty_blocks s - set (log_blocks s)) s"
proof -
  let ?n = "nat (lh_n s)" and ?W = "home_writes (lg_start s) (lh_block s) (bview s)"
  let ?I = "\<lambda>k s'. quiet s' \<and> bio_frame s s' \<and> disk s' = apply_writes (?W k) (disk s)
    \<and> dwrites s' = dwrites s @ ?W k \<and> bview s' = apply_writes (?W k) (bview s)
    \<and> dirty_blocks s' = dirty_blocks s - set (take k (lh_block s))"
  have "wp (bnd (gets (\<lambda>s. (lg_dev s, lg_start s, lh_block s ! k))) (\<lambda>(dev, start, blk).
       bnd (bread dev (start + k + 1)) (\<lambda>lbuf. bnd (bread dev blk) (\<lambda>dbuf. bnd (get_data lbuf) (\<lambda>d.
       seqp (set_data dbuf d) (seqp (bwrite dbuf) (seqp (brelse lbuf) (brelse dbuf)))))))) (\<lambda>_. ?I (Suc k)) t"
    if I: "?I k t" and x: "k < ?n" for k and t :: "'a log_st_scheme"
  proof -
    have fr: "bio_frame s t" using I by simp
    note f = bio_frame_log [OF fr] bio_frame_sel(2) [OF fr]
    let ?dst = "lh_block s ! k" and ?src = "lg_start s + k + 1"
    have dst: "?dst < disksize s" "?dst < lg_start s \<or> lg_start s + ?n < ?dst" "k < length (lh_block s)" "?n \<le> length (lh_block s)"
      using sh x by (auto simp: log_shape_def)
    have v: "apply_writes (?W k) (bview s) ?src = bview s ?src"
    proof (rule apply_writes_other)
      have "?src \<noteq> lh_block s ! i" if "i < k" for i
        using sh x that by (auto simp: log_shape_def dest: spec [of _ i])
      then show "?src \<notin> fst ` set (?W k)" by (simp add: image_iff)
    qed
    have c: "card (dirty_blocks s - set (take k (lh_block s))) \<le> card (dirty_blocks s)"
      by (rule card_mono) (auto simp: dirty_blocks_finite)
    have p: "?dst \<in> dirty_blocks t \<or> card (dirty_blocks t) + 1 < NBUF"
    proof (cases "card (dirty_blocks s) + 1 < NBUF")
      case False
      then have "distinct (take ?n (lh_block s))" "?dst \<in> dirty_blocks s"
        using room x dst(3,4) nth_mem [of k "log_blocks s"] by (auto simp: log_blocks_def)
      then have "?dst \<notin> set (take k (lh_block s))"
        using x dst(4) by (auto simp: in_set_conv_nth distinct_conv_nth)
      then show ?thesis using I \<open>?dst \<in> dirty_blocks s\<close> by auto
    qed (use c I in auto)
    have "wp (bnd (bread 1 ?src) (\<lambda>a. bnd (bread 1 ?dst) (\<lambda>b. bnd (get_data a) (\<lambda>x.
        seqp (seqp (set_data b x) (bwrite b)) (seqp (brelse a) (brelse b)))))) (\<lambda>_. ?I (Suc k)) t"
      by (rule wp_mono [OF bc.copy_to_second])
        (use I x f dst v p c sh bio_frame_trans [OF fr] in \<open>auto simp: quiet_def log_shape_def take_Suc_conv_app_nth\<close>)
    then show ?thesis using f x sh by (simp add: wp_bnd wp_gets seqp_assoc log_shape_def)
  qed
  from wp_for_upt [where I = ?I, OF this] q show ?thesis by (simp add: install_trans_def wp_bnd wp_gets log_blocks_def)
qed

lemma write_head_spec:
  fixes s :: "'a log_st_scheme"
  assumes q: "quiet s" and "lg_dev s = 1" "lg_start s < disksize s" "card (dirty_blocks s) < NBUF"
  shows "wp write_head (\<lambda>_ s'. quiet s' \<and> bio_frame s s'
    \<and> disk s' = (disk s)(lg_start s := put_head (lh_n s) (lh_block s) (bview s (lg_start s)))
    \<and> dwrites s' = dwrites s @ [(lg_start s, put_head (lh_n s) (lh_block s) (bview s (lg_start s)))]
    \<and> bview s' = (bview s)(lg_start s := put_head (lh_n s) (lh_block s) (bview s (lg_start s)))
    \<and> dirty_blocks s' = dirty_blocks s - {lg_start s}) s"
  unfolding write_head_def wp_bnd [of "gets _"] wp_gets
  using assms bc.rewrite_block [of s "lg_start s" "put_head (lh_n s) (lh_block s)"]
  by (auto simp: quiet_def seqp_assoc elim!: wp_mono)

text \<open>The cache does not look at the fields beyond its own: updating one of the log's changes nothing for it.\<close>

lemma bio_cong:
  assumes "bufs s' = bufs s" "disk s' = disk s" "bprev s' = bprev s" "bnext s' = bnext s" "ptable s' = ptable s" "curproc s' = curproc s"
  shows "bio_inv s' = bio_inv s" "running s' = running s" "locked_bufs s' = locked_bufs s" "dirty_blocks s' = dirty_blocks s"
    "bview s' = bview s" "hold s' = hold s" "quiet s' = quiet s" "cached s' = cached s"
  by (auto simp: assms quiet_def bio_inv_def ring_def running_def locked_bufs_def dirty_blocks_def cached_def bview_def hold_def
      held_buf_def curpid_def fun_eq_iff cong: option.case_cong)

lemma log_upd_bio [simp]:
  fixes s :: "'a log_st_scheme"
  shows "bio_inv (s\<lparr>lg_start := x0\<rparr>) = bio_inv s" "running (s\<lparr>lg_start := x0\<rparr>) = running s" "locked_bufs (s\<lparr>lg_start := x0\<rparr>) = locked_bufs s" "dirty_blocks (s\<lparr>lg_start := x0\<rparr>) = dirty_blocks s" "bview (s\<lparr>lg_start := x0\<rparr>) = bview s" "hold (s\<lparr>lg_start := x0\<rparr>) = hold s" "quiet (s\<lparr>lg_start := x0\<rparr>) = quiet s" "cached (s\<lparr>lg_start := x0\<rparr>) = cached s"
    "bio_inv (s\<lparr>lg_size := x1\<rparr>) = bio_inv s" "running (s\<lparr>lg_size := x1\<rparr>) = running s" "locked_bufs (s\<lparr>lg_size := x1\<rparr>) = locked_bufs s" "dirty_blocks (s\<lparr>lg_size := x1\<rparr>) = dirty_blocks s" "bview (s\<lparr>lg_size := x1\<rparr>) = bview s" "hold (s\<lparr>lg_size := x1\<rparr>) = hold s" "quiet (s\<lparr>lg_size := x1\<rparr>) = quiet s" "cached (s\<lparr>lg_size := x1\<rparr>) = cached s"
    "bio_inv (s\<lparr>lg_outstanding := x2\<rparr>) = bio_inv s" "running (s\<lparr>lg_outstanding := x2\<rparr>) = running s" "locked_bufs (s\<lparr>lg_outstanding := x2\<rparr>) = locked_bufs s" "dirty_blocks (s\<lparr>lg_outstanding := x2\<rparr>) = dirty_blocks s" "bview (s\<lparr>lg_outstanding := x2\<rparr>) = bview s" "hold (s\<lparr>lg_outstanding := x2\<rparr>) = hold s" "quiet (s\<lparr>lg_outstanding := x2\<rparr>) = quiet s" "cached (s\<lparr>lg_outstanding := x2\<rparr>) = cached s"
    "bio_inv (s\<lparr>lg_committing := x3\<rparr>) = bio_inv s" "running (s\<lparr>lg_committing := x3\<rparr>) = running s" "locked_bufs (s\<lparr>lg_committing := x3\<rparr>) = locked_bufs s" "dirty_blocks (s\<lparr>lg_committing := x3\<rparr>) = dirty_blocks s" "bview (s\<lparr>lg_committing := x3\<rparr>) = bview s" "hold (s\<lparr>lg_committing := x3\<rparr>) = hold s" "quiet (s\<lparr>lg_committing := x3\<rparr>) = quiet s" "cached (s\<lparr>lg_committing := x3\<rparr>) = cached s"
    "bio_inv (s\<lparr>lg_dev := x4\<rparr>) = bio_inv s" "running (s\<lparr>lg_dev := x4\<rparr>) = running s" "locked_bufs (s\<lparr>lg_dev := x4\<rparr>) = locked_bufs s" "dirty_blocks (s\<lparr>lg_dev := x4\<rparr>) = dirty_blocks s" "bview (s\<lparr>lg_dev := x4\<rparr>) = bview s" "hold (s\<lparr>lg_dev := x4\<rparr>) = hold s" "quiet (s\<lparr>lg_dev := x4\<rparr>) = quiet s" "cached (s\<lparr>lg_dev := x4\<rparr>) = cached s"
    "bio_inv (s\<lparr>lh_n := x5\<rparr>) = bio_inv s" "running (s\<lparr>lh_n := x5\<rparr>) = running s" "locked_bufs (s\<lparr>lh_n := x5\<rparr>) = locked_bufs s" "dirty_blocks (s\<lparr>lh_n := x5\<rparr>) = dirty_blocks s" "bview (s\<lparr>lh_n := x5\<rparr>) = bview s" "hold (s\<lparr>lh_n := x5\<rparr>) = hold s" "quiet (s\<lparr>lh_n := x5\<rparr>) = quiet s" "cached (s\<lparr>lh_n := x5\<rparr>) = cached s"
    "bio_inv (s\<lparr>lh_block := x6\<rparr>) = bio_inv s" "running (s\<lparr>lh_block := x6\<rparr>) = running s" "locked_bufs (s\<lparr>lh_block := x6\<rparr>) = locked_bufs s" "dirty_blocks (s\<lparr>lh_block := x6\<rparr>) = dirty_blocks s" "bview (s\<lparr>lh_block := x6\<rparr>) = bview s" "hold (s\<lparr>lh_block := x6\<rparr>) = hold s" "quiet (s\<lparr>lh_block := x6\<rparr>) = quiet s" "cached (s\<lparr>lh_block := x6\<rparr>) = cached s"
  by (rule bio_cong; simp)+

lemma read_head_spec:
  fixes s :: "'a log_st_scheme"
  assumes q: "quiet s" and s: "lg_dev s = 1" "lg_start s < disksize s" "card (dirty_blocks s) < NBUF"
    and n: "to_int (get32 (bview s (lg_start s)) 0) \<le> int LOGSIZE"
  shows "wp read_head (\<lambda>_ s'. quiet s' \<and> disk s' = disk s \<and> disksize s' = disksize s \<and> dwrites s' = dwrites s \<and> bview s' = bview s
    \<and> dirty_blocks s' = dirty_blocks s \<and> lg_dev s' = lg_dev s \<and> lg_start s' = lg_start s \<and> lg_size s' = lg_size s
    \<and> lh_n s' = to_int (get32 (bview s (lg_start s)) 0) \<and> length (lh_block s') = LOGSIZE
    \<and> (\<forall>i. int i < lh_n s' \<longrightarrow> lh_block s' ! i = get32 (bview s (lg_start s)) (4 + 4 * i))) s"
    (is "wp _ ?Q s")
proof -
  let ?h = "bview s (lg_start s)"
  let ?rest = "\<lambda>b. seqp (modify (\<lambda>s. s\<lparr>lh_n := to_int (get32 ?h 0)\<rparr>))
      (seqp (modify (\<lambda>s. s\<lparr>lh_block := map (\<lambda>i. if int i < to_int (get32 ?h 0) then get32 ?h (4 + 4 * i) else lh_block s ! i) [0..<LOGSIZE]\<rparr>))
        (brelse b))"
  have "wp (bread 1 (lg_start s)) (\<lambda>b. wp (get_data b) (\<lambda>lh. wp (if to_int (get32 lh 0) > int LOGSIZE then panic ''read_head: header overrun''
     else seqp (modify (\<lambda>s. s\<lparr>lh_n := to_int (get32 lh 0)\<rparr>))
       (seqp (modify (\<lambda>s. s\<lparr>lh_block := map (\<lambda>i. if int i < to_int (get32 lh 0) then get32 lh (4 + 4 * i) else lh_block s ! i) [0..<LOGSIZE]\<rparr>))
        (brelse b))) ?Q)) s"
  proof (rule wp_mono [OF bc.rd_first], goal_cases)
    case (6 b s1)
    then have h: "hold s1 b (lg_start s) ?h (lg_start s \<in> dirty_blocks s)" and fr: "bio_frame s s1" by auto
    have "lg_start s \<in> dirty_blocks s \<or> ?h = disk s (lg_start s)"
      using q bview_quiet [of s "lg_start s"] by (auto simp: quiet_def)
    then have d: "lg_start s \<in> dirty_blocks s \<or> ?h = disk s1 (lg_start s)" using 6 by simp
    let ?s2 = "s1\<lparr>lh_n := to_int (get32 ?h 0), lh_block := map (\<lambda>i. if int i < to_int (get32 ?h 0) then get32 ?h (4 + 4 * i)
      else lh_block (s1\<lparr>lh_n := to_int (get32 ?h 0)\<rparr>) ! i) [0..<LOGSIZE]\<rparr>"
    have "wp (brelse b) ?Q ?s2"
    proof (rule wp_mono [OF bc.rel_spec [of ?s2 b "lg_start s" ?h "lg_start s \<in> dirty_blocks s"]], goal_cases)
      case (5 _ s')
      then have fr2: "bio_frame ?s2 s'" by simp
      note f = bio_frame_log [OF fr] bio_frame_sel(2) [OF fr] bio_frame_log [OF fr2] bio_frame_sel(2) [OF fr2]
      have "running s'" using 6 bio_frame_running [OF fr2] by simp
      then show ?case using 5 6 n by (simp add: f quiet_def)
    qed (use 6 d h in simp_all)
    then have "wp (?rest b) ?Q s1" by (simp only: wp_seqp wp_modify)
    then show ?case by (intro wp_mono [OF bc.get_spec [OF h]], elim conjE, hypsubst) (use n in simp)
  qed (use q s in \<open>auto simp: quiet_def\<close>)
  then show ?thesis using s(1)
    by (simp add: read_head_def wp_bnd wp_gets Let_def)
qed

section \<open>Recovery\<close>

text \<open>The header on a disk, the writes recovery makes from it, and when they make sense.\<close>

definition head_n :: "nat \<Rightarrow> (nat \<Rightarrow> block) \<Rightarrow> nat" where
  "head_n start D = nat (to_int (get32 (D start) 0))"

definition head_block :: "nat \<Rightarrow> (nat \<Rightarrow> block) \<Rightarrow> nat \<Rightarrow> nat" where
  "head_block start D i = get32 (D start) (4 + 4 * i)"

definition recovery_writes :: "nat \<Rightarrow> (nat \<Rightarrow> block) \<Rightarrow> (nat \<times> block) list" where
  "recovery_writes start D =
     map (\<lambda>i. (head_block start D i, D (start + i + 1))) [0..<head_n start D] @ [(start, put_head 0 [] (D start))]"

definition recovered :: "nat \<Rightarrow> (nat \<Rightarrow> block) \<Rightarrow> nat \<Rightarrow> block" where
  "recovered start D = apply_writes (recovery_writes start D) D"

definition head_ok :: "nat \<Rightarrow> nat \<Rightarrow> (nat \<Rightarrow> block) \<Rightarrow> bool" where
  "head_ok start ds D \<longleftrightarrow> 0 \<le> to_int (get32 (D start) 0) \<and> to_int (get32 (D start) 0) \<le> int LOGSIZE
     \<and> start + head_n start D < ds
     \<and> (\<forall>i<head_n start D. head_block start D i < ds
          \<and> (head_block start D i < start \<or> start + head_n start D < head_block start D i))"

definition booted :: "'a log_st_scheme \<Rightarrow> bool" where
  "booted t \<longleftrightarrow> quiet t \<and> dirty_blocks t = {}"

lemma quiet_bview: "quiet t \<Longrightarrow> dirty_blocks t = {} \<Longrightarrow> bview t = disk t"
  by (auto simp: quiet_def bview_quiet fun_eq_iff)

lemma put_head_0: "put_head 0 l d = put_head 0 [] d"
  by (simp add: put_head_def)

lemma recover_spec:
  fixes t :: "'a log_st_scheme"
  assumes t: "booted t" "lg_dev t = 1" and ok: "head_ok (lg_start t) (disksize t) (disk t)"
  shows "wp recover_from_log (\<lambda>_ t'. booted t' \<and> disk t' = recovered (lg_start t) (disk t)
    \<and> dwrites t' = dwrites t @ recovery_writes (lg_start t) (disk t) \<and> disksize t' = disksize t
    \<and> lg_dev t' = 1 \<and> lg_start t' = lg_start t \<and> lg_size t' = lg_size t \<and> lh_n t' = 0 \<and> length (lh_block t') = LOGSIZE) t"
    (is "wp _ ?Q t")
  unfolding recover_from_log_def wp_seqp wp_modify
proof (rule wp_mono [OF read_head_spec], goal_cases)
  let ?D = "disk t" and ?st = "lg_start t"
  case (6 _ s1)
  have v: "bview t = ?D" using t(1) by (simp add: booted_def quiet_bview)
  have b: "lh_block s1 ! i = head_block ?st ?D i" if "i < head_n ?st ?D" for i
    using 6 that by (simp add: v head_n_def head_block_def)
  have hn: "nat (lh_n s1) = head_n ?st ?D" using 6 by (simp add: v head_n_def)
  have sh: "log_shape s1" using 6 ok t by (auto simp: log_shape_def booted_def v head_ok_def head_n_def head_block_def)
  have W: "home_writes (lg_start s1) (lh_block s1) (bview s1) (nat (lh_n s1))
      = map (\<lambda>i. (head_block ?st ?D i, ?D (?st + i + 1))) [0..<head_n ?st ?D]"
    using 6 b hn by (simp add: v)
  have room: "card (dirty_blocks s1) + 1 < NBUF \<or> distinct (log_blocks s1) \<and> set (log_blocks s1) \<subseteq> dirty_blocks s1"
    using 6 t(1) by (simp add: booted_def)
  have "quiet s1" using 6 by simp
  from install_trans_spec [OF this sh room, unfolded W] show ?case
  proof (rule wp_mono, elim conjE)
    fix s2 assume s2: "quiet s2" "bio_frame s1 s2"
      "disk s2 = apply_writes (map (\<lambda>i. (head_block ?st ?D i, ?D (?st + i + 1))) [0..<head_n ?st ?D]) (disk s1)"
      "dwrites s2 = dwrites s1 @ map (\<lambda>i. (head_block ?st ?D i, ?D (?st + i + 1))) [0..<head_n ?st ?D]"
      "dirty_blocks s2 = dirty_blocks s1 - set (log_blocks s1)"
    note f = bio_frame_log [OF s2(2)] bio_frame_sel(2) [OF s2(2)]
    have d2: "dirty_blocks s2 = {}" using s2(5) 6 t(1) by (simp add: booted_def)
    have h: "apply_writes (map (\<lambda>i. (head_block ?st ?D i, ?D (?st + i + 1))) [0..<head_n ?st ?D]) ?D ?st = ?D ?st"
      using ok by (subst apply_writes_other) (auto simp: head_ok_def)
    have v2: "bview s2 = disk s2" using s2(1) d2 by (rule quiet_bview)
    show "wp write_head ?Q (s2\<lparr>lh_n := 0\<rparr>)"
    proof (rule wp_mono [OF write_head_spec], goal_cases)
      case (5 _ s3)
      then have fr: "bio_frame (s2\<lparr>lh_n := 0\<rparr>) s3" by simp
      note g = bio_frame_log [OF fr] bio_frame_sel(2) [OF fr]
      show ?case using 5 6 s2(3,4) d2 t(2) ok
        by (simp add: f g booted_def recovered_def recovery_writes_def v2 h put_head_0 [of "lh_block s1"])
    qed (use s2(1) d2 t 6 f ok in \<open>auto simp: head_ok_def\<close>)
  qed
qed (use t ok in \<open>auto simp: booted_def head_ok_def quiet_bview\<close>)

lemma readsb_spec:
  fixes t :: "'a bio_st_scheme"
  assumes "quiet t" "dirty_blocks t = {}" "1 < disksize t"
  shows "wp (readsb 1) (\<lambda>sb t'. sb = decode_sb (disk t 1) \<and> quiet t' \<and> bio_frame t t' \<and> disk t' = disk t
    \<and> dwrites t' = dwrites t \<and> dirty_blocks t' = {}) t"
  unfolding readsb_def using bc.peek_block [of t 1 decode_sb] assms quiet_bview [OF assms(1,2)]
  by (auto simp: quiet_def elim!: wp_mono)

lemma initlog_spec:
  fixes t :: "'a log_st_scheme"
  assumes t: "booted t" "1 < disksize t" and st: "sb_logstart (decode_sb (disk t 1)) = st"
    and ok: "head_ok st (disksize t) (disk t)"
  shows "wp (initlog 1) (\<lambda>_ t'. booted t' \<and> disk t' = recovered st (disk t)
    \<and> dwrites t' = dwrites t @ recovery_writes st (disk t) \<and> disksize t' = disksize t \<and> lg_dev t' = 1
    \<and> lg_start t' = st \<and> lg_size t' = sb_nlog (decode_sb (disk t 1)) \<and> lh_n t' = 0 \<and> length (lh_block t') = LOGSIZE) t"
  unfolding initlog_def wp_bnd wp_seqp wp_modify
proof (rule wp_mono [OF readsb_spec], goal_cases)
  case (4 sb t1)
  then have fr: "bio_frame t t1" by simp
  let ?t = "t1\<lparr>lg_start := sb_logstart sb, lg_size := sb_nlog sb, lg_dev := 1\<rparr>"
  have "booted ?t" "lg_dev ?t = 1" "head_ok (lg_start ?t) (disksize ?t) (disk ?t)"
    using 4 st ok bio_frame_sel(2) [OF fr] by (simp_all add: booted_def)
  from recover_spec [OF this] show ?case
    by (rule wp_mono) (use 4 st bio_frame_sel(2) [OF fr] in auto)
qed (use t in \<open>simp_all add: booted_def\<close>)

section \<open>The invariant of the log\<close>

text \<open>
  Between commits: the header on disk is empty, the blocks of the transaction are distinct,
  lie outside the log area (and are not the super block) and are exactly the pinned ones;
  the geometry is the one the super block gives.
\<close>

definition log_inv :: "'a log_st_scheme \<Rightarrow> bool" where
  "log_inv s \<longleftrightarrow> lg_dev s = 1 \<and> length (lh_block s) = LOGSIZE \<and> 0 \<le> lh_n s \<and> nat (lh_n s) < lg_size s \<and> lg_size s \<le> LOGSIZE
     \<and> 1 < lg_start s \<and> lg_start s + lg_size s \<le> disksize s \<and> disksize s \<le> 4294967296
     \<and> distinct (log_blocks s) \<and> dirty_blocks s = set (log_blocks s)
     \<and> (\<forall>b\<in>set (log_blocks s). b \<noteq> 1 \<and> b < disksize s \<and> (b < lg_start s \<or> lg_start s + lg_size s \<le> b))
     \<and> length (disk s (lg_start s)) = BSIZE \<and> get32 (disk s (lg_start s)) 0 = 0
     \<and> sb_logstart (decode_sb (disk s 1)) = lg_start s \<and> sb_nlog (decode_sb (disk s 1)) = lg_size s"

definition log_area :: "'a log_st_scheme \<Rightarrow> nat set" where
  "log_area s = {lg_start s ..< lg_start s + lg_size s}"

definition commit_writes :: "nat \<Rightarrow> nat list \<Rightarrow> (nat \<Rightarrow> block) \<Rightarrow> (nat \<times> block) list" where
  "commit_writes start bs v = (let n = length bs; H = put_head (int n) bs (v start) in
     if bs = [] then [] else
       map (\<lambda>i. (start + i + 1, v (bs ! i))) [0..<n] @ [(start, H)] @
       map (\<lambda>i. (bs ! i, v (bs ! i))) [0..<n] @ [(start, put_head 0 [] H)])"

lemma log_inv_geo:
  assumes "log_inv s"
  shows "lg_dev s = 1" "length (lh_block s) = LOGSIZE" "0 \<le> lh_n s" "nat (lh_n s) < lg_size s" "lg_size s \<le> LOGSIZE" "1 < lg_start s"
    "lg_start s + lg_size s \<le> disksize s" "disksize s \<le> 4294967296"
    "distinct (log_blocks s)" "dirty_blocks s = set (log_blocks s)"
    "length (disk s (lg_start s)) = BSIZE" "get32 (disk s (lg_start s)) 0 = 0"
    "sb_logstart (decode_sb (disk s 1)) = lg_start s" "sb_nlog (decode_sb (disk s 1)) = lg_size s"
  using assms unfolding log_inv_def by - (elim conjE, assumption)+

lemma log_inv_block:
  assumes "log_inv s" "b \<in> set (log_blocks s)"
  shows "b \<noteq> 1" "b < disksize s" "b < 4294967296" "b < lg_start s \<or> lg_start s + lg_size s \<le> b" "b \<noteq> lg_start s"
proof -
  show b: "b \<noteq> 1" "b < disksize s" "b < lg_start s \<or> lg_start s + lg_size s \<le> b"
    using assms unfolding log_inv_def by blast+
  show "b < 4294967296" using b(2) log_inv_geo(8) [OF assms(1)] by (rule order_less_le_trans)
  show "b \<noteq> lg_start s" using b(3) log_inv_geo(4) [OF assms(1)] by linarith
qed

lemma log_invD:
  assumes "log_inv s"
  shows "length (log_blocks s) = nat (lh_n s)" "i < nat (lh_n s) \<Longrightarrow> log_blocks s ! i = lh_block s ! i"
    "card (dirty_blocks s) < NBUF" "nat (lh_n s) \<le> LOGSIZE"
    "set (log_blocks s) = (\<lambda>i. lh_block s ! i) ` {0..<nat (lh_n s)}"
proof -
  show l: "length (log_blocks s) = nat (lh_n s)" "nat (lh_n s) \<le> LOGSIZE"
    using assms by (auto simp: log_inv_def log_blocks_def)
  show "i < nat (lh_n s) \<Longrightarrow> log_blocks s ! i = lh_block s ! i" by (simp add: log_blocks_def)
  show "card (dirty_blocks s) < NBUF" using assms l card_length [of "log_blocks s"] by (simp add: log_inv_def)
  show "set (log_blocks s) = (\<lambda>i. lh_block s ! i) ` {0..<nat (lh_n s)}"
    using nth_image [of "nat (lh_n s)" "lh_block s"] assms l by (simp add: log_inv_def log_blocks_def)
qed

lemma log_inv_shape:
  assumes "log_inv s"
  shows "log_shape s"
  unfolding log_shape_def
proof (intro conjI allI impI)
  note G = log_inv_geo [OF assms]
  fix i assume i: "i < nat (lh_n s)"
  then have "lh_block s ! i \<in> set (log_blocks s)" using log_invD(5) [OF assms] by auto
  from log_inv_block [OF assms this]
  show "lh_block s ! i < disksize s" "lh_block s ! i < lg_start s \<or> lg_start s + nat (lh_n s) < lh_block s ! i"
    using G(4) by auto
qed (use log_inv_geo [OF assms] log_invD(3,4) [OF assms] in \<open>simp_all add: nat_le_iff\<close>)

section \<open>Commit\<close>

lemma put_head_cong: "(\<And>i. int i < n \<Longrightarrow> as ! i = bs ! i) \<Longrightarrow> put_head n as d = put_head n bs d"
  unfolding put_head_def by (rule fold_cong) auto

lemma log_inv_entry:
  assumes "log_inv s" "i < nat (lh_n s)"
  shows "lh_block s ! i \<noteq> 1" "lh_block s ! i < disksize s" "lh_block s ! i < 4294967296"
    "lh_block s ! i < lg_start s \<or> lg_start s + lg_size s \<le> lh_block s ! i"
proof -
  have "lh_block s ! i \<in> set (log_blocks s)" using assms log_invD(5) [OF assms(1)] by auto
  from log_inv_block [OF assms(1) this]
  show "lh_block s ! i \<noteq> 1" "lh_block s ! i < disksize s" "lh_block s ! i < 4294967296"
    "lh_block s ! i < lg_start s \<or> lg_start s + lg_size s \<le> lh_block s ! i" by - assumption+
qed

lemma log_shape_frame:
  assumes "log_shape s" "bio_frame s s'" "dirty_blocks s' = dirty_blocks s"
  shows "log_shape s'"
  using assms(1,3) by (simp add: log_shape_def bio_frame_log [OF assms(2)] bio_frame_sel(2) [OF assms(2)])

lemma commit_spec:
  fixes s :: "'a log_st_scheme"
  assumes q: "quiet s" and I: "log_inv s"
  defines "W \<equiv> commit_writes (lg_start s) (log_blocks s) (bview s)"
  shows "wp commit (\<lambda>_ s'. booted s' \<and> disk s' = apply_writes W (disk s) \<and> dwrites s' = dwrites s @ W
    \<and> bio_frame (s\<lparr>lh_n := 0\<rparr>) s') s"
    (is "wp _ ?Q s")
proof (cases "lh_n s > 0")
  case False
  then have "lh_n s = 0" "log_blocks s = []" using I by (simp_all add: log_inv_def log_blocks_def)
  then have "s\<lparr>lh_n := 0\<rparr> = s" "dirty_blocks s = {}" "W = []"
    using I by (simp_all add: W_def commit_writes_def log_inv_def)
  then show ?thesis using q False by (simp add: commit_def wp_bnd wp_gets wp_whenp booted_def)
next
  case True
  let ?st = "lg_start s" and ?n = "nat (lh_n s)" and ?b = "\<lambda>i. lh_block s ! i" and ?v = "bview s"
  let ?LW = "log_writes ?st (lh_block s) ?v ?n" and ?H = "put_head (lh_n s) (lh_block s) (?v ?st)"
  let ?HW = "map (\<lambda>i. (?b i, ?v (?b i))) [0..<?n]"
  note D = log_invD [OF I] and E = log_inv_entry [OF I] and sh = log_inv_shape [OF I]
  have c: "lg_dev s = 1" "?st < disksize s" "?n < lg_size s" using log_inv_geo [OF I] by simp_all
  have db: "dirty_blocks s = set (log_blocks s)" "distinct (log_blocks s)" using log_inv_geo [OF I] by simp_all
  have W: "W = ?LW @ [(?st, ?H)] @ ?HW @ [(?st, put_head 0 [] ?H)]"
  proof -
    have "put_head (int ?n) (log_blocks s) (?v ?st) = put_head (int ?n) (lh_block s) (?v ?st)"
      by (rule put_head_cong) (use True in \<open>simp add: log_blocks_def\<close>)
    then have "put_head (int ?n) (log_blocks s) (?v ?st) = ?H" using True by simp
    then show ?thesis using True D(1,2) by (auto simp: W_def commit_writes_def Let_def)
  qed
  note nb = log_inv_block(4) [OF I]
  have area: "?st + i + 1 \<notin> dirty_blocks s" "?st \<notin> dirty_blocks s" if "i < ?n" for i
    using that c nb [of "?st + i + 1"] nb [of ?st] by (auto simp: db(1))
  have LWst: "apply_writes ?LW X ?st = X ?st" for X :: "nat \<Rightarrow> block" by (rule apply_writes_other) auto
  have HWst: "apply_writes ?HW X ?st = X ?st" for X :: "nat \<Rightarrow> block"
  proof (rule apply_writes_other)
    have "?st \<noteq> ?b i" if "i < ?n" for i using E(4) [OF that] c by linarith
    then show "?st \<notin> fst ` set ?HW" by (simp add: image_iff)
  qed
  have HW: "home_writes ?st (lh_block s) (apply_writes ?LW ?v) ?n = ?HW"
    by (simp add: apply_writes_range)
  show ?thesis
    unfolding commit_def wp_bnd wp_gets wp_whenp wp_seqp wp_modify if_P [OF True]
  proof (rule wp_mono [OF write_log_spec [OF q sh]], goal_cases)
    case (3 _ s1)
    then have f1: "bio_frame s s1" and q1: "quiet s1" and d1: "dirty_blocks s1 = dirty_blocks s" by auto
    note F1 = bio_frame_log [OF f1] bio_frame_sel(2) [OF f1]
    show ?case
    proof (rule wp_mono [OF write_head_spec [OF q1]], goal_cases)
      case (4 _ s2)
      then have f2: "bio_frame s s2" and q2: "quiet s2" and d2: "dirty_blocks s2 = dirty_blocks s"
        using bio_frame_trans [OF f1] d1 F1 True area(2) [of 0] by auto
      have v2: "bview s2 = (apply_writes ?LW ?v)(?st := ?H)" using 3 4 by (simp add: F1 LWst)
      note F2 = bio_frame_log [OF f2] bio_frame_sel(2) [OF f2]
      have "distinct (log_blocks s2) \<and> set (log_blocks s2) \<subseteq> dirty_blocks s2"
        using db d2 by (simp add: log_blocks_def F2)
      then show ?case
      proof (intro wp_mono [OF install_trans_spec [OF q2 log_shape_frame [OF sh f2 d2] disjI2]], goal_cases)
        case (2 _ s3)
        then have f3: "bio_frame s s3" and q3: "quiet s3" and d3: "dirty_blocks s3 = {}"
          using bio_frame_trans [OF f2] db d2 by (auto simp: log_blocks_def F2)
        have v3: "bview s3 ?st = ?H" using 2 by (simp add: F2 v2 HW HWst)
        note F3 = bio_frame_log [OF f3] bio_frame_sel(2) [OF f3]
        have f3': "bio_frame (s\<lparr>lh_n := 0\<rparr>) (s3\<lparr>lh_n := 0\<rparr>)"
          using f3 by (rule bio_frame_lh_n)
        have k3: "disk s3 = apply_writes (?LW @ [(?st, ?H)] @ ?HW) (disk s)" "dwrites s3 = dwrites s @ ?LW @ [(?st, ?H)] @ ?HW"
          using 2 3 4 by (simp_all add: F1 F2 v2 HW LWst)
        show ?case
        proof (rule wp_mono [OF write_head_spec], goal_cases)
          case (5 _ s4)
          have "bio_frame (s\<lparr>lh_n := 0\<rparr>) s4" using 5 bio_frame_trans [OF f3'] by simp
          with 5 show ?case by (simp add: F3 v3 k3 W booted_def d3 put_head_0 [of "lh_block s"])
        qed (use q3 d3 c in \<open>simp_all add: F3\<close>)
      qed
    qed (use c F1 d1 D(3) in auto)
  qed (use db area in auto)
qed

section \<open>Crashes\<close>

lemma recovered_empty:
  assumes "get32 (D st) 0 = 0" "st < ds"
  shows "head_ok st ds D" "recovered st D = D(st := put_head 0 [] (D st))"
  using assms by (simp_all add: head_ok_def head_n_def recovered_def recovery_writes_def to_int_def)

text \<open>What recovery does from a disk whose header lists \<open>bs\<close> and whose log blocks hold \<open>v\<close>.\<close>

lemma recovered_logged:
  assumes n: "length bs \<le> LOGSIZE" and H: "D st = put_head (int (length bs)) bs h" "length h = BSIZE"
    and L: "\<And>i. i < length bs \<Longrightarrow> D (st + i + 1) = v (bs ! i)"
    and bs: "\<And>b. b \<in> set bs \<Longrightarrow> b < 4294967296 \<and> b < ds \<and> (b < st \<or> st + length bs < b)" and ds: "st + length bs < ds"
  shows "head_ok st ds D" "b \<noteq> st \<Longrightarrow> recovered st D b = (if b \<in> set bs then v b else D b)"
proof -
  have N: "to_int (get32 (D st) 0) = int (length bs)" using n H(2) by (simp add: H(1) put_head_n)
  then have hn: "head_n st D = length bs" by (simp add: head_n_def)
  have B: "head_block st D i = bs ! i" if "i < length bs" for i
    using n H(2) bs [OF nth_mem [OF that]] that by (simp add: head_block_def H(1) put_head_block)
  show "head_ok st ds D"
    using n ds B bs [OF nth_mem] by (simp add: head_ok_def N hn)
  have "map (\<lambda>i. (head_block st D i, D (st + i + 1))) [0..<head_n st D] = map (\<lambda>i. (bs ! i, v (bs ! i))) [0..<length bs]"
    using B L by (simp add: hn)
  moreover have "(\<lambda>i. bs ! i) ` {0..<length bs} = set bs" by (auto simp: in_set_conv_nth)
  ultimately show "b \<noteq> st \<Longrightarrow> recovered st D b = (if b \<in> set bs then v b else D b)"
    by (simp add: recovered_def recovery_writes_def apply_writes_map)
qed

lemma crash_cases:
  fixes k :: nat
  assumes n: "length bs \<le> LOGSIZE" "length bs < sz" and st: "st + sz \<le> ds"
    and D: "get32 (D st) 0 = 0" "length (v st) = BSIZE" "length (D st) = BSIZE"
    and bs: "\<And>b. b \<in> set bs \<Longrightarrow> b < 4294967296 \<and> b < ds \<and> (b < st \<or> st + sz \<le> b)"
    and b: "b < st \<or> st + sz \<le> b"
  defines "D' \<equiv> apply_writes (take k (commit_writes st bs v)) D"
  shows "head_ok st ds D'" "recovered st D' b = (if k \<le> length bs then D b else if b \<in> set bs then v b else D b)"
    "b \<notin> set bs \<Longrightarrow> D' b = D b" "length (D' st) = BSIZE"
proof -
  let ?n = "length bs"
  let ?A = "map (\<lambda>i. (st + i + 1, v (bs ! i))) [0..<?n]" and ?h = "put_head (int ?n) bs (v st)"
    and ?B = "map (\<lambda>i. (bs ! i, v (bs ! i))) [0..<?n]"
  let ?z = "put_head 0 [] ?h"
  have W: "commit_writes st bs v = (if bs = [] then [] else ?A @ (st, ?h) # ?B @ [(st, ?z)])"
    by (simp add: commit_writes_def Let_def)
  have A: "apply_writes (take j ?A) D x = D x" if "x < st + 1 \<or> st + sz \<le> x" for j x
    by (rule apply_writes_other) (use that n(2) in \<open>auto dest!: in_set_takeD\<close>)
  have B: "apply_writes (take j ?B) E x = (if x \<in> set (take j bs) then v x else E x)" for j x and E :: "nat \<Rightarrow> block"
  proof -
    have "take j ?B = map (\<lambda>i. (bs ! i, v (bs ! i))) [0..<min j ?n]" by (simp add: take_map take_upt min_def)
    moreover have "(\<lambda>i. bs ! i) ` {0..<min j ?n} = set (take j bs)"
      using nth_image [of "min j ?n" bs] by (simp add: min_def)
    ultimately show ?thesis by (simp add: apply_writes_map)
  qed
  have nst: "st \<notin> set bs" "b \<noteq> st" using bs [of st] b n(2) by auto
  have log: "st + i + 1 \<notin> set bs" if "i < ?n" for i using bs [of "st + i + 1"] that n(2) by auto
  have sz: "st + ?n < ds" "st < ds" using n(2) st by simp_all
  have bs': "x < 4294967296 \<and> x < ds \<and> (x < st \<or> st + ?n < x)" if "x \<in> set bs" for x using bs [OF that] n(2) by auto
  have hl: "length ?h = BSIZE" "length ?z = BSIZE" using D(2) n(1) by (simp_all add: put_head_n(2))
  consider "k \<le> ?n \<or> bs = []" | j where "bs \<noteq> []" "k = ?n + Suc j" "j \<le> ?n" | "bs \<noteq> []" "k > ?n + Suc ?n"
  proof (cases "k \<le> ?n \<or> bs = []")
    case False
    then show ?thesis using that(2) [of "k - Suc ?n"] that(3) by (cases "k > ?n + Suc ?n") auto
  qed (use that(1) in blast)
  then have "head_ok st ds D' \<and> recovered st D' b = (if k \<le> ?n then D b else if b \<in> set bs then v b else D b)
    \<and> (b \<notin> set bs \<longrightarrow> D' b = D b) \<and> length (D' st) = BSIZE"
  proof cases
    case 1
    then have "D' = apply_writes (take k ?A) D" by (auto simp: D'_def W)
    then have "D' st = D st" "D' b = D b" using b by (auto simp: A)
    then show ?thesis using recovered_empty [of D' st ds] D(1,3) sz nst(2) 1 by auto
  next
    case 2
    then have "D' = apply_writes (take j ?B) ((apply_writes ?A D)(st := ?h))" by (simp add: D'_def W)
    moreover have "apply_writes ?A D x = D x" if "x < st + 1 \<or> st + sz \<le> x" for x using A [OF that, of ?n] by simp
    ultimately have E: "D' st = ?h" "i < ?n \<Longrightarrow> D' (st + i + 1) = v (bs ! i)" "D' b = (if b \<in> set (take j bs) then v b else D b)" for i
      using nst log [of i] b by (auto simp: B apply_writes_range dest: in_set_takeD)
    show ?thesis using recovered_logged [of bs D' st "v st" v ds, OF n(1) E(1) D(2) E(2) bs' sz(1)] nst(2) E(1,3) 2 hl
      by (auto dest: in_set_takeD)
  next
    case 3
    then have "D' = (apply_writes ?B ((apply_writes ?A D)(st := ?h)))(st := ?z)" by (simp add: D'_def W)
    moreover have "apply_writes ?A D x = D x" if "x < st + 1 \<or> st + sz \<le> x" for x using A [OF that, of ?n] by simp
    ultimately have E: "D' st = ?z" "D' b = (if b \<in> set bs then v b else D b)"
      using B [of ?n "(apply_writes ?A D)(st := ?h)" b] b nst(2) by auto
    have "get32 ?z 0 = 0" using put_head_n(2) [of "v st" "int ?n" bs] D(2) n(1)
      by (simp add: put_head_def [of 0] get32_put32 of_int32_lt) (simp add: of_int32_def)
    then show ?thesis using recovered_empty [of D' st ds] E sz nst(2) 3 hl by auto
  qed
  then show "head_ok st ds D'" "recovered st D' b = (if k \<le> length bs then D b else if b \<in> set bs then v b else D b)"
    "b \<notin> set bs \<Longrightarrow> D' b = D b" "length (D' st) = BSIZE" by auto
qed

text \<open>Recovery interrupted and run again.\<close>

lemma recovered_head: "recovered st D st = put_head 0 [] (D st)"
  by (simp add: recovered_def recovery_writes_def)

lemma apply_writes_covered: "n \<in> fst ` set ws \<Longrightarrow> apply_writes ws D n = apply_writes ws E n"
proof (induction ws arbitrary: D E)
  case (Cons w ws)
  then show ?case by (cases w, cases "n \<in> fst ` set ws") (auto simp: apply_writes_other)
qed simp

lemma recovery_restart:
  fixes k :: nat
  assumes ok: "head_ok st ds D" "length (D st) = BSIZE"
  defines "D' \<equiv> apply_writes (take k (recovery_writes st D)) D"
  shows "head_ok st ds D'" "b \<noteq> st \<Longrightarrow> recovered st D' b = recovered st D b"
proof -
  let ?n = "head_n st D"
  let ?A = "map (\<lambda>i. (head_block st D i, D (st + i + 1))) [0..<?n]" and ?z = "put_head 0 [] (D st)"
  have st: "st < ds" "i < ?n \<Longrightarrow> head_block st D i < st \<or> st + ?n < head_block st D i" for i using ok(1) by (auto simp: head_ok_def)
  have "head_ok st ds D' \<and> (b \<noteq> st \<longrightarrow> recovered st D' b = recovered st D b)"
  proof (cases "k \<le> ?n")
    case True
    then have D': "D' = apply_writes (take k ?A) D" by (simp add: D'_def recovery_writes_def)
    have same: "D' x = D x" if "st \<le> x" "x \<le> st + ?n" for x
      unfolding D' by (rule apply_writes_other) (use st that in \<open>force dest!: in_set_takeD\<close>)
    have h: "head_n st D' = ?n" "head_block st D' = head_block st D"
      by (simp_all add: head_n_def head_block_def fun_eq_iff same)
    then have w: "recovery_writes st D' = recovery_writes st D"
      using same [of st] by (simp add: recovery_writes_def same)
    have "recovered st D' b = recovered st D b" if "b \<noteq> st"
    proof (cases "b \<in> fst ` set (recovery_writes st D)")
      case True
      then show ?thesis unfolding recovered_def w by (rule apply_writes_covered)
    next
      case False
      moreover have "D' b = D b" unfolding D'
        by (rule apply_writes_other) (use False in \<open>auto simp: recovery_writes_def dest!: in_set_takeD\<close>)
      ultimately show ?thesis unfolding recovered_def w by (simp add: apply_writes_other)
    qed
    moreover have "head_ok st ds D'" using ok(1) h same [of st] by (simp add: head_ok_def)
    ultimately show ?thesis by blast
  next
    case False
    then have D': "D' = recovered st D" by (simp add: D'_def recovered_def recovery_writes_def)
    have "get32 (D' st) 0 = 0" using ok(2)
      by (simp add: D' recovered_head put_head_def get32_put32 of_int32_lt) (simp add: of_int32_def)
    from recovered_empty [of D' st ds, OF this st(1)] show ?thesis by (simp add: D')
  qed
  then show "head_ok st ds D'" "b \<noteq> st \<Longrightarrow> recovered st D' b = recovered st D b" by auto
qed

lemma get32_put_head_0: "length d = BSIZE \<Longrightarrow> get32 (put_head 0 [] d) 0 = 0"
  by (simp add: put_head_def get32_put32 of_int32_lt) (simp add: of_int32_def)

lemma log_inv_quiet_view:
  assumes "quiet s" "log_inv s" "b \<notin> set (log_blocks s)"
  shows "bview s b = disk s b"
  using assms bview_quiet [of s b] by (simp add: quiet_def log_inv_def)

text \<open>One crash point of a commit, in the terms of the invariant.\<close>

lemma commit_crash_point:
  fixes s :: "'a log_st_scheme"
  assumes q: "quiet s" and I: "log_inv s"
  defines "W \<equiv> commit_writes (lg_start s) (log_blocks s) (bview s)"
  assumes D': "D' = apply_writes (take k W) (disk s)"
  shows "head_ok (lg_start s) (disksize s) D'" "length (D' (lg_start s)) = BSIZE" "D' 1 = disk s 1"
    "b \<notin> log_area s \<Longrightarrow> recovered (lg_start s) D' b = (if k \<le> nat (lh_n s) then disk s b else bview s b)"
proof -
  note L = log_invD [OF I]
  have st: "lg_start s \<notin> set (log_blocks s)" "1 \<notin> set (log_blocks s)" "1 < lg_start s"
    using log_inv_block(1,5) [OF I] log_inv_geo(6) [OF I] by blast+
  have pre: "length (log_blocks s) \<le> LOGSIZE" "length (log_blocks s) < lg_size s" "lg_start s + lg_size s \<le> disksize s"
    "get32 (disk s (lg_start s)) 0 = 0" "length (bview s (lg_start s)) = BSIZE" "length (disk s (lg_start s)) = BSIZE"
    "\<And>b. b \<in> set (log_blocks s) \<Longrightarrow> b < 4294967296 \<and> b < disksize s \<and> (b < lg_start s \<or> lg_start s + lg_size s \<le> b)"
    using log_inv_geo [OF I] L(1,4) log_inv_quiet_view [OF q I st(1)] log_inv_block [OF I] by simp_all
  have C: "head_ok (lg_start s) (disksize s) D' \<and> length (D' (lg_start s)) = BSIZE \<and> (b \<notin> set (log_blocks s) \<longrightarrow> D' b = disk s b)
    \<and> recovered (lg_start s) D' b = (if k \<le> nat (lh_n s) then disk s b else if b \<in> set (log_blocks s) then bview s b else disk s b)"
    if b: "b < lg_start s \<or> lg_start s + lg_size s \<le> b" for b
    unfolding D' W_def using crash_cases [where D = "disk s" and v = "bview s" and k = k, OF pre b] by (simp add: L(1))
  show "head_ok (lg_start s) (disksize s) D'" "length (D' (lg_start s)) = BSIZE" "D' 1 = disk s 1"
    using C [of 1] st(2,3) by auto
  show "recovered (lg_start s) D' b = (if k \<le> nat (lh_n s) then disk s b else bview s b)" if "b \<notin> log_area s"
    using C [of b] log_inv_quiet_view [OF q I, of b] that by (auto simp: log_area_def)
qed

text \<open>All the writes of a commit.\<close>

lemma commit_all:
  fixes s :: "'a log_st_scheme"
  assumes q: "quiet s" and I: "log_inv s"
  defines "D' \<equiv> apply_writes (commit_writes (lg_start s) (log_blocks s) (bview s)) (disk s)"
  shows "get32 (D' (lg_start s)) 0 = 0" "length (D' (lg_start s)) = BSIZE" "b \<notin> log_area s \<Longrightarrow> D' b = bview s b"
proof -
  let ?bs = "log_blocks s" and ?st = "lg_start s" and ?v = "bview s"
  let ?n = "length ?bs"
  let ?h = "put_head (int ?n) ?bs (?v ?st)" and ?B = "map (\<lambda>i. (?bs ! i, ?v (?bs ! i))) [0..<?n]"
    and ?A = "map (\<lambda>i. (?st + i + 1, ?v (?bs ! i))) [0..<?n]"
  note G = log_inv_geo [OF I] and L = log_invD [OF I]
  have st: "?v ?st = disk s ?st" using log_inv_quiet_view [OF q I] log_inv_block(5) [OF I] by blast
  have hl: "length ?h = BSIZE" using G(11) L(1,4) st by (simp add: put_head_n(2))
  have c: "?bs = [] \<and> D' = disk s \<or> ?bs \<noteq> [] \<and> D' = (apply_writes ?B ((apply_writes ?A (disk s))(?st := ?h)))(?st := put_head 0 [] ?h)"
    by (simp add: D'_def commit_writes_def Let_def)
  then show "get32 (D' ?st) 0 = 0" "length (D' ?st) = BSIZE"
    using hl G(11,12) by (auto simp: get32_put_head_0 put_head_n(2))
  assume b: "b \<notin> log_area s"
  have A: "apply_writes ?A (disk s) b = disk s b"
    by (rule apply_writes_other) (use b G(4) L(1) in \<open>auto simp: log_area_def\<close>)
  have "(\<lambda>i. ?bs ! i) ` {0..<?n} = set ?bs" by (auto simp: in_set_conv_nth)
  then have "apply_writes ?B X b = (if b \<in> set ?bs then ?v b else X b)" for X by (simp add: apply_writes_map)
  moreover have "b \<noteq> ?st" using b G(4) by (auto simp: log_area_def)
  ultimately show "D' b = ?v b" using c A log_inv_quiet_view [OF q I, of b] by (cases "b \<in> set ?bs") auto
qed

section \<open>Properties\<close>

text \<open>
  C1. \<^verbatim>\<open>commit\<close> is atomic across crashes.  From a quiet cache and a consistent log it returns with
  every block of the transaction on disk and the log empty.  And if the machine stops after
  any number \<open>k\<close> of its block writes, the next boot's \<^verbatim>\<open>initlog\<close> returns with every block outside
  the log area as it was before the transaction (when the header of the log was not written
  yet, \<open>k \<le> n\<close>) or as the transaction left it (afterwards), never a mixture, and the log
  consistent again.
\<close>

theorem commit_crash_safe:
  fixes s :: "'a log_st_scheme"
  assumes "quiet s" "log_inv s"
  shows "wp commit (\<lambda>_ s'. quiet s' \<and> log_inv s' \<and> lh_n s' = 0 \<and> (\<forall>b. b \<notin> log_area s \<longrightarrow> disk s' b = bview s b)
    \<and> (\<exists>ws. dwrites s' = dwrites s @ ws \<and> disk s' = apply_writes ws (disk s)
      \<and> (\<forall>k (t :: 'a log_st_scheme). booted t \<and> disksize t = disksize s \<and> disk t = apply_writes (take k ws) (disk s) \<longrightarrow>
          wp (initlog 1) (\<lambda>_ t'. log_inv t' \<and> quiet t' \<and>
            (\<forall>b. b \<notin> log_area s \<longrightarrow> disk t' b = (if k \<le> nat (lh_n s) then disk s b else bview s b))) t))) s"
proof (rule wp_mono [OF commit_spec [OF assms]], elim conjE)
  fix s' :: "'a log_st_scheme"
  let ?W = "commit_writes (lg_start s) (log_blocks s) (bview s)" and ?st = "lg_start s"
  assume s': "booted s'" "disk s' = apply_writes ?W (disk s)" "dwrites s' = dwrites s @ ?W" "bio_frame (s\<lparr>lh_n := 0\<rparr>) s'"
  note F = bio_frame_log [OF s'(4)] bio_frame_sel(2) [OF s'(4)]
  note P = commit_crash_point [OF assms refl]
  have geo: "lg_dev s = 1" "length (lh_block s) = LOGSIZE" "0 < lg_size s" "lg_size s \<le> LOGSIZE" "1 < ?st" "?st + lg_size s \<le> disksize s"
    "disksize s \<le> 4294967296" "sb_logstart (decode_sb (disk s 1)) = ?st" "sb_nlog (decode_sb (disk s 1)) = lg_size s"
    using log_inv_geo [OF assms(2)] by simp_all
  have inv: "log_inv t \<and> quiet t"
    if "booted t" "lh_n t = 0" "lg_dev t = 1" "length (lh_block t) = LOGSIZE" "lg_start t = ?st" "lg_size t = lg_size s" "disksize t = disksize s"
      "length (disk t ?st) = BSIZE" "get32 (disk t ?st) 0 = 0" "disk t 1 = disk s 1" for t :: "'a log_st_scheme"
    using that geo by (simp add: log_inv_def booted_def log_blocks_def)
  have boot: "wp (initlog 1) (\<lambda>_ t'. log_inv t' \<and> quiet t' \<and>
      (\<forall>b. b \<notin> log_area s \<longrightarrow> disk t' b = (if k \<le> nat (lh_n s) then disk s b else bview s b))) t"
    if t: "booted t" "disksize t = disksize s" "disk t = apply_writes (take k ?W) (disk s)" for k and t :: "'a log_st_scheme"
  proof (rule wp_mono [OF initlog_spec [OF t(1), of ?st]], goal_cases)
    case (4 _ t')
    then have "disk t' ?st = put_head 0 [] (disk t ?st)" "disk t' b = (if k \<le> nat (lh_n s) then disk s b else bview s b)" if "b \<notin> log_area s" for b
      using that P(4) [of b k] t(3) by (simp_all add: recovered_head)
    moreover have "1 \<notin> log_area s" "1 \<notin> set (log_blocks s)" using geo(5) log_inv_block(1) [OF assms(2)] by (auto simp: log_area_def)
    ultimately show ?case using inv [of t'] 4 P(2) [of k] P(3) [of k] t geo(8,9) log_inv_quiet_view [OF assms, of 1]
      by (simp add: get32_put_head_0 put_head_n(2))
  qed (use t geo P(1) [of k] P(3) [of k] in simp_all)
  have "1 \<notin> log_area s" "bview s 1 = disk s 1"
    using geo(5) log_inv_block(1) [OF assms(2)] log_inv_quiet_view [OF assms, of 1] by (auto simp: log_area_def)
  then have "log_inv s' \<and> quiet s'"
    using inv [of s'] commit_all [OF assms] s' geo by (simp add: F)
  then show "quiet s' \<and> log_inv s' \<and> lh_n s' = 0 \<and> (\<forall>b. b \<notin> log_area s \<longrightarrow> disk s' b = bview s b)
    \<and> (\<exists>ws. dwrites s' = dwrites s @ ws \<and> disk s' = apply_writes ws (disk s)
      \<and> (\<forall>k (t :: 'a log_st_scheme). booted t \<and> disksize t = disksize s \<and> disk t = apply_writes (take k ws) (disk s) \<longrightarrow>
          wp (initlog 1) (\<lambda>_ t'. log_inv t' \<and> quiet t' \<and>
            (\<forall>b. b \<notin> log_area s \<longrightarrow> disk t' b = (if k \<le> nat (lh_n s) then disk s b else bview s b))) t))"
    using commit_all(3) [OF assms] boot s'(2,3) by (simp add: F)
qed

definition demo_log :: log_st where
  "demo_log = bio_st.extend (boot_bio\<lparr>
       disk := (\<lambda>n. if n = 1 then put32 (put32 (replicate 512 0) 12 30) 16 2 else replicate 512 0),
       bufs := (replicate 30 zero_buf)[0 := zero_buf\<lparr>b_valid := True, b_dirty := True, b_dev := 1, b_blockno := 40,
         b_data := replicate 512 7\<rparr>]\<rparr>)
     (log_st.fields 2 30 0 True 1 1 (40 # replicate 29 0))"

lemma demo_log_sel:
  "bufs demo_log = (replicate 30 zero_buf)[0 := zero_buf\<lparr>b_valid := True, b_dirty := True, b_dev := 1, b_blockno := 40, b_data := replicate 512 7\<rparr>]"
  "disk demo_log = (\<lambda>n. if n = 1 then put32 (put32 (replicate 512 0) 12 30) 16 2 else replicate 512 0)"
  "bprev demo_log = bprev boot_bio" "bnext demo_log = bnext boot_bio" "ptable demo_log = ptable boot_bio" "curproc demo_log = curproc boot_bio"
  "disksize demo_log = 1000" "lg_start demo_log = 2" "lg_size demo_log = 30" "lg_dev demo_log = 1" "lh_n demo_log = 1"
  "lh_block demo_log = 40 # replicate 29 0" "lg_outstanding demo_log = 0" "lg_committing demo_log"
  by (simp_all add: demo_log_def boot_bio_def bio_st.defs log_st.defs)

lemma demo_cached: "cached demo_log n b \<longleftrightarrow> n = 40 \<and> b = 0"
  by (auto simp: cached_def demo_log_sel nth_list_update zero_buf_def)

lemma demo_quiet: "quiet demo_log"
proof -
  have "ring demo_log (rev [0..<30])" using boot_ring by (simp add: ring_def demo_log_sel)
  moreover have "buf_ok (disk demo_log) (bufs demo_log ! b)" if "b < 30" for b
    using that by (auto simp: demo_log_sel nth_list_update buf_ok_def zero_buf_def)
  moreover have "running demo_log" using boot_bio_inv(2) by (simp add: running_def demo_log_sel split: option.splits)
  moreover have "locked_bufs demo_log = {}"
    by (auto simp: locked_bufs_def demo_log_sel nth_list_update zero_buf_def)
  moreover have "length (bufs demo_log) = 30" by (simp add: demo_log_sel)
  moreover have "a = b" if "a < 30" "b < 30" "b_dev (bufs demo_log ! a) = 1" "b_dev (bufs demo_log ! b) = 1" for a b
    using that by (auto simp: demo_log_sel nth_list_update zero_buf_def split: if_splits)
  ultimately show ?thesis unfolding quiet_def bio_inv_def by blast
qed

lemma demo_log_inv: "log_inv demo_log" "bview demo_log 40 = replicate 512 7" "40 \<notin> log_area demo_log"
proof -
  have "dirty_blocks demo_log = {40}" by (simp add: dirty_blocks_def demo_cached demo_log_sel)
  moreover have "log_blocks demo_log = [40]" by (simp add: log_blocks_def demo_log_sel)
  moreover have "decode_sb (disk demo_log 1) = \<lparr>sb_size = 0, sb_nblocks = 0, sb_ninodes = 0, sb_nlog = 30,
      sb_logstart = 2, sb_inodestart = 0, sb_bmapstart = 0\<rparr>"
    by (simp add: decode_sb_def demo_log_sel get32_put32 get32_put32_other) (simp add: get32_def get16_def)
  moreover have "get32 (disk demo_log 2) 0 = 0" by (simp add: demo_log_sel get32_def get16_def)
  ultimately show "log_inv demo_log" by (simp add: log_inv_def demo_log_sel(7-)) (simp add: demo_log_sel(2))
  show "bview demo_log 40 = replicate 512 7"
    using bview_cached [of demo_log 40 0] demo_quiet by (simp add: quiet_def demo_cached demo_log_sel(1))
qed (simp add: log_area_def demo_log_sel)

theorem commit_crash_safe_witness:
  "wp commit (\<lambda>_ s'. disk s' 40 = replicate 512 7 \<and> lh_n s' = 0 \<and> log_inv s') demo_log"
  by (rule wp_mono [OF commit_crash_safe [OF demo_quiet demo_log_inv(1)]]) (use demo_log_inv(2,3) in auto)

text \<open>
  C7. Recovery survives crashes during recovery.  If the machine stops after any number of
  the block writes of \<^verbatim>\<open>initlog\<close>, the next boot's \<^verbatim>\<open>initlog\<close> leaves every block but the log header
  as an uninterrupted recovery would have.
\<close>

theorem recovery_idempotent:
  fixes t :: "'a log_st_scheme"
  assumes "booted t" "1 < disksize t" "sb_logstart (decode_sb (disk t 1)) = st" "head_ok st (disksize t) (disk t)"
    "length (disk t st) = BSIZE" "1 < st" "\<forall>i<head_n st (disk t). head_block st (disk t) i \<noteq> 1"
  shows "wp (initlog 1) (\<lambda>_ t'. \<exists>ws. dwrites t' = dwrites t @ ws \<and> disk t' = apply_writes ws (disk t)
    \<and> (\<forall>k (u :: 'a log_st_scheme). booted u \<and> disksize u = disksize t \<and> disk u = apply_writes (take k ws) (disk t) \<longrightarrow>
        wp (initlog 1) (\<lambda>_ u'. \<forall>b. b \<noteq> st \<longrightarrow> disk u' b = disk t' b) u)) t"
proof (rule wp_mono [OF initlog_spec [OF assms(1-4)]])
  fix a and t' :: "'a log_st_scheme"
  assume t': "booted t' \<and> disk t' = recovered st (disk t) \<and> dwrites t' = dwrites t @ recovery_writes st (disk t)
    \<and> disksize t' = disksize t \<and> lg_dev t' = 1 \<and> lg_start t' = st \<and> lg_size t' = sb_nlog (decode_sb (disk t 1)) \<and> lh_n t' = 0
    \<and> length (lh_block t') = LOGSIZE"
  have again: "wp (initlog 1) (\<lambda>_ u'. \<forall>b. b \<noteq> st \<longrightarrow> disk u' b = disk t' b) u"
    if u: "booted u" "disksize u = disksize t" "disk u = apply_writes (take k (recovery_writes st (disk t))) (disk t)"
    for k and u :: "'a log_st_scheme"
  proof -
    have one: "disk u 1 = disk t 1" unfolding u(3)
      by (rule apply_writes_other) (use assms(6,7) in \<open>auto simp: recovery_writes_def dest!: in_set_takeD\<close>)
    note R = recovery_restart [OF assms(4,5), where k = k, folded u(3)]
    show ?thesis
      by (rule wp_mono [OF initlog_spec [OF u(1), of st]]) (use u(2) one assms(2,3) R t' in simp_all)
  qed
  show "\<exists>ws. dwrites t' = dwrites t @ ws \<and> disk t' = apply_writes ws (disk t)
    \<and> (\<forall>k (u :: 'a log_st_scheme). booted u \<and> disksize u = disksize t \<and> disk u = apply_writes (take k ws) (disk t) \<longrightarrow>
        wp (initlog 1) (\<lambda>_ u'. \<forall>b. b \<noteq> st \<longrightarrow> disk u' b = disk t' b) u)"
    using t' again by (intro exI [of _ "recovery_writes st (disk t)"]) (simp add: recovered_def)
qed

text \<open>A disk with one committed block, 40, not yet installed.\<close>

definition demo_crash :: log_st where
  "demo_crash = bio_st.extend (boot_bio\<lparr>
       disk := (\<lambda>n. if n = 1 then put32 (put32 (replicate 512 0) 12 30) 16 2
                    else if n = 2 then put_head 1 [40] (replicate 512 0) else replicate 512 (of_nat n))\<rparr>)
     (log_st.fields 0 0 0 False 0 0 (replicate 30 0))"

lemma demo_crash_sel:
  "disk demo_crash = (\<lambda>n. if n = 1 then put32 (put32 (replicate 512 0) 12 30) 16 2
     else if n = 2 then put_head 1 [40] (replicate 512 0) else replicate 512 (of_nat n))"
  "bufs demo_crash = bufs boot_bio" "bprev demo_crash = bprev boot_bio" "bnext demo_crash = bnext boot_bio"
  "ptable demo_crash = ptable boot_bio" "curproc demo_crash = curproc boot_bio" "disksize demo_crash = 1000"
  by (simp_all add: demo_crash_def boot_bio_def bio_st.defs log_st.defs)

lemma demo_crash_booted: "booted demo_crash"
proof -
  have b: "bufs demo_crash = replicate 30 zero_buf" by (simp add: demo_crash_sel boot_bio_def)
  have "ring demo_crash (rev [0..<30])" using boot_ring by (simp add: ring_def demo_crash_sel)
  moreover have "running demo_crash" using boot_bio_inv(2) by (simp add: running_def demo_crash_sel split: option.splits)
  ultimately show ?thesis
    by (auto simp: booted_def quiet_def bio_inv_def b buf_ok_def zero_buf_def locked_bufs_def dirty_blocks_def cached_def)
qed

theorem recovery_idempotent_witness:
  "wp (initlog 1) (\<lambda>_ t'. \<exists>ws. dwrites t' = dwrites demo_crash @ ws
    \<and> (\<forall>k (u :: log_st). booted u \<and> disksize u = 1000 \<and> disk u = apply_writes (take k ws) (disk demo_crash) \<longrightarrow>
        wp (initlog 1) (\<lambda>_ u'. \<forall>b. b \<noteq> 2 \<longrightarrow> disk u' b = disk t' b) u)) demo_crash"
proof -
  have d1: "disk demo_crash 1 = put32 (put32 (replicate 512 0) 12 30) 16 2" and d2: "disk demo_crash 2 = put_head 1 [40] (replicate 512 0)"
    by (simp_all add: demo_crash_sel)
  have sb: "sb_logstart (decode_sb (disk demo_crash 1)) = 2" by (simp add: d1 decode_sb_def get32_put32)
  have n: "to_int (get32 (disk demo_crash 2) 0) = 1" using put_head_n(1) [of "replicate 512 0" 1 "[40]"] by (simp add: d2)
  then have hn: "head_n 2 (disk demo_crash) = 1" by (simp add: head_n_def)
  have hb: "head_block 2 (disk demo_crash) 0 = 40"
    using put_head_block [of "replicate 512 0" 1 0 "[40]"] by (simp add: d2 head_block_def)
  have ok: "head_ok 2 (disksize demo_crash) (disk demo_crash)" by (simp add: head_ok_def n hn hb demo_crash_sel(7))
  have "length (disk demo_crash 2) = 512" using put_head_n(2) [of "replicate 512 0" 1 "[40]"] by (simp add: d2)
  from recovery_idempotent [OF demo_crash_booted _ sb ok this] hb show ?thesis
    by (simp add: hn demo_crash_sel(7)) (erule wp_mono, blast)
qed

section \<open>Reservation\<close>

text \<open>The log fields only change where \<^verbatim>\<open>log.c\<close> assigns them.\<close>

lemma keeps_bio:
  fixes f :: "'a log_st_scheme \<Rightarrow> 'b"
  assumes f: "\<And>s g. f (bufs_update g s) = f s" "\<And>s g. f (ptable_update g s) = f s" "\<And>s g. f (disk_update g s) = f s"
    "\<And>s g. f (dwrites_update g s) = f s" "\<And>s g. f (bprev_update g s) = f s" "\<And>s g. f (bnext_update g s) = f s"
  shows "keeps f (bread d n)" "keeps f (bwrite b)" "keeps f (brelse b)" "keeps f (get_data b)" "keeps f (set_data b x)"
    "keeps f (sleep c)" "keeps f (wakeup c)"
proof -
  have h: "keeps f (holdingsleep g)" for g
    unfolding holdingsleep_def myproc_def deref_def by (intro keeps_intros)
  have sl: "keeps f (sleep c)" for c
    by (auto simp: keeps_def sleep_def sched_def myproc_def deref_def prog_defs split: option.splits if_splits)
  have a: "keeps f (acquiresleep (get_buflock b) (upd_buflock b) c)" for b c
    unfolding acquiresleep_def myproc_def deref_def
    by (intro keeps_intros sl) (simp_all add: upd_buflock_def upd_buf_def f)
  have i: "keeps f (iderw b)" for b
    unfolding iderw_def by (intro keeps_intros h) (simp_all add: upd_buf_def f)
  have spin: "keeps f (\<lambda>s. Spin)" by (simp add: keeps_def)
  show "keeps f (bread d n)" unfolding bread_def bget_def
    by (intro keeps_intros a i spin) (simp_all add: upd_buf_def f)
  show "keeps f (bwrite b)" unfolding bwrite_def by (intro keeps_intros h i) (simp add: upd_buf_def f)
  show "keeps f (wakeup c)" for c unfolding wakeup_def wakeup1_def by (intro keeps_intros) (simp add: f)
  then show "keeps f (brelse b)" unfolding brelse_def releasesleep_def
    by (intro keeps_intros h) (simp_all add: upd_buflock_def upd_buf_def unlink_buf_def insert_head_def Let_def f)
  show "keeps f (get_data b)" "keeps f (set_data b x)" "keeps f (sleep c)"
    unfolding get_data_def set_data_def by (intro keeps_intros sl; simp add: upd_buf_def f)+
qed

lemma keeps_log_loops:
  fixes f :: "'a log_st_scheme \<Rightarrow> 'b"
  assumes f: "\<And>s g. f (bufs_update g s) = f s" "\<And>s g. f (ptable_update g s) = f s" "\<And>s g. f (disk_update g s) = f s"
    "\<And>s g. f (dwrites_update g s) = f s" "\<And>s g. f (bprev_update g s) = f s" "\<And>s g. f (bnext_update g s) = f s"
  shows "keeps f write_log" "keeps f install_trans" "keeps f write_head"
  unfolding write_log_def install_trans_def write_head_def by (intro keeps_intros keeps_bio f)+

lemma commit_empties:
  "wlp commit (\<lambda>_ s'. lh_n s' \<le> 0 \<and> (0 \<le> lh_n s \<longrightarrow> lh_n s' = 0) \<and> lg_outstanding s' = lg_outstanding s
     \<and> lg_committing s' = lg_committing s \<and> lg_size s' = lg_size s) s"
proof (rule wlpI)
  fix a s' assume c: "commit s = Ret a s'"
  have k: "keeps lg_outstanding commit" "keeps lg_committing commit" "keeps lg_size commit"
    unfolding commit_def by (intro keeps_intros keeps_log_loops; simp)+
  have "lh_n s' \<le> 0 \<and> (0 \<le> lh_n s \<longrightarrow> lh_n s' = 0)"
  proof (cases "lh_n s > 0")
    case True
    with c obtain s1 b where "write_head (s1\<lparr>lh_n := 0\<rparr>) = Ret b s'"
      by (auto simp: commit_def whenp_def seqp_def bnd_eq_Ret gets_def modify_def)
    from keepsD [OF keeps_log_loops(3) this, of lh_n] show ?thesis by simp
  next
    case False
    with c show ?thesis by (auto simp: commit_def whenp_def bnd_eq_Ret gets_def ret_def)
  qed
  then show "lh_n s' \<le> 0 \<and> (0 \<le> lh_n s \<longrightarrow> lh_n s' = 0) \<and> lg_outstanding s' = lg_outstanding s
     \<and> lg_committing s' = lg_committing s \<and> lg_size s' = lg_size s"
    using k [THEN keepsD, OF c] by simp
qed

text \<open>
  The file system calls in progress, as a list with the number of blocks each may still log:
  \<^verbatim>\<open>begin_op\<close> adds one with \<open>MAXOPBLOCKS\<close>, each \<^verbatim>\<open>log_write\<close> is charged to one of them, \<^verbatim>\<open>end_op\<close>
  removes one.
\<close>

inductive log_step :: "'a log_st_scheme \<times> nat list \<Rightarrow> 'a log_st_scheme \<times> nat list \<Rightarrow> bool" where
  step_begin: "begin_op s = Ret () s' \<Longrightarrow> log_step (s, B) (s', MAXOPBLOCKS # B)"
| step_write: "i < length B \<Longrightarrow> B ! i > 0 \<Longrightarrow> log_write b s = Ret () s' \<Longrightarrow> log_step (s, B) (s', B[i := B ! i - 1])"
| step_end: "i < length B \<Longrightarrow> end_op s = Ret () s' \<Longrightarrow> log_step (s, B) (s', take i B @ drop (Suc i) B)"

inductive_cases log_stepE: "log_step (s, B) (s', B')"

definition log_start :: "nat \<Rightarrow> 'a log_st_scheme \<times> nat list \<Rightarrow> bool" where
  "log_start size0 x \<longleftrightarrow> (case x of (s, B) \<Rightarrow> B = [] \<and> lg_outstanding s = 0 \<and> lh_n s = 0 \<and> lg_size s = size0 \<and> \<not> lg_committing s)"

definition reserved :: "nat \<Rightarrow> 'a log_st_scheme \<times> nat list \<Rightarrow> bool" where
  "reserved size0 x \<longleftrightarrow> (case x of (s, B) \<Rightarrow> lg_outstanding s = int (length B) \<and> (\<forall>b\<in>set B. b \<le> MAXOPBLOCKS)
     \<and> 0 \<le> lh_n s \<and> lh_n s + int (sum_list B) \<le> int LOGSIZE \<and> lg_size s = size0 \<and> \<not> lg_committing s)"

lemma sum_list_le: "(\<forall>b\<in>set B. b \<le> m) \<Longrightarrow> sum_list B \<le> m * length B" for m :: nat
  by (induction B) auto

lemma sum_list_pos: "0 < sum_list B \<Longrightarrow> \<exists>i<length B. 0 < B ! i" for B :: "nat list"
proof (induction B)
  case (Cons x B)
  show ?case
  proof (cases "x = 0")
    case True
    with Cons obtain i where "i < length B" "0 < B ! i" by auto
    then show ?thesis by (intro exI [of _ "Suc i"]) simp
  qed (intro exI [of _ 0], simp)
qed simp

lemma begin_op_eq:
  "begin_op s = Ret () s' \<longleftrightarrow> \<not> lg_committing s \<and> lh_n s + (lg_outstanding s + 1) * int MAXOPBLOCKS \<le> int LOGSIZE
     \<and> s' = s\<lparr>lg_outstanding := lg_outstanding s + 1\<rparr>"
  by (auto simp: begin_op_def prog_defs sleep_def sched_def myproc_def deref_def split: option.splits if_splits)

lemma log_write_fields:
  assumes "log_write b s = Ret () s'"
  shows "lg_outstanding s' = lg_outstanding s" "lg_size s' = lg_size s" "lg_committing s' = lg_committing s"
    "lh_n s' = lh_n s \<or> lh_n s' = lh_n s + 1" "lh_n s < int LOGSIZE"
  using assms by (auto simp: log_write_def prog_defs upd_buf_def split: if_splits)

lemma end_op_fields:
  assumes "end_op s = Ret () s'" "0 \<le> lh_n s"
  shows "lg_outstanding s' = lg_outstanding s - 1" "lg_size s' = lg_size s" "\<not> lg_committing s'"
    "lh_n s' = (if lg_outstanding s = 1 then 0 else lh_n s)"
proof -
  have k: "keeps lg_outstanding (wakeup c)" "keeps lg_size (wakeup c)" "keeps lg_committing (wakeup c)" "keeps lh_n (wakeup c)"
    for c :: chan and s :: "'a log_st_scheme"
    by (rule keeps_bio; simp)+
  let ?s = "s\<lparr>lg_outstanding := lg_outstanding s - 1\<rparr>"
  have "lg_outstanding s' = lg_outstanding s - 1 \<and> lg_size s' = lg_size s \<and> \<not> lg_committing s'
    \<and> lh_n s' = (if lg_outstanding s = 1 then 0 else lh_n s)"
  proof (cases "lg_outstanding s = 1")
    case True
    with assms(1) obtain a s1 b where s1: "commit (?s\<lparr>lg_committing := True\<rparr>) = Ret a s1"
      "wakeup ChanLog (s1\<lparr>lg_committing := False\<rparr>) = Ret b s'"
      by (auto simp: end_op_def seqp_def bnd_eq_Ret gets_def modify_def panic_def split: if_splits)
    from wlpD [OF commit_empties s1(1)] k [THEN keepsD, OF s1(2)] show ?thesis using assms(2) True by simp
  next
    case False
    with assms(1) have w: "wakeup ChanLog ?s = Ret () s'" "\<not> lg_committing s"
      by (auto simp: end_op_def prog_defs split: if_splits)
    from k [THEN keepsD, OF w(1)] w(2) False show ?thesis by simp
  qed
  then show "lg_outstanding s' = lg_outstanding s - 1" "lg_size s' = lg_size s" "\<not> lg_committing s'"
    "lh_n s' = (if lg_outstanding s = 1 then 0 else lh_n s)" by simp_all
qed

interpretation lg: transition_system "log_start size0" log_step "reserved size0" for size0
proof
  show "log_start size0 x \<Longrightarrow> reserved size0 x" for x :: "'a log_st_scheme \<times> nat list"
    by (auto simp: log_start_def reserved_def)
  fix x y :: "'a log_st_scheme \<times> nat list"
  assume I: "reserved size0 x" and st: "log_step x y"
  from st I show "reserved size0 y"
  proof cases
    case (step_begin s s' B)
    then show ?thesis using I sum_list_le [of B MAXOPBLOCKS] by (auto simp: reserved_def begin_op_eq)
  next
    case (step_write i B b s s')
    have "sum_list (B[i := B ! i - 1]) = sum_list B - 1" "B ! i \<le> sum_list B"
      using step_write(3,4) by (simp_all add: sum_list_update elem_le_sum_list)
    moreover have "\<forall>b\<in>set (B[i := B ! i - 1]). b \<le> MAXOPBLOCKS"
      using I step_write(1,3) by (auto simp: reserved_def dest!: set_update_subset_insert [THEN subsetD] intro: le_trans [OF diff_le_self])
    ultimately show ?thesis using I step_write log_write_fields [OF step_write(5)] by (auto simp: reserved_def)
  next
    case (step_end i B s s')
    have "sum_list B = sum_list (take i B @ B ! i # drop (Suc i) B)" by (simp only: id_take_nth_drop [OF step_end(3), symmetric])
    then have "sum_list (take i B @ drop (Suc i) B) \<le> sum_list B" by simp
    moreover have "lg_outstanding s = 1 \<Longrightarrow> take i B @ drop (Suc i) B = []" using I step_end(1,3) by (auto simp: reserved_def)
    moreover have "0 \<le> lh_n s" using I step_end(1) by (simp add: reserved_def)
    note end_op_fields [OF step_end(4) this]
    ultimately show ?thesis using I step_end(1,2,3)
      by (cases "lg_outstanding s = 1") (auto simp: reserved_def dest: in_set_takeD in_set_dropD)
  qed
qed

text \<open>
  C9. The reservations of \<^verbatim>\<open>begin_op\<close> are sound for a log area of more than \<^verbatim>\<open>LOGSIZE\<close> blocks: in
  every interleaving of file system calls, each logging at most \<^verbatim>\<open>MAXOPBLOCKS\<close> blocks, a call
  that has not used up its share never runs into one of the two panics of \<^verbatim>\<open>log_write\<close>, and the
  header never holds more than \<^verbatim>\<open>LOGSIZE\<close> entries.
\<close>

theorem log_write_reserved:
  fixes s :: "'a log_st_scheme"
  assumes "reach (log_start size0) log_step (s, B)" "LOGSIZE < size0" "i < length B" "B ! i > 0"
  shows "\<exists>s'. log_write b s = Ret () s' \<and> lh_n s' \<le> int LOGSIZE"
proof -
  have R: "reserved size0 (s, B)" by (rule lg.reach_inv [OF assms(1)])
  have "B ! i \<le> sum_list B" using assms(3) by (rule elem_le_sum_list)
  then have n: "lh_n s < int LOGSIZE" "lg_outstanding s \<ge> 1" "lg_size s = size0" using R assms(3,4) by (auto simp: reserved_def)
  then obtain s' where "log_write b s = Ret () s'" using assms(2) by (auto simp: log_write_def prog_defs)
  with n(1) show ?thesis using log_write_fields(4) by fastforce
qed

definition fresh_log :: "nat \<Rightarrow> log_st" where
  "fresh_log size0 = bio_st.extend (boot_bio\<lparr>bufs := map (\<lambda>i. zero_buf\<lparr>b_blockno := 100 + i\<rparr>) [0..<30]\<rparr>)
     (log_st.fields 2 size0 0 False 1 0 (replicate 30 0))"

lemma fresh_log_sel:
  "lg_outstanding (fresh_log z) = 0" "lh_n (fresh_log z) = 0" "lg_size (fresh_log z) = z" "\<not> lg_committing (fresh_log z)"
  "lh_block (fresh_log z) = replicate 30 0" "bufs (fresh_log z) = map (\<lambda>i. zero_buf\<lparr>b_blockno := 100 + i\<rparr>) [0..<30]"
  by (simp_all add: fresh_log_def bio_st.defs log_st.defs)

theorem log_write_reserved_witness:
  "\<exists>s'. log_write 0 ((fresh_log 31)\<lparr>lg_outstanding := 1\<rparr>) = Ret () s' \<and> lh_n s' \<le> int LOGSIZE"
proof -
  have "reach (log_start 31) log_step (fresh_log 31, [])" by (rule reach_init) (simp add: log_start_def fresh_log_sel)
  moreover have "log_step (fresh_log 31, []) ((fresh_log 31)\<lparr>lg_outstanding := 1\<rparr>, [10])"
    by (rule step_begin) (simp add: begin_op_eq fresh_log_sel)
  ultimately have "reach (log_start 31) log_step ((fresh_log 31)\<lparr>lg_outstanding := 1\<rparr>, [10])" by (rule reach_step)
  from log_write_reserved [OF this, of 0] show ?thesis by simp
qed

lemma log_write_new:
  assumes "lh_n s = int k" "k < 29" "lg_size s = 30" "lg_outstanding s \<ge> 1" "\<And>i. i < k \<Longrightarrow> lh_block s ! i \<noteq> b_blockno (bufs s ! b)"
  shows "log_write b s = Ret () (upd_buf b (\<lambda>x. x\<lparr>b_dirty := True\<rparr>)
    (s\<lparr>lh_block := (lh_block s)[k := b_blockno (bufs s ! b)], lh_n := int k + 1\<rparr>))"
proof -
  have "find (\<lambda>i. lh_block s ! i = b_blockno (bufs s ! b)) [0..<k] = None" using assms(5) by (simp add: find_None_iff)
  then show ?thesis using assms(1-4) by (simp add: log_write_def log_slot_def prog_defs)
qed

text \<open>Three calls in progress that have logged \<open>k\<close> different blocks between them.\<close>

lemma three_ops_log:
  "k \<le> 29 \<Longrightarrow> \<exists>s B. reach (log_start 30) log_step (s :: log_st, B) \<and> lh_n s = int k \<and> lg_outstanding s = 3 \<and> lg_size s = 30
     \<and> (\<forall>i<30. b_blockno (bufs s ! i) = 100 + i) \<and> (\<forall>i<k. lh_block s ! i = 100 + i) \<and> length (lh_block s) = 30 \<and> length (bufs s) = 30
     \<and> length B = 3 \<and> sum_list B = 30 - k"
proof (induction k)
  case 0
  let ?s = "\<lambda>n. (fresh_log 30)\<lparr>lg_outstanding := n\<rparr>"
  have "fresh_log 30 = ?s 0" using fresh_log_sel(1) [of 30] by simp
  then have "reach (log_start 30) log_step (?s 0, [])" by (intro reach_init) (simp add: log_start_def fresh_log_sel)
  then have "reach (log_start 30) log_step (?s 1, [10])"
    by (rule reach_step) (rule step_begin, simp add: begin_op_eq fresh_log_sel)
  then have "reach (log_start 30) log_step (?s 2, [10, 10])"
    by (rule reach_step) (rule step_begin, simp add: begin_op_eq fresh_log_sel)
  then have "reach (log_start 30) log_step (?s 3, [10, 10, 10])"
    by (rule reach_step) (rule step_begin, simp add: begin_op_eq fresh_log_sel)
  then show ?case by (intro exI [of _ "?s 3"] exI [of _ "[10, 10, 10]"]) (simp add: fresh_log_sel)
next
  case (Suc k)
  then obtain s :: log_st and B where s: "reach (log_start 30) log_step (s, B)" "lh_n s = int k" "lg_outstanding s = 3" "lg_size s = 30"
    "\<forall>i<30. b_blockno (bufs s ! i) = 100 + i" "\<forall>i<k. lh_block s ! i = 100 + i" "length (lh_block s) = 30" "length (bufs s) = 30"
    "length B = 3" "sum_list B = 30 - k" by auto
  from s(10) Suc.prems have "0 < sum_list B" by simp
  from sum_list_pos [OF this] obtain i where i: "i < length B" "B ! i > 0" by blast
  let ?s = "upd_buf k (\<lambda>x. x\<lparr>b_dirty := True\<rparr>) (s\<lparr>lh_block := (lh_block s)[k := b_blockno (bufs s ! k)], lh_n := int k + 1\<rparr>)"
  have "log_write k s = Ret () ?s" using s(2-6) Suc.prems by (intro log_write_new) auto
  from step_write [OF i this] s(1) have "reach (log_start 30) log_step (?s, B[i := B ! i - 1])" by (rule reach_step [rotated])
  moreover have "sum_list (B[i := B ! i - 1]) = 30 - Suc k" using i s(10) by (simp add: sum_list_update)
  ultimately show ?case using s(3-9) Suc.prems
    by (intro exI [of _ ?s] exI [of _ "B[i := B ! i - 1]"]) (auto simp: upd_buf_def nth_list_update less_Suc_eq)
qed

text \<open>
  C39. With the log area that \<^verbatim>\<open>mkfs\<close> makes, \<^verbatim>\<open>LOGSIZE\<close> blocks including the header, the
  reservations are not sound: three calls admitted by \<^verbatim>\<open>begin_op\<close> can be brought, within their
  shares, to a \<^verbatim>\<open>log_write\<close> that stops the kernel with ``too big a transaction''.
\<close>

theorem log_reservation_off_by_one:
  "\<exists>(s :: log_st) B i b. reach (log_start LOGSIZE) log_step (s, B) \<and> i < length B \<and> B ! i > 0
     \<and> log_write b s = Panic ''too big a transaction''"
proof -
  from three_ops_log [of 29] obtain s :: log_st and B where s: "reach (log_start 30) log_step (s, B)" "lh_n s = 29" "lg_size s = 30"
    "length B = 3" "sum_list B = 1" by auto
  from s(5) have "0 < sum_list B" by simp
  from sum_list_pos [OF this] obtain i where i: "i < length B" "B ! i > 0" by blast
  have "log_write 29 s = Panic ''too big a transaction''" using s(2,3) by (simp add: log_write_def prog_defs)
  with s(1) i show ?thesis by blast
qed

end
