(* ===== verification/Fs.thy ===== *)
theory Fs
  imports Log Strings
begin

text \<open>
  The file system, \<^verbatim>\<open>fs.c\<close> with \<^verbatim>\<open>fs.h\<close> and \<^verbatim>\<open>stat.h\<close>: the block allocator, the inode cache, the
  contents of inodes, directories and path names.  A pointer into \<^verbatim>\<open>icache.inode\<close> is its index,
  the null pointer \<open>None\<close>.  On-disk inodes, directory entries and the bitmap are decoded from
  and encoded into the bytes of their blocks.  A section under \<^verbatim>\<open>icache.lock\<close> is one step; the
  sleep lock of an inode is state.

  Bytes that the code copies through a pointer are passed as lists: \<^verbatim>\<open>readi\<close> returns the count and
  the bytes, \<^verbatim>\<open>writei\<close> takes the bytes, and its \<^verbatim>\<open>n\<close> is their number.  A path is the list of
  its characters up to the terminating NUL, and the buffer \<^verbatim>\<open>name\<close> of \<^verbatim>\<open>DIRSIZ\<close> bytes is the string
  it holds.  The device switch, which \<^verbatim>\<open>consoleinit\<close> fills, is an argument of the two calls that
  dispatch through it.
\<close>

declare One_nat_def [simp del]

abbreviation (input) NDIRECT :: nat where "NDIRECT \<equiv> 12"
abbreviation (input) NINDIRECT :: nat where "NINDIRECT \<equiv> 128"
abbreviation (input) MAXFILE :: nat where "MAXFILE \<equiv> 140"
abbreviation (input) IPB :: nat where "IPB \<equiv> 8"
abbreviation (input) BPB :: nat where "BPB \<equiv> 4096"
abbreviation (input) DIRSIZ :: nat where "DIRSIZ \<equiv> 14"
abbreviation (input) ROOTINO :: nat where "ROOTINO \<equiv> 1"
abbreviation (input) T_DIR :: int where "T_DIR \<equiv> 1"
abbreviation (input) T_FILE :: int where "T_FILE \<equiv> 2"
abbreviation (input) T_DEV :: int where "T_DEV \<equiv> 3"
abbreviation (input) SLASH :: u8 where "SLASH \<equiv> 47"

record dinode =
  d_type :: int
  d_major :: int
  d_minor :: int
  d_nlink :: int
  d_size :: nat
  d_addrs :: "nat list"

record inode =
  i_dev :: nat
  i_inum :: nat
  i_ref :: int
  i_lock :: sleeplock
  i_valid :: bool
  i_type :: int
  i_major :: int
  i_minor :: int
  i_nlink :: int
  i_size :: nat
  i_addrs :: "nat list"

record stat =
  st_type :: int
  st_dev :: nat
  st_ino :: nat
  st_nlink :: int
  st_size :: nat

record dirent =
  de_inum :: nat
  de_name :: "u8 list"

record fs_st = log_st +
  fs_sb :: superblock
  inodes :: "inode list"

definition upd_inode :: "nat \<Rightarrow> (inode \<Rightarrow> inode) \<Rightarrow> 'a fs_st_scheme \<Rightarrow> 'a fs_st_scheme" where
  "upd_inode ip f s = s\<lparr>inodes := (inodes s)[ip := f (inodes s ! ip)]\<rparr>"

definition get_inodelock :: "nat \<Rightarrow> 'a fs_st_scheme \<Rightarrow> sleeplock" where
  "get_inodelock ip s = i_lock (inodes s ! ip)"

definition upd_inodelock :: "nat \<Rightarrow> (sleeplock \<Rightarrow> sleeplock) \<Rightarrow> 'a fs_st_scheme \<Rightarrow> 'a fs_st_scheme" where
  "upd_inodelock ip f = upd_inode ip (\<lambda>x. x\<lparr>i_lock := f (i_lock x)\<rparr>)"

definition IBLOCK :: "nat \<Rightarrow> superblock \<Rightarrow> nat" where
  "IBLOCK i sb = i div IPB + sb_inodestart sb"

definition BBLOCK :: "nat \<Rightarrow> superblock \<Rightarrow> nat" where
  "BBLOCK b sb = b div BPB + sb_bmapstart sb"

text \<open>The on-disk structures in their blocks; \<open>dip inum\<close> is the offset of an inode in its block.\<close>

definition dip :: "nat \<Rightarrow> nat" where
  "dip inum = (inum mod IPB) * 64"

definition get_dinode :: "block \<Rightarrow> nat \<Rightarrow> dinode" where
  "get_dinode d p = \<lparr>d_type = to_short (get16 d p), d_major = to_short (get16 d (p + 2)), d_minor = to_short (get16 d (p + 4)),
     d_nlink = to_short (get16 d (p + 6)), d_size = get32 d (p + 8), d_addrs = map (\<lambda>i. get32 d (p + 12 + 4 * i)) [0..<13]\<rparr>"

definition put_dinode :: "block \<Rightarrow> nat \<Rightarrow> dinode \<Rightarrow> block" where
  "put_dinode d p x =
     (let d = put16 d p (of_short (d_type x));
          d = put16 d (p + 2) (of_short (d_major x));
          d = put16 d (p + 4) (of_short (d_minor x));
          d = put16 d (p + 6) (of_short (d_nlink x));
          d = put32 d (p + 8) (d_size x)
      in fold (\<lambda>i d. put32 d (p + 12 + 4 * i) (d_addrs x ! i)) [0..<13] d)"

definition get_dirent :: "u8 list \<Rightarrow> dirent" where
  "get_dirent d = \<lparr>de_inum = get16 d 0, de_name = get_bytes d 2 DIRSIZ\<rparr>"

definition put_dirent :: "dirent \<Rightarrow> u8 list" where
  "put_dirent de = [of_nat (de_inum de), of_nat (de_inum de div 256)] @ de_name de"

text \<open>A string that ends with its list, for the routines that read it through a pointer.\<close>

definition cstr_of :: "u8 list \<Rightarrow> nat \<Rightarrow> u8" where
  "cstr_of xs i = (if i < length xs then xs ! i else 0)"

section \<open>Blocks\<close>

definition bzero :: "nat \<Rightarrow> nat \<Rightarrow> ('a fs_st_scheme, unit) prog" where
  "bzero dev bno =
     bnd (bread dev bno) (\<lambda>bp.
     seqp (set_data bp (replicate BSIZE 0))
     (seqp (log_write bp)
      (brelse bp)))"

definition bit_mask :: "nat \<Rightarrow> u8" where
  "bit_mask bi = push_bit (bi mod 8) 1"

fun balloc_from :: "nat \<Rightarrow> nat list \<Rightarrow> ('a fs_st_scheme, nat) prog" where
  "balloc_from dev [] = panic ''balloc: out of blocks''"
| "balloc_from dev (b # bs) =
     bnd (gets fs_sb) (\<lambda>sb.
     bnd (bread dev (BBLOCK b sb)) (\<lambda>bp.
     bnd (get_data bp) (\<lambda>d.
     case find (\<lambda>bi. d ! (bi div 8) AND bit_mask bi = 0) [0..<min BPB (sb_size sb - b)] of
       Some bi \<Rightarrow>
         seqp (set_data bp (d[bi div 8 := d ! (bi div 8) OR bit_mask bi]))
         (seqp (log_write bp)
         (seqp (brelse bp)
         (seqp (bzero dev (b + bi))
          (ret (b + bi)))))
     | None \<Rightarrow>
         seqp (brelse bp)
          (balloc_from dev bs))))"

definition balloc :: "nat \<Rightarrow> ('a fs_st_scheme, nat) prog" where
  "balloc dev =
     bnd (gets (\<lambda>s. sb_size (fs_sb s))) (\<lambda>size.
     balloc_from dev (map (\<lambda>i. i * BPB) [0..<(size + BPB - 1) div BPB]))"

definition bfree :: "nat \<Rightarrow> nat \<Rightarrow> ('a fs_st_scheme, unit) prog" where
  "bfree dev b =
     bnd (gets fs_sb) (\<lambda>sb.
     bnd (bread dev (BBLOCK b sb)) (\<lambda>bp.
     bnd (get_data bp) (\<lambda>d.
     let bi = b mod BPB in
     if d ! (bi div 8) AND bit_mask bi = 0 then panic ''freeing free block''
     else
       seqp (set_data bp (d[bi div 8 := d ! (bi div 8) AND NOT (bit_mask bi)]))
       (seqp (log_write bp)
        (brelse bp)))))"

section \<open>Inodes\<close>

definition iinit :: "nat \<Rightarrow> ('a fs_st_scheme, unit) prog" where
  "iinit dev =
     seqp (forp [0..<NINODE] (\<lambda>i. modify (upd_inodelock i (\<lambda>_. initsleeplock))))
     (bnd (readsb dev) (\<lambda>x.
      modify (\<lambda>s. s\<lparr>fs_sb := x\<rparr>)))"

definition iget :: "nat \<Rightarrow> nat \<Rightarrow> ('a fs_st_scheme, nat) prog" where
  "iget dev inum =
     bnd (gets (\<lambda>s. find (\<lambda>ip. i_ref (inodes s ! ip) > 0 \<and> i_dev (inodes s ! ip) = dev \<and> i_inum (inodes s ! ip) = inum) [0..<NINODE])) (\<lambda>hit.
     case hit of
       Some ip \<Rightarrow>
         seqp (modify (upd_inode ip (\<lambda>x. x\<lparr>i_ref := i_ref x + 1\<rparr>)))
          (ret ip)
     | None \<Rightarrow>
         bnd (gets (\<lambda>s. find (\<lambda>ip. i_ref (inodes s ! ip) = 0) [0..<NINODE])) (\<lambda>empty.
         case empty of
           None \<Rightarrow> panic ''iget: no inodes''
         | Some ip \<Rightarrow>
             seqp (modify (upd_inode ip (\<lambda>x. x\<lparr>i_dev := dev, i_inum := inum, i_ref := 1, i_valid := False\<rparr>)))
              (ret ip)))"

fun ialloc_from :: "nat \<Rightarrow> int \<Rightarrow> nat list \<Rightarrow> ('a fs_st_scheme, nat) prog" where
  "ialloc_from dev type [] = panic ''ialloc: no inodes''"
| "ialloc_from dev type (inum # is) =
     bnd (gets fs_sb) (\<lambda>sb.
     bnd (bread dev (IBLOCK inum sb)) (\<lambda>bp.
     bnd (get_data bp) (\<lambda>d.
     if d_type (get_dinode d (dip inum)) = 0 then
       seqp (set_data bp (put16 (put_bytes d (dip inum) (replicate 64 0)) (dip inum) (of_short type)))
       (seqp (log_write bp)
       (seqp (brelse bp)
        (iget dev inum)))
     else
       seqp (brelse bp)
        (ialloc_from dev type is))))"

definition ialloc :: "nat \<Rightarrow> int \<Rightarrow> ('a fs_st_scheme, nat) prog" where
  "ialloc dev type =
     bnd (gets (\<lambda>s. sb_ninodes (fs_sb s))) (\<lambda>n.
     ialloc_from dev type [1..<n])"

definition disk_copy :: "inode \<Rightarrow> dinode" where
  "disk_copy x = \<lparr>d_type = i_type x, d_major = i_major x, d_minor = i_minor x, d_nlink = i_nlink x, d_size = i_size x,
     d_addrs = i_addrs x\<rparr>"

definition iupdate :: "nat \<Rightarrow> ('a fs_st_scheme, unit) prog" where
  "iupdate ip =
     bnd (gets (\<lambda>s. (inodes s ! ip, fs_sb s))) (\<lambda>(x, sb).
     bnd (bread (i_dev x) (IBLOCK (i_inum x) sb)) (\<lambda>bp.
     bnd (get_data bp) (\<lambda>d.
     seqp (set_data bp (put_dinode d (dip (i_inum x)) (disk_copy x)))
     (seqp (log_write bp)
      (brelse bp)))))"

definition idup :: "nat \<Rightarrow> ('a fs_st_scheme, nat) prog" where
  "idup ip = seqp (modify (upd_inode ip (\<lambda>x. x\<lparr>i_ref := i_ref x + 1\<rparr>))) (ret ip)"

definition ilock :: "nat option \<Rightarrow> ('a fs_st_scheme, unit) prog" where
  "ilock ipp =
     (case ipp of
        None \<Rightarrow> panic ''ilock''
      | Some ip \<Rightarrow>
     bnd (gets (\<lambda>s. i_ref (inodes s ! ip))) (\<lambda>ref.
     if ref < 1 then panic ''ilock''
     else
     seqp (acquiresleep (get_inodelock ip) (upd_inodelock ip) (ChanInodeLock ip))
     (bnd (gets (\<lambda>s. (inodes s ! ip, fs_sb s))) (\<lambda>(x, sb).
      whenp (\<not> i_valid x)
       (bnd (bread (i_dev x) (IBLOCK (i_inum x) sb)) (\<lambda>bp.
        bnd (get_data bp) (\<lambda>d.
        let di = get_dinode d (dip (i_inum x)) in
        seqp (modify (upd_inode ip (\<lambda>x. x\<lparr>i_type := d_type di, i_major := d_major di, i_minor := d_minor di,
                i_nlink := d_nlink di, i_size := d_size di, i_addrs := d_addrs di\<rparr>)))
        (seqp (brelse bp)
        (seqp (modify (upd_inode ip (\<lambda>x. x\<lparr>i_valid := True\<rparr>)))
         (if d_type di = 0 then panic ''ilock: no type'' else ret ()))))))))))"

definition iunlock :: "nat option \<Rightarrow> ('a fs_st_scheme, unit) prog" where
  "iunlock ipp =
     (case ipp of
        None \<Rightarrow> panic ''iunlock''
      | Some ip \<Rightarrow>
     bnd (holdingsleep (get_inodelock ip)) (\<lambda>h.
     bnd (gets (\<lambda>s. i_ref (inodes s ! ip))) (\<lambda>ref.
     if \<not> h \<or> ref < 1 then panic ''iunlock''
     else releasesleep (upd_inodelock ip) (ChanInodeLock ip))))"

section \<open>Inode content\<close>

definition bmap :: "nat \<Rightarrow> nat \<Rightarrow> ('a fs_st_scheme, nat) prog" where
  "bmap ip bn =
     bnd (gets (\<lambda>s. inodes s ! ip)) (\<lambda>x.
     if bn < NDIRECT then
       (if i_addrs x ! bn = 0 then
          bnd (balloc (i_dev x)) (\<lambda>addr.
          seqp (modify (upd_inode ip (\<lambda>x. x\<lparr>i_addrs := (i_addrs x)[bn := addr]\<rparr>)))
           (ret addr))
        else ret (i_addrs x ! bn))
     else if bn - NDIRECT < NINDIRECT then
       bnd (if i_addrs x ! NDIRECT = 0 then
              bnd (balloc (i_dev x)) (\<lambda>addr.
              seqp (modify (upd_inode ip (\<lambda>x. x\<lparr>i_addrs := (i_addrs x)[NDIRECT := addr]\<rparr>)))
               (ret addr))
            else ret (i_addrs x ! NDIRECT)) (\<lambda>ind.
       bnd (bread (i_dev x) ind) (\<lambda>bp.
       bnd (get_data bp) (\<lambda>a.
       bnd (if get32 a (4 * (bn - NDIRECT)) = 0 then
              bnd (balloc (i_dev x)) (\<lambda>addr.
              seqp (set_data bp (put32 a (4 * (bn - NDIRECT)) addr))
              (seqp (log_write bp)
               (ret addr)))
            else ret (get32 a (4 * (bn - NDIRECT)))) (\<lambda>addr.
       seqp (brelse bp) (ret addr)))))
     else panic ''bmap: out of range'')"

definition itrunc :: "nat \<Rightarrow> ('a fs_st_scheme, unit) prog" where
  "itrunc ip =
     seqp (forp [0..<NDIRECT] (\<lambda>i.
       bnd (gets (\<lambda>s. inodes s ! ip)) (\<lambda>x.
       whenp (i_addrs x ! i \<noteq> 0)
         (seqp (bfree (i_dev x) (i_addrs x ! i))
          (modify (upd_inode ip (\<lambda>x. x\<lparr>i_addrs := (i_addrs x)[i := 0]\<rparr>)))))))
     (seqp (bnd (gets (\<lambda>s. inodes s ! ip)) (\<lambda>x.
       whenp (i_addrs x ! NDIRECT \<noteq> 0)
         (bnd (bread (i_dev x) (i_addrs x ! NDIRECT)) (\<lambda>bp.
          bnd (get_data bp) (\<lambda>a.
          seqp (forp [0..<NINDIRECT] (\<lambda>j.
            whenp (get32 a (4 * j) \<noteq> 0) (bfree (i_dev x) (get32 a (4 * j)))))
          (seqp (brelse bp)
          (seqp (bfree (i_dev x) (i_addrs x ! NDIRECT))
           (modify (upd_inode ip (\<lambda>x. x\<lparr>i_addrs := (i_addrs x)[NDIRECT := 0]\<rparr>))))))))))
     (seqp (modify (upd_inode ip (\<lambda>x. x\<lparr>i_size := 0\<rparr>)))
      (iupdate ip)))"

definition iput :: "nat \<Rightarrow> ('a fs_st_scheme, unit) prog" where
  "iput ip =
     seqp (acquiresleep (get_inodelock ip) (upd_inodelock ip) (ChanInodeLock ip))
     (seqp (bnd (gets (\<lambda>s. inodes s ! ip)) (\<lambda>x.
       whenp (i_valid x \<and> i_nlink x = 0 \<and> i_ref x = 1)
         (seqp (itrunc ip)
         (seqp (modify (upd_inode ip (\<lambda>x. x\<lparr>i_type := 0\<rparr>)))
         (seqp (iupdate ip)
          (modify (upd_inode ip (\<lambda>x. x\<lparr>i_valid := False\<rparr>))))))))
     (seqp (releasesleep (upd_inodelock ip) (ChanInodeLock ip))
      (modify (upd_inode ip (\<lambda>x. x\<lparr>i_ref := i_ref x - 1\<rparr>)))))"

definition iunlockput :: "nat \<Rightarrow> ('a fs_st_scheme, unit) prog" where
  "iunlockput ip = seqp (iunlock (Some ip)) (iput ip)"

definition stati :: "nat \<Rightarrow> ('a fs_st_scheme, stat) prog" where
  "stati ip = gets (\<lambda>s. let x = inodes s ! ip in
     \<lparr>st_type = i_type x, st_dev = i_dev x, st_ino = i_inum x, st_nlink = i_nlink x, st_size = i_size x\<rparr>)"

text \<open>
  The entries of \<^verbatim>\<open>devsw\<close>: a device's read takes the inode and the count and returns the result
  and the bytes it stored; its write takes the bytes.
\<close>

type_synonym 's dev_read = "nat \<Rightarrow> nat \<Rightarrow> ('s, int \<times> u8 list) prog"
type_synonym 's dev_write = "nat \<Rightarrow> u8 list \<Rightarrow> ('s, int) prog"

record 's devsw =
  dv_read :: "nat \<Rightarrow> 's dev_read option"
  dv_write :: "nat \<Rightarrow> 's dev_write option"

text \<open>The loop of \<^verbatim>\<open>readi\<close>; \<open>n\<close> is what is left, \<^verbatim>\<open>n - tot\<close>.\<close>

function readi_loop :: "nat \<Rightarrow> nat \<Rightarrow> nat \<Rightarrow> ('a fs_st_scheme, u8 list) prog" where
  "readi_loop ip off n =
     (if n = 0 then ret []
      else
        bnd (bmap ip (off div BSIZE)) (\<lambda>addr.
        bnd (gets (\<lambda>s. i_dev (inodes s ! ip))) (\<lambda>dev.
        bnd (bread dev addr) (\<lambda>bp.
        bnd (get_data bp) (\<lambda>d.
        let m = min n (BSIZE - off mod BSIZE) in
        seqp (brelse bp)
        (bnd (readi_loop ip (off + m) (n - m)) (\<lambda>rest.
         ret (get_bytes d (off mod BSIZE) m @ rest)))))))) "
  by auto
termination
  by (relation "measure (\<lambda>(ip, off, n). n)") auto

definition readi :: "('a fs_st_scheme) devsw \<Rightarrow> nat \<Rightarrow> nat \<Rightarrow> nat \<Rightarrow> ('a fs_st_scheme, int \<times> u8 list) prog" where
  "readi devsw ip off n =
     bnd (gets (\<lambda>s. inodes s ! ip)) (\<lambda>x.
     if i_type x = T_DEV then
       (if i_major x < 0 \<or> i_major x \<ge> int NDEV then ret (-1, [])
        else case dv_read devsw (nat (i_major x)) of
               None \<Rightarrow> ret (-1, [])
             | Some rd \<Rightarrow> rd ip n)
     else if off > i_size x \<or> (off + n) mod 4294967296 < off then ret (-1, [])
     else
       let n = (if off + n > i_size x then i_size x - off else n) in
       bnd (readi_loop ip off n) (\<lambda>bytes.
       ret (int n, bytes)))"

function writei_loop :: "nat \<Rightarrow> nat \<Rightarrow> u8 list \<Rightarrow> ('a fs_st_scheme, unit) prog" where
  "writei_loop ip off src =
     (if src = [] then ret ()
      else
        bnd (bmap ip (off div BSIZE)) (\<lambda>addr.
        bnd (gets (\<lambda>s. i_dev (inodes s ! ip))) (\<lambda>dev.
        bnd (bread dev addr) (\<lambda>bp.
        bnd (get_data bp) (\<lambda>d.
        let m = min (length src) (BSIZE - off mod BSIZE) in
        seqp (set_data bp (put_bytes d (off mod BSIZE) (take m src)))
        (seqp (log_write bp)
        (seqp (brelse bp)
         (writei_loop ip (off + m) (drop m src)))))))))"
  by auto
termination
  by (relation "measure (\<lambda>(ip, off, src). length src)") (auto simp: min_def)

definition writei :: "('a fs_st_scheme) devsw \<Rightarrow> nat \<Rightarrow> u8 list \<Rightarrow> nat \<Rightarrow> ('a fs_st_scheme, int) prog" where
  "writei devsw ip src off =
     bnd (gets (\<lambda>s. inodes s ! ip)) (\<lambda>x.
     let n = length src in
     if i_type x = T_DEV then
       (if i_major x < 0 \<or> i_major x \<ge> int NDEV then ret (-1)
        else case dv_write devsw (nat (i_major x)) of
               None \<Rightarrow> ret (-1)
             | Some wr \<Rightarrow> wr ip src)
     else if off > i_size x \<or> (off + n) mod 4294967296 < off then ret (-1)
     else if off + n > MAXFILE * BSIZE then ret (-1)
     else
       seqp (writei_loop ip off src)
       (bnd (gets (\<lambda>s. i_size (inodes s ! ip))) (\<lambda>size.
        seqp (whenp (n > 0 \<and> off + n > size)
               (seqp (modify (upd_inode ip (\<lambda>x. x\<lparr>i_size := off + n\<rparr>)))
                (iupdate ip)))
         (ret (int n)))))"

declare readi_loop.simps [simp del] writei_loop.simps [simp del]

section \<open>Directories\<close>

definition namecmp :: "u8 list \<Rightarrow> u8 list \<Rightarrow> int" where
  "namecmp s t = strncmp (cstr_of s) (cstr_of t) DIRSIZ"

text \<open>
  The offsets a loop over a directory visits.  The bound \<^verbatim>\<open>dp->size\<close> is read in every round;
  no round changes it, as only \<^verbatim>\<open>writei\<close> and \<^verbatim>\<open>itrunc\<close> do.
\<close>

definition dir_offsets :: "nat \<Rightarrow> nat list" where
  "dir_offsets size0 = map (\<lambda>i. 16 * i) [0..<(size0 + 15) div 16]"

fun dirlookup_from :: "('a fs_st_scheme) devsw \<Rightarrow> nat \<Rightarrow> u8 list \<Rightarrow> nat list \<Rightarrow> ('a fs_st_scheme, (nat \<times> nat) option) prog" where
  "dirlookup_from devsw dp name [] = ret None"
| "dirlookup_from devsw dp name (off # offs) =
     bnd (readi devsw dp off 16) (\<lambda>(n, bytes).
     if n \<noteq> 16 then panic ''dirlookup read''
     else
       let de = get_dirent bytes in
       if de_inum de = 0 then dirlookup_from devsw dp name offs
       else if namecmp name (de_name de) = 0 then
         bnd (gets (\<lambda>s. i_dev (inodes s ! dp))) (\<lambda>dev.
         bnd (iget dev (de_inum de)) (\<lambda>ip.
         ret (Some (ip, off))))
       else dirlookup_from devsw dp name offs)"

definition dirlookup :: "('a fs_st_scheme) devsw \<Rightarrow> nat \<Rightarrow> u8 list \<Rightarrow> ('a fs_st_scheme, (nat \<times> nat) option) prog" where
  "dirlookup devsw dp name =
     bnd (gets (\<lambda>s. inodes s ! dp)) (\<lambda>x.
     if i_type x \<noteq> T_DIR then panic ''dirlookup not DIR''
     else dirlookup_from devsw dp name (dir_offsets (i_size x)))"

fun dir_slot :: "('a fs_st_scheme) devsw \<Rightarrow> nat \<Rightarrow> nat \<Rightarrow> nat list \<Rightarrow> ('a fs_st_scheme, nat) prog" where
  "dir_slot devsw dp eof [] = ret eof"
| "dir_slot devsw dp eof (off # offs) =
     bnd (readi devsw dp off 16) (\<lambda>(n, bytes).
     if n \<noteq> 16 then panic ''dirlink read''
     else if de_inum (get_dirent bytes) = 0 then ret off
     else dir_slot devsw dp eof offs)"

definition dirlink :: "('a fs_st_scheme) devsw \<Rightarrow> nat \<Rightarrow> u8 list \<Rightarrow> nat \<Rightarrow> ('a fs_st_scheme, int) prog" where
  "dirlink devsw dp name inum =
     bnd (dirlookup devsw dp name) (\<lambda>found.
     case found of
       Some (ip, off) \<Rightarrow> seqp (iput ip) (ret (-1))
     | None \<Rightarrow>
         bnd (gets (\<lambda>s. i_size (inodes s ! dp))) (\<lambda>size.
         bnd (dir_slot devsw dp (16 * ((size + 15) div 16)) (dir_offsets size)) (\<lambda>off.
         bnd (writei devsw dp (put_dirent \<lparr>de_inum = inum, de_name = strncpy (cstr_of name) DIRSIZ\<rparr>) off) (\<lambda>n.
         if n \<noteq> 16 then panic ''dirlink'' else ret 0))))"

section \<open>Paths\<close>

definition skipelem :: "u8 list \<Rightarrow> (u8 list \<times> u8 list) option" where
  "skipelem path =
     (let path = dropWhile (\<lambda>c. c = SLASH) path in
      if path = [] then None
      else
        let s = takeWhile (\<lambda>c. c \<noteq> SLASH) path;
            path = dropWhile (\<lambda>c. c \<noteq> SLASH) path
        in Some (take DIRSIZ s, dropWhile (\<lambda>c. c = SLASH) path))"

lemma skipelem_shorter: "skipelem path = Some (name, rest) \<Longrightarrow> length rest < length path"
proof -
  assume a: "skipelem path = Some (name, rest)"
  let ?p = "dropWhile (\<lambda>c. c = SLASH) path"
  have ne: "?p \<noteq> []" using a by (auto simp: skipelem_def Let_def split: if_splits)
  then have "dropWhile (\<lambda>c. c \<noteq> SLASH) ?p = dropWhile (\<lambda>c. c \<noteq> SLASH) (tl ?p)"
    using hd_dropWhile [OF ne] by (cases ?p) auto
  then have "rest = dropWhile (\<lambda>c. c = SLASH) (dropWhile (\<lambda>c. c \<noteq> SLASH) (tl ?p))"
    using a by (auto simp: skipelem_def Let_def split: if_splits)
  then have "length rest \<le> length (tl ?p)" using length_dropWhile_le le_trans by metis
  moreover have "length (tl ?p) < length ?p" using ne by simp
  ultimately show ?thesis using length_dropWhile_le [of _ path] by (meson le_less_trans less_le_trans)
qed

text \<open>The loop of \<^verbatim>\<open>namex\<close>, with the inode and the rest of the path; the result carries \<^verbatim>\<open>name\<close>.\<close>

function namex_loop :: "('a fs_st_scheme) devsw \<Rightarrow> bool \<Rightarrow> nat \<Rightarrow> u8 list \<Rightarrow> u8 list \<Rightarrow>
    ('a fs_st_scheme, nat option \<times> u8 list) prog" where
  "namex_loop devsw parent ip path name =
     (case skipelem path of
        None \<Rightarrow>
          if parent then seqp (iput ip) (ret (None, name))
          else ret (Some ip, name)
      | Some (name, path) \<Rightarrow>
          seqp (ilock (Some ip))
          (bnd (gets (\<lambda>s. i_type (inodes s ! ip))) (\<lambda>type.
          if type \<noteq> T_DIR then seqp (iunlockput ip) (ret (None, name))
          else if parent \<and> path = [] then seqp (iunlock (Some ip)) (ret (Some ip, name))
          else
            bnd (dirlookup devsw ip name) (\<lambda>found.
            case found of
              None \<Rightarrow> seqp (iunlockput ip) (ret (None, name))
            | Some (next, off) \<Rightarrow>
                seqp (iunlockput ip)
                 (namex_loop devsw parent next path name)))))"
  by auto
termination
  by (relation "measure (\<lambda>(d, p, ip, path, name). length path)") (auto dest: skipelem_shorter)

declare namex_loop.simps [simp del]

definition namex :: "('a fs_st_scheme) devsw \<Rightarrow> u8 list \<Rightarrow> bool \<Rightarrow> ('a fs_st_scheme, nat option \<times> u8 list) prog" where
  "namex devsw path parent =
     bnd (if path \<noteq> [] \<and> hd path = SLASH then iget ROOTDEV ROOTINO
          else bnd myproc (\<lambda>me. bnd (deref me) (\<lambda>p.
               bnd (gets (\<lambda>s. p_cwd (ptable s ! p))) (\<lambda>cwd.
               bnd (deref cwd) idup)))) (\<lambda>ip.
     namex_loop devsw parent ip path [])"

definition namei :: "('a fs_st_scheme) devsw \<Rightarrow> u8 list \<Rightarrow> ('a fs_st_scheme, nat option) prog" where
  "namei devsw path = bnd (namex devsw path False) (\<lambda>(ip, name). ret ip)"

definition nameiparent :: "('a fs_st_scheme) devsw \<Rightarrow> u8 list \<Rightarrow> ('a fs_st_scheme, nat option \<times> u8 list) prog" where
  "nameiparent devsw path = namex devsw path True"

section \<open>On-disk inodes\<close>

abbreviation put_addrs :: "nat \<Rightarrow> nat list \<Rightarrow> nat \<Rightarrow> block \<Rightarrow> block" where
  "put_addrs p as k \<equiv> fold (\<lambda>i d. put32 d (p + 12 + 4 * i) (as ! i)) [0..<k]"

lemma put_addrs_low:
  "q + 2 \<le> p + 12 \<or> p + 12 + 4 * k \<le> q \<Longrightarrow> get16 (put_addrs p as k d) q = get16 d q" "length (put_addrs p as k d) = length d"
  by (induction k) (auto simp: get16_put32_other)

lemma put_addrs_low32:
  "q + 4 \<le> p + 12 \<or> p + 12 + 4 * k \<le> q \<Longrightarrow> get32 (put_addrs p as k d) q = get32 d q"
  by (auto simp: get32_def put_addrs_low)

lemma put_addrs_nth:
  assumes "i < k" "p + 12 + 4 * k \<le> length d" "as ! i < 4294967296"
  shows "get32 (put_addrs p as k d) (p + 12 + 4 * i) = as ! i"
  using assms
proof (induction k)
  case (Suc k)
  then show ?case by (cases "i = k") (auto simp: get32_put32 get32_put32_other put_addrs_low)
qed simp

text \<open>The values a field of an on-disk inode can hold.\<close>

definition dinode_ok :: "dinode \<Rightarrow> bool" where
  "dinode_ok x \<longleftrightarrow> (\<forall>v\<in>{d_type x, d_major x, d_minor x, d_nlink x}. -32768 \<le> v \<and> v < 32768) \<and> d_size x < 4294967296
     \<and> length (d_addrs x) = 13 \<and> (\<forall>a\<in>set (d_addrs x). a < 4294967296)"

lemma get_put_dinode:
  assumes "dinode_ok x" "p + 64 \<le> length d"
  shows "get_dinode (put_dinode d p x) p = x"
proof -
  have "map (\<lambda>i. get32 (put_dinode d p x) (p + 12 + 4 * i)) [0..<13] = d_addrs x"
  proof (rule nth_equalityI)
    fix i assume "i < length (map (\<lambda>i. get32 (put_dinode d p x) (p + 12 + 4 * i)) [0..<13])"
    then have "i < 13" by simp
    moreover from this have "d_addrs x ! i < 4294967296" using assms(1) by (simp add: dinode_ok_def)
    ultimately show "map (\<lambda>i. get32 (put_dinode d p x) (p + 12 + 4 * i)) [0..<13] ! i = d_addrs x ! i"
      using assms(2) put_addrs_nth [of i 13 p _ "d_addrs x"] by (simp add: put_dinode_def Let_def)
  qed (use assms(1) in \<open>simp add: dinode_ok_def\<close>)
  then show ?thesis
    using assms of_short_lt [THEN mod_less]
    by (simp add: get_dinode_def) (simp add: put_dinode_def Let_def put_addrs_low put_addrs_low32 get32_put32 get16_put16
        get16_put16_other get16_put32_other to_short_of_short dinode_ok_def)
qed

lemma put_dinode_other:
  assumes "q < p \<or> p + 64 \<le> q" "q < length d"
  shows "put_dinode d p x ! q = d ! q"
proof -
  have p16: "put16 e a v ! q = e ! q" if "q < a \<or> a + 2 \<le> q" for e a v using that by (auto simp: put16_def)
  have p32: "put32 e a v ! q = e ! q" if "q < a \<or> a + 4 \<le> q" for e a v using that by (auto simp: put32_def p16)
  have "put_addrs p as k e ! q = e ! q" if "k \<le> 13" for as k e
    using that assms(1) by (induction k) (auto simp: p32)
  then show ?thesis using assms(1) by (auto simp: put_dinode_def Let_def p16 p32)
qed

lemma get_dinode_cong: "(\<And>i. p \<le> i \<Longrightarrow> i < p + 64 \<Longrightarrow> d ! i = e ! i) \<Longrightarrow> get_dinode d p = get_dinode e p"
  by (simp add: get_dinode_def get32_def get16_def)

lemma length_put_dinode [simp]: "length (put_dinode d p x) = length d"
  by (simp add: put_dinode_def Let_def put_addrs_low)

text \<open>
  C35. The inodes of a block: storing one, with field values in the range of their C types,
  and reading it back gives it again, and every other inode of the block stays as it was.
\<close>

theorem dinode_roundtrip:
  assumes "dinode_ok x" "length d = BSIZE"
  shows "get_dinode (put_dinode d (dip i) x) (dip i) = x
    \<and> (dip j \<noteq> dip i \<longrightarrow> get_dinode (put_dinode d (dip i) x) (dip j) = get_dinode d (dip j))"
proof (intro conjI impI)
  have d: "dip k + 64 \<le> BSIZE" for k using mod_less_divisor [of IPB k] by (simp add: dip_def)
  show "get_dinode (put_dinode d (dip i) x) (dip i) = x" using assms d [of i] by (simp add: get_put_dinode)
  assume "dip j \<noteq> dip i"
  then have "dip j + 64 \<le> dip i \<or> dip i + 64 \<le> dip j" by (simp add: dip_def) linarith
  then show "get_dinode (put_dinode d (dip i) x) (dip j) = get_dinode d (dip j)"
    using assms(2) d [of j] by (intro get_dinode_cong put_dinode_other) auto
qed

definition root_dinode :: dinode where
  "root_dinode = \<lparr>d_type = 1, d_major = 0, d_minor = -1, d_nlink = 1, d_size = 512, d_addrs = 59 # replicate 12 0\<rparr>"

theorem dinode_roundtrip_witness:
  "get_dinode (put_dinode (replicate 512 7) (dip 1) root_dinode) (dip 1) = root_dinode
    \<and> get_dinode (put_dinode (replicate 512 7) (dip 1) root_dinode) (dip 2) = get_dinode (replicate 512 7) (dip 2)"
  using dinode_roundtrip [of root_dinode "replicate 512 7" 1 2] by (simp add: root_dinode_def dinode_ok_def dip_def)

section \<open>The inode cache\<close>

text \<open>The table has one entry per inode in use, and counts are not negative.\<close>

definition icache_inv :: "'a fs_st_scheme \<Rightarrow> bool" where
  "icache_inv s \<longleftrightarrow> length (inodes s) = NINODE \<and> (\<forall>i<NINODE. 0 \<le> i_ref (inodes s ! i))
     \<and> (\<forall>i<NINODE. \<forall>j<NINODE. i_ref (inodes s ! i) > 0 \<longrightarrow> i_ref (inodes s ! j) > 0 \<longrightarrow>
          i_dev (inodes s ! i) = i_dev (inodes s ! j) \<longrightarrow> i_inum (inodes s ! i) = i_inum (inodes s ! j) \<longrightarrow> i = j)"

definition iref :: "'a fs_st_scheme \<Rightarrow> nat \<Rightarrow> nat \<Rightarrow> int" where
  "iref s dev inum = (case find (\<lambda>ip. i_ref (inodes s ! ip) > 0 \<and> i_dev (inodes s ! ip) = dev \<and> i_inum (inodes s ! ip) = inum) [0..<NINODE]
     of None \<Rightarrow> 0 | Some ip \<Rightarrow> i_ref (inodes s ! ip))"

lemma nth_upd_inode: "ip < length (inodes s) \<Longrightarrow> inodes (upd_inode ip f s) ! j = (if j = ip then f (inodes s ! ip) else inodes s ! j)"
  by (simp add: upd_inode_def)

lemma length_upd_inode [simp]: "length (inodes (upd_inode ip f s)) = length (inodes s)"
  by (simp add: upd_inode_def)

lemma iref_eq:
  assumes "icache_inv s" "ip < NINODE" "i_ref (inodes s ! ip) > 0" "i_dev (inodes s ! ip) = dev" "i_inum (inodes s ! ip) = inum"
  shows "iref s dev inum = i_ref (inodes s ! ip)"
proof -
  have "find (\<lambda>ip. i_ref (inodes s ! ip) > 0 \<and> i_dev (inodes s ! ip) = dev \<and> i_inum (inodes s ! ip) = inum) [0..<NINODE] = Some ip"
  proof (rule find_upt_SomeI)
    show "\<not> (i_ref (inodes s ! j) > 0 \<and> i_dev (inodes s ! j) = dev \<and> i_inum (inodes s ! j) = inum)" if j: "j < ip" for j
    proof
      assume h: "i_ref (inodes s ! j) > 0 \<and> i_dev (inodes s ! j) = dev \<and> i_inum (inodes s ! j) = inum"
      have "j < NINODE" using j assms(2) by simp
      then have "j = ip" using h assms unfolding icache_inv_def by blast
      with j show False by simp
    qed
  qed (use assms in auto)
  then show ?thesis by (simp add: iref_def)
qed

lemma iref_0: "iref s dev inum = 0 \<Longrightarrow> i < NINODE \<Longrightarrow> i_ref (inodes s ! i) > 0 \<Longrightarrow> \<not> (i_dev (inodes s ! i) = dev \<and> i_inum (inodes s ! i) = inum)"
  by (auto simp: iref_def split: option.splits dest: find_upt_NoneD find_upt_SomeD)

lemma iget_hit:
  assumes "icache_inv s" "ip < NINODE" "i_ref (inodes s ! ip) > 0" "i_dev (inodes s ! ip) = dev" "i_inum (inodes s ! ip) = inum"
  shows "iget dev inum s = Ret ip (upd_inode ip (\<lambda>x. x\<lparr>i_ref := i_ref x + 1\<rparr>) s)"
proof -
  have "iref s dev inum > 0" using iref_eq [OF assms] assms(3) by simp
  then obtain j where j: "find (\<lambda>ip. i_ref (inodes s ! ip) > 0 \<and> i_dev (inodes s ! ip) = dev \<and> i_inum (inodes s ! ip) = inum) [0..<NINODE] = Some j"
    by (auto simp: iref_def split: option.splits)
  from find_upt_SomeD [OF this] have "j = ip" using assms unfolding icache_inv_def by blast
  with j show ?thesis by (simp add: iget_def prog_defs)
qed

lemma iget_miss:
  assumes "iref s dev inum = 0" "\<And>i. i < NINODE \<Longrightarrow> 0 \<le> i_ref (inodes s ! i)"
  shows "iget dev inum s = (case find (\<lambda>ip. i_ref (inodes s ! ip) = 0) [0..<NINODE] of
     None \<Rightarrow> Panic ''iget: no inodes''
   | Some ip \<Rightarrow> Ret ip (upd_inode ip (\<lambda>x. x\<lparr>i_dev := dev, i_inum := inum, i_ref := 1, i_valid := False\<rparr>) s))"
proof -
  have "find (\<lambda>ip. i_ref (inodes s ! ip) > 0 \<and> i_dev (inodes s ! ip) = dev \<and> i_inum (inodes s ! ip) = inum) [0..<NINODE] = None"
    using iref_0 [OF assms(1)] by (auto simp: find_None_iff)
  then show ?thesis by (simp add: iget_def prog_defs split: option.split)
qed

text \<open>
  C26. \<^verbatim>\<open>iget\<close> keeps one cache entry per inode in use.  It returns the entry of the inode with one
  reference more, or, when the inode is not in the cache, a free entry with its number, one
  reference and no contents; it changes no other entry, and it stops the kernel only when the
  inode is not cached and all fifty entries are in use.
\<close>

theorem iget_one_entry:
  assumes "icache_inv s"
  shows "(\<exists>ip s'. iget dev inum s = Ret ip s' \<and> ip < NINODE \<and> icache_inv s'
      \<and> i_dev (inodes s' ! ip) = dev \<and> i_inum (inodes s' ! ip) = inum \<and> i_ref (inodes s' ! ip) = iref s dev inum + 1
      \<and> (iref s dev inum = 0 \<longrightarrow> \<not> i_valid (inodes s' ! ip)) \<and> (\<forall>j<NINODE. j \<noteq> ip \<longrightarrow> inodes s' ! j = inodes s ! j))
    \<or> iget dev inum s = Panic ''iget: no inodes'' \<and> iref s dev inum = 0 \<and> (\<forall>i<NINODE. i_ref (inodes s ! i) > 0)"
proof (cases "\<exists>ip<NINODE. i_ref (inodes s ! ip) > 0 \<and> i_dev (inodes s ! ip) = dev \<and> i_inum (inodes s ! ip) = inum")
  case True
  then obtain ip where ip: "ip < NINODE" "i_ref (inodes s ! ip) > 0" "i_dev (inodes s ! ip) = dev" "i_inum (inodes s ! ip) = inum" by blast
  let ?s = "upd_inode ip (\<lambda>x. x\<lparr>i_ref := i_ref x + 1\<rparr>) s"
  have len: "ip < length (inodes s)" using assms ip(1) by (simp add: icache_inv_def)
  have "icache_inv ?s" using assms ip unfolding icache_inv_def by (simp add: nth_upd_inode len) metis
  then show ?thesis using iget_hit [OF assms ip] iref_eq [OF assms ip] ip len
    by (intro disjI1 exI [of _ ip] exI [of _ ?s]) (simp add: nth_upd_inode)
next
  case False
  then have 0: "iref s dev inum = 0"
    by (auto simp: iref_def split: option.splits dest: find_upt_SomeD)
  have nn: "0 \<le> i_ref (inodes s ! i)" if "i < NINODE" for i using assms that by (simp add: icache_inv_def)
  note m = iget_miss [OF 0 nn]
  show ?thesis
  proof (cases "find (\<lambda>ip. i_ref (inodes s ! ip) = 0) [0..<NINODE]")
    case None
    then have "i_ref (inodes s ! i) > 0" if "i < NINODE" for i
      using find_upt_NoneD [OF None that] nn [OF that] by simp
    then show ?thesis using m None 0 by simp
  next
    case (Some ip)
    let ?s = "upd_inode ip (\<lambda>x. x\<lparr>i_dev := dev, i_inum := inum, i_ref := 1, i_valid := False\<rparr>) s"
    have ip: "ip < NINODE" "ip < length (inodes s)" using find_upt_SomeD [OF Some] assms by (auto simp: icache_inv_def)
    have "icache_inv ?s"
      using assms False ip unfolding icache_inv_def by (simp add: nth_upd_inode) metis
    then show ?thesis using m Some ip 0 by (intro disjI1 exI [of _ ip] exI [of _ ?s]) (simp add: nth_upd_inode)
  qed
qed

definition zero_inode :: inode where
  "zero_inode = \<lparr>i_dev = 0, i_inum = 0, i_ref = 0, i_lock = \<lparr>sl_locked = False, sl_pid = 0\<rparr>, i_valid = False, i_type = 0,
     i_major = 0, i_minor = 0, i_nlink = 0, i_size = 0, i_addrs = replicate 13 0\<rparr>"

definition boot_fs :: fs_st where
  "boot_fs = log_st.extend demo_log (fs_st.fields
     \<lparr>sb_size = 1000, sb_nblocks = 941, sb_ninodes = 200, sb_nlog = 30, sb_logstart = 2, sb_inodestart = 32, sb_bmapstart = 58\<rparr>
     (replicate 50 zero_inode))"

theorem iget_one_entry_witness:
  "\<exists>ip s'. iget 1 1 boot_fs = Ret ip s' \<and> ip < NINODE \<and> icache_inv s' \<and> i_ref (inodes s' ! ip) = 1"
proof -
  have i: "inodes boot_fs = replicate 50 zero_inode" by (simp add: boot_fs_def log_st.defs fs_st.defs)
  have "icache_inv boot_fs" by (simp add: icache_inv_def i zero_inode_def)
  moreover have "iref boot_fs 1 1 = 0" by (auto simp: iref_def i zero_inode_def split: option.splits dest: find_upt_SomeD)
  moreover have "i_ref (inodes boot_fs ! 0) = 0" by (simp add: i zero_inode_def)
  ultimately show ?thesis using iget_one_entry [of boot_fs 1 1] by fastforce
qed

section \<open>Path elements\<close>

text \<open>
  C36. \<^verbatim>\<open>skipelem\<close> splits a path at its first element: it skips leading slashes, cuts the element
  to \<^verbatim>\<open>DIRSIZ\<close> characters, and leaves the rest without leading slashes; it returns the null pointer
  exactly for a path that has no element.
\<close>

theorem skipelem_splits:
  assumes "e \<noteq> []" "SLASH \<notin> set e" "rest = [] \<or> hd rest = SLASH"
  shows "skipelem (replicate k SLASH @ e @ rest) = Some (take DIRSIZ e, dropWhile (\<lambda>c. c = SLASH) rest)
    \<and> skipelem (replicate k SLASH) = None"
proof -
  have e: "hd e \<noteq> SLASH" using assms(1,2) hd_in_set by metis
  have "dropWhile (\<lambda>c. c = SLASH) (replicate k SLASH @ e @ rest) = e @ rest"
    using e assms(1) by (induction k) (cases e; simp)+
  moreover have "takeWhile (\<lambda>c. c \<noteq> SLASH) (e @ rest) = e" "dropWhile (\<lambda>c. c \<noteq> SLASH) (e @ rest) = rest"
    using assms(2,3) by (induction e) (cases rest; auto)+
  ultimately show ?thesis using assms(1) by (simp add: skipelem_def Let_def)
qed

theorem skipelem_splits_witness:
  "skipelem ([47, 47, 97, 47, 47, 98] :: u8 list) = Some ([97], [98])"
  using skipelem_splits [of "[97]" "[47, 47, 98]" "Suc (Suc 0)"] by simp

end
