(* ===== verification/Pipe.thy ===== *)
theory Pipe
  imports Fs
begin

text \<open>
  Pipes, \<^verbatim>\<open>pipe.c\<close>.  The structure of a pipe lies in a page of its own; \<open>pipes\<close> maps the address
  of the page to its fields.  The counters are 32-bit words that wrap; the ring index is the
  counter modulo 512.  The section under the pipe's lock is one step, which ends when the
  call returns or sleeps; a call that sleeps goes on, woken up, from the test it slept in,
  with the bytes it has not yet written.

  \<open>contents\<close> is the abstract queue: the bytes written and not yet read.  The properties are that
  the ring implements it, and that over every interleaving of readers and writers the bytes
  read are the bytes written, in order.
\<close>

declare One_nat_def [simp del]

abbreviation (input) PIPESIZE :: nat where "PIPESIZE \<equiv> 512"

record pipe =
  pi_data :: "u8 list"
  pi_nread :: u32
  pi_nwrite :: u32
  pi_readopen :: bool
  pi_writeopen :: bool

record pipe_st = fs_st +
  pipes :: "u32 \<Rightarrow> pipe"

definition upd_pipe :: "u32 \<Rightarrow> (pipe \<Rightarrow> pipe) \<Rightarrow> 'a pipe_st_scheme \<Rightarrow> 'a pipe_st_scheme" where
  "upd_pipe p f s = s\<lparr>pipes := (pipes s)(p := f (pipes s p))\<rparr>"

definition pipeclose :: "u32 \<Rightarrow> bool \<Rightarrow> ('a pipe_st_scheme, unit) prog" where
  "pipeclose p writable =
     seqp (if writable then
             seqp (modify (upd_pipe p (\<lambda>x. x\<lparr>pi_writeopen := False\<rparr>)))
              (wakeup (ChanNread p))
           else
             seqp (modify (upd_pipe p (\<lambda>x. x\<lparr>pi_readopen := False\<rparr>)))
              (wakeup (ChanNwrite p)))
     (bnd (gets (\<lambda>s. pipes s p)) (\<lambda>x.
      whenp (\<not> pi_readopen x \<and> \<not> pi_writeopen x) (kfree p)))"

definition pipe_put :: "u8 \<Rightarrow> pipe \<Rightarrow> pipe" where
  "pipe_put c x = x\<lparr>pi_data := (pi_data x)[unat (pi_nwrite x) mod PIPESIZE := c], pi_nwrite := pi_nwrite x + 1\<rparr>"

text \<open>The loop of \<^verbatim>\<open>pipewrite\<close> with the bytes still to write; \<open>n\<close> is the count it returns in the end.\<close>

fun pipewrite_loop :: "u32 \<Rightarrow> int \<Rightarrow> u8 list \<Rightarrow> ('a pipe_st_scheme, int) prog" where
  "pipewrite_loop p n [] =
     seqp (wakeup (ChanNread p)) (ret n)"
| "pipewrite_loop p n (c # bs) =
     bnd (gets (\<lambda>s. pipes s p)) (\<lambda>x.
     if pi_nwrite x = pi_nread x + of_nat PIPESIZE then
       bnd myproc (\<lambda>me.
       bnd (if \<not> pi_readopen x then ret True
            else bnd (deref me) (\<lambda>q. gets (\<lambda>s. p_killed (ptable s ! q)))) (\<lambda>stop.
       if stop then ret (-1)
       else
         seqp (wakeup (ChanNread p))
         (seqp (sleep (ChanNwrite p)) (ret 0))))
     else
       seqp (modify (upd_pipe p (pipe_put c)))
        (pipewrite_loop p n bs))"

definition pipewrite :: "u32 \<Rightarrow> u8 list \<Rightarrow> ('a pipe_st_scheme, int) prog" where
  "pipewrite p bs = pipewrite_loop p (int (length bs)) bs"

fun piperead_loop :: "u32 \<Rightarrow> nat \<Rightarrow> ('a pipe_st_scheme, u8 list) prog" where
  "piperead_loop p 0 = ret []"
| "piperead_loop p (Suc n) =
     bnd (gets (\<lambda>s. pipes s p)) (\<lambda>x.
     if pi_nread x = pi_nwrite x then ret []
     else
       seqp (modify (upd_pipe p (\<lambda>x. x\<lparr>pi_nread := pi_nread x + 1\<rparr>)))
       (bnd (piperead_loop p n) (\<lambda>bs.
        ret (pi_data x ! (unat (pi_nread x) mod PIPESIZE) # bs))))"

definition piperead :: "u32 \<Rightarrow> int \<Rightarrow> ('a pipe_st_scheme, int \<times> u8 list) prog" where
  "piperead p n =
     bnd (gets (\<lambda>s. pipes s p)) (\<lambda>x.
     if pi_nread x = pi_nwrite x \<and> pi_writeopen x then
       bnd myproc (\<lambda>me. bnd (deref me) (\<lambda>q.
       bnd (gets (\<lambda>s. p_killed (ptable s ! q))) (\<lambda>killed.
       if killed then ret (-1, [])
       else seqp (sleep (ChanNread p)) (ret (0, [])))))
     else
       bnd (piperead_loop p (nat n)) (\<lambda>bytes.
       seqp (wakeup (ChanNwrite p))
        (ret (int (length bytes), bytes))))"

section \<open>The ring as a queue\<close>

definition contents :: "pipe \<Rightarrow> u8 list" where
  "contents x = map (\<lambda>i. pi_data x ! ((unat (pi_nread x) + i) mod PIPESIZE)) [0..<unat (pi_nwrite x - pi_nread x)]"

definition pipe_ok :: "pipe \<Rightarrow> bool" where
  "pipe_ok x \<longleftrightarrow> length (pi_data x) = PIPESIZE \<and> unat (pi_nwrite x - pi_nread x) \<le> PIPESIZE"

lemma pipe_ok_len: "pipe_ok x \<Longrightarrow> length (contents x) \<le> PIPESIZE"
  by (simp add: pipe_ok_def contents_def)

lemma full_iff: "pipe_ok x \<Longrightarrow> pi_nwrite x = pi_nread x + of_nat PIPESIZE \<longleftrightarrow> length (contents x) = PIPESIZE"
proof -
  have "pi_nwrite x = pi_nread x + 512 \<longleftrightarrow> pi_nwrite x - pi_nread x = 512" by (simp add: algebra_simps)
  also have "\<dots> \<longleftrightarrow> unat (pi_nwrite x - pi_nread x) = 512" by (simp add: word_unat_eq_iff)
  finally show ?thesis by (simp add: contents_def)
qed

lemma empty_iff: "pi_nread x = pi_nwrite x \<longleftrightarrow> contents x = []"
proof -
  have "pi_nread x = pi_nwrite x \<longleftrightarrow> pi_nwrite x - pi_nread x = 0" by auto
  also have "\<dots> \<longleftrightarrow> unat (pi_nwrite x - pi_nread x) = 0" by (simp add: unat_eq_zero)
  finally show ?thesis by (simp add: contents_def)
qed

text \<open>The counters wrap at a multiple of the ring size, so the index of a counter is that of the sum.\<close>

lemma unat_add_mod: "unat (a + b :: u32) mod PIPESIZE = (unat a + unat b) mod PIPESIZE"
proof -
  have "unat (a + b) = (unat a + unat b) mod 4294967296" by (simp add: unat_word_ariths)
  then show ?thesis by (simp add: mod_mod_cancel)
qed

lemma contents_put:
  assumes "pipe_ok x" "length (contents x) < PIPESIZE"
  shows "pipe_ok (pipe_put c x)" "contents (pipe_put c x) = contents x @ [c]"
proof -
  let ?k = "unat (pi_nwrite x - pi_nread x)"
  have k: "?k < PIPESIZE" using assms(2) by (simp add: contents_def)
  have e: "pi_nwrite x + 1 - pi_nread x = (pi_nwrite x - pi_nread x) + 1" by simp
  have k': "unat (pi_nwrite x + 1 - pi_nread x) = Suc ?k"
    unfolding e using k unat_add_nowrap32 [of "pi_nwrite x - pi_nread x" 1] by simp
  then show "pipe_ok (pipe_put c x)" using assms(1) k by (simp add: pipe_ok_def pipe_put_def)
  have w: "unat (pi_nwrite x) mod PIPESIZE = (unat (pi_nread x) + ?k) mod PIPESIZE"
    using unat_add_mod [of "pi_nread x" "pi_nwrite x - pi_nread x"] by simp
  have ne: "(unat (pi_nread x) + ?k) mod PIPESIZE \<noteq> (unat (pi_nread x) + i) mod PIPESIZE" if "i < ?k" for i
  proof
    assume "(unat (pi_nread x) + ?k) mod PIPESIZE = (unat (pi_nread x) + i) mod PIPESIZE"
    then have "PIPESIZE dvd ?k - i" using that mod_eq_dvd_iff_nat [of "unat (pi_nread x) + i" "unat (pi_nread x) + ?k" PIPESIZE] by simp
    then show False using that k nat_dvd_not_less [of "?k - i" PIPESIZE] by simp
  qed
  show "contents (pipe_put c x) = contents x @ [c]"
    using assms(1) ne by (simp add: contents_def pipe_put_def k' w pipe_ok_def)
qed

lemma contents_get:
  assumes "pipe_ok x" "contents x \<noteq> []"
  shows "pipe_ok (x\<lparr>pi_nread := pi_nread x + 1\<rparr>)"
    "contents x = pi_data x ! (unat (pi_nread x) mod PIPESIZE) # contents (x\<lparr>pi_nread := pi_nread x + 1\<rparr>)"
proof -
  let ?k = "unat (pi_nwrite x - pi_nread x)"
  obtain j where j: "?k = Suc j" using assms(2) by (cases ?k) (auto simp: contents_def)
  then have n0: "pi_nwrite x - pi_nread x \<noteq> 0" by auto
  have e: "pi_nwrite x - (pi_nread x + 1) = (pi_nwrite x - pi_nread x) - 1" by simp
  have k': "unat (pi_nwrite x - (pi_nread x + 1)) = j" unfolding e unat_minus_one [OF n0] j by simp
  show "pipe_ok (x\<lparr>pi_nread := pi_nread x + 1\<rparr>)" using assms(1) k' j by (simp add: pipe_ok_def)
  have r: "(unat (pi_nread x + 1) + i) mod PIPESIZE = (unat (pi_nread x) + Suc i) mod PIPESIZE" for i
    using mod_add_cong [OF unat_add_mod [of "pi_nread x" 1] refl, of i] by (simp add: One_nat_def)
  have "[0..<Suc j] = 0 # map Suc [0..<j]" by (simp add: map_Suc_upt upt_conv_Cons del: upt_Suc)
  then show "contents x = pi_data x ! (unat (pi_nread x) mod PIPESIZE) # contents (x\<lparr>pi_nread := pi_nread x + 1\<rparr>)"
    by (simp add: contents_def k' r j del: upt_Suc)
qed

section \<open>The calls on the queue\<close>

lemma pipes_wakeup: "wakeup c s = Ret () (s\<lparr>ptable := map (wake_on c) (ptable s)\<rparr>)"
  by (simp add: wakeup_def wakeup1_eq prog_defs)

definition written :: "u32 \<Rightarrow> 'a pipe_st_scheme \<Rightarrow> 'a pipe_st_scheme \<Rightarrow> nat" where
  "written p s s' = unat (pi_nwrite (pipes s' p) - pi_nwrite (pipes s p))"

text \<open>
  What one step of a write does, whether it returns or sleeps: it appends some number \<open>k\<close> of its
  bytes; it returns the count when these are all, -1 or to sleep only when the ring is full.
\<close>

definition wrote :: "u32 \<Rightarrow> u8 list \<Rightarrow> 'a pipe_st_scheme \<Rightarrow> 'a pipe_st_scheme \<Rightarrow> bool" where
  "wrote p bs s s' \<longleftrightarrow> pipe_ok (pipes s' p) \<and> written p s s' \<le> length bs
     \<and> contents (pipes s' p) = contents (pipes s p) @ take (written p s s') bs \<and> pi_nread (pipes s' p) = pi_nread (pipes s p)"

lemma wrote_nil: "pipe_ok (pipes s p) \<Longrightarrow> pipes s' p = pipes s p \<Longrightarrow> wrote p bs s s'"
  by (simp add: wrote_def written_def)

lemma wrote_cons:
  assumes ok: "pipe_ok (pipes s p)" "length (contents (pipes s p)) < PIPESIZE"
    and t: "pipes t p = pipe_put c (pipes s p)" and w: "wrote p bs t s'"
  shows "wrote p (c # bs) s s' \<and> written p s s' = Suc (written p t s')"
proof -
  have len: "length (contents (pipes s' p)) = length (contents (pipes s p)) + Suc (written p t s')"
    using w contents_put(2) [OF ok, of c] by (simp add: wrote_def t)
  have "length (contents (pipes s' p)) \<le> PIPESIZE" using w by (intro pipe_ok_len) (simp add: wrote_def)
  then have k: "Suc (written p t s') \<le> PIPESIZE" using len by simp
  have e: "pi_nwrite (pipes s' p) - pi_nwrite (pipes s p) = (pi_nwrite (pipes s' p) - pi_nwrite (pipes t p)) + 1"
    by (simp add: t pipe_put_def)
  have "written p s s' = Suc (written p t s')"
    using k unat_add_nowrap32 [of "pi_nwrite (pipes s' p) - pi_nwrite (pipes t p)" 1]
    unfolding written_def e by (simp add: One_nat_def)
  then show ?thesis using w contents_put(2) [OF ok, of c] by (simp add: wrote_def t pipe_put_def)
qed

lemma pipewrite_loop_spec:
  assumes "pipe_ok (pipes s p)" "curproc s = Some q" "q < length (ptable s)"
  shows "case pipewrite_loop p n bs s of
       Ret r s' \<Rightarrow> wrote p bs s s' \<and> curproc s' = curproc s
         \<and> (r = n \<and> written p s s' = length bs \<or> r = -1 \<and> length (contents (pipes s' p)) = PIPESIZE
              \<and> (\<not> pi_readopen (pipes s p) \<or> p_killed (ptable s ! q)))
     | Sleep c s' \<Rightarrow> wrote p bs s s' \<and> c = ChanNwrite p \<and> written p s s' < length bs \<and> length (contents (pipes s' p)) = PIPESIZE
         \<and> pi_readopen (pipes s p) \<and> \<not> p_killed (ptable s ! q)
     | Panic e \<Rightarrow> False | Spin \<Rightarrow> False"
  using assms
proof (induction bs arbitrary: s)
  case Nil
  then show ?case by (simp add: pipes_wakeup prog_defs wrote_nil written_def)
next
  case (Cons c bs)
  let ?x = "pipes s p"
  show ?case
  proof (cases "pi_nwrite ?x = pi_nread ?x + of_nat PIPESIZE")
    case True
    then have full: "length (contents ?x) = PIPESIZE" using full_iff [OF Cons.prems(1)] by simp
    show ?thesis using True Cons.prems full
      by (auto simp: prog_defs myproc_def deref_def pipes_wakeup sleep_def sched_def upd_proc_def wrote_nil written_def)
  next
    case False
    then have "length (contents ?x) < PIPESIZE" using full_iff [OF Cons.prems(1)] pipe_ok_len [OF Cons.prems(1)] by simp
    note P = Cons.prems(1) this
    let ?t = "upd_pipe p (pipe_put c) s"
    have t: "pipes ?t p = pipe_put c ?x" "pipe_ok (pipes ?t p)" "curproc ?t = Some q" "q < length (ptable ?t)" "ptable ?t = ptable s"
      "pi_readopen (pipes ?t p) = pi_readopen ?x"
      using contents_put(1) [OF P] Cons.prems(2,3) by (simp_all add: upd_pipe_def pipe_put_def)
    have "pipewrite_loop p n (c # bs) s = pipewrite_loop p n bs ?t" using False by (simp add: prog_defs)
    then show ?thesis using Cons.IH [OF t(2-4)] wrote_cons [OF P t(1)] t(3-6) Cons.prems(2)
      by (auto split: outcome.splits)
  qed
qed

lemma piperead_loop_spec:
  assumes "pipe_ok (pipes s p)"
  shows "\<exists>s'. piperead_loop p n s = Ret (take n (contents (pipes s p))) s' \<and> pipe_ok (pipes s' p)
    \<and> contents (pipes s' p) = drop n (contents (pipes s p)) \<and> pi_nwrite (pipes s' p) = pi_nwrite (pipes s p)
    \<and> ptable s' = ptable s \<and> curproc s' = curproc s"
  using assms
proof (induction n arbitrary: s)
  case (Suc n)
  show ?case
  proof (cases "contents (pipes s p) = []")
    case True
    then show ?thesis using Suc.prems empty_iff [of "pipes s p"] by (simp add: prog_defs)
  next
    case False
    let ?t = "upd_pipe p (\<lambda>x. x\<lparr>pi_nread := pi_nread x + 1\<rparr>) s"
    note g = contents_get [OF Suc.prems False]
    have "pipes ?t p = (pipes s p)\<lparr>pi_nread := pi_nread (pipes s p) + 1\<rparr>" "ptable ?t = ptable s" "curproc ?t = curproc s"
      by (simp_all add: upd_pipe_def)
    moreover from this have "pipe_ok (pipes ?t p)" using g(1) by simp
    note Suc.IH [OF this]
    ultimately obtain s' where s': "piperead_loop p n ?t = Ret (take n (contents (pipes ?t p))) s'" "pipe_ok (pipes s' p)"
      "contents (pipes s' p) = drop n (contents (pipes ?t p))" "pi_nwrite (pipes s' p) = pi_nwrite (pipes s p)"
      "ptable s' = ptable s" "curproc s' = curproc s" by auto
    have c: "contents (pipes s p) = pi_data (pipes s p) ! (unat (pi_nread (pipes s p)) mod PIPESIZE) # contents (pipes ?t p)"
      using g(2) by (simp add: upd_pipe_def)
    have "piperead_loop p (Suc n) s = Ret (take (Suc n) (contents (pipes s p))) s'"
      using False empty_iff [of "pipes s p"] s'(1) c by (simp add: prog_defs)
    moreover have "drop (Suc n) (contents (pipes s p)) = contents (pipes s' p)" unfolding c s'(3) by simp
    ultimately show ?thesis using s'(2,4-6) by (intro exI [of _ s']) simp
  qed
qed (simp add: prog_defs)

text \<open>
  C34. What \<^verbatim>\<open>piperead\<close> returns.  With bytes in the pipe it returns as many as there are, up to the
  count, in the order they were written, and leaves the others; on an empty pipe whose write
  end is closed it returns 0; on an empty open pipe it sleeps, unless the process was killed,
  when it returns -1.
\<close>

theorem piperead_takes_oldest:
  fixes s :: "'a pipe_st_scheme"
  assumes "pipe_ok (pipes s p)" "curproc s = Some q" "q < length (ptable s)" "0 \<le> n"
  shows "(contents (pipes s p) \<noteq> [] \<or> \<not> pi_writeopen (pipes s p) \<longrightarrow>
      wp (piperead p n) (\<lambda>(r, bytes) s'. bytes = take (nat n) (contents (pipes s p)) \<and> r = int (length bytes)
        \<and> contents (pipes s' p) = drop (nat n) (contents (pipes s p)) \<and> pipe_ok (pipes s' p)) s)
    \<and> (contents (pipes s p) = [] \<and> pi_writeopen (pipes s p) \<longrightarrow>
        (if p_killed (ptable s ! q) then piperead p n s = Ret (-1, []) s
         else \<exists>s'. piperead p n s = Sleep (ChanNread p) s' \<and> pipes s' = pipes s))"
proof (intro conjI impI)
  assume h: "contents (pipes s p) \<noteq> [] \<or> \<not> pi_writeopen (pipes s p)"
  obtain s' where s': "piperead_loop p (nat n) s = Ret (take (nat n) (contents (pipes s p))) s'" "pipe_ok (pipes s' p)"
    "contents (pipes s' p) = drop (nat n) (contents (pipes s p))" using piperead_loop_spec [OF assms(1)] by blast
  then show "wp (piperead p n) (\<lambda>(r, bytes) s'. bytes = take (nat n) (contents (pipes s p)) \<and> r = int (length bytes)
        \<and> contents (pipes s' p) = drop (nat n) (contents (pipes s p)) \<and> pipe_ok (pipes s' p)) s"
    using h empty_iff [of "pipes s p"] by (auto simp: piperead_def wp_def prog_defs pipes_wakeup)
next
  assume h: "contents (pipes s p) = [] \<and> pi_writeopen (pipes s p)"
  show "if p_killed (ptable s ! q) then piperead p n s = Ret (-1, []) s
         else \<exists>s'. piperead p n s = Sleep (ChanNread p) s' \<and> pipes s' = pipes s"
    using h empty_iff [of "pipes s p"] assms(2,3)
    by (simp add: piperead_def prog_defs myproc_def deref_def sleep_eq upd_proc_def)
qed

section \<open>Readers and writers\<close>

text \<open>
  A pipe in use, with two histories: the bytes accepted from writers and the bytes handed to
  readers, and the writes that sleep with the bytes they still have to write.  Everything
  else the kernel does between two of these steps leaves the ring and its counters alone.
\<close>

inductive pipe_step :: "u32 \<Rightarrow> 'a pipe_st_scheme \<times> u8 list \<times> u8 list \<times> (int \<times> u8 list) list \<Rightarrow>
    'a pipe_st_scheme \<times> u8 list \<times> u8 list \<times> (int \<times> u8 list) list \<Rightarrow> bool" for p :: u32 where
  pipe_write: "pipewrite p bs s = Ret r s' \<Longrightarrow> running s \<Longrightarrow>
    pipe_step p (s, W, D, P) (s', W @ take (written p s s') bs, D, P)"
| pipe_write_sleeps: "pipewrite p bs s = Sleep c s' \<Longrightarrow> running s \<Longrightarrow>
    pipe_step p (s, W, D, P) (s', W @ take (written p s s') bs, D, (int (length bs), drop (written p s s') bs) # P)"
| pipe_write_resumes: "i < length P \<Longrightarrow> P ! i = (n, bs) \<Longrightarrow> pipewrite_loop p n bs s = Ret r s' \<Longrightarrow> running s \<Longrightarrow>
    pipe_step p (s, W, D, P) (s', W @ take (written p s s') bs, D, take i P @ drop (Suc i) P)"
| pipe_write_sleeps_again: "i < length P \<Longrightarrow> P ! i = (n, bs) \<Longrightarrow> pipewrite_loop p n bs s = Sleep c s' \<Longrightarrow> running s \<Longrightarrow>
    pipe_step p (s, W, D, P) (s', W @ take (written p s s') bs, D, P[i := (n, drop (written p s s') bs)])"
| pipe_read: "piperead p n s = Ret (r, bytes) s' \<Longrightarrow> running s \<Longrightarrow> pipe_step p (s, W, D, P) (s', W, D @ bytes, P)"
| pipe_read_sleeps: "piperead p n s = Sleep c s' \<Longrightarrow> running s \<Longrightarrow> pipe_step p (s, W, D, P) (s', W, D, P)"
| pipe_other: "pi_data (pipes s' p) = pi_data (pipes s p) \<Longrightarrow> pi_nread (pipes s' p) = pi_nread (pipes s p) \<Longrightarrow>
    pi_nwrite (pipes s' p) = pi_nwrite (pipes s p) \<Longrightarrow> pipe_step p (s, W, D, P) (s', W, D, P)"

definition pipe_start :: "u32 \<Rightarrow> 'a pipe_st_scheme \<times> u8 list \<times> u8 list \<times> (int \<times> u8 list) list \<Rightarrow> bool" where
  "pipe_start p x \<longleftrightarrow> (case x of (s, W, D, P) \<Rightarrow> pipe_ok (pipes s p) \<and> contents (pipes s p) = [] \<and> W = [] \<and> D = [] \<and> P = [])"

definition pipe_inv :: "u32 \<Rightarrow> 'a pipe_st_scheme \<times> u8 list \<times> u8 list \<times> (int \<times> u8 list) list \<Rightarrow> bool" where
  "pipe_inv p x \<longleftrightarrow> (case x of (s, W, D, P) \<Rightarrow> pipe_ok (pipes s p) \<and> W = D @ contents (pipes s p))"

lemma running_slot: "running s \<Longrightarrow> \<exists>q. curproc s = Some q \<and> q < length (ptable s)"
  by (auto simp: running_def split: option.splits)

lemma pipewrite_wrote:
  assumes "pipe_ok (pipes s p)" "running s" "pipewrite_loop p n bs s = Ret r s' \<or> pipewrite_loop p n bs s = Sleep c s'"
  shows "wrote p bs s s'"
proof -
  obtain q where "curproc s = Some q" "q < length (ptable s)" using running_slot [OF assms(2)] by blast
  from pipewrite_loop_spec [OF assms(1) this, where n = n and bs = bs] assms(3) show ?thesis by auto
qed

lemma pipe_inv_write:
  assumes "pipe_inv p (s, W, D, P)" "running s" "pipewrite_loop p n bs s = Ret r s' \<or> pipewrite_loop p n bs s = Sleep c s'"
  shows "pipe_inv p (s', W @ take (written p s s') bs, D, P')"
  using pipewrite_wrote [OF _ assms(2,3)] assms(1) by (simp add: pipe_inv_def wrote_def)

lemma piperead_read:
  assumes "pipe_ok (pipes s p)" "running s" "piperead p n s = Ret (r, bytes) s' \<or> piperead p n s = Sleep c s' \<and> bytes = []"
  shows "pipe_ok (pipes s' p) \<and> contents (pipes s p) = bytes @ contents (pipes s' p)"
proof -
  obtain q where q: "curproc s = Some q" "q < length (ptable s)" using running_slot [OF assms(2)] by blast
  show ?thesis
  proof (cases "pi_nread (pipes s p) = pi_nwrite (pipes s p) \<and> pi_writeopen (pipes s p)")
    case True
    then show ?thesis using assms(1,3) q
      by (auto simp: piperead_def prog_defs myproc_def deref_def sleep_eq upd_proc_def split: if_splits)
  next
    case False
    obtain t where t: "piperead_loop p (nat n) s = Ret (take (nat n) (contents (pipes s p))) t" "pipe_ok (pipes t p)"
      "contents (pipes t p) = drop (nat n) (contents (pipes s p))" using piperead_loop_spec [OF assms(1)] by blast
    then show ?thesis using assms(3) False by (auto simp: piperead_def prog_defs pipes_wakeup)
  qed
qed

interpretation pq: transition_system "pipe_start p" "pipe_step p" "pipe_inv p" for p
proof
  show "pipe_start p x \<Longrightarrow> pipe_inv p x" for x :: "'a pipe_st_scheme \<times> u8 list \<times> u8 list \<times> (int \<times> u8 list) list"
    by (auto simp: pipe_start_def pipe_inv_def)
  fix x y :: "'a pipe_st_scheme \<times> u8 list \<times> u8 list \<times> (int \<times> u8 list) list"
  assume I: "pipe_inv p x" and "pipe_step p x y"
  from this(2) show "pipe_inv p y"
  proof cases
    case (pipe_read n s r bytes s' W D P)
    then show ?thesis using I piperead_read [of s p n r bytes s'] by (simp add: pipe_inv_def)
  next
    case (pipe_read_sleeps n s c s' W D P)
    then show ?thesis using I piperead_read [of s p n 0 "[]" s' c] by (simp add: pipe_inv_def)
  next
    case (pipe_other s' s W D P)
    then show ?thesis using I by (simp add: pipe_inv_def pipe_ok_def contents_def)
  qed (use I in \<open>auto simp: pipewrite_def intro: pipe_inv_write\<close>)
qed


definition demo_pipe :: pipe_st where
  "demo_pipe = fs_st.extend boot_fs (pipe_st.fields (\<lambda>_.
     \<lparr>pi_data = replicate 512 0, pi_nread = 0xFFFFFFFF, pi_nwrite = 0xFFFFFFFF, pi_readopen = True, pi_writeopen = True\<rparr>))"

lemma demo_pipe_sel:
  "pipes demo_pipe p = \<lparr>pi_data = replicate 512 0, pi_nread = 0xFFFFFFFF, pi_nwrite = 0xFFFFFFFF, pi_readopen = True, pi_writeopen = True\<rparr>"
  "curproc demo_pipe = Some 0" "length (ptable demo_pipe) = 64" "\<not> p_killed (ptable demo_pipe ! 0)"
  by (simp_all add: demo_pipe_def boot_fs_def demo_log_def boot_bio_def zero_proc_def fs_st.defs pipe_st.defs log_st.defs bio_st.defs)

lemma demo_pipe_ok: "pipe_ok (pipes demo_pipe p)" "contents (pipes demo_pipe p) = []"
  by (simp_all add: pipe_ok_def contents_def demo_pipe_sel)

theorem piperead_takes_oldest_witness:
  "\<exists>s'. piperead 4096 5 demo_pipe = Sleep (ChanNread 4096) s' \<and> pipes s' = pipes demo_pipe"
  using piperead_takes_oldest [of demo_pipe 4096 0 5] demo_pipe_ok [of 4096] demo_pipe_sel by (simp add: demo_pipe_sel(1))


end
