(* ===== verification/File.thy ===== *)
theory File
  imports Pipe "HOL-Library.Multiset"
begin

text \<open>
  The open file table, \<^verbatim>\<open>file.c\<close> and \<^verbatim>\<open>file.h\<close>, and \<^verbatim>\<open>pipealloc\<close> of \<^verbatim>\<open>pipe.c\<close>, which makes two entries.
  A pointer into \<^verbatim>\<open>ftable.file\<close> is its index; \<^verbatim>\<open>struct file\<close> is the record \<open>ofile\<close>.  A section under \<^verbatim>\<open>ftable.lock\<close> is one step.  Bytes
  copied from and to the caller's buffer are lists.

  The property is that reference counts are right: seen from the kernel's clients, who hold
  references, duplicate them and give them back, the count of an entry is the number of
  references held.
\<close>

declare One_nat_def [simp del]

datatype filetype = FD_NONE | FD_PIPE | FD_INODE

record ofile =
  f_type :: filetype
  f_ref :: int
  f_readable :: bool
  f_writable :: bool
  f_pipe :: u32
  f_ip :: "nat option"
  f_off :: nat

record file_st = pipe_st +
  ftable :: "ofile list"

definition upd_file :: "nat \<Rightarrow> (ofile \<Rightarrow> ofile) \<Rightarrow> 'a file_st_scheme \<Rightarrow> 'a file_st_scheme" where
  "upd_file f g s = s\<lparr>ftable := (ftable s)[f := g (ftable s ! f)]\<rparr>"

definition filealloc :: "('a file_st_scheme, nat option) prog" where
  "filealloc =
     bnd (gets (\<lambda>s. find (\<lambda>f. f_ref (ftable s ! f) = 0) [0..<NFILE])) (\<lambda>found.
     case found of
       None \<Rightarrow> ret None
     | Some f \<Rightarrow>
         seqp (modify (upd_file f (\<lambda>x. x\<lparr>f_ref := 1\<rparr>)))
          (ret (Some f)))"

definition filedup :: "nat \<Rightarrow> ('a file_st_scheme, nat) prog" where
  "filedup f =
     bnd (gets (\<lambda>s. f_ref (ftable s ! f))) (\<lambda>ref.
     if ref < 1 then panic ''filedup''
     else
       seqp (modify (upd_file f (\<lambda>x. x\<lparr>f_ref := f_ref x + 1\<rparr>)))
        (ret f))"

text \<open>The part of \<^verbatim>\<open>fileclose\<close> under the lock: the copy \<^verbatim>\<open>ff\<close> of an entry that lost its last reference.\<close>

definition fileclose_ref :: "nat \<Rightarrow> ('a file_st_scheme, ofile option) prog" where
  "fileclose_ref f =
     bnd (gets (\<lambda>s. f_ref (ftable s ! f))) (\<lambda>ref.
     if ref < 1 then panic ''fileclose''
     else
       seqp (modify (upd_file f (\<lambda>x. x\<lparr>f_ref := f_ref x - 1\<rparr>)))
       (if ref - 1 > 0 then ret None
        else
          bnd (gets (\<lambda>s. ftable s ! f)) (\<lambda>ff.
          seqp (modify (upd_file f (\<lambda>x. x\<lparr>f_ref := 0, f_type := FD_NONE\<rparr>)))
           (ret (Some ff)))))"

definition fileclose :: "nat \<Rightarrow> ('a file_st_scheme, unit) prog" where
  "fileclose f =
     bnd (fileclose_ref f) (\<lambda>last.
     case last of
       None \<Rightarrow> ret ()
     | Some ff \<Rightarrow>
         (case f_type ff of
            FD_PIPE \<Rightarrow> pipeclose (f_pipe ff) (f_writable ff)
          | FD_INODE \<Rightarrow>
              seqp begin_op
              (seqp (bnd (deref (f_ip ff)) iput)
               end_op)
          | FD_NONE \<Rightarrow> ret ()))"

definition filestat :: "nat \<Rightarrow> ('a file_st_scheme, int \<times> stat option) prog" where
  "filestat f =
     bnd (gets (\<lambda>s. ftable s ! f)) (\<lambda>x.
     if f_type x = FD_INODE then
       seqp (ilock (f_ip x))
       (bnd (bnd (deref (f_ip x)) stati) (\<lambda>st.
        seqp (iunlock (f_ip x))
         (ret (0, Some st))))
     else ret (-1, None))"

text \<open>\<^verbatim>\<open>readi\<close> takes the count as a \<^verbatim>\<open>uint\<close>, hence the conversion.\<close>

definition fileread :: "('a file_st_scheme) devsw \<Rightarrow> nat \<Rightarrow> int \<Rightarrow> ('a file_st_scheme, int \<times> u8 list) prog" where
  "fileread devsw f n =
     bnd (gets (\<lambda>s. ftable s ! f)) (\<lambda>x.
     if \<not> f_readable x then ret (-1, [])
     else case f_type x of
       FD_PIPE \<Rightarrow> piperead (f_pipe x) n
     | FD_INODE \<Rightarrow>
         seqp (ilock (f_ip x))
         (bnd (bnd (deref (f_ip x)) (\<lambda>ip. readi devsw ip (f_off x) (of_int32 n))) (\<lambda>(r, bytes).
          seqp (whenp (r > 0) (modify (upd_file f (\<lambda>x. x\<lparr>f_off := f_off x + nat r\<rparr>))))
          (seqp (iunlock (f_ip x))
           (ret (r, bytes)))))
     | FD_NONE \<Rightarrow> panic ''fileread'')"

abbreviation (input) FILEWRITE_MAX :: nat where "FILEWRITE_MAX \<equiv> ((MAXOPBLOCKS - 1 - 1 - 2) div 2) * 512"

text \<open>The loop of \<^verbatim>\<open>filewrite\<close> with the bytes left; the result says whether all were written.\<close>

function filewrite_loop :: "('a file_st_scheme) devsw \<Rightarrow> nat \<Rightarrow> u8 list \<Rightarrow> ('a file_st_scheme, bool) prog" where
  "filewrite_loop devsw f src =
     (if src = [] then ret True
      else
        let n1 = min (length src) FILEWRITE_MAX in
        seqp begin_op
        (bnd (gets (\<lambda>s. ftable s ! f)) (\<lambda>x.
         seqp (ilock (f_ip x))
         (bnd (bnd (deref (f_ip x)) (\<lambda>ip. writei devsw ip (take n1 src) (f_off x))) (\<lambda>r.
          seqp (whenp (r > 0) (modify (upd_file f (\<lambda>x. x\<lparr>f_off := f_off x + nat r\<rparr>))))
          (seqp (iunlock (f_ip x))
          (seqp end_op
          (if r < 0 then ret False
           else if r \<noteq> int n1 then panic ''short filewrite''
           else filewrite_loop devsw f (drop n1 src))))))))) "
  by auto
termination
  by (relation "measure (\<lambda>(d, f, src). length src)") (auto simp: min_def)

declare filewrite_loop.simps [simp del]

definition filewrite :: "('a file_st_scheme) devsw \<Rightarrow> nat \<Rightarrow> u8 list \<Rightarrow> ('a file_st_scheme, int) prog" where
  "filewrite devsw f src =
     bnd (gets (\<lambda>s. ftable s ! f)) (\<lambda>x.
     if \<not> f_writable x then ret (-1)
     else case f_type x of
       FD_PIPE \<Rightarrow> pipewrite (f_pipe x) src
     | FD_INODE \<Rightarrow>
         bnd (filewrite_loop devsw f src) (\<lambda>all.
         ret (if all then int (length src) else -1))
     | FD_NONE \<Rightarrow> panic ''filewrite'')"

text \<open>\<^verbatim>\<open>pipealloc\<close>: the two entries it makes, or \<open>None\<close> for -1; \<open>close_opt\<close> is its exit path.\<close>

definition close_opt :: "nat option \<Rightarrow> ('a file_st_scheme, unit) prog" where
  "close_opt f = (case f of None \<Rightarrow> ret () | Some f \<Rightarrow> fileclose f)"

definition pipealloc :: "('a file_st_scheme, (nat \<times> nat) option) prog" where
  "pipealloc =
     bnd filealloc (\<lambda>f0.
     bnd (if f0 = None then ret None else filealloc) (\<lambda>f1.
     case (f0, f1) of
       (Some a, Some b) \<Rightarrow>
         bnd kalloc (\<lambda>p.
         if p = 0 then
           seqp (close_opt f0) (seqp (close_opt f1) (ret None))
         else
           seqp (modify (upd_pipe p (\<lambda>x. x\<lparr>pi_readopen := True, pi_writeopen := True, pi_nwrite := 0, pi_nread := 0\<rparr>)))
           (seqp (modify (upd_file a (\<lambda>x. x\<lparr>f_type := FD_PIPE, f_readable := True, f_writable := False, f_pipe := p\<rparr>)))
           (seqp (modify (upd_file b (\<lambda>x. x\<lparr>f_type := FD_PIPE, f_readable := False, f_writable := True, f_pipe := p\<rparr>)))
            (ret (Some (a, b))))))
     | _ \<Rightarrow> seqp (close_opt f0) (seqp (close_opt f1) (ret None))))"

section \<open>Reference counts\<close>

text \<open>The references held, as a multiset of entries, and the calls that change it.\<close>

inductive file_step :: "'a file_st_scheme \<times> nat multiset \<Rightarrow> 'a file_st_scheme \<times> nat multiset \<Rightarrow> bool" where
  file_alloc: "filealloc s = Ret (Some f) s' \<Longrightarrow> file_step (s, M) (s', add_mset f M)"
| file_alloc_none: "filealloc s = Ret None s' \<Longrightarrow> file_step (s, M) (s', M)"
| file_dup: "f \<in># M \<Longrightarrow> filedup f s = Ret f s' \<Longrightarrow> file_step (s, M) (s', add_mset f M)"
| file_close: "f \<in># M \<Longrightarrow> fileclose_ref f s = Ret r s' \<Longrightarrow> file_step (s, M) (s', M - {#f#})"
| file_other: "(\<forall>f<NFILE. f_ref (ftable s' ! f) = f_ref (ftable s ! f)) \<Longrightarrow> length (ftable s') = length (ftable s) \<Longrightarrow>
    file_step (s, M) (s', M)"

definition file_start :: "'a file_st_scheme \<times> nat multiset \<Rightarrow> bool" where
  "file_start x \<longleftrightarrow> (case x of (s, M) \<Rightarrow> length (ftable s) = NFILE \<and> (\<forall>f<NFILE. f_ref (ftable s ! f) = 0) \<and> M = {#})"

definition file_inv :: "'a file_st_scheme \<times> nat multiset \<Rightarrow> bool" where
  "file_inv x \<longleftrightarrow> (case x of (s, M) \<Rightarrow> length (ftable s) = NFILE \<and> (\<forall>f\<in>#M. f < NFILE)
     \<and> (\<forall>f<NFILE. f_ref (ftable s ! f) = int (count M f)))"

lemma nth_upd_file: "f < length (ftable s) \<Longrightarrow> ftable (upd_file f g s) ! j = (if j = f then g (ftable s ! f) else ftable s ! j)"
  by (simp add: upd_file_def)

lemma length_upd_file [simp]: "length (ftable (upd_file f g s)) = length (ftable s)"
  by (simp add: upd_file_def)

lemma filealloc_eq:
  "filealloc s = (case find (\<lambda>f. f_ref (ftable s ! f) = 0) [0..<NFILE] of
     None \<Rightarrow> Ret None s | Some f \<Rightarrow> Ret (Some f) (upd_file f (\<lambda>x. x\<lparr>f_ref := 1\<rparr>) s))"
  by (simp add: filealloc_def prog_defs split: option.split)

lemma fileclose_ref_eq:
  assumes "f < length (ftable s)"
  shows "fileclose_ref f s = (let ref = f_ref (ftable s ! f) in
     if ref < 1 then Panic ''fileclose''
     else if ref > 1 then Ret None (upd_file f (\<lambda>x. x\<lparr>f_ref := f_ref x - 1\<rparr>) s)
     else Ret (Some ((ftable s ! f)\<lparr>f_ref := 0\<rparr>)) (upd_file f (\<lambda>x. x\<lparr>f_ref := 0, f_type := FD_NONE\<rparr>) s))"
  using assms by (auto simp: fileclose_ref_def prog_defs upd_file_def Let_def)

interpretation ft: transition_system file_start file_step file_inv
proof
  show "file_start x \<Longrightarrow> file_inv x" for x :: "'a file_st_scheme \<times> nat multiset"
    by (auto simp: file_start_def file_inv_def)
  fix x y :: "'a file_st_scheme \<times> nat multiset"
  assume I: "file_inv x" and "file_step x y"
  from this(2) show "file_inv y"
  proof cases
    case (file_alloc s f s' M)
    then have "f < NFILE" "f_ref (ftable s ! f) = 0" "s' = upd_file f (\<lambda>x. x\<lparr>f_ref := 1\<rparr>) s"
      by (auto simp: filealloc_eq split: option.splits dest: find_upt_SomeD)
    then show ?thesis using I file_alloc(1,2) by (auto simp: file_inv_def nth_upd_file)
  next
    case (file_dup f M s s')
    then show ?thesis using I by (auto simp: file_inv_def filedup_def prog_defs nth_upd_file split: if_splits)
  next
    case (file_close f M s r s')
    then have "f < length (ftable s)" using I by (auto simp: file_inv_def)
    then show ?thesis using I file_close
      by (auto simp: file_inv_def fileclose_ref_eq Let_def nth_upd_file split: if_splits dest: in_diffD)
  qed (use I in \<open>auto simp: file_inv_def filealloc_eq split: option.splits\<close>)
qed

text \<open>
  C25. Open files are reference counted correctly.  Over every sequence of \<^verbatim>\<open>filealloc\<close>, \<^verbatim>\<open>filedup\<close> and
  \<^verbatim>\<open>fileclose\<close> by clients that only use references they hold, \<^verbatim>\<open>ref\<close> is the number of references;
  so \<^verbatim>\<open>filealloc\<close> never hands out an entry in use, neither \<^verbatim>\<open>filedup\<close> nor \<^verbatim>\<open>fileclose\<close> panics, and
  \<^verbatim>\<open>fileclose\<close> goes on to close the pipe or put the inode exactly for the last reference.
\<close>

theorem file_refcounts:
  fixes s :: "'a file_st_scheme"
  assumes "reach file_start file_step (s, M)"
  shows "(\<forall>f<NFILE. f_ref (ftable s ! f) = int (count M f))
    \<and> (\<forall>f s'. filealloc s = Ret (Some f) s' \<longrightarrow> f \<notin># M)
    \<and> (\<forall>f\<in>#M. (\<exists>s'. filedup f s = Ret f s') \<and> (\<exists>r s'. fileclose_ref f s = Ret r s' \<and> (r \<noteq> None \<longleftrightarrow> count M f = 1)))"
proof -
  have I: "length (ftable s) = NFILE" "\<And>f. f \<in># M \<Longrightarrow> f < NFILE" "\<And>f. f < NFILE \<Longrightarrow> f_ref (ftable s ! f) = int (count M f)"
    using ft.reach_inv [OF assms] by (simp_all add: file_inv_def)
  have alloc: "f \<notin># M" if "filealloc s = Ret (Some f) s'" for f s'
  proof -
    have "f < NFILE" "f_ref (ftable s ! f) = 0" using that by (auto simp: filealloc_eq split: option.splits dest: find_upt_SomeD)
    then show ?thesis using I(3) by (simp add: not_in_iff)
  qed
  have held: "(\<exists>s'. filedup f s = Ret f s') \<and> (\<exists>r s'. fileclose_ref f s = Ret r s' \<and> (r \<noteq> None \<longleftrightarrow> count M f = 1))" if f: "f \<in># M" for f
  proof -
    have r: "f < length (ftable s)" "f_ref (ftable s ! f) = int (count M f)" "0 < count M f" using I f by auto
    then have "count M f = 1 \<or> 1 < count M f" by linarith
    with r show ?thesis by (elim disjE) (simp_all add: fileclose_ref_eq filedup_def prog_defs)
  qed
  show ?thesis using I(3) alloc held by blast
qed

definition demo_file :: file_st where
  "demo_file = pipe_st.extend demo_pipe (file_st.fields (replicate 100
     \<lparr>f_type = FD_NONE, f_ref = 0, f_readable = False, f_writable = False, f_pipe = 0, f_ip = None, f_off = 0\<rparr>))"

theorem file_refcounts_witness:
  "\<exists>s :: file_st. f_ref (ftable s ! 0) = 1 \<and> (\<exists>r s'. fileclose_ref 0 s = Ret r s' \<and> r \<noteq> None)"
proof -
  have t: "ftable demo_file = replicate 100
     \<lparr>f_type = FD_NONE, f_ref = 0, f_readable = False, f_writable = False, f_pipe = 0, f_ip = None, f_off = 0\<rparr>"
    by (simp add: demo_file_def pipe_st.defs file_st.defs)
  then have "find (\<lambda>f. f_ref (ftable demo_file ! f) = 0) [0..<100] = Some 0" by (intro find_upt_SomeI) simp_all
  then have "filealloc demo_file = Ret (Some 0) (upd_file 0 (\<lambda>x. x\<lparr>f_ref := 1\<rparr>) demo_file)" by (simp add: filealloc_eq)
  from file_alloc [OF this, of "{#}"] have "reach file_start file_step (upd_file 0 (\<lambda>x. x\<lparr>f_ref := 1\<rparr>) demo_file, {#0#})"
    by (rule reach_step [rotated]) (rule reach_init, simp add: file_start_def t)
  from file_refcounts [OF this] show ?thesis by (intro exI [of _ "upd_file 0 (\<lambda>x. x\<lparr>f_ref := 1\<rparr>) demo_file"]) simp
qed

end
