(* ===== verification/Vm.thy ===== *)
theory Vm
  imports Kalloc
begin

text \<open>
  Page tables and user memory, \<^verbatim>\<open>vm.c\<close>.  A page directory and its page tables are pages of the
  byte memory, read and written as 32-bit words; \<open>vmap\<close> is what the hardware's page walk finds.
  \<^verbatim>\<open>loaduvm\<close>, which reads from an inode, is with \<^verbatim>\<open>exec\<close>; \<^verbatim>\<open>seginit\<close>, \<^verbatim>\<open>switchkvm\<close> and the register
  loads of \<^verbatim>\<open>switchuvm\<close> have no effect on memory.
\<close>

definition walkpgdir :: "u32 \<Rightarrow> u32 \<Rightarrow> bool \<Rightarrow> ('a mem_st_scheme, u32) prog" where
  "walkpgdir pgdir va alloc =
     (let pde = pgdir + 4 * PDX va in
      bnd (gets (\<lambda>s. load32 (mem s) pde)) (\<lambda>e.
      if e AND PTE_P \<noteq> 0 then ret (P2V (PTE_ADDR e) + 4 * PTX va)
      else if \<not> alloc then ret 0
      else
        bnd kalloc (\<lambda>pgtab.
        if pgtab = 0 then ret 0
        else
          seqp (modify (\<lambda>s. s\<lparr>mem := memset (mem s) pgtab 0 PGSIZE\<rparr>))
          (seqp (modify (\<lambda>s. s\<lparr>mem := store32 (mem s) pde (V2P pgtab OR PTE_P OR PTE_W OR PTE_U)\<rparr>))
           (ret (pgtab + 4 * PTX va))))))"

text \<open>
  The loop of \<^verbatim>\<open>mappages\<close>.  It runs until \<^verbatim>\<open>a == last\<close>; both are page aligned, so this is after
  \<open>k\<close> more rounds, where \<open>k\<close> is the distance in pages (modulo the address space).
\<close>

fun mappages_loop :: "nat \<Rightarrow> u32 \<Rightarrow> u32 \<Rightarrow> u32 \<Rightarrow> u32 \<Rightarrow> ('a mem_st_scheme, int) prog" where
  "mappages_loop k pgdir a pa perm =
     bnd (walkpgdir pgdir a True) (\<lambda>pte.
     if pte = 0 then ret (-1)
     else
       bnd (gets (\<lambda>s. load32 (mem s) pte)) (\<lambda>e.
       if e AND PTE_P \<noteq> 0 then panic ''remap''
       else
         seqp (modify (\<lambda>s. s\<lparr>mem := store32 (mem s) pte (pa OR perm OR PTE_P)\<rparr>))
         (case k of
            0 \<Rightarrow> ret 0
          | Suc k \<Rightarrow> mappages_loop k pgdir (a + PGSIZE) (pa + PGSIZE) perm)))"

declare mappages_loop.simps [simp del]

definition mappages :: "u32 \<Rightarrow> u32 \<Rightarrow> u32 \<Rightarrow> u32 \<Rightarrow> u32 \<Rightarrow> ('a mem_st_scheme, int) prog" where
  "mappages pgdir va size0 pa perm =
     (let a = PGROUNDDOWN va;
          last = PGROUNDDOWN (va + size0 - 1)
      in mappages_loop (unat (last - a) div 4096) pgdir a pa perm)"

text \<open>
  The loop of \<^verbatim>\<open>deallocuvm\<close>.  From an address in the last 4 MB its skip would wrap to 0 and not
  end, so it has a bound on the number of rounds, beyond which the outcome is \<open>Spin\<close>; below
  there every round moves up by at least a page and the bound of \<open>2 ^ 20\<close> rounds is not reached.
\<close>

fun deallocuvm_loop :: "nat \<Rightarrow> u32 \<Rightarrow> u32 \<Rightarrow> u32 \<Rightarrow> ('a mem_st_scheme, unit) prog" where
  "deallocuvm_loop 0 pgdir a oldsz = (\<lambda>s. Spin)"
| "deallocuvm_loop (Suc k) pgdir a oldsz =
     (if a < oldsz then
        bnd (walkpgdir pgdir a False) (\<lambda>pte.
        if pte = 0 then deallocuvm_loop k pgdir (PGADDR (PDX a + 1) 0 0 - PGSIZE + PGSIZE) oldsz
        else
          bnd (gets (\<lambda>s. load32 (mem s) pte)) (\<lambda>e.
          if e AND PTE_P \<noteq> 0 then
            (if PTE_ADDR e = 0 then panic ''kfree''
             else
               seqp (kfree (P2V (PTE_ADDR e)))
               (seqp (modify (\<lambda>s. s\<lparr>mem := store32 (mem s) pte 0\<rparr>))
                (deallocuvm_loop k pgdir (a + PGSIZE) oldsz)))
          else deallocuvm_loop k pgdir (a + PGSIZE) oldsz))
      else ret ())"

declare deallocuvm_loop.simps [simp del]

definition deallocuvm :: "u32 \<Rightarrow> u32 \<Rightarrow> u32 \<Rightarrow> ('a mem_st_scheme, u32) prog" where
  "deallocuvm pgdir oldsz newsz =
     (if newsz \<ge> oldsz then ret oldsz
      else
        seqp (deallocuvm_loop 1048577 pgdir (PGROUNDUP newsz) oldsz)
         (ret newsz))"

definition freevm :: "u32 \<Rightarrow> ('a mem_st_scheme, unit) prog" where
  "freevm pgdir =
     (if pgdir = 0 then panic ''freevm: no pgdir''
      else
        seqp (seqp (deallocuvm pgdir KERNBASE 0) (ret ()))
        (seqp (forp [0..<NPDENTRIES] (\<lambda>i.
           bnd (gets (\<lambda>s. load32 (mem s) (pgdir + 4 * of_nat i))) (\<lambda>e.
           whenp (e AND PTE_P \<noteq> 0) (kfree (P2V (PTE_ADDR e))))))
         (kfree pgdir)))"

text \<open>\<^verbatim>\<open>kmap\<close>: virtual start, physical start and end, permissions.\<close>

definition kmap :: "u32 \<Rightarrow> (u32 \<times> u32 \<times> u32 \<times> u32) list" where
  "kmap data =
     [(KERNBASE, 0, EXTMEM, PTE_W),
      (KERNLINK, V2P KERNLINK, V2P data, 0),
      (data, V2P data, PHYSTOP, PTE_W),
      (DEVSPACE, DEVSPACE, 0, PTE_W)]"

fun map_all :: "u32 \<Rightarrow> (u32 \<times> u32 \<times> u32 \<times> u32) list \<Rightarrow> ('a mem_st_scheme, u32) prog" where
  "map_all pgdir [] = ret pgdir"
| "map_all pgdir ((virt, pstart, pend, perm) # ks) =
     bnd (mappages pgdir virt (pend - pstart) pstart perm) (\<lambda>r.
     if r < 0 then seqp (freevm pgdir) (ret 0)
     else map_all pgdir ks)"

definition setupkvm :: "('a mem_st_scheme, u32) prog" where
  "setupkvm =
     bnd kalloc (\<lambda>pgdir.
     if pgdir = 0 then ret 0
     else
       seqp (modify (\<lambda>s. s\<lparr>mem := memset (mem s) pgdir 0 PGSIZE\<rparr>))
       (if P2V PHYSTOP > DEVSPACE then panic ''PHYSTOP too high''
        else
          bnd (gets kdata) (\<lambda>data.
          map_all pgdir (kmap data))))"

definition kvmalloc :: "('a mem_st_scheme, unit) prog" where
  "kvmalloc = bnd setupkvm (\<lambda>p. modify (\<lambda>s. s\<lparr>kpgdir := p\<rparr>))"

text \<open>Bytes that come from outside the model of memory (program text, an inode) stored at an address.\<close>

definition put_mem :: "memory \<Rightarrow> u32 \<Rightarrow> u8 list \<Rightarrow> memory" where
  "put_mem m a bs = (\<lambda>x. if unat (x - a) < length bs then bs ! unat (x - a) else m x)"

definition inituvm :: "u32 \<Rightarrow> u8 list \<Rightarrow> ('a mem_st_scheme, unit) prog" where
  "inituvm pgdir init =
     (if 4096 \<le> length init then panic ''inituvm: more than a page''
      else
        bnd kalloc (\<lambda>p.
        seqp (modify (\<lambda>s. s\<lparr>mem := memset (mem s) p 0 PGSIZE\<rparr>))
        (seqp (seqp (mappages pgdir 0 PGSIZE (V2P p) (PTE_W OR PTE_U)) (ret ()))
         (modify (\<lambda>s. s\<lparr>mem := put_mem (mem s) p init\<rparr>)))))"

text \<open>The addresses of a loop \<^verbatim>\<open>for(; a < b; a += PGSIZE)\<close> whose bound is below the last page.\<close>

definition page_steps :: "u32 \<Rightarrow> u32 \<Rightarrow> u32 list" where
  "page_steps a b = map (\<lambda>i. a + of_nat (4096 * i)) [0..<(unat b - unat a + 4095) div 4096]"

fun allocuvm_loop :: "u32 \<Rightarrow> u32 \<Rightarrow> u32 \<Rightarrow> u32 list \<Rightarrow> ('a mem_st_scheme, u32) prog" where
  "allocuvm_loop pgdir oldsz newsz [] = ret newsz"
| "allocuvm_loop pgdir oldsz newsz (a # as) =
     bnd kalloc (\<lambda>p.
     if p = 0 then
       seqp (deallocuvm pgdir newsz oldsz) (ret 0)
     else
       seqp (modify (\<lambda>s. s\<lparr>mem := memset (mem s) p 0 PGSIZE\<rparr>))
       (bnd (mappages pgdir a PGSIZE (V2P p) (PTE_W OR PTE_U)) (\<lambda>r.
        if r < 0 then
          seqp (deallocuvm pgdir newsz oldsz)
          (seqp (kfree p) (ret 0))
        else allocuvm_loop pgdir oldsz newsz as)))"

definition allocuvm :: "u32 \<Rightarrow> u32 \<Rightarrow> u32 \<Rightarrow> ('a mem_st_scheme, u32) prog" where
  "allocuvm pgdir oldsz newsz =
     (if newsz \<ge> KERNBASE then ret 0
      else if newsz < oldsz then ret oldsz
      else allocuvm_loop pgdir oldsz newsz (page_steps (PGROUNDUP oldsz) newsz))"

definition clearpteu :: "u32 \<Rightarrow> u32 \<Rightarrow> ('a mem_st_scheme, unit) prog" where
  "clearpteu pgdir uva =
     bnd (walkpgdir pgdir uva False) (\<lambda>pte.
     if pte = 0 then panic ''clearpteu''
     else modify (\<lambda>s. s\<lparr>mem := store32 (mem s) pte (load32 (mem s) pte AND NOT PTE_U)\<rparr>))"

fun copyuvm_loop :: "u32 \<Rightarrow> u32 \<Rightarrow> u32 list \<Rightarrow> ('a mem_st_scheme, u32) prog" where
  "copyuvm_loop pgdir d [] = ret d"
| "copyuvm_loop pgdir d (i # is) =
     bnd (walkpgdir pgdir i False) (\<lambda>pte.
     if pte = 0 then panic ''copyuvm: pte should exist''
     else
       bnd (gets (\<lambda>s. load32 (mem s) pte)) (\<lambda>e.
       if e AND PTE_P = 0 then panic ''copyuvm: page not present''
       else
         bnd kalloc (\<lambda>p.
         if p = 0 then seqp (freevm d) (ret 0)
         else
           seqp (modify (\<lambda>s. s\<lparr>mem := memmove (mem s) p (P2V (PTE_ADDR e)) PGSIZE\<rparr>))
           (bnd (mappages d i PGSIZE (V2P p) (PTE_FLAGS e)) (\<lambda>r.
            if r < 0 then seqp (kfree p) (seqp (freevm d) (ret 0))
            else copyuvm_loop pgdir d is)))))"

definition copyuvm :: "u32 \<Rightarrow> u32 \<Rightarrow> ('a mem_st_scheme, u32) prog" where
  "copyuvm pgdir sz =
     bnd setupkvm (\<lambda>d.
     if d = 0 then ret 0
     else copyuvm_loop pgdir d (page_steps 0 sz))"

text \<open>
  \<^verbatim>\<open>uva2ka\<close> follows the pointer \<^verbatim>\<open>pte\<close> without a test; where there is no page table it is null,
  and the model stops there.
\<close>

definition uva2ka :: "u32 \<Rightarrow> u32 \<Rightarrow> ('a mem_st_scheme, u32) prog" where
  "uva2ka pgdir uva =
     bnd (walkpgdir pgdir uva False) (\<lambda>pte.
     if pte = 0 then panic ''uva2ka: null pte''
     else
       bnd (gets (\<lambda>s. load32 (mem s) pte)) (\<lambda>e.
       if e AND PTE_P = 0 then ret 0
       else if e AND PTE_U = 0 then ret 0
       else ret (P2V (PTE_ADDR e))))"

function copyout :: "u32 \<Rightarrow> u32 \<Rightarrow> u8 list \<Rightarrow> ('a mem_st_scheme, int) prog" where
  "copyout pgdir va bs =
     (if bs = [] then ret 0
      else
        let va0 = PGROUNDDOWN va in
        bnd (uva2ka pgdir va0) (\<lambda>pa0.
        if pa0 = 0 then ret (-1)
        else
          let n = min (4096 - unat (va - va0)) (length bs) in
          seqp (modify (\<lambda>s. s\<lparr>mem := put_mem (mem s) (pa0 + (va - va0)) (take n bs)\<rparr>))
           (copyout pgdir (va0 + PGSIZE) (drop n bs))))"
  by auto
termination
proof (relation "measure (\<lambda>(pgdir, va, bs). length bs)", goal_cases)
  case (2 pgdir va bs)
  have "unat (va - PGROUNDDOWN va) = unat va mod 4096"
    using unat_PGROUNDDOWN [of va] by (simp add: unat_sub word_le_nat_alt minus_mult_div_eq_mod [symmetric] mult.commute)
  then have "0 < min (4096 - unat (va - PGROUNDDOWN va)) (length bs)" using 2 by simp
  then show ?case using 2 by simp
qed simp

declare copyout.simps [simp del]

text \<open>
  The page walk of the hardware: the kernel address of the byte a virtual address names under a
  page directory, or nothing (a page fault) where an entry is not present.
\<close>

definition vmap :: "memory \<Rightarrow> u32 \<Rightarrow> u32 \<Rightarrow> u32 option" where
  "vmap m pgdir va =
     (let pde = load32 m (pgdir + 4 * PDX va) in
      if pde AND PTE_P = 0 then None
      else
        let pte = load32 m (P2V (PTE_ADDR pde) + 4 * PTX va) in
        if pte AND PTE_P = 0 then None
        else Some (P2V (PTE_ADDR pte) + (va AND 0xFFF)))"

section \<open>What the calls leave alone\<close>

text \<open>Only the memory and the free list change.\<close>

lemma keeps_kalloc:
  assumes f: "\<And>s g. f (mem_update g s) = f s" "\<And>s g. f (freelist_update g s) = f s"
  shows "keeps f kalloc" "keeps f (kfree v)"
  unfolding kalloc_def kfree_def by (intro keeps_intros f)+

lemma keeps_walkpgdir:
  assumes f: "\<And>s g. f (mem_update g s) = f s" "\<And>s g. f (freelist_update g s) = f s"
  shows "keeps f (walkpgdir pgdir va alloc)"
  unfolding walkpgdir_def Let_def by (intro keeps_intros keeps_kalloc f)

lemma keeps_mappages:
  assumes f: "\<And>s g. f (mem_update g s) = f s" "\<And>s g. f (freelist_update g s) = f s"
  shows "keeps f (mappages pgdir va n pa perm)"
proof -
  have "keeps f (mappages_loop k pgdir a pa perm)" for k a pa
  proof (induction k arbitrary: a pa)
    case 0
    show ?case by (subst mappages_loop.simps) (simp only: nat.case, intro keeps_intros keeps_walkpgdir f)
  next
    case (Suc k)
    show ?case by (subst mappages_loop.simps) (simp only: nat.case, intro keeps_intros keeps_walkpgdir Suc f)
  qed
  then show ?thesis by (simp add: mappages_def Let_def)
qed

lemma keeps_deallocuvm:
  assumes f: "\<And>s g. f (mem_update g s) = f s" "\<And>s g. f (freelist_update g s) = f s"
  shows "keeps f (deallocuvm pgdir oldsz newsz)"
proof -
  have spin: "keeps f (\<lambda>s. Spin)" by (simp add: keeps_def)
  have "keeps f (deallocuvm_loop k pgdir a oldsz)" for k a
    by (induction k arbitrary: a) (simp_all only: deallocuvm_loop.simps, rule spin,
      intro keeps_intros keeps_walkpgdir keeps_kalloc f, assumption+)
  then show ?thesis unfolding deallocuvm_def by (intro keeps_intros)
qed

lemma keeps_freevm:
  assumes f: "\<And>s g. f (mem_update g s) = f s" "\<And>s g. f (freelist_update g s) = f s"
  shows "keeps f (freevm pgdir)"
  unfolding freevm_def by (intro keeps_intros keeps_deallocuvm keeps_kalloc f)

lemma keeps_setupkvm:
  assumes f: "\<And>s g. f (mem_update g s) = f s" "\<And>s g. f (freelist_update g s) = f s"
  shows "keeps f setupkvm"
proof -
  have "keeps f (map_all pgdir ks)" for pgdir ks
  proof (induction ks)
    case (Cons k ks)
    then show ?case by (cases k) (simp, intro keeps_intros keeps_mappages keeps_freevm f)
  qed (simp add: keeps_ret)
  then show ?thesis unfolding setupkvm_def by (intro keeps_intros keeps_kalloc f)
qed

lemma keeps_copyuvm:
  assumes f: "\<And>s g. f (mem_update g s) = f s" "\<And>s g. f (freelist_update g s) = f s"
  shows "keeps f (copyuvm pgdir sz)"
proof -
  have "keeps f (copyuvm_loop pgdir d is)" for d "is"
    by (induction "is") (simp_all add: keeps_ret, intro keeps_intros keeps_walkpgdir keeps_kalloc keeps_freevm keeps_mappages f)
  then show ?thesis unfolding copyuvm_def by (intro keeps_intros keeps_setupkvm f)
qed

lemma keeps_allocuvm:
  assumes f: "\<And>s g. f (mem_update g s) = f s" "\<And>s g. f (freelist_update g s) = f s"
  shows "keeps f (allocuvm pgdir oldsz newsz)"
proof -
  have "keeps f (allocuvm_loop pgdir oldsz newsz as)" for as
    by (induction as) (simp_all add: keeps_ret, intro keeps_intros keeps_kalloc keeps_deallocuvm keeps_mappages f)
  then show ?thesis unfolding allocuvm_def by (intro keeps_intros)
qed

lemmas keeps_vm = keeps_kalloc keeps_walkpgdir keeps_mappages keeps_deallocuvm keeps_freevm keeps_setupkvm keeps_copyuvm keeps_allocuvm

end
