(* ===== verification/Paging.thy ===== *)
theory Paging
  imports Vm
begin

text \<open>
  What the page table code of \<^verbatim>\<open>vm.c\<close> does to an address space.  \<open>ventry\<close> is the page table entry the
  hardware finds for an address (0 where there is no table), \<open>pt_inv\<close> the invariant of a page
  directory: it and its tables are different pages of the allocator's range, none of them free.
  The lemmas go from a word stored in a slot of a table up to \<^verbatim>\<open>mappages\<close>.
\<close>

section \<open>Slots\<close>

text \<open>Entry \<open>i\<close> of the table in page \<open>v\<close> is the word at \<open>v + 4 * i\<close>.\<close>

lemma unat_slot_off: "unat (i :: u32) < 1024 \<Longrightarrow> unat (4 * i) = 4 * unat i"
  by (simp add: unat_word_ariths)

lemma page_of_slot: "unat v mod 4096 = 0 \<Longrightarrow> unat i < 1024 \<Longrightarrow> page_of (v + 4 * i) = v"
  by (rule page_of_add) (simp_all add: unat_slot_off)

lemma unat_slot:
  fixes v :: u32
  assumes "unat v mod 4096 = 0" "unat i < 1024"
  shows "unat (v + 4 * i) = unat v + 4 * unat i"
proof -
  have "unat v + 4096 \<le> 4294967296" using nat_page_top [OF assms(1), of 1048576] unat_u32_lt [of v] by simp
  then show ?thesis using assms by (simp add: unat_add_nowrap32 unat_slot_off)
qed

lemma slot_aligned: "unat (v :: u32) mod 4096 = 0 \<Longrightarrow> unat i < 1024 \<Longrightarrow> unat (v + 4 * i) mod 4 = 0"
  by (simp add: unat_slot mod_eq_0_iff_dvd dvd_trans [of 4 4096])

lemma slot_inj:
  fixes v w :: u32
  assumes "unat v mod 4096 = 0" "unat w mod 4096 = 0" "unat i < 1024" "unat j < 1024"
  shows "v + 4 * i = w + 4 * j \<longleftrightarrow> v = w \<and> i = j"
proof
  assume eq: "v + 4 * i = w + 4 * j"
  then have "v = w" using page_of_slot [OF assms(1,3)] page_of_slot [OF assms(2,4)] by simp
  moreover from this eq have "unat i = unat j" using unat_slot [OF assms(1,3)] unat_slot [OF assms(2,4)] by simp
  ultimately show "v = w \<and> i = j" by (simp add: word_unat_eq_iff)
qed simp

lemma load32_slot_cong:
  assumes "unat v mod 4096 = 0" "unat i < 1024" "\<And>x. page_of x = v \<Longrightarrow> m' x = m x"
  shows "load32 m' (v + 4 * i) = load32 m (v + 4 * i)"
proof (rule load32_cong)
  fix x assume "unat (x - (v + 4 * i)) < 4"
  moreover have "x - v = (x - (v + 4 * i)) + 4 * i" by simp
  ultimately have "unat (x - v) < 4096"
    using assms(2) unat_slot_off [OF assms(2)] unat_add_nowrap32 [of "x - (v + 4 * i)" "4 * i"] by simp
  then show "m' x = m x" using assms(1,3) by (simp add: in_page_iff)
qed

lemma load32_store_slot:
  assumes "unat v mod 4096 = 0" "unat w mod 4096 = 0" "unat i < 1024" "unat j < 1024"
  shows "load32 (store32 m (v + 4 * i) e) (w + 4 * j) = (if v = w \<and> i = j then e else load32 m (w + 4 * j))"
proof (cases "v = w \<and> i = j")
  case False
  then have "v + 4 * i \<noteq> w + 4 * j" using slot_inj [OF assms] by simp
  then have "load32 (store32 m (v + 4 * i) e) (w + 4 * j) = load32 m (w + 4 * j)"
    using assms by (intro load32_store32_other slot_aligned)
  then show ?thesis using False by (simp only: if_False)
qed simp

lemma store_slot_outside:
  assumes "unat v mod 4096 = 0" "unat i < 1024" "page_of x \<noteq> v"
  shows "store32 m (v + 4 * i) e x = m x"
proof (rule store32_other, rule ccontr)
  assume "\<not> 4 \<le> unat (x - (v + 4 * i))"
  moreover have "x - v = (x - (v + 4 * i)) + 4 * i" by simp
  ultimately have "unat (x - v) < 4096"
    using assms(2) unat_slot_off [OF assms(2)] unat_add_nowrap32 [of "x - (v + 4 * i)" "4 * i"] by simp
  then show False using assms(1,3) by (simp add: in_page_iff)
qed

lemma memset_page: "unat v mod 4096 = 0 \<Longrightarrow> memset m v 0 PGSIZE x = (if page_of x = v then 0 else m x)"
  by (simp add: memset_fill fill_def in_page_iff)

lemma load32_memset_slot:
  assumes "unat v mod 4096 = 0" "unat w mod 4096 = 0" "unat i < 1024"
  shows "load32 (memset m v 0 PGSIZE) (w + 4 * i) = (if v = w then 0 else load32 m (w + 4 * i))"
proof (cases "v = w")
  case True
  have "load32 (memset m v 0 PGSIZE) (w + 4 * i) = load32 (\<lambda>_. 0) (w + 4 * i)"
    using True by (intro load32_slot_cong) (use assms in \<open>auto simp: memset_page\<close>)
  then show ?thesis using True by (simp add: load32_def)
next
  case False
  then show ?thesis using assms by (simp, intro load32_slot_cong) (auto simp: memset_page)
qed

section \<open>Entries and the invariant\<close>

definition pte_present :: "u32 \<Rightarrow> bool" where
  "pte_present e \<longleftrightarrow> e AND PTE_P \<noteq> 0"

definition pgtab :: "memory \<Rightarrow> u32 \<Rightarrow> u32 \<Rightarrow> u32" where
  "pgtab m d i = P2V (PTE_ADDR (load32 m (d + 4 * i)))"

definition has_table :: "memory \<Rightarrow> u32 \<Rightarrow> u32 \<Rightarrow> bool" where
  "has_table m d i \<longleftrightarrow> unat i < 1024 \<and> pte_present (load32 m (d + 4 * i))"

definition ventry :: "memory \<Rightarrow> u32 \<Rightarrow> u32 \<Rightarrow> u32" where
  "ventry m d va = (if has_table m d (PDX va) then load32 m (pgtab m d (PDX va) + 4 * PTX va) else 0)"

lemma pte_present_0 [simp]: "\<not> pte_present 0"
  by (simp add: pte_present_def)

lemma vmap_ventry:
  "vmap m d va = (if pte_present (ventry m d va) then Some (P2V (PTE_ADDR (ventry m d va)) + (va AND 0xFFF)) else None)"
  by (simp add: vmap_def ventry_def has_table_def pgtab_def pte_present_def PDX_lt Let_def)

definition pt_inv :: "'a mem_st_scheme \<Rightarrow> u32 \<Rightarrow> u32 list \<Rightarrow> bool" where
  "pt_inv s d xs \<longleftrightarrow> free_pages s xs \<and> page_ok (kend s) d \<and> d \<notin> set xs
     \<and> (\<forall>i. has_table (mem s) d i \<longrightarrow> page_ok (kend s) (pgtab (mem s) d i) \<and> pgtab (mem s) d i \<noteq> d \<and> pgtab (mem s) d i \<notin> set xs)
     \<and> (\<forall>i j. has_table (mem s) d i \<longrightarrow> has_table (mem s) d j \<longrightarrow> pgtab (mem s) d i = pgtab (mem s) d j \<longrightarrow> i = j)"

text \<open>The pages of the directory and its tables.\<close>

definition pt_pages :: "memory \<Rightarrow> u32 \<Rightarrow> u32 set" where
  "pt_pages m d = insert d (pgtab m d ` {i. has_table m d i})"

lemma page_ok_aligned: "page_ok e v \<Longrightarrow> unat v mod 4096 = 0"
  by (simp add: page_ok_def)

lemma has_table_lt: "has_table m d i \<Longrightarrow> unat i < 1024"
  by (simp add: has_table_def)

lemma pt_invD:
  assumes "pt_inv s d xs"
  shows "free_pages s xs" "page_ok (kend s) d" "d \<notin> set xs" "unat d mod 4096 = 0"
    and "has_table (mem s) d i \<Longrightarrow> page_ok (kend s) (pgtab (mem s) d i)"
    and "has_table (mem s) d i \<Longrightarrow> pgtab (mem s) d i \<noteq> d"
    and "has_table (mem s) d i \<Longrightarrow> pgtab (mem s) d i \<notin> set xs"
    and "has_table (mem s) d i \<Longrightarrow> has_table (mem s) d j \<Longrightarrow> pgtab (mem s) d i = pgtab (mem s) d j \<Longrightarrow> i = j"
    and "has_table (mem s) d i \<Longrightarrow> unat (pgtab (mem s) d i) mod 4096 = 0"
  using assms by (auto simp: pt_inv_def page_ok_aligned)

text \<open>Only the pages of the table matter.\<close>

lemma pt_cong:
  assumes "unat d mod 4096 = 0" "\<And>x. page_of x = d \<Longrightarrow> m' x = m x"
  shows "has_table m' d i = has_table m d i" "unat i < 1024 \<Longrightarrow> pgtab m' d i = pgtab m d i"
  using load32_slot_cong [OF assms(1), of i m' m] assms(2) by (auto simp: has_table_def pgtab_def)

lemma pt_pages_cong:
  assumes "unat d mod 4096 = 0" "\<And>x. page_of x = d \<Longrightarrow> m' x = m x"
  shows "pt_pages m' d = pt_pages m d"
  using pt_cong [OF assms] by (force simp: pt_pages_def has_table_def)

lemma ventry_cong:
  assumes "pt_inv s d xs" "\<And>x. page_of x \<in> pt_pages (mem s) d \<Longrightarrow> m' x = mem s x"
  shows "ventry m' d va = ventry (mem s) d va"
proof -
  note D = pt_invD [OF assms(1)]
  have d: "m' x = mem s x" if "page_of x = d" for x using assms(2) that by (simp add: pt_pages_def)
  show ?thesis
  proof (cases "has_table (mem s) d (PDX va)")
    case True
    have "load32 m' (pgtab (mem s) d (PDX va) + 4 * PTX va) = load32 (mem s) (pgtab (mem s) d (PDX va) + 4 * PTX va)"
      using True D(9) [OF True] by (intro load32_slot_cong assms(2)) (auto simp: PTX_lt pt_pages_def)
    then show ?thesis using True pt_cong [OF D(4) d] by (simp add: ventry_def PDX_lt)
  qed (use pt_cong [OF D(4) d] in \<open>simp add: ventry_def\<close>)
qed

lemma pt_inv_frame:
  assumes "pt_inv s d xs" "\<And>x. page_of x = d \<Longrightarrow> mem s' x = mem s x" "kend s' = kend s" "free_pages s' xs'" "set xs' \<subseteq> set xs"
  shows "pt_inv s' d xs'"
proof -
  note D = pt_invD [OF assms(1)]
  have e: "has_table (mem s') d i = has_table (mem s) d i" "unat i < 1024 \<Longrightarrow> pgtab (mem s') d i = pgtab (mem s) d i" for i
    using pt_cong [OF D(4), of "mem s'" "mem s" i] assms(2) by auto
  have "pgtab (mem s') d i = pgtab (mem s) d i" if "has_table (mem s) d i" for i using that e(2) has_table_lt by blast
  then show ?thesis using D assms(3-5) unfolding pt_inv_def e(1) by auto
qed

section \<open>Storing an entry\<close>

lemma same_page_iff: "PDX x = PDX va \<and> PTX x = PTX va \<longleftrightarrow> page_of x = page_of va"
proof -
  have big: "unat y div 4194304 = unat y div 4096 div 1024" for y :: u32 by (simp add: div_mult2_eq [symmetric])
  have split: "a = b \<longleftrightarrow> a div 1024 = b div 1024 \<and> a mod 1024 = b mod 1024" for a b :: nat
    using div_mult_mod_eq [of a 1024] div_mult_mod_eq [of b 1024] by metis
  have "page_of x = page_of va \<longleftrightarrow> unat x div 4096 = unat va div 4096"
    by (simp add: page_of_def word_unat_eq_iff unat_PGROUNDDOWN)
  then show ?thesis using split [of "unat x div 4096" "unat va div 4096"]
    by (simp only: word_unat_eq_iff unat_PDX unat_PTX big)
qed

lemma free_pages_frame:
  assumes "free_pages s xs" "\<And>x. page_of x \<in> set xs \<Longrightarrow> mem s' x = mem s x" "freelist s' = freelist s" "kend s' = kend s"
  shows "free_pages s' xs"
proof -
  have "flist (mem s') (freelist s) xs = flist (mem s) (freelist s) xs"
    using assms(1,2) by (intro flist_cong) (auto simp: free_pages_def page_ok_aligned)
  then show ?thesis using assms by (simp add: free_pages_def)
qed

lemma set_entry:
  fixes s :: "'a mem_st_scheme" and e :: u32
  assumes I: "pt_inv s d xs" and T: "has_table (mem s) d (PDX va)"
  defines "t \<equiv> pgtab (mem s) d (PDX va)"
  defines "s' \<equiv> s\<lparr>mem := store32 (mem s) (t + 4 * PTX va) e\<rparr>"
  shows "pt_inv s' d xs" "\<And>x. ventry (mem s') d x = (if page_of x = page_of va then e else ventry (mem s) d x)"
    and "pt_pages (mem s') d = pt_pages (mem s) d" "\<And>x. page_of x \<noteq> t \<Longrightarrow> mem s' x = mem s x"
proof -
  note D = pt_invD [OF I]
  have t: "unat t mod 4096 = 0" "t \<noteq> d" "t \<notin> set xs" using D(6,7,9) [OF T] by (simp_all add: t_def)
  show out: "mem s' x = mem s x" if "page_of x \<noteq> t" for x
    using store_slot_outside [OF t(1) PTX_lt that] by (simp add: s'_def)
  have dpage: "mem s' x = mem s x" if "page_of x = d" for x using that t(2) by (intro out) simp
  have fp: "free_pages s' xs" by (rule free_pages_frame [OF D(1) out]) (use t(3) in \<open>auto simp: s'_def\<close>)
  show "pt_inv s' d xs" using I dpage by (rule pt_inv_frame) (use fp in \<open>simp_all add: s'_def\<close>)
  show "pt_pages (mem s') d = pt_pages (mem s) d" using D(4) dpage by (rule pt_pages_cong)
  have h: "has_table (mem s') d i = has_table (mem s) d i" for i using pt_cong(1) [OF D(4) dpage] .
  have g: "pgtab (mem s') d i = pgtab (mem s) d i" if "unat i < 1024" for i using pt_cong(2) [OF D(4) dpage that] .
  show "ventry (mem s') d x = (if page_of x = page_of va then e else ventry (mem s) d x)" for x
  proof (cases "has_table (mem s) d (PDX x)")
    case True
    then have "ventry (mem s') d x = load32 (mem s') (pgtab (mem s) d (PDX x) + 4 * PTX x)"
      by (simp add: ventry_def h g PDX_lt)
    also have "\<dots> = (if t = pgtab (mem s) d (PDX x) \<and> PTX va = PTX x then e else ventry (mem s) d x)"
      using load32_store_slot [OF t(1) D(9) [OF True], of "PTX va" "PTX x"] True by (simp add: s'_def PTX_lt ventry_def)
    also have "t = pgtab (mem s) d (PDX x) \<longleftrightarrow> PDX x = PDX va" using D(8) [OF T True] by (auto simp: t_def)
    finally show ?thesis using same_page_iff [of x va] by auto
  next
    case False
    then have "page_of x \<noteq> page_of va" using T same_page_iff [of x va] by auto
    then show ?thesis using False by (simp add: ventry_def h)
  qed
qed

section \<open>The walk\<close>

lemma new_pde:
  assumes "page_ok k t"
  shows "PTE_ADDR (V2P t OR PTE_P OR PTE_W OR PTE_U) = V2P t" "pte_present (V2P t OR PTE_P OR PTE_W OR PTE_U)"
proof -
  have "unat (V2P t) = unat t - 2147483648" "2147483648 \<le> unat t"
    using page_ok_range [OF assms] by (auto simp: V2P_def unat_sub_if_size word_size)
  then have "unat (V2P t) mod 4096 = 0" using page_ok_range [OF assms] by (simp add: mod_eq_0_iff_dvd dvd_diff_nat)
  then show "PTE_ADDR (V2P t OR PTE_P OR PTE_W OR PTE_U) = V2P t"
    using PTE_ADDR_or(1) [of "V2P t" 7] by (simp add: or.assoc)
  show "pte_present (V2P t OR PTE_P OR PTE_W OR PTE_U)"
    by (simp add: pte_present_def bit_eq_iff) (rule exI [of _ 0], simp add: bit_simps)
qed

lemma walk_hit:
  "has_table (mem s) d (PDX va) \<Longrightarrow> walkpgdir d va b s = Ret (pgtab (mem s) d (PDX va) + 4 * PTX va) s"
  by (simp add: walkpgdir_def bnd_def gets_def ret_def has_table_def pte_present_def pgtab_def Let_def)

lemma walk_miss: "\<not> has_table (mem s) d (PDX va) \<Longrightarrow> walkpgdir d va False s = Ret 0 s"
  by (simp add: walkpgdir_def bnd_def gets_def ret_def has_table_def pte_present_def PDX_lt Let_def)

lemma walk_no_memory:
  "\<not> has_table (mem s) d (PDX va) \<Longrightarrow> free_pages s [] \<Longrightarrow> walkpgdir d va True s = Ret 0 s"
  by (simp add: walkpgdir_def has_table_def pte_present_def PDX_lt Let_def bnd_def gets_def kalloc_empty ret_def)

text \<open>A new, empty table \<open>t\<close> for the addresses with index \<open>k\<close>.\<close>

lemma pt_add_table:
  fixes s s' :: "'a mem_st_scheme"
  assumes I: "pt_inv s d (t # xs)" and T: "\<not> has_table (mem s) d k" and k: "unat k < 1024"
    and pde: "\<And>i. unat i < 1024 \<Longrightarrow> i \<noteq> k \<Longrightarrow> load32 (mem s') (d + 4 * i) = load32 (mem s) (d + 4 * i)"
    and new: "PTE_ADDR (load32 (mem s') (d + 4 * k)) = V2P t" "pte_present (load32 (mem s') (d + 4 * k))"
    and zero: "\<And>j. unat j < 1024 \<Longrightarrow> load32 (mem s') (t + 4 * j) = 0"
    and out: "\<And>x. page_of x \<notin> {d, t} \<Longrightarrow> mem s' x = mem s x"
    and fp: "free_pages s' xs" and ke: "kend s' = kend s"
  shows "pt_inv s' d xs" "has_table (mem s') d k" "pgtab (mem s') d k = t" "ventry (mem s') d x = ventry (mem s) d x"
    "pt_pages (mem s') d = insert t (pt_pages (mem s) d)"
proof -
  note D = pt_invD [OF I]
  have ok: "page_ok (kend s) t" "t \<notin> set xs" "t \<noteq> d" using D(1,3) by (auto simp: free_pages_def)
  have h: "has_table (mem s') d i \<longleftrightarrow> i = k \<or> has_table (mem s) d i" for i
    using pde [of i] new(2) k by (cases "i = k") (auto simp: has_table_def)
  show hk: "has_table (mem s') d k" by (simp add: h)
  show gk: "pgtab (mem s') d k = t" using new(1) by (simp add: pgtab_def)
  have g: "pgtab (mem s') d i = pgtab (mem s) d i" if "has_table (mem s) d i" for i
    using pde [OF has_table_lt [OF that]] that T by (cases "i = k") (auto simp: pgtab_def)
  have cases: "i = k \<and> pgtab (mem s') d i = t \<or> has_table (mem s) d i \<and> pgtab (mem s') d i = pgtab (mem s) d i"
    if "has_table (mem s') d i" for i using that h [of i] gk g [of i] by blast
  show "pt_inv s' d xs"
    unfolding pt_inv_def ke
  proof (intro conjI allI impI)
    fix i assume i: "has_table (mem s') d i"
    show "page_ok (kend s) (pgtab (mem s') d i)" "pgtab (mem s') d i \<noteq> d" "pgtab (mem s') d i \<notin> set xs"
      using cases [OF i] ok D(5,6,7) [of i] by auto
    fix j assume j: "has_table (mem s') d j" "pgtab (mem s') d i = pgtab (mem s') d j"
    show "i = j" using j(2) cases [OF i] cases [OF j(1)] D(7) [of i] D(7) [of j] D(8) [of i j] by auto
  qed (use fp D(2,3) in auto)
  show "pt_pages (mem s') d = insert t (pt_pages (mem s) d)"
  proof -
    have "{i. has_table (mem s') d i} = insert k {i. has_table (mem s) d i}" by (auto simp: h)
    moreover have "pgtab (mem s') d ` {i. has_table (mem s) d i} = pgtab (mem s) d ` {i. has_table (mem s) d i}"
      by (rule image_cong) (simp_all add: g)
    ultimately show ?thesis by (auto simp: pt_pages_def gk)
  qed
  show "ventry (mem s') d x = ventry (mem s) d x"
  proof (cases "PDX x = k")
    case True
    then show ?thesis using T gk hk zero [OF PTX_lt] by (simp add: ventry_def)
  next
    case False
    have "load32 (mem s') (pgtab (mem s) d (PDX x) + 4 * PTX x) = load32 (mem s) (pgtab (mem s) d (PDX x) + 4 * PTX x)"
      if a: "has_table (mem s) d (PDX x)"
      using D(6,7) [OF a] by (intro load32_slot_cong D(9) [OF a] PTX_lt out) auto
    then show ?thesis using False h [of "PDX x"] g [of "PDX x"] by (simp add: ventry_def)
  qed
qed

lemma walk_alloc:
  fixes s :: "'a mem_st_scheme"
  assumes I: "pt_inv s d (t # xs)" and T: "\<not> has_table (mem s) d (PDX va)"
  shows "\<exists>s'. walkpgdir d va True s = Ret (t + 4 * PTX va) s' \<and> pt_inv s' d xs
    \<and> has_table (mem s') d (PDX va) \<and> pgtab (mem s') d (PDX va) = t
    \<and> (\<forall>x. ventry (mem s') d x = ventry (mem s) d x) \<and> pt_pages (mem s') d = insert t (pt_pages (mem s) d)
    \<and> (\<forall>x. page_of x \<notin> {d, t} \<longrightarrow> mem s' x = mem s x) \<and> kend s' = kend s"
proof -
  note D = pt_invD [OF I]
  define e where "e = V2P t OR PTE_P OR PTE_W OR PTE_U"
  define z where "z = memset (mem s) t 0 PGSIZE"
  define s1 where "s1 = s\<lparr>freelist := load32 (mem s) t\<rparr>"
  define s' where "s' = s\<lparr>freelist := load32 (mem s) t, mem := store32 z (d + 4 * PDX va) e\<rparr>"
  have ok: "page_ok (kend s) t" "t \<notin> set xs" "t \<noteq> d" using D(1,3) by (auto simp: free_pages_def)
  have t: "unat t mod 4096 = 0" "t \<noteq> 0" using ok(1) by (simp_all add: page_ok_aligned page_ok_nonzero)
  have run: "walkpgdir d va True s = Ret (t + 4 * PTX va) s'"
    using T kalloc_page [OF D(1)] t(2)
    by (simp add: walkpgdir_def has_table_def pte_present_def PDX_lt Let_def bnd_def gets_def seqp_def modify_def ret_def s'_def e_def z_def)
  have zx: "mem s' x = z x" if "page_of x \<noteq> d" for x
    using store_slot_outside [OF D(4) PDX_lt that] by (simp add: s'_def)
  have out: "mem s' x = mem s x" if "page_of x \<notin> {d, t}" for x
    using that by (subst zx) (auto simp: z_def memset_page t(1))
  have fp1: "free_pages s1 xs" using kalloc_page [OF D(1)] by (simp add: s1_def)
  have fp: "free_pages s' xs"
  proof (rule free_pages_frame [OF fp1])
    show "mem s' x = mem s1 x" if "page_of x \<in> set xs" for x
      using that ok(2) D(3) by (simp add: s1_def, intro out) auto
  qed (simp_all add: s1_def s'_def)
  have pde: "load32 (mem s') (d + 4 * i) = (if i = PDX va then e else load32 (mem s) (d + 4 * i))" if "unat i < 1024" for i
    using load32_store_slot [where m = z and e = e, OF D(4) D(4) PDX_lt that]
      load32_memset_slot [where m = "mem s", OF t(1) D(4) that] ok(3) by (auto simp: s'_def z_def)
  have zero: "load32 (mem s') (t + 4 * j) = 0" if j: "unat j < 1024" for j
  proof -
    have "load32 (mem s') (t + 4 * j) = load32 z (t + 4 * j)"
      using ok(3) by (intro load32_slot_cong t(1) j zx) auto
    then show ?thesis using load32_memset_slot [where m = "mem s", OF t(1) t(1) j] by (simp add: z_def)
  qed
  have new: "PTE_ADDR (load32 (mem s') (d + 4 * PDX va)) = V2P t" "pte_present (load32 (mem s') (d + 4 * PDX va))"
    using pde [OF PDX_lt, of va] new_pde [OF ok(1)] by (simp_all add: e_def)
  have ke: "kend s' = kend s" by (simp add: s'_def)
  have old: "load32 (mem s') (d + 4 * i) = load32 (mem s) (d + 4 * i)" if "unat i < 1024" "i \<noteq> PDX va" for i
    using pde [OF that(1)] that(2) by simp
  note A = pt_add_table [OF I T PDX_lt old new zero out fp ke]
  from run ke out A show ?thesis by blast
qed

section \<open>Mapping pages\<close>

text \<open>
  What the mapping calls may do besides setting entries: take pages from the free list and make
  tables of them.
\<close>

definition grown :: "'a mem_st_scheme \<Rightarrow> 'a mem_st_scheme \<Rightarrow> u32 \<Rightarrow> u32 list \<Rightarrow> u32 list \<Rightarrow> bool" where
  "grown s s' d xs xs' \<longleftrightarrow> pt_inv s' d xs' \<and> kend s' = kend s
     \<and> (\<exists>ts. xs = ts @ xs' \<and> pt_pages (mem s') d = set ts \<union> pt_pages (mem s) d)
     \<and> (\<forall>x. page_of x \<notin> pt_pages (mem s') d \<longrightarrow> mem s' x = mem s x)"

lemma grown_refl: "pt_inv s d xs \<Longrightarrow> grown s s d xs xs"
  by (simp add: grown_def)

lemma grown_trans:
  assumes "grown s s1 d xs xs1" "grown s1 s2 d xs1 xs2"
  shows "grown s s2 d xs xs2"
proof -
  from assms(1) obtain ts where ts: "xs = ts @ xs1" "pt_pages (mem s1) d = set ts \<union> pt_pages (mem s) d"
    by (auto simp: grown_def)
  from assms(2) obtain us where us: "xs1 = us @ xs2" "pt_pages (mem s2) d = set us \<union> pt_pages (mem s1) d"
    by (auto simp: grown_def)
  have "xs = (ts @ us) @ xs2" "pt_pages (mem s2) d = set (ts @ us) \<union> pt_pages (mem s) d" using ts us by auto
  then show ?thesis using assms us(2) unfolding grown_def by (metis UnCI)
qed

lemma grown_inv: "grown s s' d xs xs' \<Longrightarrow> pt_inv s' d xs'"
  by (simp add: grown_def)

lemma walk_True:
  fixes s :: "'a mem_st_scheme"
  assumes I: "pt_inv s d xs"
  shows "xs = [] \<and> \<not> has_table (mem s) d (PDX va) \<and> walkpgdir d va True s = Ret 0 s
    \<or> (\<exists>s' xs'. walkpgdir d va True s = Ret (pgtab (mem s') d (PDX va) + 4 * PTX va) s' \<and> has_table (mem s') d (PDX va)
        \<and> grown s s' d xs xs' \<and> length xs \<le> Suc (length xs') \<and> (\<forall>x. ventry (mem s') d x = ventry (mem s) d x))"
proof (cases "has_table (mem s) d (PDX va)")
  case True
  then show ?thesis using walk_hit [of s d va True] grown_refl [OF I] le_Suc_eq by blast
next
  case False
  show ?thesis
  proof (cases xs)
    case Nil
    then show ?thesis using False walk_no_memory [OF False] pt_invD(1) [OF I] by simp
  next
    case (Cons t ys)
    from walk_alloc [OF I [unfolded Cons] False] obtain s' where
      s': "walkpgdir d va True s = Ret (t + 4 * PTX va) s'" "pt_inv s' d ys"
        "has_table (mem s') d (PDX va)" "pgtab (mem s') d (PDX va) = t"
        "\<forall>x. ventry (mem s') d x = ventry (mem s) d x" "pt_pages (mem s') d = insert t (pt_pages (mem s) d)"
        "\<forall>x. page_of x \<notin> {d, t} \<longrightarrow> mem s' x = mem s x" "kend s' = kend s" by blast
    have "d \<in> pt_pages (mem s) d" by (simp add: pt_pages_def)
    then have "grown s s' d xs ys"
      unfolding grown_def using s'(2,6,7,8) Cons by (auto intro!: exI [of _ "[t]"])
    moreover have "length xs \<le> Suc (length ys)" by (simp add: Cons)
    ultimately show ?thesis using s' by metis
  qed
qed

lemma grown_set_entry:
  assumes "pt_inv s d xs" "has_table (mem s) d (PDX va)"
  shows "grown s (s\<lparr>mem := store32 (mem s) (pgtab (mem s) d (PDX va) + 4 * PTX va) e\<rparr>) d xs xs"
proof -
  note E = set_entry [OF assms, where e = e]
  have "pgtab (mem s) d (PDX va) \<in> pt_pages (mem s) d" using assms(2) by (simp add: pt_pages_def)
  then have ne: "page_of x \<noteq> pgtab (mem s) d (PDX va)" if "page_of x \<notin> pt_pages (mem s) d" for x
    using that by metis
  have "store32 (mem s) (pgtab (mem s) d (PDX va) + 4 * PTX va) e x = mem s x" if "page_of x \<notin> pt_pages (mem s) d" for x
    using E(4) [OF ne [OF that]] by simp
  then show ?thesis unfolding grown_def using E(1,3) by simp
qed

lemma walk_nonzero:
  assumes "pt_inv s d xs" "has_table (mem s) d (PDX va)"
  shows "pgtab (mem s) d (PDX va) + 4 * PTX va \<noteq> 0"
proof
  note D = pt_invD [OF assms(1)]
  assume "pgtab (mem s) d (PDX va) + 4 * PTX va = 0"
  then have "page_of 0 = pgtab (mem s) d (PDX va)" using page_of_slot [OF D(9) [OF assms(2)] PTX_lt, of va] by simp
  then show False using page_ok_range [OF D(5) [OF assms(2)]] by (auto simp: page_of_def word_unat_eq_iff unat_PGROUNDDOWN)
qed

text \<open>The pages from \<open>a\<close> on, \<open>k\<close> after the first, and where they start.\<close>

definition in_run :: "u32 \<Rightarrow> nat \<Rightarrow> u32 \<Rightarrow> bool" where
  "in_run a k x \<longleftrightarrow> unat (page_of x - a) \<le> 4096 * k"

lemma page_of_aligned: "unat (page_of x) mod 4096 = 0"
  by (simp add: page_of_def unat_PGROUNDDOWN)

lemma page_of_page: "unat a mod 4096 = 0 \<Longrightarrow> page_of a = a"
  using page_of_add [of a 0] by simp

lemma aligned_add: "unat (a :: u32) mod 4096 = 0 \<Longrightarrow> unat b mod 4096 = 0 \<Longrightarrow> unat (a + b) mod 4096 = 0"
  by (simp add: unat_word_ariths mod_eq_0_iff_dvd dvd_mod)

lemma aligned_minus: "unat (a :: u32) mod 4096 = 0 \<Longrightarrow> unat b mod 4096 = 0 \<Longrightarrow> unat (a - b) mod 4096 = 0"
  by (simp add: unat_sub_if_size word_size mod_eq_0_iff_dvd dvd_diff_nat)

lemma in_run_0: "unat a mod 4096 = 0 \<Longrightarrow> in_run a 0 x \<longleftrightarrow> page_of x = a"
  by (auto simp: in_run_def unat_eq_zero)

lemma in_run_Suc:
  assumes "unat a mod 4096 = 0" "Suc k < 1048576"
  shows "in_run a (Suc k) x \<longleftrightarrow> page_of x = a \<or> in_run (a + PGSIZE) k x"
proof -
  let ?d = "page_of x - a"
  have al: "unat ?d mod 4096 = 0" using assms(1) page_of_aligned by (intro aligned_minus)
  have e: "page_of x - (a + PGSIZE) = ?d - PGSIZE" by simp
  show ?thesis
  proof (cases "?d = 0")
    case True
    then show ?thesis by (simp add: in_run_def)
  next
    case False
    have ge: "4096 \<le> n" if "n mod 4096 = 0" "n \<noteq> 0" for n :: nat using that by (intro leI notI) simp
    have "4096 \<le> unat ?d" using al by (rule ge) (use False in \<open>simp only: unat_eq_zero not_False_eq_True\<close>)
    then have "unat (?d - PGSIZE) = unat ?d - 4096" by (simp add: unat_sub word_le_nat_alt)
    then show ?thesis using False \<open>4096 \<le> unat ?d\<close> unfolding in_run_def e by auto
  qed
qed

lemma in_run_not_first: "unat a mod 4096 = 0 \<Longrightarrow> Suc k < 1048576 \<Longrightarrow> page_of x = a \<Longrightarrow> \<not> in_run (a + PGSIZE) k x"
  by (simp add: in_run_def)

text \<open>One round of the loop of \<^verbatim>\<open>mappages\<close>.\<close>

lemma map_round:
  fixes s :: "'a mem_st_scheme"
  assumes I: "pt_inv s d xs" and free: "\<not> pte_present (ventry (mem s) d a)"
  shows "(xs = [] \<and> mappages_loop k d a pa perm s = Ret (-1) s)
    \<or> (\<exists>s' xs'. grown s s' d xs xs' \<and> length xs \<le> Suc (length xs') \<and> (\<forall>x. ventry (mem s') d x = (if page_of x = page_of a then pa OR perm OR PTE_P else ventry (mem s) d x))
        \<and> mappages_loop k d a pa perm s = (case k of 0 \<Rightarrow> ret 0 | Suc k \<Rightarrow> mappages_loop k d (a + PGSIZE) (pa + PGSIZE) perm) s')"
proof -
  from walk_True [OF I, of a] show ?thesis
  proof (elim disjE exE conjE)
    assume "xs = []" "walkpgdir d a True s = Ret 0 s"
    then show ?thesis by (subst mappages_loop.simps) (simp add: bnd_def ret_def)
  next
    fix s1 :: "'a mem_st_scheme" and xs1
    let ?p = "pgtab (mem s1) d (PDX a) + 4 * PTX a"
    assume w: "walkpgdir d a True s = Ret ?p s1" and T: "has_table (mem s1) d (PDX a)" and g: "grown s s1 d xs xs1"
      and len: "length xs \<le> Suc (length xs1)" and v: "\<forall>x. ventry (mem s1) d x = ventry (mem s) d x"
    define s2 where "s2 = s1\<lparr>mem := store32 (mem s1) ?p (pa OR perm OR PTE_P)\<rparr>"
    have I1: "pt_inv s1 d xs1" using g by (rule grown_inv)
    have "load32 (mem s1) ?p = ventry (mem s1) d a" using T by (simp add: ventry_def)
    then have "\<not> pte_present (load32 (mem s1) ?p)" using free v by simp
    then have "mappages_loop k d a pa perm s = (case k of 0 \<Rightarrow> ret 0 | Suc k \<Rightarrow> mappages_loop k d (a + PGSIZE) (pa + PGSIZE) perm) s2"
      using w walk_nonzero [OF I1 T]
      by (subst mappages_loop.simps) (simp add: bnd_def gets_def seqp_def modify_def pte_present_def s2_def)
    moreover have "grown s s2 d xs xs1" using grown_trans [OF g grown_set_entry [OF I1 T]] by (simp add: s2_def)
    moreover have "ventry (mem s2) d x = (if page_of x = page_of a then pa OR perm OR PTE_P else ventry (mem s) d x)" for x
      using set_entry(2) [OF I1 T, where e = "pa OR perm OR PTE_P"] v by (simp add: s2_def)
    ultimately show ?thesis using len by blast
  qed
qed

definition mapped :: "memory \<Rightarrow> u32 \<Rightarrow> u32 \<Rightarrow> nat \<Rightarrow> u32 \<Rightarrow> u32 \<Rightarrow> memory \<Rightarrow> bool" where
  "mapped m d a k pa perm m' \<longleftrightarrow>
     (\<forall>x. ventry m' d x = (if in_run a k x then (pa + (page_of x - a)) OR perm OR PTE_P else ventry m d x))"

definition unmapped_rest :: "memory \<Rightarrow> u32 \<Rightarrow> u32 \<Rightarrow> nat \<Rightarrow> memory \<Rightarrow> bool" where
  "unmapped_rest m d a k m' \<longleftrightarrow> (\<forall>x. \<not> in_run a k x \<longrightarrow> ventry m' d x = ventry m d x)"

lemma mappages_loop_spec:
  fixes s :: "'a mem_st_scheme"
  assumes "pt_inv s d xs" "unat a mod 4096 = 0" "k < 1048576" "\<And>x. in_run a k x \<Longrightarrow> \<not> pte_present (ventry (mem s) d x)"
  shows "\<exists>r s' xs'. mappages_loop k d a pa perm s = Ret r s' \<and> grown s s' d xs xs'
    \<and> (r = 0 \<and> mapped (mem s) d a k pa perm (mem s') \<or> r = -1 \<and> length xs \<le> k \<and> xs' = [] \<and> unmapped_rest (mem s) d a k (mem s'))"
  using assms
proof (induction k arbitrary: s xs a pa)
  case 0
  have a: "page_of a = a" using page_of_page [OF 0(2)] .
  have "\<not> pte_present (ventry (mem s) d a)" using 0(4) [of a] in_run_0 [OF 0(2), of a] a by simp
  from map_round [OF 0(1) this, of 0 pa perm] show ?case
  proof (elim disjE exE conjE)
    assume "xs = []" "mappages_loop 0 d a pa perm s = Ret (-1) s"
    then show ?thesis using grown_refl [OF 0(1)] by (auto simp: unmapped_rest_def)
  next
    fix s' :: "'a mem_st_scheme" and xs'
    assume g: "grown s s' d xs xs'" and v: "\<forall>x. ventry (mem s') d x = (if page_of x = page_of a then pa OR perm OR PTE_P else ventry (mem s) d x)"
      and l: "mappages_loop 0 d a pa perm s = (case 0 of 0 \<Rightarrow> ret 0 | Suc k \<Rightarrow> mappages_loop k d (a + PGSIZE) (pa + PGSIZE) perm) s'"
    have "mapped (mem s) d a 0 pa perm (mem s')" using v a in_run_0 [OF 0(2)] by (simp add: mapped_def)
    then show ?thesis using g l by (auto simp: ret_def)
  qed
next
  case (Suc k)
  have a: "page_of a = a" using page_of_page [OF Suc(3)] .
  have al: "unat (a + PGSIZE) mod 4096 = 0" using Suc(3) by (intro aligned_add) simp_all
  note run = in_run_Suc [OF Suc(3,4)] and first = in_run_not_first [OF Suc(3,4)]
  have "\<not> pte_present (ventry (mem s) d a)" using Suc(5) [of a] run [of a] a by simp
  from map_round [OF Suc(2) this, of "Suc k" pa perm] show ?case
  proof (elim disjE exE conjE)
    assume "xs = []" "mappages_loop (Suc k) d a pa perm s = Ret (-1) s"
    then show ?thesis using grown_refl [OF Suc(2)] by (auto simp: unmapped_rest_def)
  next
    fix s1 :: "'a mem_st_scheme" and xs1
    assume g: "grown s s1 d xs xs1" and len: "length xs \<le> Suc (length xs1)" and v: "\<forall>x. ventry (mem s1) d x = (if page_of x = page_of a then pa OR perm OR PTE_P else ventry (mem s) d x)"
      and l: "mappages_loop (Suc k) d a pa perm s = (case Suc k of 0 \<Rightarrow> ret 0 | Suc k \<Rightarrow> mappages_loop k d (a + PGSIZE) (pa + PGSIZE) perm) s1"
    have "\<not> pte_present (ventry (mem s1) d x)" if "in_run (a + PGSIZE) k x" for x
      using that v a first [of x] Suc(5) [of x] run [of x] by auto
    from Suc.IH [OF grown_inv [OF g] al _ this, of "pa + PGSIZE"] Suc(4) obtain r s' xs' where
      r: "mappages_loop k d (a + PGSIZE) (pa + PGSIZE) perm s1 = Ret r s'" "grown s1 s' d xs1 xs'"
        "r = 0 \<and> mapped (mem s1) d (a + PGSIZE) k (pa + PGSIZE) perm (mem s') \<or> r = -1 \<and> length xs1 \<le> k \<and> xs' = [] \<and> unmapped_rest (mem s1) d (a + PGSIZE) k (mem s')"
      by auto
    have e: "pa + PGSIZE + (page_of x - (a + PGSIZE)) = pa + (page_of x - a)" for x by simp
    have "mapped (mem s) d a (Suc k) pa perm (mem s')" if m: "mapped (mem s1) d (a + PGSIZE) k (pa + PGSIZE) perm (mem s')"
      unfolding mapped_def
    proof
      fix x
      show "ventry (mem s') d x = (if in_run a (Suc k) x then (pa + (page_of x - a)) OR perm OR PTE_P else ventry (mem s) d x)"
        using m [unfolded mapped_def, rule_format, of x] v [rule_format, of x] run [of x] first [of x] a e [of x] by auto
    qed
    moreover have "unmapped_rest (mem s) d a (Suc k) (mem s')" if "unmapped_rest (mem s1) d (a + PGSIZE) k (mem s')"
      using that v run a by (simp add: unmapped_rest_def)
    ultimately show ?thesis using l r len grown_trans [OF g r(2)] by (intro exI [of _ r] exI [of _ s'] exI [of _ xs']) auto
  qed
qed

definition run_len :: "u32 \<Rightarrow> u32 \<Rightarrow> nat" where
  "run_len va n = unat (PGROUNDDOWN (va + n - 1) - PGROUNDDOWN va) div 4096"

lemma mappages_spec:
  fixes s :: "'a mem_st_scheme"
  assumes "pt_inv s d xs" "\<And>x. in_run (PGROUNDDOWN va) (run_len va n) x \<Longrightarrow> \<not> pte_present (ventry (mem s) d x)"
  shows "\<exists>r s' xs'. mappages d va n pa perm s = Ret r s' \<and> grown s s' d xs xs'
    \<and> (r = 0 \<and> mapped (mem s) d (PGROUNDDOWN va) (run_len va n) pa perm (mem s')
      \<or> r = -1 \<and> length xs \<le> run_len va n \<and> xs' = [] \<and> unmapped_rest (mem s) d (PGROUNDDOWN va) (run_len va n) (mem s'))"
proof -
  have "run_len va n < 1048576" using unat_u32_lt by (simp add: run_len_def less_mult_imp_div_less)
  moreover have "unat (PGROUNDDOWN va) mod 4096 = 0" by (simp add: unat_PGROUNDDOWN)
  ultimately show ?thesis using mappages_loop_spec [OF assms(1) _ _ assms(2), where pa = pa and perm = perm]
    by (simp add: mappages_def run_len_def Let_def)
qed

lemma or_flags_lt: "unat (p :: u32) < 4096 \<Longrightarrow> unat q < 4096 \<Longrightarrow> unat (p OR q) < 4096"
proof -
  have self: "take_bit 12 r = r" if "unat r < 4096" for r :: u32
    using that by (simp add: word_unat_eq_iff unsigned_take_bit_eq take_bit_nat_eq_self)
  assume "unat p < 4096" "unat q < 4096"
  then have "take_bit 12 (p OR q) = p OR q" by (simp only: take_bit_or self)
  then have "unat (take_bit 12 (p OR q)) = unat (p OR q)" by simp
  moreover have "unat (take_bit 12 (p OR q)) = unat (p OR q) mod 4096"
    unfolding unsigned_take_bit_eq by (simp only: take_bit_eq_mod) simp
  ultimately show ?thesis by (metis mod_less_divisor zero_less_numeral)
qed

lemma entry_parts:
  assumes "unat pa mod 4096 = 0" "unat perm < 4096"
  shows "PTE_ADDR (pa OR perm OR PTE_P) = pa" "PTE_FLAGS (pa OR perm OR PTE_P) = perm OR PTE_P" "pte_present (pa OR perm OR PTE_P)"
proof -
  have "unat (perm OR PTE_P) < 4096" using assms(2) by (intro or_flags_lt) simp_all
  then show "PTE_ADDR (pa OR perm OR PTE_P) = pa" "PTE_FLAGS (pa OR perm OR PTE_P) = perm OR PTE_P"
    using PTE_ADDR_or [OF assms(1)] by (simp_all add: or.assoc)
  show "pte_present (pa OR perm OR PTE_P)"
    by (simp add: pte_present_def bit_eq_iff) (rule exI [of _ 0], simp add: bit_simps)
qed

lemma page_of_offset: "page_of x + (x AND 0xFFF) = x"
proof -
  have "unat (page_of x) + unat (x AND 0xFFF) = unat x" by (simp add: page_of_def unat_PGROUNDDOWN unat_and_4095 [simplified])
  then show ?thesis using unat_add_nowrap32 [of "page_of x" "x AND 0xFFF"] unat_u32_lt [of x] by (simp add: word_unat_eq_iff)
qed

lemma vmap_mapped:
  assumes "mapped m d a k pa perm m'" "unat a mod 4096 = 0" "unat pa mod 4096 = 0" "unat perm < 4096"
  shows "vmap m' d x = (if in_run a k x then Some (P2V (pa + (x - a))) else vmap m d x)"
proof (cases "in_run a k x")
  case True
  have "unat (pa + (page_of x - a)) mod 4096 = 0" using assms(2,3) page_of_aligned by (intro aligned_add aligned_minus)
  then have "vmap m' d x = Some (P2V (pa + (page_of x - a)) + (x AND 0xFFF))"
    using True assms(1,4) by (simp add: vmap_ventry mapped_def entry_parts)
  moreover have "pa + (page_of x - a) + (x AND 0xFFF) = pa + (x - a)"
    using page_of_offset [of x] by (metis add.assoc add_diff_eq diff_add_eq)
  ultimately show ?thesis using True by (simp add: P2V_def add.assoc add.commute [of "2147483648"])
qed (use assms(1) in \<open>simp add: vmap_ventry mapped_def\<close>)


text \<open>A machine with two free pages, whose page at \<^verbatim>\<open>0x80200000\<close> is an empty directory.\<close>

definition two_free :: mem_st where
  "two_free = boot_mem\<lparr>mem := store32 (\<lambda>_. 0) 0x80201000 0x80202000, freelist := 0x80201000\<rparr>"

lemma two_free_mem:
  "load32 (mem two_free) 0x80201000 = 0x80202000"
  "unat a mod 4 = 0 \<Longrightarrow> a \<noteq> 0x80201000 \<Longrightarrow> load32 (mem two_free) a = 0"
  by (simp_all add: two_free_def load32_store32_other load32_def [of "\<lambda>_. 0"])

lemma pt_inv_two_free: "pt_inv two_free 0x80200000 [0x80201000, 0x80202000]"
proof -
  have "load32 (mem two_free) (0x80200000 + 4 * i) = 0" if "unat i < 1024" for i
    using slot_inj [of "0x80200000" "0x80201000" i 0] that by (intro two_free_mem slot_aligned) auto
  then have "\<not> has_table (mem two_free) 0x80200000 i" for i by (auto simp: has_table_def)
  moreover have "free_pages two_free [0x80201000, 0x80202000]"
    using two_free_mem(1) two_free_mem(2) [of "0x80202000"] by (simp add: free_pages_def page_ok_def two_free_def boot_mem_def V2P_def)
  ultimately show ?thesis by (simp add: pt_inv_def page_ok_def two_free_def boot_mem_def V2P_def)
qed


end
