(* ===== verification/Uvm.thy ===== *)
theory Uvm
  imports Paging
begin

text \<open>
  User address spaces.  \<open>asp\<close> is the invariant of a page directory with its user pages: every page
  mapped below \<^verbatim>\<open>KERNBASE\<close> lies in a frame of its own, which is neither free nor one of the tables.
  The operations of \<^verbatim>\<open>vm.c\<close> on user memory are proved over it: \<^verbatim>\<open>deallocuvm\<close> gives frames
  back and \<^verbatim>\<open>allocuvm\<close> adds zeroed ones.
\<close>

definition frame :: "memory \<Rightarrow> u32 \<Rightarrow> u32 \<Rightarrow> u32" where
  "frame m d va = P2V (PTE_ADDR (ventry m d va))"

definition upage :: "memory \<Rightarrow> u32 \<Rightarrow> u32 \<Rightarrow> bool" where
  "upage m d va \<longleftrightarrow> va < KERNBASE \<and> pte_present (ventry m d va)"

definition asp :: "'a mem_st_scheme \<Rightarrow> u32 \<Rightarrow> u32 list \<Rightarrow> bool" where
  "asp s d xs \<longleftrightarrow> pt_inv s d xs \<and> KERNBASE < kend s
     \<and> (\<forall>va. upage (mem s) d va \<longrightarrow> page_ok (kend s) (frame (mem s) d va) \<and> frame (mem s) d va \<notin> set xs
          \<and> frame (mem s) d va \<notin> pt_pages (mem s) d)
     \<and> (\<forall>va vb. upage (mem s) d va \<longrightarrow> upage (mem s) d vb \<longrightarrow> frame (mem s) d va = frame (mem s) d vb \<longrightarrow> page_of va = page_of vb)"

lemma aspD:
  assumes "asp s d xs"
  shows "pt_inv s d xs"
    and "upage (mem s) d va \<Longrightarrow> page_ok (kend s) (frame (mem s) d va)"
    and "upage (mem s) d va \<Longrightarrow> frame (mem s) d va \<notin> set xs"
    and "upage (mem s) d va \<Longrightarrow> frame (mem s) d va \<notin> pt_pages (mem s) d"
    and "upage (mem s) d va \<Longrightarrow> upage (mem s) d vb \<Longrightarrow> frame (mem s) d va = frame (mem s) d vb \<Longrightarrow> page_of va = page_of vb"
    and "KERNBASE < kend s"
  using assms unfolding asp_def by blast+

lemma ventry_page: "page_of x = page_of y \<Longrightarrow> ventry m d x = ventry m d y"
  using same_page_iff [of x y] by (simp add: ventry_def)

lemma KERNBASE_page: "page_of x = page_of y \<Longrightarrow> x < KERNBASE \<longleftrightarrow> y < KERNBASE"
proof -
  assume "page_of x = page_of y"
  then have "unat x div 4096 = unat y div 4096" by (simp add: page_of_def word_unat_eq_iff unat_PGROUNDDOWN)
  then have "unat x div 4096 < 524288 \<longleftrightarrow> unat y div 4096 < 524288" by simp
  then show ?thesis by (simp add: word_less_nat_alt div_less_iff_less_mult)
qed

lemma upage_page: "page_of x = page_of y \<Longrightarrow> upage m d x = upage m d y"
  using ventry_page [of x y m d] KERNBASE_page [of x y] by (simp add: upage_def)

lemma frame_page: "page_of x = page_of y \<Longrightarrow> frame m d x = frame m d y"
  using ventry_page [of x y m d] by (simp add: frame_def)

text \<open>The pages an address space owns.\<close>

definition asp_pages :: "memory \<Rightarrow> u32 \<Rightarrow> u32 set" where
  "asp_pages m d = pt_pages m d \<union> frame m d ` {va. upage m d va}"

lemma pt_pages_free: "pt_inv s d xs \<Longrightarrow> p \<in> pt_pages (mem s) d \<Longrightarrow> p \<notin> set xs \<and> page_ok (kend s) p"
  using pt_invD [of s d xs] by (auto simp: pt_pages_def)

lemma asp_pages_free: "asp s d xs \<Longrightarrow> p \<in> asp_pages (mem s) d \<Longrightarrow> p \<notin> set xs \<and> page_ok (kend s) p"
  unfolding asp_pages_def using pt_pages_free [OF aspD(1), of s d xs p] aspD(2,3) [of s d xs] by blast

text \<open>Tables and address spaces are not affected by changes to pages they do not own.\<close>

lemma pt_inv_other:
  assumes I: "pt_inv s d xs" and m: "\<forall>x. page_of x \<in> pt_pages (mem s) d \<longrightarrow> mem s' x = mem s x"
    and k: "kend s' = kend s" and f: "free_pages s' xs'" and sub: "set xs' \<inter> pt_pages (mem s) d = {}"
  shows "pt_inv s' d xs'" "ventry (mem s') d = ventry (mem s) d" "pt_pages (mem s') d = pt_pages (mem s) d"
    "\<And>i. has_table (mem s') d i = has_table (mem s) d i" "\<And>i. has_table (mem s) d i \<Longrightarrow> pgtab (mem s') d i = pgtab (mem s) d i"
proof -
  note D = pt_invD [OF I]
  have dp: "mem s' x = mem s x" if "page_of x = d" for x using m that by (simp add: pt_pages_def)
  show "ventry (mem s') d = ventry (mem s) d" using ventry_cong [OF I] m by blast
  show "pt_pages (mem s') d = pt_pages (mem s) d" using pt_pages_cong [OF D(4) dp] .
  show h: "has_table (mem s') d i = has_table (mem s) d i" for i using pt_cong(1) [OF D(4) dp] .
  show g: "pgtab (mem s') d i = pgtab (mem s) d i" if "has_table (mem s) d i" for i
    by (rule pt_cong(2) [OF D(4) dp has_table_lt [OF that]])
  have t: "pgtab (mem s) d i \<notin> set xs'" if "has_table (mem s) d i" for i
    using sub that by (auto simp: pt_pages_def)
  have "d \<notin> set xs'" using sub by (auto simp: pt_pages_def)
  then show "pt_inv s' d xs'" unfolding pt_inv_def h k using D(2,5,6,8) f t g by auto
qed

lemma asp_other:
  assumes A: "asp s d xs" and m: "\<forall>x. page_of x \<in> pt_pages (mem s) d \<longrightarrow> mem s' x = mem s x"
    and k: "kend s' = kend s" and f: "free_pages s' xs'" and sub: "set xs' \<inter> asp_pages (mem s) d = {}"
  shows "asp s' d xs'" "ventry (mem s') d = ventry (mem s) d" "pt_pages (mem s') d = pt_pages (mem s) d"
    "asp_pages (mem s') d = asp_pages (mem s) d" "upage (mem s') d = upage (mem s) d" "frame (mem s') d = frame (mem s) d"
proof -
  have "set xs' \<inter> pt_pages (mem s) d = {}" using sub by (auto simp: asp_pages_def)
  note P = pt_inv_other [OF aspD(1) [OF A] m k f this]
  show v: "ventry (mem s') d = ventry (mem s) d" and p: "pt_pages (mem s') d = pt_pages (mem s) d" by (fact P(2), fact P(3))
  show u: "upage (mem s') d = upage (mem s) d" and fr: "frame (mem s') d = frame (mem s) d"
    by (auto simp: upage_def frame_def v fun_eq_iff)
  show "asp_pages (mem s') d = asp_pages (mem s) d" by (simp add: asp_pages_def p u fr)
  have "frame (mem s) d va \<notin> set xs'" if "upage (mem s) d va" for va
    using sub that by (auto simp: asp_pages_def)
  then show "asp s' d xs'" unfolding asp_def u fr p k using aspD(2,4,5,6) [OF A] P(1) by blast
qed

section \<open>Giving a page back\<close>

lemma asp_free_page:
  fixes s :: "'a mem_st_scheme"
  assumes A: "asp s d xs" and U: "upage (mem s) d a"
  defines "f \<equiv> frame (mem s) d a"
  shows "\<exists>s1 s'. kfree f s = Ret () s1 \<and> s' = s1\<lparr>mem := store32 (mem s1) (pgtab (mem s) d (PDX a) + 4 * PTX a) 0\<rparr>
      \<and> asp s' d (f # xs) \<and> (\<forall>x. ventry (mem s') d x = (if page_of x = page_of a then 0 else ventry (mem s) d x))
      \<and> pt_pages (mem s') d = pt_pages (mem s) d \<and> kend s' = kend s
      \<and> (\<forall>x. page_of x \<notin> insert f (pt_pages (mem s) d) \<longrightarrow> mem s' x = mem s x)"
proof -
  note I = aspD(1) [OF A] and D = pt_invD [OF aspD(1) [OF A]]
  have f: "page_ok (kend s) f" "f \<notin> set xs" "f \<notin> pt_pages (mem s) d" using aspD(2,3,4) [OF A U] by (auto simp: f_def)
  obtain s1 where s1: "kfree f s = Ret () s1" "free_pages s1 (f # xs)" "kend s1 = kend s" "\<forall>x. page_of x \<noteq> f \<longrightarrow> mem s1 x = mem s x"
    using kfree_pages [OF D(1) f(1,2)] by blast
  have m1: "\<forall>x. page_of x \<in> pt_pages (mem s) d \<longrightarrow> mem s1 x = mem s x" using s1(4) f(3) by metis
  have "set (f # xs) \<inter> pt_pages (mem s) d = {}" using f(3) pt_pages_free [OF I] by auto
  note P = pt_inv_other [OF I m1 s1(3,2) this]
  have T: "has_table (mem s) d (PDX a)" using U by (auto simp: upage_def ventry_def split: if_splits)
  have T1: "has_table (mem s1) d (PDX a)" using T P(4) by simp
  have tab: "pgtab (mem s1) d (PDX a) = pgtab (mem s) d (PDX a)" using P(5) [OF T] .
  define s' where "s' = s1\<lparr>mem := store32 (mem s1) (pgtab (mem s) d (PDX a) + 4 * PTX a) 0\<rparr>"
  note E = set_entry [OF P(1) T1, where e = 0, unfolded tab, folded s'_def]
  have v: "ventry (mem s') d x = (if page_of x = page_of a then 0 else ventry (mem s) d x)" for x using E(2) P(2) by simp
  have u: "upage (mem s') d x \<longleftrightarrow> upage (mem s) d x \<and> page_of x \<noteq> page_of a" for x by (auto simp: upage_def v)
  have fr: "frame (mem s') d x = frame (mem s) d x" if "upage (mem s') d x" for x using that u by (simp add: frame_def v)
  have p: "pt_pages (mem s') d = pt_pages (mem s) d" using E(3) P(3) by simp
  have k: "kend s' = kend s" using s1(3) by (simp add: s'_def)
  have "asp s' d (f # xs)"
    unfolding asp_def p k
  proof (intro conjI allI impI)
    show "pt_inv s' d (f # xs)" using E(1) .
    show "KERNBASE < kend s" using aspD(6) [OF A] .
    fix va assume va: "upage (mem s') d va"
    then have o: "upage (mem s) d va" "page_of va \<noteq> page_of a" using u by auto
    show "page_ok (kend s) (frame (mem s') d va)" "frame (mem s') d va \<notin> pt_pages (mem s) d"
      using aspD(2,4) [OF A o(1)] fr [OF va] by simp_all
    show "frame (mem s') d va \<notin> set (f # xs)"
      using aspD(3) [OF A o(1)] aspD(5) [OF A o(1) U] o(2) fr [OF va] by (auto simp: f_def)
    fix vb assume vb: "upage (mem s') d vb" "frame (mem s') d va = frame (mem s') d vb"
    then show "page_of va = page_of vb" using aspD(5) [OF A o(1)] u fr [OF va] fr [OF vb(1)] by metis
  qed
  moreover have "mem s' x = mem s x" if "page_of x \<notin> insert f (pt_pages (mem s) d)" for x
    using that E(4) [of x] s1(4) T by (auto simp: pt_pages_def)
  ultimately show ?thesis using s1(1) v p k s'_def by (intro exI [of _ s1] exI [of _ s']) blast
qed

section \<open>Freeing a range\<close>

definition in_range :: "u32 \<Rightarrow> u32 \<Rightarrow> u32 \<Rightarrow> bool" where
  "in_range a b x \<longleftrightarrow> unat a \<le> unat (page_of x) \<and> unat (page_of x) < unat b"

text \<open>What freeing the user pages between \<open>a\<close> and \<open>b\<close> does; \<open>ys\<close> are the frames given back.\<close>

definition freed :: "'a mem_st_scheme \<Rightarrow> 'a mem_st_scheme \<Rightarrow> u32 \<Rightarrow> u32 list \<Rightarrow> u32 list \<Rightarrow> u32 \<Rightarrow> u32 \<Rightarrow> bool" where
  "freed s s' d xs ys a b \<longleftrightarrow> asp s' d (ys @ xs) \<and> kend s' = kend s \<and> pt_pages (mem s') d = pt_pages (mem s) d
     \<and> set ys = frame (mem s) d ` {x. upage (mem s) d x \<and> in_range a b x}
     \<and> (\<forall>x. ventry (mem s') d x = (if pte_present (ventry (mem s) d x) \<and> in_range a b x then 0 else ventry (mem s) d x))
     \<and> (\<forall>x. page_of x \<notin> set ys \<union> pt_pages (mem s) d \<longrightarrow> mem s' x = mem s x)"

lemma freed_none:
  assumes "asp s d xs" "\<And>x. in_range a b x \<Longrightarrow> \<not> pte_present (ventry (mem s) d x)"
  shows "freed s s d xs [] a b"
  using assms by (auto simp: freed_def upage_def)

lemma freed_split:
  assumes F: "freed s s1 d xs ys a c" and G: "freed s1 s2 d (ys @ xs) zs c b" and le: "unat a \<le> unat c" "unat c \<le> unat b"
  shows "freed s s2 d xs (zs @ ys) a b"
proof -
  have r: "in_range a b x \<longleftrightarrow> in_range a c x \<or> in_range c b x" "\<not> (in_range a c x \<and> in_range c b x)" for x
    using le by (auto simp: in_range_def)
  have v1: "ventry (mem s1) d x = (if pte_present (ventry (mem s) d x) \<and> in_range a c x then 0 else ventry (mem s) d x)" for x
    using F by (simp add: freed_def)
  have v2: "ventry (mem s2) d x = (if pte_present (ventry (mem s1) d x) \<and> in_range c b x then 0 else ventry (mem s1) d x)" for x
    using G by (simp add: freed_def)
  have "upage (mem s1) d x \<longleftrightarrow> upage (mem s) d x" "frame (mem s1) d x = frame (mem s) d x" if "in_range c b x" for x
    using v1 [of x] r(2) [of x] that by (auto simp: upage_def frame_def)
  then have "frame (mem s1) d ` {x. upage (mem s1) d x \<and> in_range c b x} = frame (mem s) d ` {x. upage (mem s) d x \<and> in_range c b x}"
    by (auto simp: image_iff)
  moreover have "{x. upage (mem s) d x \<and> in_range a b x} = {x. upage (mem s) d x \<and> in_range a c x} \<union> {x. upage (mem s) d x \<and> in_range c b x}"
    using r(1) by auto
  ultimately have "set (zs @ ys) = frame (mem s) d ` {x. upage (mem s) d x \<and> in_range a b x}"
    using F G by (simp add: freed_def image_Un Un_commute)
  moreover have "ventry (mem s2) d x = (if pte_present (ventry (mem s) d x) \<and> in_range a b x then 0 else ventry (mem s) d x)" for x
    using v1 [of x] v2 [of x] r [of x] by auto
  moreover have "mem s2 x = mem s x" if "page_of x \<notin> set (zs @ ys) \<union> pt_pages (mem s) d" for x
  proof -
    have "mem s2 x = mem s1 x" using F G that unfolding freed_def by simp
    also have "\<dots> = mem s x" using F that unfolding freed_def by simp
    finally show ?thesis .
  qed
  moreover have "asp s2 d ((zs @ ys) @ xs)" "kend s2 = kend s" "pt_pages (mem s2) d = pt_pages (mem s) d"
    using F G unfolding freed_def by simp_all
  ultimately show ?thesis unfolding freed_def by blast
qed

text \<open>The skip to the next table.\<close>

lemma unat_next_table:
  assumes "unat a < 2147483648"
  shows "unat (PGADDR (PDX a + 1) 0 0 - PGSIZE + PGSIZE) = (unat a div 4194304 + 1) * 4194304"
proof -
  have lt: "unat a div 4194304 < 512" using assms by (simp add: less_mult_imp_div_less)
  then have "unat (PDX a + 1) = unat a div 4194304 + 1" using unat_add_nowrap32 [of "PDX a" 1] by (simp add: unat_PDX)
  moreover have w: "unat (w * 4194304) = unat w * 4194304" if "unat w * 4194304 < 4294967296" for w :: u32
    using that by (simp add: unat_word_ariths)
  have "unat ((PDX a + 1) * 4194304) = unat (PDX a + 1) * 4194304" by (rule w) (use calculation lt in simp)
  ultimately have "unat ((PDX a + 1) * 4194304) = (unat a div 4194304 + 1) * 4194304" by (simp only:)
  moreover have "PGADDR (PDX a + 1) 0 0 - PGSIZE + PGSIZE = (PDX a + 1) * 4194304" by (simp add: PGADDR_def push_bit_eq_mult)
  ultimately show ?thesis by (simp only:)
qed

lemma same_table:
  assumes "unat a \<le> unat x" "unat x < (unat a div 4194304 + 1) * 4194304"
  shows "PDX x = PDX a"
proof -
  have "unat x div 4194304 < unat a div 4194304 + 1" using assms(2) by (rule less_mult_imp_div_less)
  moreover have "unat a div 4194304 \<le> unat x div 4194304" using assms(1) by (rule div_le_mono)
  ultimately show ?thesis by (simp add: word_unat_eq_iff unat_PDX)
qed

lemma unat_page_of: "unat (page_of x) \<le> unat x" "unat x < unat (page_of x) + 4096"
  using nat_page_iff [of "unat x div 4096 * 4096" "unat x"] by (simp_all add: page_of_def unat_PGROUNDDOWN)

lemma frame_image:
  assumes "page_of a = a" "upage m d a"
  shows "frame m d ` {x. upage m d x \<and> page_of x = a} = {frame m d a}"
proof -
  have "frame m d x = frame m d a" if "page_of x = a" for x using frame_page [of x a m d] that assms(1) by simp
  then show ?thesis using assms by blast
qed

lemma entry_addr_nonzero:
  assumes "asp s d xs" "upage (mem s) d a"
  shows "PTE_ADDR (ventry (mem s) d a) \<noteq> 0"
proof
  assume "PTE_ADDR (ventry (mem s) d a) = 0"
  then have "frame (mem s) d a = KERNBASE" by (simp add: frame_def P2V_def)
  then have "kend s \<le> KERNBASE" using aspD(2) [OF assms] by (simp add: page_ok_def)
  then show False using aspD(6) [OF assms(1)] by simp
qed

lemma dealloc_loop_spec:
  fixes s :: "'a mem_st_scheme"
  assumes "asp s d xs" "unat a mod 4096 = 0" "unat b \<le> 2147483648" "unat b \<le> unat a + 4096 * k"
  shows "\<exists>s' ys. deallocuvm_loop (Suc k) d a b s = Ret () s' \<and> freed s s' d xs ys a b"
  using assms
proof (induction k arbitrary: s xs a)
  case 0
  then have "\<not> a < b" by (simp add: word_less_nat_alt)
  moreover have "freed s s d xs [] a b" using 0 by (intro freed_none) (auto simp: in_range_def)
  ultimately show ?case by (auto simp: deallocuvm_loop.simps ret_def)
next
  case (Suc k)
  note A = Suc.prems(1)
  show ?case
  proof (cases "a < b")
    case False
    moreover from this have "freed s s d xs [] a b" using A by (intro freed_none) (auto simp: in_range_def word_less_nat_alt)
    ultimately show ?thesis by (auto simp: deallocuvm_loop.simps ret_def)
  next
    case True
    then have lt: "unat a < unat b" "unat a < 2147483648" using Suc.prems(3) by (auto simp: word_less_nat_alt)
    have a: "page_of a = a" using Suc.prems(2) by (rule page_of_page)
    have step: "\<exists>s' ys. deallocuvm_loop (Suc k) d c b s1 = Ret () s' \<and> freed s s' d xs ys a b"
      if F: "freed s s1 d xs zs a (if unat c \<le> unat b then c else b)" and c: "unat c mod 4096 = 0" "unat a + 4096 \<le> unat c" for s1 zs c
    proof (cases "unat c \<le> unat b")
      case True
      then have F: "freed s s1 d xs zs a c" using F by simp
      then have "asp s1 d (zs @ xs)" by (simp add: freed_def)
      then obtain s' ys where "deallocuvm_loop (Suc k) d c b s1 = Ret () s'" "freed s1 s' d (zs @ xs) ys c b"
        using Suc.IH [of s1 "zs @ xs" c] Suc.prems(3,4) c by auto
      then show ?thesis using freed_split [OF F _ _ True] c(2) by auto
    next
      case False
      then have "\<not> c < b" by (simp add: word_less_nat_alt)
      then show ?thesis using F False by (auto simp: deallocuvm_loop.simps ret_def)
    qed
    have next_page: "unat (a + PGSIZE) = unat a + 4096" "unat (a + PGSIZE) mod 4096 = 0"
      using lt(2) Suc.prems(2) unat_add_nowrap32 [of a PGSIZE] by simp_all
    have page: "in_range a (if unat (a + PGSIZE) \<le> unat b then a + PGSIZE else b) x \<longleftrightarrow> page_of x = a" for x
    proof -
      have "unat (page_of x) div 4096 * 4096 = unat (page_of x)" using page_of_aligned [of x] by (metis minus_mod_eq_div_mult diff_zero)
      then have "unat a \<le> unat (page_of x) \<and> unat (page_of x) < unat a + 4096 \<longleftrightarrow> page_of x = a"
        using nat_page_iff [OF Suc.prems(2), of "unat (page_of x)"] by (auto simp: word_unat_eq_iff)
      then show ?thesis using lt(1) next_page(1) by (auto simp: in_range_def)
    qed
    show ?thesis
    proof (cases "has_table (mem s) d (PDX a)")
      case False
      define c where "c = PGADDR (PDX a + 1) 0 0 - PGSIZE + PGSIZE"
      have c: "unat c = (unat a div 4194304 + 1) * 4194304" using unat_next_table [OF lt(2)] by (simp add: c_def)
      have "\<not> pte_present (ventry (mem s) d x)" if "in_range a (if unat c \<le> unat b then c else b) x" for x
      proof -
        have "PDX (page_of x) = PDX a" using that c by (intro same_table) (auto simp: in_range_def split: if_splits)
        then have "PDX x = PDX a" using same_page_iff [of x "page_of x"] page_of_page [OF page_of_aligned, of x] by simp
        then show ?thesis using False by (simp add: ventry_def)
      qed
      then have F: "freed s s d xs [] a (if unat c \<le> unat b then c else b)" by (rule freed_none [OF A])
      have c4: "unat c mod 4096 = 0" by (simp add: c mod_eq_0_iff_dvd)
      have "unat a < (unat a div 4194304 + 1) * 1024 * 4096"
        using dividend_less_div_times [of 4194304 "unat a"] by simp
      from nat_page_top [OF Suc.prems(2) this] have "unat a + 4096 \<le> unat c" by (simp add: c)
      then obtain s' ys where "deallocuvm_loop (Suc k) d c b s = Ret () s'" "freed s s' d xs ys a b"
        using step [OF F c4] by auto
      moreover have "deallocuvm_loop (Suc (Suc k)) d a b s = deallocuvm_loop (Suc k) d c b s"
        using True walk_miss [OF False] by (subst deallocuvm_loop.simps) (simp add: bnd_def c_def)
      ultimately show ?thesis by auto
    next
      case T: True
      have w: "walkpgdir d a False s = Ret (pgtab (mem s) d (PDX a) + 4 * PTX a) s" using walk_hit [OF T] .
      have e: "load32 (mem s) (pgtab (mem s) d (PDX a) + 4 * PTX a) = ventry (mem s) d a" using T by (simp add: ventry_def)
      have nz: "pgtab (mem s) d (PDX a) + 4 * PTX a \<noteq> 0" using walk_nonzero [OF aspD(1) [OF A] T] .
      show ?thesis
      proof (cases "pte_present (ventry (mem s) d a)")
        case False
        have "freed s s d xs [] a (if unat (a + PGSIZE) \<le> unat b then a + PGSIZE else b)"
        proof (rule freed_none [OF A])
          show "\<not> pte_present (ventry (mem s) d x)" if "in_range a (if unat (a + PGSIZE) \<le> unat b then a + PGSIZE else b) x" for x
            using that False page [of x] ventry_page [of x a "mem s" d] a by simp
        qed
        from step [OF this next_page(2)] next_page(1)
        obtain s' ys where "deallocuvm_loop (Suc k) d (a + PGSIZE) b s = Ret () s'" "freed s s' d xs ys a b" by auto
        moreover have "deallocuvm_loop (Suc (Suc k)) d a b s = deallocuvm_loop (Suc k) d (a + PGSIZE) b s"
          using True w e nz False by (subst deallocuvm_loop.simps) (simp add: bnd_def gets_def pte_present_def)
        ultimately show ?thesis by auto
      next
        case P: True
        have U: "upage (mem s) d a" using P lt(2) by (simp add: upage_def word_less_nat_alt)
        let ?f = "frame (mem s) d a"
        obtain s1 s2 where s1: "kfree ?f s = Ret () s1" and s2: "s2 = s1\<lparr>mem := store32 (mem s1) (pgtab (mem s) d (PDX a) + 4 * PTX a) 0\<rparr>"
          and S: "asp s2 d (?f # xs)" "\<forall>x. ventry (mem s2) d x = (if page_of x = page_of a then 0 else ventry (mem s) d x)"
          "pt_pages (mem s2) d = pt_pages (mem s) d" "kend s2 = kend s"
          "\<forall>x. page_of x \<notin> insert ?f (pt_pages (mem s) d) \<longrightarrow> mem s2 x = mem s x"
          using asp_free_page [OF A U] by (elim exE conjE)
        have img: "frame (mem s) d ` {x. upage (mem s) d x \<and> page_of x = a} = {?f}" using frame_image [OF a U] .
        have "ventry (mem s2) d x = (if pte_present (ventry (mem s) d x) \<and> page_of x = a then 0 else ventry (mem s) d x)" for x
          using S(2) a P ventry_page [of x a "mem s" d] by simp
        then have "freed s s2 d xs [?f] a (if unat (a + PGSIZE) \<le> unat b then a + PGSIZE else b)"
          unfolding freed_def page img using S(1,3,4,5) by simp
        from step [OF this next_page(2)] next_page(1)
        obtain s' ys where "deallocuvm_loop (Suc k) d (a + PGSIZE) b s2 = Ret () s'" "freed s s' d xs ys a b" by auto
        moreover have "deallocuvm_loop (Suc (Suc k)) d a b s = deallocuvm_loop (Suc k) d (a + PGSIZE) b s2"
          using True w e nz P s1 entry_addr_nonzero [OF A U]
          by (subst deallocuvm_loop.simps) (simp add: bnd_def gets_def pte_present_def frame_def seqp_def modify_def s2)
        ultimately show ?thesis by auto
      qed
    qed
  qed
qed

lemma deallocuvm_spec:
  fixes s :: "'a mem_st_scheme"
  assumes "asp s d xs" "new < old" "unat old \<le> 2147483648"
  shows "\<exists>s' ys. deallocuvm d old new s = Ret new s' \<and> freed s s' d xs ys (PGROUNDUP new) old"
proof -
  have n: "unat new \<le> 2147483648" using assms(2,3) by (simp add: word_less_nat_alt)
  then have al: "unat (PGROUNDUP new) mod 4096 = 0" by (simp add: PGROUNDUP_bounds(1))
  have le: "unat old \<le> unat (PGROUNDUP new) + 4096 * 1048576" using assms(3) by linarith
  obtain s' ys where r: "deallocuvm_loop (Suc 1048576) d (PGROUNDUP new) old s = Ret () s'" and F: "freed s s' d xs ys (PGROUNDUP new) old"
    using dealloc_loop_spec [OF assms(1) al assms(3) le] by blast
  have n: "1048577 = Suc 1048576" by simp
  have "\<not> old \<le> new" using assms(2) by simp
  then have "deallocuvm d old new s = Ret new s'" by (simp only: deallocuvm_def n if_False seqp_def bnd_def ret_def r outcome.case)
  then show ?thesis using F by blast
qed

section \<open>Adding a page\<close>

lemma map_one:
  fixes s :: "'a mem_st_scheme"
  assumes I: "pt_inv s d xs" and a: "unat a mod 4096 = 0" and free: "\<not> pte_present (ventry (mem s) d a)"
  shows "(xs = [] \<and> mappages d a PGSIZE pa perm s = Ret (-1) s)
    \<or> (\<exists>s' xs'. mappages d a PGSIZE pa perm s = Ret 0 s' \<and> grown s s' d xs xs' \<and> length xs \<le> Suc (length xs')
        \<and> (\<forall>x. ventry (mem s') d x = (if page_of x = a then pa OR perm OR PTE_P else ventry (mem s) d x)))"
proof -
  have pa: "page_of a = a" using a by (rule page_of_page)
  have "page_of (a + 4095) = a" using a by (intro page_of_add) simp_all
  then have "PGROUNDDOWN (a + PGSIZE - 1) = a" "PGROUNDDOWN a = a" using pa by (simp_all add: page_of_def add.commute)
  then have "mappages d a PGSIZE pa perm s = mappages_loop 0 d a pa perm s" by (simp add: mappages_def)
  then show ?thesis using map_round [OF I free, of 0 pa perm] pa by (auto simp: ret_def)
qed

lemma V2P_aligned: "page_ok k p \<Longrightarrow> unat (V2P p) mod 4096 = 0"
proof -
  assume "page_ok k p"
  note r = page_ok_range [OF this]
  then have "unat (V2P p) = unat p - 2147483648" by (auto simp: V2P_def unat_sub_if_size word_size)
  then show ?thesis using r by (simp add: mod_eq_0_iff_dvd dvd_diff_nat)
qed

lemma asp_map_page:
  fixes s s0 :: "'a mem_st_scheme"
  assumes A: "asp s d (p # xs)" and a: "unat a mod 4096 = 0" "a < KERNBASE" and free: "\<not> pte_present (ventry (mem s) d a)"
    and perm: "unat perm < 4096" and m: "\<forall>x. page_of x \<noteq> p \<longrightarrow> mem s0 x = mem s x" and k: "kend s0 = kend s" and f: "free_pages s0 xs"
  shows "(xs = [] \<and> mappages d a PGSIZE (V2P p) perm s0 = Ret (-1) s0 \<and> asp s0 d [] \<and> ventry (mem s0) d = ventry (mem s) d)
    \<or> (\<exists>s' ts xs'. mappages d a PGSIZE (V2P p) perm s0 = Ret 0 s' \<and> asp s' d xs' \<and> xs = ts @ xs' \<and> length xs \<le> Suc (length xs')
        \<and> pt_pages (mem s') d = set ts \<union> pt_pages (mem s) d \<and> kend s' = kend s
        \<and> (\<forall>x. ventry (mem s') d x = (if page_of x = a then V2P p OR perm OR PTE_P else ventry (mem s) d x))
        \<and> frame (mem s') d a = p \<and> (\<forall>x. page_of x \<notin> set ts \<union> pt_pages (mem s) d \<longrightarrow> mem s' x = mem s0 x))"
proof -
  have fp: "distinct (p # xs)" "page_ok (kend s) p" using pt_invD(1) [OF aspD(1) [OF A]] by (auto simp: free_pages_def)
  have disj: "q \<notin> set (p # xs)" if "q \<in> asp_pages (mem s) d" for q using asp_pages_free [OF A that] by blast
  have p: "p \<notin> asp_pages (mem s) d" using disj by auto
  have m0: "\<forall>x. page_of x \<in> pt_pages (mem s) d \<longrightarrow> mem s0 x = mem s x" using m p by (auto simp: asp_pages_def)
  have "set xs \<inter> asp_pages (mem s) d = {}" using disj by fastforce
  note O = asp_other [OF A m0 k f this]
  have pa: "page_of a = a" using a(1) by (rule page_of_page)
  have free0: "\<not> pte_present (ventry (mem s0) d a)" using free O(2) by simp
  from map_one [OF aspD(1) [OF O(1)] a(1) free0, of "V2P p" perm] show ?thesis
  proof (elim disjE exE conjE)
    assume "xs = []" "mappages d a PGSIZE (V2P p) perm s0 = Ret (-1) s0"
    then show ?thesis using O(1,2) by simp
  next
    fix s' :: "'a mem_st_scheme" and xs'
    assume r: "mappages d a PGSIZE (V2P p) perm s0 = Ret 0 s'" and g: "grown s0 s' d xs xs'" and len: "length xs \<le> Suc (length xs')"
      and v: "\<forall>x. ventry (mem s') d x = (if page_of x = a then V2P p OR perm OR PTE_P else ventry (mem s0) d x)"
    from g obtain ts where ts: "xs = ts @ xs'" "pt_pages (mem s') d = set ts \<union> pt_pages (mem s) d" using O(3) by (auto simp: grown_def)
    have out: "\<forall>x. page_of x \<notin> set ts \<union> pt_pages (mem s) d \<longrightarrow> mem s' x = mem s0 x" "kend s' = kend s" "pt_inv s' d xs'"
      using g k ts(2) by (auto simp: grown_def)
    note e = entry_parts [OF V2P_aligned [OF fp(2)] perm]
    have fa: "frame (mem s') d x = p" if "page_of x = a" for x using v e(1) that by (simp add: frame_def)
    have old: "frame (mem s') d x = frame (mem s) d x" "upage (mem s') d x \<longleftrightarrow> upage (mem s) d x" if "page_of x \<noteq> a" for x
      using v O(2) that by (auto simp: frame_def upage_def)
    have own: "frame (mem s) d x \<in> asp_pages (mem s) d" if "upage (mem s) d x" for x using that by (auto simp: asp_pages_def)
    have "asp s' d xs'"
      unfolding asp_def out(2) ts(2)
    proof (intro conjI allI impI)
      show "pt_inv s' d xs'" by (fact out(3))
      show "KERNBASE < kend s" using aspD(6) [OF A] .
      fix va assume va: "upage (mem s') d va"
      show "page_ok (kend s) (frame (mem s') d va)"
        using va fa [of va] old [of va] fp(2) aspD(2) [OF A, of va] by (cases "page_of va = a") simp_all
      show "frame (mem s') d va \<notin> set xs'" "frame (mem s') d va \<notin> set ts \<union> pt_pages (mem s) d"
        using va fa [of va] old [of va] fp(1) aspD(3,4) [OF A, of va] p ts(1) by (cases "page_of va = a"; auto simp: asp_pages_def)+
      fix vb assume vb: "upage (mem s') d vb" "frame (mem s') d va = frame (mem s') d vb"
      show "page_of va = page_of vb"
        using va vb fa [of va] fa [of vb] old [of va] old [of vb] own [of va] own [of vb] p aspD(5) [OF A, of va vb]
        by (cases "page_of va = a"; cases "page_of vb = a") auto
    qed
    then show ?thesis using r ts out(1,2) len v O(2) fa [OF pa]
      by (intro disjI2 exI [of _ s'] exI [of _ ts] exI [of _ xs']) simp
  qed
qed

section \<open>Address spaces of a size\<close>

definition ru :: "u32 \<Rightarrow> nat" where
  "ru sz = (unat sz + 4095) div 4096 * 4096"

text \<open>The address space of a process of size \<open>sz\<close>: exactly the pages below it are mapped.\<close>

definition uvm :: "'a mem_st_scheme \<Rightarrow> u32 \<Rightarrow> u32 \<Rightarrow> u32 list \<Rightarrow> bool" where
  "uvm s d sz xs \<longleftrightarrow> asp s d xs \<and> unat sz \<le> 2147483648 \<and> (\<forall>va. upage (mem s) d va \<longleftrightarrow> unat va < ru sz)"

definition ubyte :: "memory \<Rightarrow> u32 \<Rightarrow> u32 \<Rightarrow> u8" where
  "ubyte m d va = m (frame m d va + (va AND 0xFFF))"

definition same_below :: "memory \<Rightarrow> memory \<Rightarrow> u32 \<Rightarrow> nat \<Rightarrow> bool" where
  "same_below m m' d n \<longleftrightarrow> (\<forall>va. unat va < n \<longrightarrow> ventry m' d va = ventry m d va \<and> ubyte m' d va = ubyte m d va)"

lemma vmap_ubyte: "upage m d va \<Longrightarrow> \<exists>ka. vmap m d va = Some ka \<and> m ka = ubyte m d va"
  by (simp add: vmap_ventry upage_def ubyte_def frame_def)

lemma same_below_refl: "same_below m m d n"
  by (simp add: same_below_def)

lemma same_below_trans: "same_below m m1 d n \<Longrightarrow> same_below m1 m2 d n' \<Longrightarrow> n \<le> n' \<Longrightarrow> same_below m m2 d n"
  by (simp add: same_below_def)

lemma same_below_mono: "same_below m m' d n \<Longrightarrow> n' \<le> n \<Longrightarrow> same_below m m' d n'"
  by (simp add: same_below_def)

lemma uvmD:
  assumes "uvm s d sz xs"
  shows "asp s d xs" "unat sz \<le> 2147483648" "upage (mem s) d va \<longleftrightarrow> unat va < ru sz"
  using assms by (auto simp: uvm_def)

lemma page_of_frame: "asp s d xs \<Longrightarrow> upage (mem s) d va \<Longrightarrow> page_of (frame (mem s) d va + (va AND 0xFFF)) = frame (mem s) d va"
  using page_ok_aligned [OF aspD(2)] by (intro page_of_add) (simp_all add: unat_and_4095 [simplified])

lemma ubyte_same:
  assumes "asp s d xs" "upage (mem s) d va" "ventry m' d va = ventry (mem s) d va"
    and "\<forall>x. page_of x = frame (mem s) d va \<longrightarrow> m' x = mem s x"
  shows "ubyte m' d va = ubyte (mem s) d va"
  using page_of_frame [OF assms(1,2)] assms(3,4) by (simp add: ubyte_def frame_def)

lemma ru_aligned: "unat a mod 4096 = 0 \<Longrightarrow> ru a = unat a"
proof -
  assume "unat a mod 4096 = 0"
  then obtain k where "unat a = 4096 * k" by (auto simp: mod_eq_0_iff_dvd)
  then show ?thesis by (simp add: ru_def)
qed

lemma unat_PGROUNDUP_ru: "unat sz \<le> 2147483648 \<Longrightarrow> unat (PGROUNDUP sz) = ru sz"
  by (simp add: unat_PGROUNDUP ru_def)

lemma ru_ge: "unat sz \<le> ru sz" "ru sz mod 4096 = 0"
proof -
  have "unat sz + 4095 < ru sz + 4096" using dividend_less_div_times [of 4096 "unat sz + 4095"] by (simp add: ru_def)
  then show "unat sz \<le> ru sz" by simp
  show "ru sz mod 4096 = 0" by (simp add: ru_def)
qed

lemma ru_mono: "unat a \<le> unat b \<Longrightarrow> ru a \<le> ru b"
  by (simp add: ru_def div_le_mono)

lemma ru_le_base: "unat sz \<le> 2147483648 \<Longrightarrow> ru sz \<le> 2147483648"
proof -
  assume "unat sz \<le> 2147483648"
  then have "(unat sz + 4095) div 4096 \<le> (2147483648 + 4095) div 4096" by (intro div_le_mono) simp
  then show ?thesis by (simp add: ru_def)
qed

text \<open>A page boundary separates addresses as their pages.\<close>

lemma page_below_iff:
  assumes "(n :: nat) mod 4096 = 0"
  shows "unat (page_of x) < n \<longleftrightarrow> unat x < n"
proof -
  obtain k where k: "n = k * 4096" using assms by (auto simp: mod_eq_0_iff_dvd dvd_def)
  have "unat (page_of x) = unat x div 4096 * 4096" by (simp add: page_of_def unat_PGROUNDDOWN)
  then show ?thesis unfolding k by (simp add: div_less_iff_less_mult)
qed

lemma page_next_iff:
  assumes "unat a mod 4096 = 0" "unat a + 4096 \<le> 2147483648"
  shows "unat x < unat a + 4096 \<longleftrightarrow> unat x < unat a \<or> page_of x = a"
proof -
  have "unat a + 4096 = (unat a div 4096 + 1) * 4096" using assms(1) by (simp add: minus_mod_eq_div_mult [symmetric])
  then have "(unat a + 4096) mod 4096 = 0" using assms(1) by simp
  note n = page_below_iff [OF this, of x] and o = page_below_iff [OF assms(1), of x]
  have "unat a \<le> unat (page_of x) \<and> unat (page_of x) < unat a + 4096 \<longleftrightarrow> unat (page_of x) div 4096 * 4096 = unat a"
    using nat_page_iff [OF assms(1)] .
  moreover have "unat (page_of x) div 4096 * 4096 = unat (page_of x)" using page_of_aligned [of x] by (metis minus_mod_eq_div_mult diff_zero)
  ultimately show ?thesis using n o by (auto simp: word_unat_eq_iff)
qed

lemma ru_last_page:
  assumes "unat (page_of x) < ru b"
  shows "unat (page_of x) < unat b"
proof -
  obtain n where n: "ru b = n * 4096" using ru_ge(2) [of b] by (auto simp: mod_eq_0_iff_dvd dvd_def)
  have "unat (page_of x) + 4096 \<le> ru b" using nat_page_top [OF page_of_aligned, of x n] assms n by simp
  moreover have "ru b < unat b + 4096" using div_times_less_eq_dividend [of "unat b + 4095" 4096] by (simp add: ru_def)
  ultimately show ?thesis by simp
qed

lemma uvm_shrink:
  fixes s :: "'a mem_st_scheme"
  assumes U: "uvm s d sz xs" and le: "new < old" "unat old \<le> 2147483648" "ru sz \<le> ru old" "ru new \<le> ru sz"
  shows "\<exists>s' ys. deallocuvm d old new s = Ret new s' \<and> uvm s' d new (ys @ xs) \<and> same_below (mem s) (mem s') d (ru new)
    \<and> kend s' = kend s \<and> pt_pages (mem s') d = pt_pages (mem s) d \<and> set ys \<union> asp_pages (mem s') d = asp_pages (mem s) d
    \<and> (\<forall>x. page_of x \<notin> asp_pages (mem s) d \<longrightarrow> mem s' x = mem s x)"
proof -
  note A = uvmD(1) [OF U]
  obtain s' ys where r: "deallocuvm d old new s = Ret new s'" and F: "freed s s' d xs ys (PGROUNDUP new) old"
    using deallocuvm_spec [OF A le(1,2)] by blast
  have n: "unat new \<le> 2147483648" using le(1,2) by (simp add: word_less_nat_alt)
  have range: "in_range (PGROUNDUP new) old x \<longleftrightarrow> ru new \<le> unat x" if "unat x < ru sz" for x
  proof -
    have "unat (page_of x) < ru sz" using that page_below_iff [OF ru_ge(2), of x sz] by simp
    then have "unat (page_of x) < unat old" using le(3) by (intro ru_last_page) simp
    moreover have "ru new \<le> unat (page_of x) \<longleftrightarrow> ru new \<le> unat x" using page_below_iff [OF ru_ge(2), of x new] by linarith
    ultimately show ?thesis by (simp add: in_range_def unat_PGROUNDUP_ru [OF n])
  qed
  have v: "ventry (mem s') d x = (if pte_present (ventry (mem s) d x) \<and> in_range (PGROUNDUP new) old x then 0 else ventry (mem s) d x)" for x
    using F by (simp add: freed_def)
  have u: "upage (mem s') d x \<longleftrightarrow> unat x < ru new" for x
  proof -
    have "upage (mem s') d x \<longleftrightarrow> upage (mem s) d x \<and> \<not> in_range (PGROUNDUP new) old x" using v [of x] by (auto simp: upage_def)
    then show ?thesis using uvmD(3) [OF U, of x] range [of x] le(4) by auto
  qed
  have ys: "set ys = frame (mem s) d ` {x. upage (mem s) d x \<and> in_range (PGROUNDUP new) old x}" using F by (simp add: freed_def)
  have "same_below (mem s) (mem s') d (ru new)"
    unfolding same_below_def
  proof (intro allI impI conjI)
    fix va :: u32 assume va: "unat va < ru new"
    then have uv: "upage (mem s) d va" "\<not> in_range (PGROUNDUP new) old va" using uvmD(3) [OF U] range [of va] le(4) by auto
    then show e: "ventry (mem s') d va = ventry (mem s) d va" using v by simp
    have "frame (mem s) d va \<notin> set ys"
    proof
      assume "frame (mem s) d va \<in> set ys"
      then obtain x where x: "upage (mem s) d x" "in_range (PGROUNDUP new) old x" "frame (mem s) d va = frame (mem s) d x" using ys by auto
      then have "page_of va = page_of x" using aspD(5) [OF A uv(1)] by blast
      then show False using x(2) uv(2) by (simp add: in_range_def)
    qed
    moreover have "frame (mem s) d va \<notin> pt_pages (mem s) d" using aspD(4) [OF A uv(1)] .
    ultimately have "\<forall>x. page_of x = frame (mem s) d va \<longrightarrow> mem s' x = mem s x" using F by (auto simp: freed_def)
    then show "ubyte (mem s') d va = ubyte (mem s) d va" using ubyte_same [OF A uv(1) e] by blast
  qed
  moreover have "set ys \<union> asp_pages (mem s') d = asp_pages (mem s) d"
  proof -
    have "upage (mem s') d x \<longleftrightarrow> upage (mem s) d x \<and> \<not> in_range (PGROUNDUP new) old x" for x using v [of x] by (auto simp: upage_def)
    then have split: "{x. upage (mem s) d x} = {x. upage (mem s) d x \<and> in_range (PGROUNDUP new) old x} \<union> {x. upage (mem s') d x}" by blast
    have "frame (mem s) d x = frame (mem s') d x" if "upage (mem s') d x" for x
      using v [of x] that by (auto simp: frame_def upage_def)
    then have "frame (mem s) d ` {x. upage (mem s') d x} = frame (mem s') d ` {x. upage (mem s') d x}" by (intro image_cong) auto
    then have "frame (mem s) d ` {x. upage (mem s) d x} = set ys \<union> frame (mem s') d ` {x. upage (mem s') d x}"
      by (simp only: split image_Un ys)
    moreover have "pt_pages (mem s') d = pt_pages (mem s) d" using F by (simp add: freed_def)
    ultimately show ?thesis by (auto simp: asp_pages_def)
  qed
  moreover have "mem s' x = mem s x" if "page_of x \<notin> asp_pages (mem s) d" for x
    using that calculation(2) F by (auto simp: freed_def asp_pages_def)
  moreover have "uvm s' d new (ys @ xs)" using F n u by (simp add: uvm_def freed_def)
  moreover have "kend s' = kend s" "pt_pages (mem s') d = pt_pages (mem s) d" using F by (simp_all add: freed_def)
  ultimately show ?thesis using r by blast
qed

text \<open>The page the loop of \<^verbatim>\<open>allocuvm\<close> adds at the end, or the reason it cannot.\<close>

lemma uvm_add_page:
  fixes s s0 :: "'a mem_st_scheme"
  assumes U: "uvm s d a (p # xs)" and al: "unat a mod 4096 = 0" and top: "unat a + 4096 \<le> 2147483648" and perm: "unat perm < 4096"
    and m: "\<forall>x. page_of x \<noteq> p \<longrightarrow> mem s0 x = mem s x" and k: "kend s0 = kend s" and f: "free_pages s0 xs"
  shows "(xs = [] \<and> mappages d a PGSIZE (V2P p) perm s0 = Ret (-1) s0 \<and> uvm s0 d a [] \<and> same_below (mem s) (mem s0) d (unat a)
        \<and> asp_pages (mem s0) d = asp_pages (mem s) d)
    \<or> (\<exists>s' ts xs'. mappages d a PGSIZE (V2P p) perm s0 = Ret 0 s' \<and> uvm s' d (a + PGSIZE) xs' \<and> xs = ts @ xs' \<and> length xs \<le> Suc (length xs')
        \<and> same_below (mem s) (mem s') d (unat a) \<and> kend s' = kend s \<and> asp_pages (mem s') d = insert p (set ts) \<union> asp_pages (mem s) d
        \<and> (\<forall>x. ventry (mem s') d x = (if page_of x = a then V2P p OR perm OR PTE_P else ventry (mem s) d x))
        \<and> (\<forall>x. page_of x = a \<longrightarrow> ubyte (mem s') d x = mem s0 (p + (x AND 0xFFF)))
        \<and> (\<forall>x. page_of x \<notin> set ts \<union> pt_pages (mem s) d \<longrightarrow> mem s' x = mem s0 x))"
proof -
  note A = uvmD(1) [OF U]
  have pa: "page_of a = a" using al by (rule page_of_page)
  have ab: "a < KERNBASE" using top by (simp add: word_less_nat_alt)
  have "\<not> upage (mem s) d a" using uvmD(3) [OF U] ru_aligned [OF al] by simp
  then have free: "\<not> pte_present (ventry (mem s) d a)" using ab by (simp add: upage_def)
  have fp: "distinct (p # xs)" "page_ok (kend s) p" using pt_invD(1) [OF aspD(1) [OF A]] by (auto simp: free_pages_def)
  have own: "q \<notin> set (p # xs)" if "q \<in> asp_pages (mem s) d" for q using asp_pages_free [OF A that] by blast
  have fr: "frame (mem s) d va \<in> asp_pages (mem s) d" if "upage (mem s) d va" for va using that by (auto simp: asp_pages_def)
  have below: "upage (mem s) d va" if "unat va < unat a" for va using uvmD(3) [OF U] ru_aligned [OF al] that by simp
  have next_a: "unat (a + PGSIZE) = unat a + 4096" "unat (a + PGSIZE) mod 4096 = 0"
    using top al unat_add_nowrap32 [of a PGSIZE] by simp_all
  from asp_map_page [OF A al ab free perm m k f] show ?thesis
  proof (elim disjE exE conjE)
    assume r: "xs = []" "mappages d a PGSIZE (V2P p) perm s0 = Ret (-1) s0" and A0: "asp s0 d []" and v: "ventry (mem s0) d = ventry (mem s) d"
    have "upage (mem s0) d = upage (mem s) d" "frame (mem s0) d = frame (mem s) d" by (auto simp: upage_def frame_def v fun_eq_iff)
    moreover have "pt_pages (mem s0) d = pt_pages (mem s) d"
      using pt_pages_cong [OF pt_invD(4) [OF aspD(1) [OF A]], of "mem s0" "mem s"] m own [of d] by (auto simp: asp_pages_def pt_pages_def)
    moreover have "ubyte (mem s0) d va = ubyte (mem s) d va" if "unat va < unat a" for va
    proof (rule ubyte_same [OF A below [OF that]])
      have "frame (mem s) d va \<noteq> p" using own [OF fr [OF below [OF that]]] by auto
      then show "\<forall>x. page_of x = frame (mem s) d va \<longrightarrow> mem s0 x = mem s x" using m by auto
    qed (simp add: v)
    ultimately show ?thesis using r A0 U v by (simp add: uvm_def same_below_def asp_pages_def)
  next
    fix s' :: "'a mem_st_scheme" and ts xs'
    assume r: "mappages d a PGSIZE (V2P p) perm s0 = Ret 0 s'" and A': "asp s' d xs'" and ts: "xs = ts @ xs'"
      and len: "length xs \<le> Suc (length xs')" and pp: "pt_pages (mem s') d = set ts \<union> pt_pages (mem s) d" and k': "kend s' = kend s"
      and v: "\<forall>x. ventry (mem s') d x = (if page_of x = a then V2P p OR perm OR PTE_P else ventry (mem s) d x)"
      and fa: "frame (mem s') d a = p" and out: "\<forall>x. page_of x \<notin> set ts \<union> pt_pages (mem s) d \<longrightarrow> mem s' x = mem s0 x"
    have fx: "frame (mem s') d x = p" if "page_of x = a" for x using frame_page [of x a "mem s'" d] that fa pa by simp
    have u: "upage (mem s') d x \<longleftrightarrow> unat x < unat a \<or> page_of x = a" for x
    proof (cases "page_of x = a")
      case True
      then have "x < KERNBASE" using KERNBASE_page [of x a] ab pa by simp
      then show ?thesis using True v entry_parts(3) [OF V2P_aligned [OF fp(2)] perm] by (simp add: upage_def)
    next
      case False
      then show ?thesis using v uvmD(3) [OF U, of x] ru_aligned [OF al] by (simp add: upage_def)
    qed
    have U': "uvm s' d (a + PGSIZE) xs'"
      unfolding uvm_def using A' top next_a u page_next_iff [OF al top] ru_aligned [OF next_a(2)] by simp
    have ne: "page_of va \<noteq> a" if "unat va < unat a" for va using that unat_page_of(1) [of va] by auto
    have sb: "same_below (mem s) (mem s') d (unat a)"
      unfolding same_below_def
    proof (intro allI impI conjI)
      fix va :: u32 assume va: "unat va < unat a"
      show e: "ventry (mem s') d va = ventry (mem s) d va" using v ne [OF va] by simp
      have "frame (mem s) d va \<notin> set ts \<union> pt_pages (mem s) d" "frame (mem s) d va \<noteq> p"
        using own [OF fr [OF below [OF va]]] aspD(4) [OF A below [OF va]] ts by auto
      then show "ubyte (mem s') d va = ubyte (mem s) d va" using out m by (intro ubyte_same [OF A below [OF va] e]) auto
    qed
    have pnot: "p \<notin> set ts \<union> pt_pages (mem s) d" using fp(1) ts own [of p] by (auto simp: asp_pages_def)
    have "ubyte (mem s') d x = mem s0 (p + (x AND 0xFFF))" if "page_of x = a" for x
    proof -
      have "upage (mem s') d x" using u that by simp
      then have "page_of (p + (x AND 0xFFF)) = p" using page_of_frame [OF A'] fx [OF that] by metis
      then show ?thesis using out pnot fx [OF that] by (simp add: ubyte_def)
    qed
    moreover have "asp_pages (mem s') d = insert p (set ts) \<union> asp_pages (mem s) d"
    proof -
      have "{va. upage (mem s') d va} = {va. upage (mem s) d va} \<union> {va. page_of va = a}"
        using u uvmD(3) [OF U] ru_aligned [OF al] by auto
      moreover have "frame (mem s') d ` {va. upage (mem s) d va} = frame (mem s) d ` {va. upage (mem s) d va}"
        using v ne uvmD(3) [OF U] ru_aligned [OF al] by (intro image_cong) (auto simp: frame_def)
      moreover have "frame (mem s') d ` {va. page_of va = a} = {p}" using fx pa by force
      ultimately show ?thesis by (simp add: asp_pages_def pp image_Un) blast
    qed
    ultimately show ?thesis using r U' ts len sb k' v out by (intro disjI2 exI [of _ s'] exI [of _ ts] exI [of _ xs']) simp
  qed
qed

section \<open>Growing\<close>

text \<open>Taking a page and filling it.\<close>

lemma kalloc_fill:
  fixes s :: "'a mem_st_scheme"
  assumes "free_pages s (p # xs)" "\<forall>x. page_of x \<noteq> p \<longrightarrow> m' x = mem s x"
  defines "s0 \<equiv> s\<lparr>freelist := load32 (mem s) p, mem := m'\<rparr>"
  shows "kalloc s = Ret p (s\<lparr>freelist := load32 (mem s) p\<rparr>)" "p \<noteq> 0" "free_pages s0 xs" "kend s0 = kend s"
    "\<forall>x. page_of x \<noteq> p \<longrightarrow> mem s0 x = mem s x"
proof -
  have p: "page_ok (kend s) p" "p \<notin> set xs" using assms(1) by (auto simp: free_pages_def)
  show "kalloc s = Ret p (s\<lparr>freelist := load32 (mem s) p\<rparr>)" using kalloc_page [OF assms(1)] by blast
  show "p \<noteq> 0" using p(1) by (rule page_ok_nonzero)
  show "kend s0 = kend s" "\<forall>x. page_of x \<noteq> p \<longrightarrow> mem s0 x = mem s x" using assms(2) by (simp_all add: s0_def)
  have "free_pages (s\<lparr>freelist := load32 (mem s) p\<rparr>) xs" using kalloc_page [OF assms(1)] by blast
  then show "free_pages s0 xs"
    by (rule free_pages_frame) (use p(2) assms(2) in \<open>auto simp: s0_def\<close>)
qed

lemma kalloc_memset:
  fixes s :: "'a mem_st_scheme"
  assumes "free_pages s (p # xs)"
  defines "s0 \<equiv> s\<lparr>freelist := load32 (mem s) p, mem := memset (mem s) p 0 PGSIZE\<rparr>"
  shows "kalloc s = Ret p (s\<lparr>freelist := load32 (mem s) p\<rparr>)" "p \<noteq> 0" "free_pages s0 xs" "kend s0 = kend s"
    "\<forall>x. page_of x \<noteq> p \<longrightarrow> mem s0 x = mem s x" "\<forall>x. page_of x = p \<longrightarrow> mem s0 x = 0"
proof -
  have p: "page_ok (kend s) p" using assms(1) by (auto simp: free_pages_def)
  note m = memset_page [OF page_ok_aligned [OF p], of "mem s"]
  have "\<forall>x. page_of x \<noteq> p \<longrightarrow> memset (mem s) p 0 PGSIZE x = mem s x" using m by simp
  note F = kalloc_fill [OF assms(1) this, folded s0_def]
  show "kalloc s = Ret p (s\<lparr>freelist := load32 (mem s) p\<rparr>)" "p \<noteq> 0" "free_pages s0 xs" "kend s0 = kend s"
    "\<forall>x. page_of x \<noteq> p \<longrightarrow> mem s0 x = mem s x" by (fact F)+
  show "\<forall>x. page_of x = p \<longrightarrow> mem s0 x = 0" by (auto simp: s0_def m)
qed

lemma uvm_give_back:
  fixes s :: "'a mem_st_scheme"
  assumes U: "uvm s d sz xs" and p: "page_ok (kend s) p" "p \<notin> set xs" "p \<notin> asp_pages (mem s) d"
  shows "\<exists>s'. kfree p s = Ret () s' \<and> uvm s' d sz (p # xs) \<and> same_below (mem s) (mem s') d (ru sz) \<and> kend s' = kend s
    \<and> asp_pages (mem s') d = asp_pages (mem s) d \<and> (\<forall>x. page_of x \<noteq> p \<longrightarrow> mem s' x = mem s x)"
proof -
  note A = uvmD(1) [OF U]
  obtain s' where s': "kfree p s = Ret () s'" "free_pages s' (p # xs)" "kend s' = kend s" "\<forall>x. page_of x \<noteq> p \<longrightarrow> mem s' x = mem s x"
    using kfree_pages [OF pt_invD(1) [OF aspD(1) [OF A]] p(1,2)] by blast
  have m: "\<forall>x. page_of x \<in> pt_pages (mem s) d \<longrightarrow> mem s' x = mem s x" using s'(4) p(3) by (auto simp: asp_pages_def)
  have "set (p # xs) \<inter> asp_pages (mem s) d = {}" using p(3) asp_pages_free [OF A] by auto
  note O = asp_other [OF A m s'(3,2) this]
  have "ubyte (mem s') d va = ubyte (mem s) d va" if va: "unat va < ru sz" for va
  proof -
    have u: "upage (mem s) d va" using uvmD(3) [OF U] va by simp
    then have "frame (mem s) d va \<noteq> p" using p(3) by (auto simp: asp_pages_def)
    then show ?thesis using s'(4) O(2) by (intro ubyte_same [OF A u]) auto
  qed
  moreover have "uvm s' d sz (p # xs)" using U O by (simp add: uvm_def)
  ultimately show ?thesis using s' O by (auto simp: same_below_def)
qed

lemma pages_Suc:
  "map (\<lambda>i. a + of_nat (4096 * i)) [0..<Suc k] = a # map (\<lambda>i. a + PGSIZE + of_nat (4096 * i)) [0..<k]" for a :: u32
proof -
  have "map (\<lambda>i. a + of_nat (4096 * i)) [Suc 0..<Suc k] = map (\<lambda>i. a + PGSIZE + of_nat (4096 * i)) [0..<k]"
    by (simp only: map_Suc_upt [symmetric] map_map comp_def) (simp add: add.assoc)
  then show ?thesis by (simp add: upt_conv_Cons del: upt_Suc)
qed

definition alloc_post :: "'a mem_st_scheme \<Rightarrow> 'a mem_st_scheme \<Rightarrow> u32 \<Rightarrow> u32 list \<Rightarrow> u32 list \<Rightarrow> u32 \<Rightarrow> u32 \<Rightarrow> nat \<Rightarrow> u32 \<Rightarrow> bool" where
  "alloc_post s s' d xs xs' old new n r \<longleftrightarrow> kend s' = kend s
     \<and> set xs' \<union> asp_pages (mem s') d = set xs \<union> asp_pages (mem s) d
     \<and> (\<forall>x. page_of x \<notin> set xs \<union> asp_pages (mem s) d \<longrightarrow> mem s' x = mem s x)
     \<and> (r = new \<and> uvm s' d new xs' \<and> same_below (mem s) (mem s') d n \<and> (\<forall>x. n \<le> unat x \<and> unat x < ru new \<longrightarrow> ubyte (mem s') d x = 0)
       \<or> r = 0 \<and> uvm s' d old xs' \<and> same_below (mem s) (mem s') d (ru old))"

lemma alloc_undo:
  fixes s :: "'a mem_st_scheme"
  assumes U: "uvm s d a xs" and le: "old < new" "unat new \<le> 2147483648" "ru a \<le> ru new" "ru old \<le> ru a"
  shows "\<exists>s' ys. deallocuvm d new old s = Ret old s' \<and> alloc_post s s' d xs (ys @ xs) old new (unat a) 0 \<and> uvm s' d old (ys @ xs)
    \<and> set ys \<union> asp_pages (mem s') d = asp_pages (mem s) d"
proof -
  obtain s' ys where "deallocuvm d new old s = Ret old s'" "uvm s' d old (ys @ xs)" "same_below (mem s) (mem s') d (ru old)"
    "kend s' = kend s" "set ys \<union> asp_pages (mem s') d = asp_pages (mem s) d"
    "\<forall>x. page_of x \<notin> asp_pages (mem s) d \<longrightarrow> mem s' x = mem s x"
    using uvm_shrink [OF U le] by blast
  then show ?thesis by (intro exI [of _ s'] exI [of _ ys]) (auto simp: alloc_post_def)
qed

lemma alloc_no_map:
  fixes s :: "'a mem_st_scheme"
  assumes U: "uvm s d a [p]" and m: "\<forall>x. page_of x \<noteq> p \<longrightarrow> mem s0 x = mem s x" and k: "kend s0 = kend s"
    and U0: "uvm s0 d a []" and sb: "same_below (mem s) (mem s0) d (unat a)" and ap: "asp_pages (mem s0) d = asp_pages (mem s) d"
    and le: "old < new" "unat new \<le> 2147483648" "ru a \<le> ru new" "ru old \<le> unat a" "unat a mod 4096 = 0"
  shows "\<exists>s' xs'. seqp (deallocuvm d new old) (seqp (kfree p) (ret 0)) s0 = Ret (0 :: u32) s' \<and> alloc_post s s' d [p] xs' old new (unat a) 0"
proof -
  have ra: "ru old \<le> ru a" using le(4,5) by (simp add: ru_aligned)
  have p: "page_ok (kend s) p" "p \<notin> asp_pages (mem s) d"
    using pt_invD(1) [OF aspD(1) [OF uvmD(1) [OF U]]] asp_pages_free [OF uvmD(1) [OF U]] by (auto simp: free_pages_def)
  obtain s1 ys where s1: "deallocuvm d new old s0 = Ret old s1" "alloc_post s0 s1 d [] (ys @ []) old new (unat a) 0" "uvm s1 d old (ys @ [])"
    "set ys \<union> asp_pages (mem s1) d = asp_pages (mem s0) d"
    using alloc_undo [OF U0 le(1,2,3) ra] by blast
  have k1: "kend s1 = kend s" using s1(2) k by (simp add: alloc_post_def)
  have "p \<notin> set (ys @ [])" "p \<notin> asp_pages (mem s1) d" using p(2) s1(4) ap by auto
  then obtain s' where s': "kfree p s1 = Ret () s'" "uvm s' d old (p # ys @ [])" "same_below (mem s1) (mem s') d (ru old)" "kend s' = kend s1"
    "asp_pages (mem s') d = asp_pages (mem s1) d" "\<forall>x. page_of x \<noteq> p \<longrightarrow> mem s' x = mem s1 x"
    using uvm_give_back [OF s1(3), of p] p(1) k1 by auto
  have "same_below (mem s0) (mem s1) d (ru old)"
    using s1(2) le(1) by (auto simp: alloc_post_def)
  then have "same_below (mem s) (mem s') d (ru old)"
    using same_below_trans [OF same_below_mono [OF sb le(4)]] s'(3) same_below_trans by blast
  moreover have "mem s' x = mem s x" if "page_of x \<notin> set [p] \<union> asp_pages (mem s) d" for x
  proof -
    have "mem s' x = mem s1 x" using that s'(6) by simp
    also have "\<dots> = mem s0 x" using that s1(2) ap by (simp add: alloc_post_def)
    also have "\<dots> = mem s x" using that m by simp
    finally show ?thesis .
  qed
  moreover have "set (p # ys @ []) \<union> asp_pages (mem s') d = set [p] \<union> asp_pages (mem s) d" using s1(4) ap s'(5) by auto
  ultimately have "alloc_post s s' d [p] (p # ys @ []) old new (unat a) 0" using s'(2,4) k1 by (simp add: alloc_post_def)
  moreover have "seqp (deallocuvm d new old) (seqp (kfree p) (ret 0)) s0 = Ret (0 :: u32) s'"
    using s1(1) s'(1) by (simp add: seqp_def bnd_def ret_def)
  ultimately show ?thesis by blast
qed

lemma alloc_loop_spec:
  fixes s :: "'a mem_st_scheme"
  assumes "uvm s d a xs" "unat a mod 4096 = 0" "unat a + 4096 * k = ru new" "unat new \<le> 2147483648" "old < new" "ru old \<le> unat a"
  shows "\<exists>r s' xs'. allocuvm_loop d old new (map (\<lambda>i. a + of_nat (4096 * i)) [0..<k]) s = Ret r s' \<and> alloc_post s s' d xs xs' old new (unat a) r
    \<and> (r \<noteq> new \<longrightarrow> length xs < 2 * k)"
  using assms
proof (induction k arbitrary: s a xs)
  case 0
  then have "uvm s d new xs" by (simp add: uvm_def ru_aligned)
  then have "alloc_post s s d xs xs old new (unat a) new" using 0(3) by (auto simp: alloc_post_def same_below_refl)
  then show ?case by (auto simp: ret_def)
next
  case (Suc k)
  note U = Suc.prems(1) and al = Suc.prems(2)
  have top: "unat a + 4096 \<le> 2147483648" "ru a \<le> ru new" using Suc.prems(3) ru_le_base [OF Suc.prems(4)] al by (simp_all add: ru_aligned)
  show ?case
  proof (cases xs)
    case Nil
    have "ru old \<le> ru a" using Suc.prems(6) al by (simp add: ru_aligned)
    then obtain s' ys where s': "deallocuvm d new old s = Ret old s'" "alloc_post s s' d [] (ys @ []) old new (unat a) 0"
      using alloc_undo [OF U [unfolded Nil] Suc.prems(5,4) top(2)] by blast
    have "kalloc s = Ret 0 s" using pt_invD(1) [OF aspD(1) [OF uvmD(1) [OF U]]] Nil kalloc_empty by blast
    then have "allocuvm_loop d old new (map (\<lambda>i. a + of_nat (4096 * i)) [0..<Suc k]) s = Ret 0 s'"
      unfolding pages_Suc using s'(1) by (simp add: bnd_def seqp_def ret_def)
    then show ?thesis using s'(2) Nil by auto
  next
    case (Cons p ys)
    define s0 where "s0 = s\<lparr>freelist := load32 (mem s) p, mem := memset (mem s) p 0 PGSIZE\<rparr>"
    have fp: "free_pages s (p # ys)" using pt_invD(1) [OF aspD(1) [OF uvmD(1) [OF U]]] Cons by simp
    note K = kalloc_memset [OF fp, folded s0_def]
    define qs where "qs = map (\<lambda>i. a + PGSIZE + of_nat (4096 * i)) [0..<k]"
    have run: "allocuvm_loop d old new (map (\<lambda>i. a + of_nat (4096 * i)) [0..<Suc k]) s =
      bnd (mappages d a PGSIZE (V2P p) (PTE_W OR PTE_U)) (\<lambda>r. if r < 0 then seqp (deallocuvm d new old) (seqp (kfree p) (ret 0))
        else allocuvm_loop d old new qs) s0"
      unfolding pages_Suc qs_def [symmetric] using K(1,2) by (simp add: bnd_def seqp_def modify_def s0_def)
    have perm: "unat (PTE_W OR PTE_U) < 4096" by (rule or_flags_lt) simp_all
    from uvm_add_page [OF U [unfolded Cons] al top(1) perm K(5,4,3)] show ?thesis
    proof (elim disjE exE conjE)
      assume n: "ys = []" "mappages d a PGSIZE (V2P p) (PTE_W OR PTE_U) s0 = Ret (-1) s0"
        and R: "uvm s0 d a []" "same_below (mem s) (mem s0) d (unat a)" "asp_pages (mem s0) d = asp_pages (mem s) d"
      obtain s' xs' where "seqp (deallocuvm d new old) (seqp (kfree p) (ret 0)) s0 = Ret (0 :: u32) s'" "alloc_post s s' d [p] xs' old new (unat a) 0"
        using alloc_no_map [OF U [unfolded Cons n(1)] K(5,4) R Suc.prems(5,4) top(2) Suc.prems(6) al] by blast
      then show ?thesis using run n Cons by (auto simp: bnd_def)
    next
      fix s1 :: "'a mem_st_scheme" and ts xs1
      assume r: "mappages d a PGSIZE (V2P p) (PTE_W OR PTE_U) s0 = Ret 0 s1" and U1: "uvm s1 d (a + PGSIZE) xs1" and ts: "ys = ts @ xs1" and len: "length ys \<le> Suc (length xs1)"
        and sb: "same_below (mem s) (mem s1) d (unat a)" and k1: "kend s1 = kend s" and ap: "asp_pages (mem s1) d = insert p (set ts) \<union> asp_pages (mem s) d"
        and z: "\<forall>x. page_of x = a \<longrightarrow> ubyte (mem s1) d x = mem s0 (p + (x AND 0xFFF))"
        and out: "\<forall>x. page_of x \<notin> set ts \<union> pt_pages (mem s) d \<longrightarrow> mem s1 x = mem s0 x"
      have na: "unat (a + PGSIZE) = unat a + 4096" "unat (a + PGSIZE) mod 4096 = 0" using top(1) al unat_add_nowrap32 [of a PGSIZE] by simp_all
      obtain r' s' xs' where r': "allocuvm_loop d old new (map (\<lambda>i. a + PGSIZE + of_nat (4096 * i)) [0..<k]) s1 = Ret r' s'"
        and P: "alloc_post s1 s' d xs1 xs' old new (unat (a + PGSIZE)) r'" and few: "r' \<noteq> new \<longrightarrow> length xs1 < 2 * k"
        using Suc.IH [OF U1 na(2) _ Suc.prems(4,5)] Suc.prems(3,6) na(1) by auto
      have zero: "ubyte (mem s1) d x = 0" if "page_of x = a" for x
      proof -
        have "page_of (p + (x AND 0xFFF)) = p" using fp by (intro page_of_add) (auto simp: free_pages_def page_ok_aligned unat_and_4095 [simplified])
        then show ?thesis using z K(6) that by simp
      qed
      have "alloc_post s s' d xs xs' old new (unat a) r'"
        unfolding alloc_post_def
      proof (intro conjI allI impI)
        show "kend s' = kend s" using P k1 by (simp add: alloc_post_def)
        show "set xs' \<union> asp_pages (mem s') d = set xs \<union> asp_pages (mem s) d" using P ap Cons ts by (auto simp: alloc_post_def)
        show "mem s' x = mem s x" if x: "page_of x \<notin> set xs \<union> asp_pages (mem s) d" for x
        proof -
          have "mem s' x = mem s1 x" using P x ap Cons ts by (simp add: alloc_post_def)
          also have "\<dots> = mem s0 x" using out x Cons ts by (simp add: asp_pages_def)
          also have "\<dots> = mem s x" using K(5) x Cons by simp
          finally show ?thesis .
        qed
        have zz: "ubyte (mem s') d x = 0"
          if b: "same_below (mem s1) (mem s') d (unat (a + PGSIZE))" and x: "unat a \<le> unat x" "unat x < unat a + 4096" for x
        proof -
          have "page_of x = a" using page_next_iff [OF al top(1), of x] x by simp
          then show ?thesis using zero b na(1) x(2) by (simp add: same_below_def)
        qed
        have "r' = new \<and> uvm s' d new xs' \<and> same_below (mem s1) (mem s') d (unat (a + PGSIZE))
            \<and> (\<forall>x. unat (a + PGSIZE) \<le> unat x \<and> unat x < ru new \<longrightarrow> ubyte (mem s') d x = 0)
          \<or> r' = 0 \<and> uvm s' d old xs' \<and> same_below (mem s1) (mem s') d (ru old)"
          using P by (simp add: alloc_post_def)
        then show "r' = new \<and> uvm s' d new xs' \<and> same_below (mem s) (mem s') d (unat a)
            \<and> (\<forall>x. unat a \<le> unat x \<and> unat x < ru new \<longrightarrow> ubyte (mem s') d x = 0)
          \<or> r' = 0 \<and> uvm s' d old xs' \<and> same_below (mem s) (mem s') d (ru old)"
        proof (elim disjE conjE)
          assume N: "r' = new" "uvm s' d new xs'" and b: "same_below (mem s1) (mem s') d (unat (a + PGSIZE))"
            and t: "\<forall>x. unat (a + PGSIZE) \<le> unat x \<and> unat x < ru new \<longrightarrow> ubyte (mem s') d x = 0"
          have "ubyte (mem s') d x = 0" if "unat a \<le> unat x" "unat x < ru new" for x
            using zz [OF b that(1)] t that(2) na(1) by (cases "unat x < unat a + 4096") simp_all
          then show ?thesis using N same_below_trans [OF sb b] na(1) by simp
        next
          assume "r' = 0" "uvm s' d old xs'" "same_below (mem s1) (mem s') d (ru old)"
          then show ?thesis using same_below_trans [OF same_below_mono [OF sb Suc.prems(6)]] by simp
        qed
      qed
      moreover have "r' \<noteq> new \<longrightarrow> length xs < 2 * Suc k" using few len Cons by auto
      ultimately show ?thesis using run r r' by (auto simp: bnd_def qs_def)
    qed
  qed
qed

lemma page_count:
  assumes "unat old \<le> unat new"
  shows "ru old + 4096 * ((unat new - ru old + 4095) div 4096) = ru new"
proof (cases "unat new \<le> ru old")
  case True
  obtain j where j: "ru old = j * 4096" using ru_ge(2) [of old] by (auto simp: mod_eq_0_iff_dvd dvd_def)
  have "(unat new + 4095) div 4096 \<le> (j * 4096 + 4095) div 4096" using True j by (intro div_le_mono) simp
  then have "ru new \<le> ru old" by (simp add: ru_def [of new] j)
  then show ?thesis using ru_mono [OF assms] True by simp
next
  case False
  obtain j where j: "ru old = j * 4096" using ru_ge(2) [of old] by (auto simp: mod_eq_0_iff_dvd dvd_def)
  then have "unat new + 4095 = (unat new - j * 4096 + 4095) + j * 4096" using False by linarith
  moreover have "(m + j * 4096) div 4096 = m div 4096 + j" for m :: nat by simp
  ultimately have "(unat new + 4095) div 4096 = (unat new - j * 4096 + 4095) div 4096 + j" by (simp only:)
  then show ?thesis by (simp add: ru_def [of new] j)
qed

lemma allocuvm_spec:
  fixes s :: "'a mem_st_scheme"
  assumes U: "uvm s d old xs" and le: "old \<le> new" "new < KERNBASE"
  shows "\<exists>r s' xs'. allocuvm d old new s = Ret r s' \<and> alloc_post s s' d xs xs' old new (ru old) r
    \<and> (r \<noteq> new \<longrightarrow> 4096 * length xs < 2 * (ru new - ru old))"
proof (cases "old = new")
  case True
  have "page_steps (PGROUNDUP old) new = []"
    using unat_PGROUNDUP_ru [OF uvmD(2) [OF U]] ru_ge(1) [of new] True by (simp add: page_steps_def)
  then have "allocuvm d old new s = Ret new s" using le(2) True by (auto simp: allocuvm_def ret_def)
  moreover have "alloc_post s s d xs xs old new (ru old) new" using U True by (auto simp: alloc_post_def same_below_refl)
  ultimately show ?thesis by auto
next
  case False
  let ?a = "PGROUNDUP old" and ?k = "(unat new - ru old + 4095) div 4096"
  have n: "unat new \<le> 2147483648" "unat old \<le> unat new" "old < new" using le False by (auto simp: word_less_nat_alt word_le_nat_alt word_unat_eq_iff)
  have a: "unat ?a = ru old" using unat_PGROUNDUP_ru [OF uvmD(2) [OF U]] .
  then have al: "unat ?a mod 4096 = 0" using ru_ge(2) by simp
  have Ua: "uvm s d ?a xs" using U a ru_aligned [OF al] ru_le_base [OF uvmD(2) [OF U]] by (simp add: uvm_def)
  have k: "unat ?a + 4096 * ?k = ru new" using page_count [OF n(2)] a by simp
  have c: "\<not> KERNBASE \<le> new" "\<not> new < old" using le by auto
  have "allocuvm d old new s = allocuvm_loop d old new (map (\<lambda>i. ?a + of_nat (4096 * i)) [0..<?k]) s"
    by (simp only: allocuvm_def page_steps_def a c if_False)
  moreover obtain r s' xs' where "allocuvm_loop d old new (map (\<lambda>i. ?a + of_nat (4096 * i)) [0..<?k]) s = Ret r s'"
    "alloc_post s s' d xs xs' old new (unat ?a) r" "r \<noteq> new \<longrightarrow> length xs < 2 * ?k"
    using alloc_loop_spec [OF Ua al k n(1,3)] a by auto
  moreover have "4096 * ?k = ru new - ru old" using k a by linarith
  ultimately show ?thesis by (intro exI [of _ r] exI [of _ s'] exI [of _ xs']) (auto simp: a)
qed

text \<open>
  C18. \<^verbatim>\<open>allocuvm\<close> grows an address space or leaves it as it was.  From a well-formed address space of
  size \<^verbatim>\<open>oldsz\<close> it never panics.  When it returns \<^verbatim>\<open>newsz\<close> exactly the pages below \<^verbatim>\<open>newsz\<close> are mapped,
  each in a frame of its own, the old ones are unchanged and the new ones are zero.  When it returns
  0 it has taken back everything: the address space has the old size and contents.  No page is lost
  (what was free or belonged to the address space still is or does) and no other page is written;
  and it returns 0 only with fewer than two free pages for each page it has to add.
\<close>

theorem allocuvm_correct:
  fixes s :: "'a mem_st_scheme"
  assumes "uvm s d old xs" "old \<le> new" "new < KERNBASE"
  shows "\<exists>r s' xs'. allocuvm d old new s = Ret r s'
    \<and> (r = new \<and> uvm s' d new xs' \<and> same_below (mem s) (mem s') d (ru old)
          \<and> (\<forall>x. ru old \<le> unat x \<and> unat x < ru new \<longrightarrow> ubyte (mem s') d x = 0)
      \<or> r = 0 \<and> uvm s' d old xs' \<and> same_below (mem s) (mem s') d (ru old) \<and> (new \<noteq> 0 \<longrightarrow> 4096 * length xs < 2 * (ru new - ru old)))
    \<and> set xs' \<union> asp_pages (mem s') d = set xs \<union> asp_pages (mem s) d
    \<and> (\<forall>x. page_of x \<notin> set xs \<union> asp_pages (mem s) d \<longrightarrow> mem s' x = mem s x)"
proof -
  obtain r s' xs' where r: "allocuvm d old new s = Ret r s'" and P: "alloc_post s s' d xs xs' old new (ru old) r"
    and few: "r \<noteq> new \<longrightarrow> 4096 * length xs < 2 * (ru new - ru old)" using allocuvm_spec [OF assms] by blast
  show ?thesis
    using r P few unfolding alloc_post_def by (intro exI [of _ r] exI [of _ s'] exI [of _ xs']) auto
qed

lemma uvm_two_free: "uvm two_free 0x80200000 0 [0x80201000, 0x80202000]"
proof -
  have "load32 (mem two_free) (0x80200000 + 4 * PDX x) = 0" for x
    using slot_inj [of "0x80200000" "0x80201000" "PDX x" 0] PDX_lt [of x] by (intro two_free_mem slot_aligned) auto
  then have "ventry (mem two_free) 0x80200000 x = 0" for x by (simp add: ventry_def has_table_def)
  then have "\<not> upage (mem two_free) 0x80200000 x" for x by (simp add: upage_def)
  moreover have "KERNBASE < kend two_free" by (simp add: two_free_def boot_mem_def)
  ultimately show ?thesis using pt_inv_two_free by (simp add: uvm_def asp_def ru_def)
qed

theorem allocuvm_correct_witness:
  "\<exists>s' xs'. allocuvm 0x80200000 0 0x800 two_free = Ret 0x800 s' \<and> uvm s' 0x80200000 0x800 xs' \<and> ubyte (mem s') 0x80200000 0x7FF = 0"
  using allocuvm_correct [OF uvm_two_free, where new = "0x800"] by (auto simp: ru_def)

end
