(* ===== verification/Kvm.thy ===== *)
theory Kvm
  imports Uvm
begin

text \<open>Whole address spaces (\<^verbatim>\<open>vm.c\<close>): \<^verbatim>\<open>freevm\<close> gives back every page of an
  address space, \<^verbatim>\<open>setupkvm\<close> builds one that holds the kernel mappings only, and
  \<^verbatim>\<open>copyuvm\<close> duplicates the user part of one for \<^verbatim>\<open>fork\<close>.\<close>

section \<open>Freeing an address space\<close>

lemma wp_unit: "wp m Q s \<Longrightarrow> \<exists>s'. m s = Ret () s' \<and> Q () s'"
  by (elim wpE) auto

lemma unat_of_nat_pde: "k < 1024 \<Longrightarrow> unat (of_nat k :: u32) = k"
  by (simp add: unsigned_of_nat take_bit_nat_eq_self)

lemma in_range_user: "in_range (PGROUNDUP 0) KERNBASE x \<longleftrightarrow> x < KERNBASE"
  using page_below_iff [of 2147483648 x] by (simp add: in_range_def PGROUNDUP_def word_less_nat_alt)

text \<open>The loop of \<^verbatim>\<open>freevm\<close> over the directory.\<close>

lemma free_tables:
  fixes s :: "'a mem_st_scheme"
  assumes I: "pt_inv s d xs"
  shows "wp (forp [0..<NPDENTRIES] (\<lambda>i. bnd (gets (\<lambda>s. load32 (mem s) (d + 4 * of_nat i))) (\<lambda>e. whenp (e AND PTE_P \<noteq> 0) (kfree (P2V (PTE_ADDR e))))))
     (\<lambda>_ s'. \<exists>zs. free_pages s' (zs @ xs) \<and> set zs = pgtab (mem s) d ` {i. has_table (mem s) d i} \<and> kend s' = kend s
        \<and> (\<forall>x. page_of x \<notin> set zs \<longrightarrow> mem s' x = mem s x)) s"
proof -
  note D = pt_invD [OF I]
  let ?P = "\<lambda>k s'. \<exists>zs. free_pages s' (zs @ xs) \<and> set zs = pgtab (mem s) d ` {i. has_table (mem s) d i \<and> unat i < k} \<and> kend s' = kend s
        \<and> (\<forall>x. page_of x \<notin> set zs \<longrightarrow> mem s' x = mem s x)"
  let ?f = "\<lambda>i. bnd (gets (\<lambda>s. load32 (mem s) (d + 4 * of_nat i))) (\<lambda>e. whenp (e AND PTE_P \<noteq> 0) (kfree (P2V (PTE_ADDR e))))"
  have "wp (?f k) (\<lambda>_. ?P (Suc k)) t" if k: "k < 1024" and P: "?P k t" for k and t :: "'a mem_st_scheme"
  proof -
    let ?i = "of_nat k :: u32"
    have i: "unat ?i = k" using k by (rule unat_of_nat_pde)
    from P obtain zs where zs: "free_pages t (zs @ xs)" "set zs = pgtab (mem s) d ` {i. has_table (mem s) d i \<and> unat i < k}" "kend t = kend s"
      "\<forall>x. page_of x \<notin> set zs \<longrightarrow> mem t x = mem s x" by blast
    have "d \<notin> set zs" using zs(2) D(6) by (metis (mono_tags, lifting) imageE mem_Collect_eq)
    then have e: "load32 (mem t) (d + 4 * ?i) = load32 (mem s) (d + 4 * ?i)" using zs(4) i k by (intro load32_slot_cong D(4)) auto
    have lt: "unat j < Suc k \<longleftrightarrow> unat j < k \<or> j = ?i" for j :: u32 using i by (auto simp: word_unat_eq_iff less_Suc_eq)
    show ?thesis
    proof (cases "has_table (mem s) d ?i")
      case True
      have new: "pgtab (mem s) d ?i \<notin> set zs"
      proof
        assume "pgtab (mem s) d ?i \<in> set zs"
        then obtain j where "has_table (mem s) d j" "unat j < k" "pgtab (mem s) d ?i = pgtab (mem s) d j" unfolding zs(2) by auto
        then have "?i = j" by (intro D(8) [OF True])
        then show False using \<open>unat j < k\<close> i by simp
      qed
      then have "pgtab (mem s) d ?i \<notin> set (zs @ xs)" using D(7) [OF True] by simp
      then obtain t' where t': "kfree (pgtab (mem s) d ?i) t = Ret () t'" "free_pages t' (pgtab (mem s) d ?i # zs @ xs)" "kend t' = kend t"
        "\<forall>x. page_of x \<noteq> pgtab (mem s) d ?i \<longrightarrow> mem t' x = mem t x"
        using kfree_pages [OF zs(1)] D(5) [OF True] zs(3) by metis
      have "{i. has_table (mem s) d i \<and> unat i < Suc k} = insert ?i {i. has_table (mem s) d i \<and> unat i < k}" using lt True by auto
      then have "?P (Suc k) t'"
        using t'(2,3,4) zs(2,3,4) by (intro exI [of _ "pgtab (mem s) d ?i # zs"]) simp
      moreover have "?f k t = Ret () t'" using True e t'(1) by (simp add: bnd_def gets_def whenp_def has_table_def pte_present_def pgtab_def)
      ultimately show ?thesis by (auto intro: wpI)
    next
      case False
      then have "{i. has_table (mem s) d i \<and> unat i < Suc k} = {i. has_table (mem s) d i \<and> unat i < k}" using lt by auto
      then have "?P (Suc k) t" using zs by (intro exI [of _ zs]) simp
      moreover have "?f k t = Ret () t" using False e i k by (simp add: bnd_def gets_def whenp_def ret_def has_table_def pte_present_def)
      ultimately show ?thesis by (auto intro: wpI)
    qed
  qed
  moreover have "?P 0 s" using D(1) by (intro exI [of _ "[]"]) simp
  ultimately have "wp (forp [0..<1024] ?f) (\<lambda>_. ?P 1024) s" by (intro wp_for_upt [where I = ?P]) auto
  moreover have "{i. has_table (mem s) d i \<and> unat i < 1024} = {i. has_table (mem s) d i}" using has_table_lt by auto
  ultimately show ?thesis by simp
qed

text \<open>\<^verbatim>\<open>freevm\<close> gives back every page of the address space, and touches no other.\<close>

definition released :: "'a mem_st_scheme \<Rightarrow> 'a mem_st_scheme \<Rightarrow> u32 \<Rightarrow> u32 list \<Rightarrow> u32 list \<Rightarrow> bool" where
  "released s s' d xs ys \<longleftrightarrow> free_pages s' (ys @ xs) \<and> set ys = asp_pages (mem s) d \<and> kend s' = kend s
     \<and> (\<forall>x. page_of x \<notin> asp_pages (mem s) d \<longrightarrow> mem s' x = mem s x)"

lemma freevm_spec:
  fixes s :: "'a mem_st_scheme"
  assumes A: "asp s d xs"
  shows "\<exists>s' ys. freevm d s = Ret () s' \<and> released s s' d xs ys"
proof -
  have d0: "d \<noteq> 0" using page_ok_range(1) [OF pt_invD(2) [OF aspD(1) [OF A]]] by auto
  obtain s1 us where s1: "deallocuvm d KERNBASE 0 s = Ret 0 s1" and F: "freed s s1 d xs us (PGROUNDUP 0) KERNBASE"
    using deallocuvm_spec [OF A, of 0 KERNBASE] by auto
  have "{x. upage (mem s) d x \<and> in_range (PGROUNDUP 0) KERNBASE x} = {x. upage (mem s) d x}"
    by (auto simp: in_range_user upage_def)
  then have us: "set us = frame (mem s) d ` {x. upage (mem s) d x}" using F by (simp only: freed_def)
  from F have f: "pt_inv s1 d (us @ xs)" "kend s1 = kend s" "pt_pages (mem s1) d = pt_pages (mem s) d"
    "\<forall>x. page_of x \<notin> set us \<union> pt_pages (mem s) d \<longrightarrow> mem s1 x = mem s x"
    by (simp_all add: freed_def aspD(1))
  from wp_unit [OF free_tables [OF f(1)]] obtain s2 zs where
    s2: "forp [0..<NPDENTRIES] (\<lambda>i. bnd (gets (\<lambda>s. load32 (mem s) (d + 4 * of_nat i))) (\<lambda>e. whenp (e AND PTE_P \<noteq> 0) (kfree (P2V (PTE_ADDR e))))) s1 = Ret () s2"
    and zs: "free_pages s2 (zs @ us @ xs)" "set zs = pgtab (mem s1) d ` {i. has_table (mem s1) d i}" "kend s2 = kend s1"
      "\<forall>x. page_of x \<notin> set zs \<longrightarrow> mem s2 x = mem s1 x"
    by (elim exE conjE) (rule that)
  have pt: "insert d (set zs) = pt_pages (mem s) d" using f(3) zs(2) by (simp add: pt_pages_def)
  have "d \<notin> set zs" unfolding zs(2) using pt_invD(6) [OF f(1)] by (metis (mono_tags, lifting) imageE mem_Collect_eq)
  then have d: "d \<notin> set (zs @ us @ xs)" "page_ok (kend s2) d" using pt_invD(2,3) [OF f(1)] zs(3) by auto
  obtain s3 where s3: "kfree d s2 = Ret () s3" "free_pages s3 (d # zs @ us @ xs)" "kend s3 = kend s2"
      "\<forall>x. page_of x \<noteq> d \<longrightarrow> mem s3 x = mem s2 x"
    using kfree_pages [OF zs(1) d(2,1)] by blast
  have set: "set (d # zs @ us) = asp_pages (mem s) d" using pt us by (auto simp: asp_pages_def)
  have "released s s3 d xs (d # zs @ us)"
    unfolding released_def set using s3(2,3,4) zs(3,4) f(2,4) set pt by (auto simp flip: set)
  moreover have "freevm d s = Ret () s3"
    using d0 s1 s2 s3(1) by (simp add: freevm_def seqp_def bnd_def ret_def)
  ultimately show ?thesis by blast
qed

section \<open>The kernel part\<close>

text \<open>The pages of an entry of \<^verbatim>\<open>kmap\<close>, and what the page table has to hold for them.\<close>

definition in_seg :: "u32 \<times> u32 \<times> u32 \<times> u32 \<Rightarrow> u32 \<Rightarrow> bool" where
  "in_seg k x = (case k of (virt, pstart, pend, perm) \<Rightarrow> in_run virt (run_len virt (pend - pstart)) x)"

definition seg_entry :: "u32 \<times> u32 \<times> u32 \<times> u32 \<Rightarrow> u32 \<Rightarrow> u32" where
  "seg_entry k x = (case k of (virt, pstart, pend, perm) \<Rightarrow> (pstart + (page_of x - virt)) OR perm OR PTE_P)"

definition segs_ok :: "(u32 \<times> u32 \<times> u32 \<times> u32) list \<Rightarrow> bool" where
  "segs_ok ks \<longleftrightarrow> (\<forall>k \<in> set ks. unat (fst k) mod 4096 = 0 \<and> (\<forall>x. in_seg k x \<longrightarrow> \<not> x < KERNBASE))
     \<and> sorted_wrt (\<lambda>k l. \<forall>x. \<not> (in_seg k x \<and> in_seg l x)) ks"

lemma segs_ok_Cons: "segs_ok (k # ks) \<longleftrightarrow> unat (fst k) mod 4096 = 0 \<and> (\<forall>x. in_seg k x \<longrightarrow> \<not> x < KERNBASE)
   \<and> (\<forall>l \<in> set ks. \<forall>x. \<not> (in_seg k x \<and> in_seg l x)) \<and> segs_ok ks"
  by (auto simp: segs_ok_def)

lemma asp_kernel_only:
  assumes "asp s d xs" "grown s s' d xs xs'" "\<forall>x. x < KERNBASE \<longrightarrow> ventry (mem s') d x = ventry (mem s) d x"
    and "\<forall>x. \<not> upage (mem s) d x"
  shows "asp s' d xs'" "\<forall>x. \<not> upage (mem s') d x"
proof -
  show u: "\<forall>x. \<not> upage (mem s') d x" using assms(3,4) by (auto simp: upage_def)
  have "pt_inv s' d xs'" "kend s' = kend s" using assms(2) by (auto simp: grown_def)
  then show "asp s' d xs'" using u aspD(6) [OF assms(1)] by (simp add: asp_def)
qed

lemma asp_pages_kernel: "\<forall>x. \<not> upage m d x \<Longrightarrow> asp_pages m d = pt_pages m d"
  by (simp add: asp_pages_def)

text \<open>The loop of \<^verbatim>\<open>setupkvm\<close>: all segments are mapped, or every page is free again.\<close>

definition kern_post :: "'a mem_st_scheme \<Rightarrow> 'a mem_st_scheme \<Rightarrow> u32 \<Rightarrow> u32 list \<Rightarrow> (u32 \<times> u32 \<times> u32 \<times> u32) list \<Rightarrow> u32 \<Rightarrow> bool" where
  "kern_post s s' d xs ks r \<longleftrightarrow> kend s' = kend s
     \<and> (\<forall>x. page_of x \<notin> set xs \<union> pt_pages (mem s) d \<longrightarrow> mem s' x = mem s x)
     \<and> (r = d \<and> (\<exists>ts xs'. xs = ts @ xs' \<and> asp s' d xs' \<and> pt_pages (mem s') d = set ts \<union> pt_pages (mem s) d)
          \<and> (\<forall>x. \<not> upage (mem s') d x)
          \<and> (\<forall>k \<in> set ks. \<forall>x. in_seg k x \<longrightarrow> ventry (mem s') d x = seg_entry k x)
          \<and> (\<forall>x. (\<forall>k \<in> set ks. \<not> in_seg k x) \<longrightarrow> ventry (mem s') d x = ventry (mem s) d x)
       \<or> r = 0 \<and> (\<exists>xs'. free_pages s' xs' \<and> set xs' = set xs \<union> pt_pages (mem s) d))"

lemma map_all_Cons:
  assumes "mappages d v (pe - ps) ps perm s = Ret r s1"
  shows "map_all d ((v, ps, pe, perm) # ks) s = (if r < 0 then seqp (freevm d) (ret 0) s1 else map_all d ks s1)"
  using assms by (simp add: bnd_def)

lemma PGROUNDDOWN_aligned: "unat a mod 4096 = 0 \<Longrightarrow> PGROUNDDOWN a = a"
  using page_of_page [of a] by (simp add: page_of_def)

lemma map_all_fail:
  fixes s :: "'a mem_st_scheme"
  assumes A: "asp s1 d []" and u: "\<forall>x. \<not> upage (mem s1) d x" and g: "grown s s1 d xs []"
  shows "\<exists>s'. seqp (freevm d) (ret 0) s1 = Ret (0 :: u32) s' \<and> kern_post s s' d xs ks 0"
proof -
  obtain s' ys where s': "freevm d s1 = Ret () s'" "released s1 s' d [] ys" using freevm_spec [OF A] by blast
  have pt: "asp_pages (mem s1) d = set xs \<union> pt_pages (mem s) d" using g asp_pages_kernel [OF u] by (simp add: grown_def)
  have "\<forall>x. page_of x \<notin> set xs \<union> pt_pages (mem s) d \<longrightarrow> mem s' x = mem s x"
    using s'(2) g pt asp_pages_kernel [OF u] by (simp add: released_def grown_def)
  moreover have "free_pages s' ys" "set ys = set xs \<union> pt_pages (mem s) d" "kend s' = kend s"
    using s'(2) g pt by (simp_all add: released_def grown_def)
  ultimately have "kern_post s s' d xs ks 0" unfolding kern_post_def by blast
  then show ?thesis using s'(1) by (simp add: seqp_def bnd_def ret_def)
qed

lemma kern_post_step:
  fixes s s1 :: "'a mem_st_scheme"
  assumes g: "grown s s1 d xs xs1" and m: "\<forall>x. ventry (mem s1) d x = (if in_seg k x then seg_entry k x else ventry (mem s) d x)"
    and disj: "\<forall>l \<in> set ks. \<forall>x. \<not> (in_seg k x \<and> in_seg l x)" and P: "kern_post s1 s' d xs1 ks r"
  shows "kern_post s s' d xs (k # ks) r"
proof -
  obtain ts where ts: "xs = ts @ xs1" "pt_pages (mem s1) d = set ts \<union> pt_pages (mem s) d" using g by (auto simp: grown_def)
  then have same: "set xs1 \<union> pt_pages (mem s1) d = set xs \<union> pt_pages (mem s) d" by auto
  have out: "kend s1 = kend s" "\<forall>x. page_of x \<notin> set xs \<union> pt_pages (mem s) d \<longrightarrow> mem s1 x = mem s x"
    using g ts by (auto simp: grown_def)
  from P have k': "kend s' = kend s" and o': "\<forall>x. page_of x \<notin> set xs \<union> pt_pages (mem s) d \<longrightarrow> mem s' x = mem s x"
    using out same by (simp_all add: kern_post_def)
  from P have "r = d \<and> (\<exists>us xs'. xs1 = us @ xs' \<and> asp s' d xs' \<and> pt_pages (mem s') d = set us \<union> pt_pages (mem s1) d)
          \<and> (\<forall>x. \<not> upage (mem s') d x)
          \<and> (\<forall>k \<in> set ks. \<forall>x. in_seg k x \<longrightarrow> ventry (mem s') d x = seg_entry k x)
          \<and> (\<forall>x. (\<forall>k \<in> set ks. \<not> in_seg k x) \<longrightarrow> ventry (mem s') d x = ventry (mem s1) d x)
       \<or> r = 0 \<and> (\<exists>xs'. free_pages s' xs' \<and> set xs' = set xs1 \<union> pt_pages (mem s1) d)" (is "?ok \<or> ?bad") by (simp only: kern_post_def)
  then show ?thesis
  proof
    assume ?bad
    then show ?thesis using k' o' same by (simp only: kern_post_def) blast
  next
    assume ok: ?ok
    then obtain us xs' where us: "xs1 = us @ xs'" "asp s' d xs'" "pt_pages (mem s') d = set us \<union> pt_pages (mem s1) d" by blast
    have 1: "\<exists>us xs'. xs = us @ xs' \<and> asp s' d xs' \<and> pt_pages (mem s') d = set us \<union> pt_pages (mem s) d"
      using us ts by (intro exI [of _ "ts @ us"] exI [of _ xs']) auto
    have old: "ventry (mem s') d x = ventry (mem s1) d x" if "\<forall>k \<in> set ks. \<not> in_seg k x" for x using ok that by blast
    have "ventry (mem s') d x = seg_entry k x" if "in_seg k x" for x using old [of x] that disj m by auto
    then have 2: "\<forall>l \<in> set (k # ks). \<forall>x. in_seg l x \<longrightarrow> ventry (mem s') d x = seg_entry l x" using ok by simp
    have 3: "\<forall>x. (\<forall>l \<in> set (k # ks). \<not> in_seg l x) \<longrightarrow> ventry (mem s') d x = ventry (mem s) d x" using old m by simp
    show ?thesis unfolding kern_post_def using ok k' o' 1 2 3 by (intro conjI disjI1) blast+
  qed
qed

lemma map_all_spec:
  fixes s :: "'a mem_st_scheme"
  assumes "asp s d xs" "\<forall>x. \<not> upage (mem s) d x" "segs_ok ks" "\<And>k x. k \<in> set ks \<Longrightarrow> in_seg k x \<Longrightarrow> \<not> pte_present (ventry (mem s) d x)"
  shows "\<exists>r s'. map_all d ks s = Ret r s' \<and> kern_post s s' d xs ks r"
  using assms
proof (induction ks arbitrary: s xs)
  case Nil
  then have "kern_post s s d xs [] d" unfolding kern_post_def by (intro conjI disjI1 exI [of _ "[]"] exI [of _ xs]) simp_all
  then show ?case by (auto simp: ret_def)
next
  case (Cons k ks)
  obtain v ps pe perm where k: "k = (v, ps, pe, perm)" by (cases k) auto
  have al: "PGROUNDDOWN v = v" using Cons(4) by (intro PGROUNDDOWN_aligned) (simp add: segs_ok_Cons k)
  have ok: "segs_ok ks" "\<forall>l \<in> set ks. \<forall>x. \<not> (in_seg k x \<and> in_seg l x)" "\<And>x. in_seg k x \<Longrightarrow> \<not> x < KERNBASE" using Cons(4) by (auto simp: segs_ok_Cons)
  have seg: "in_run (PGROUNDDOWN v) (run_len v (pe - ps)) x \<longleftrightarrow> in_seg k x" for x by (simp add: in_seg_def k al)
  have un: "\<not> pte_present (ventry (mem s) d x)" if "in_run (PGROUNDDOWN v) (run_len v (pe - ps)) x" for x using Cons(5) [of k x] that seg by auto
  obtain r s1 xs1 where
    r: "mappages d v (pe - ps) ps perm s = Ret r s1" and g: "grown s s1 d xs xs1"
    and c: "r = 0 \<and> mapped (mem s) d v (run_len v (pe - ps)) ps perm (mem s1) \<or> r = -1 \<and> xs1 = [] \<and> unmapped_rest (mem s) d v (run_len v (pe - ps)) (mem s1)"
    using mappages_spec [OF aspD(1) [OF Cons(2)], of v "pe - ps" ps perm] un al by auto
  have low: "ventry (mem s1) d x = ventry (mem s) d x" if "\<not> in_seg k x" for x
    using c that seg by (auto simp: mapped_def unmapped_rest_def al)
  then have low': "\<forall>x. x < KERNBASE \<longrightarrow> ventry (mem s1) d x = ventry (mem s) d x" using ok(3) by blast
  note A = asp_kernel_only [OF Cons(2) g low' Cons(3)]
  show ?case
  proof (cases "r = 0")
    case True
    then have "mapped (mem s) d v (run_len v (pe - ps)) ps perm (mem s1)" using c by auto
    then have m: "\<forall>x. ventry (mem s1) d x = (if in_seg k x then seg_entry k x else ventry (mem s) d x)"
      using seg by (simp add: mapped_def seg_entry_def k al)
    have un: "\<not> pte_present (ventry (mem s1) d x)" if l: "l \<in> set ks" "in_seg l x" for l x
    proof -
      have "\<not> in_seg k x" using ok(2) l by blast
      then show ?thesis using Cons(5) [of l x] l low by simp
    qed
    have "\<exists>r' s'. map_all d ks s1 = Ret r' s' \<and> kern_post s1 s' d xs1 ks r'" by (rule Cons.IH [OF A ok(1) un])
    then obtain r' s' where "map_all d ks s1 = Ret r' s'" "kern_post s1 s' d xs1 ks r'" by blast
    then show ?thesis using kern_post_step [OF g m ok(2)] map_all_Cons [OF r] True k by auto
  next
    case False
    then have c: "r = -1" "xs1 = []" using c by auto
    obtain s' where "seqp (freevm d) (ret 0) s1 = Ret (0 :: u32) s'" "kern_post s s' d xs (k # ks) 0"
      using map_all_fail [of s1 d s xs "k # ks"] A g c(2) by auto
    then show ?thesis using map_all_Cons [OF r] c(1) k by auto
  qed
qed

lemma in_run_iff:
  assumes a: "unat a mod 4096 = 0" and n: "unat n mod 4096 = 0" "0 < unat n" and top: "unat a + unat n \<le> 4294967296"
  shows "in_run a (run_len a n) x \<longleftrightarrow> unat a \<le> unat x \<and> unat x < unat a + unat n"
proof -
  obtain A where A: "unat a = 4096 * A" using a by (auto simp: mod_eq_0_iff_dvd dvd_def)
  obtain N where N: "unat n = 4096 * N" using n(1) by (auto simp: mod_eq_0_iff_dvd dvd_def)
  have N0: "0 < N" using n(2) N by simp
  have "unat (n - 1) = unat n - 1" using n(2) by (simp add: unat_sub_if_size)
  then have "unat (a + (n - 1)) = 4096 * A + (4096 * N - 1)" using top A N N0 unat_add_nowrap32 [of a "n - 1"] by simp
  moreover have "4096 * A + (4096 * N - 1) = 4095 + 4096 * (A + N - 1)" using N0 by (cases N) simp_all
  ultimately have "unat (a + n - 1) = 4095 + 4096 * (A + N - 1)" by (simp add: add_diff_eq)
  then have "unat (PGROUNDDOWN (a + n - 1)) = 4096 * (A + N - 1)" by (simp add: unat_PGROUNDDOWN)
  then have "unat (PGROUNDDOWN (a + n - 1) - a) = 4096 * (N - 1)" using A N0 by (cases N) (simp_all add: unat_sub_if_size)
  moreover have "PGROUNDDOWN a = a" using a by (rule PGROUNDDOWN_aligned)
  ultimately have k: "run_len a n = N - 1" by (simp add: run_len_def)
  define X where "X = unat x div 4096"
  have X: "unat (page_of x) = 4096 * X" "unat x < 4096 * X + 4096" "4096 * X \<le> unat x"
    using unat_page_of [of x] by (simp_all add: X_def page_of_def unat_PGROUNDDOWN)
  have "unat (page_of x - a) = (if A \<le> X then 4096 * X - 4096 * A else 4294967296 - (4096 * A - 4096 * X))"
    using X(1) A unat_u32_lt [of a] by (auto simp: unat_sub_if_size word_size)
  moreover have "unat a \<le> unat x \<longleftrightarrow> A \<le> X" "unat x < unat a + unat n \<longleftrightarrow> X < A + N" using X(2,3) A N by auto
  ultimately show ?thesis using k A N N0 top by (auto simp: in_run_def split: if_splits)
qed

text \<open>Where the linker puts the kernel: its data start at a page boundary, after its text.\<close>

definition kdata_ok :: "u32 \<Rightarrow> bool" where
  "kdata_ok data \<longleftrightarrow> unat data mod 4096 = 0 \<and> KERNLINK < data \<and> data < P2V PHYSTOP"

text \<open>What every address space maps from \<^verbatim>\<open>KERNBASE\<close> on.\<close>

definition kernel_map :: "u32 \<Rightarrow> memory \<Rightarrow> u32 \<Rightarrow> bool" where
  "kernel_map data m d \<longleftrightarrow> (\<forall>x. KERNBASE \<le> x \<longrightarrow> ventry m d x =
     (if KERNLINK \<le> x \<and> x < data then V2P (page_of x) OR PTE_P
      else if x < P2V PHYSTOP then V2P (page_of x) OR PTE_W OR PTE_P
      else if x < DEVSPACE then 0
      else page_of x OR PTE_W OR PTE_P))"

lemma kmap_segs:
  assumes "kdata_ok data"
  shows "in_seg (KERNBASE, 0, EXTMEM, PTE_W) x \<longleftrightarrow> KERNBASE \<le> x \<and> x < KERNLINK"
    and "in_seg (KERNLINK, V2P KERNLINK, V2P data, 0) x \<longleftrightarrow> KERNLINK \<le> x \<and> x < data"
    and "in_seg (data, V2P data, PHYSTOP, PTE_W) x \<longleftrightarrow> data \<le> x \<and> x < P2V PHYSTOP"
    and "in_seg (DEVSPACE, DEVSPACE, 0, PTE_W) x \<longleftrightarrow> DEVSPACE \<le> x"
proof -
  have d: "unat data mod 4096 = 0" "2148532224 < unat data" "unat data < 2382364672"
    using assms by (simp_all add: kdata_ok_def word_less_nat_alt P2V_def)
  have n: "unat (data - KERNLINK) = unat data - 2148532224" "unat (PHYSTOP - (data - KERNBASE)) = 2382364672 - unat data"
    using d by (auto simp: unat_sub_if_size word_size)
  have al: "unat (data - KERNLINK) mod 4096 = 0" "unat (PHYSTOP - (data - KERNBASE)) mod 4096 = 0"
    using d(1) by (intro aligned_minus; simp)+
  have v: "V2P data - V2P KERNLINK = data - KERNLINK" "PHYSTOP - V2P data = PHYSTOP - (data - KERNBASE)" by (simp_all add: V2P_def)
  show "in_seg (KERNBASE, 0, EXTMEM, PTE_W) x \<longleftrightarrow> KERNBASE \<le> x \<and> x < KERNLINK"
    using in_run_iff [of KERNBASE EXTMEM x] by (simp add: in_seg_def word_le_nat_alt word_less_nat_alt)
  show "in_seg (KERNLINK, V2P KERNLINK, V2P data, 0) x \<longleftrightarrow> KERNLINK \<le> x \<and> x < data"
    using in_run_iff [of KERNLINK "data - KERNLINK" x] d n al unfolding in_seg_def prod.case v by (simp add: word_le_nat_alt word_less_nat_alt)
  show "in_seg (data, V2P data, PHYSTOP, PTE_W) x \<longleftrightarrow> data \<le> x \<and> x < P2V PHYSTOP"
    using in_run_iff [of data "PHYSTOP - (data - KERNBASE)" x] d n al unfolding in_seg_def prod.case v by (simp add: word_le_nat_alt word_less_nat_alt P2V_def)
  show "in_seg (DEVSPACE, DEVSPACE, 0, PTE_W) x \<longleftrightarrow> DEVSPACE \<le> x"
    using in_run_iff [of DEVSPACE "0 - DEVSPACE" x] unat_u32_lt [of x] by (simp add: in_seg_def word_le_nat_alt)
qed

lemma segs_ok_kmap:
  assumes D: "kdata_ok data"
  shows "segs_ok (kmap data)"
proof -
  have d: "unat data mod 4096 = 0" "2148532224 < unat data" "unat data < 2382364672"
    using D by (simp_all add: kdata_ok_def word_less_nat_alt P2V_def)
  have "segs_ok []" by (simp add: segs_ok_def)
  then show ?thesis
    using d by (auto simp: kmap_def segs_ok_Cons kmap_segs [OF D] word_le_nat_alt word_less_nat_alt P2V_def)
qed

lemma asp_zero:
  assumes f: "free_pages s xs" and d: "page_ok (kend s) d" "d \<notin> set xs" and z: "\<forall>x. page_of x = d \<longrightarrow> mem s x = 0" and k: "KERNBASE < kend s"
  shows "asp s d xs" "\<forall>x. ventry (mem s) d x = 0" "pt_pages (mem s) d = {d}"
proof -
  have "load32 (mem s) (d + 4 * i) = load32 (\<lambda>_. 0) (d + 4 * i)" if "unat i < 1024" for i
    using that z by (intro load32_slot_cong page_ok_aligned [OF d(1)]) auto
  then have h: "\<not> has_table (mem s) d i" for i by (auto simp: has_table_def load32_def)
  then show v: "\<forall>x. ventry (mem s) d x = 0" and "pt_pages (mem s) d = {d}" by (auto simp: ventry_def pt_pages_def)
  then show "asp s d xs" using f d k h by (simp add: asp_def pt_inv_def upage_def)
qed

lemma kernel_mapI:
  assumes D: "kdata_ok data" and e: "\<forall>k \<in> set (kmap data). \<forall>x. in_seg k x \<longrightarrow> ventry m d x = seg_entry k x"
    and z: "\<forall>x. (\<forall>k \<in> set (kmap data). \<not> in_seg k x) \<longrightarrow> ventry m d x = 0"
  shows "kernel_map data m d"
  unfolding kernel_map_def
proof (intro allI impI)
  fix x :: u32
  assume "KERNBASE \<le> x"
  note S = kmap_segs [OF D, of x]
  have e': "in_seg k x \<Longrightarrow> k \<in> set (kmap data) \<Longrightarrow> ventry m d x = seg_entry k x" for k using e by blast
  have s: "ventry m d x = V2P (page_of x) OR PTE_W OR PTE_P" if "KERNBASE \<le> x" "x < KERNLINK"
    using e' [of "(KERNBASE, 0, EXTMEM, PTE_W)"] that S(1) by (simp add: kmap_def seg_entry_def V2P_def)
  have t: "ventry m d x = V2P (page_of x) OR PTE_P" if "KERNLINK \<le> x" "x < data"
    using e' [of "(KERNLINK, V2P KERNLINK, V2P data, 0)"] that S(2) by (simp add: kmap_def seg_entry_def V2P_def)
  have u: "ventry m d x = V2P (page_of x) OR PTE_W OR PTE_P" if "data \<le> x" "x < P2V PHYSTOP"
    using e' [of "(data, V2P data, PHYSTOP, PTE_W)"] that S(3) by (simp add: kmap_def seg_entry_def V2P_def)
  have v: "ventry m d x = page_of x OR PTE_W OR PTE_P" if "DEVSPACE \<le> x"
    using e' [of "(DEVSPACE, DEVSPACE, 0, PTE_W)"] that S(4) by (simp add: kmap_def seg_entry_def)
  have d: "KERNLINK < data" "data < P2V PHYSTOP" using D by (simp_all add: kdata_ok_def)
  have w: "ventry m d x = 0" if "P2V PHYSTOP \<le> x" "x < DEVSPACE"
    using z that d S by (auto simp: kmap_def P2V_def word_le_nat_alt word_less_nat_alt)
  have o: "P2V PHYSTOP \<le> DEVSPACE" by (simp add: P2V_def)
  show "ventry m d x =
     (if KERNLINK \<le> x \<and> x < data then V2P (page_of x) OR PTE_P
      else if x < P2V PHYSTOP then V2P (page_of x) OR PTE_W OR PTE_P
      else if x < DEVSPACE then 0
      else page_of x OR PTE_W OR PTE_P)"
    using s t u v w d \<open>KERNBASE \<le> x\<close> by (metis not_less)
qed

lemma setupkvm_spec:
  fixes s :: "'a mem_st_scheme"
  assumes f: "free_pages s xs" and k: "KERNBASE < kend s" and D: "kdata_ok (kdata s)"
  shows "\<exists>r s' xs'. setupkvm s = Ret r s' \<and> kend s' = kend s \<and> (\<forall>x. page_of x \<notin> set xs \<longrightarrow> mem s' x = mem s x)
    \<and> (r \<noteq> 0 \<and> asp s' r xs' \<and> (\<forall>x. \<not> upage (mem s') r x) \<and> kernel_map (kdata s) (mem s') r
         \<and> set xs = set xs' \<union> asp_pages (mem s') r
       \<or> r = 0 \<and> free_pages s' xs' \<and> set xs' = set xs)"
proof (cases xs)
  case Nil
  then have "kalloc s = Ret 0 s" using kalloc_empty f by simp
  then have "setupkvm s = Ret 0 s" by (simp add: setupkvm_def bnd_def ret_def)
  then show ?thesis using f by (intro exI [of _ 0] exI [of _ s] exI [of _ xs]) simp
next
  case (Cons d ys)
  have f': "free_pages s (d # ys)" using f Cons by simp
  define s0 where "s0 = s\<lparr>freelist := load32 (mem s) d, mem := memset (mem s) d 0 PGSIZE\<rparr>"
  note K = kalloc_memset [OF f', folded s0_def]
  have d: "page_ok (kend s0) d" "d \<notin> set ys" using f' K(4) by (auto simp: free_pages_def)
  have k0: "KERNBASE < kend s0" using k K(4) by simp
  note Z = asp_zero [OF K(3) d K(6) k0]
  have nu: "\<forall>x. \<not> upage (mem s0) d x" using Z(2) by (simp add: upage_def)
  have np: "\<not> pte_present (ventry (mem s0) d x)" for x using Z(2) by simp
  have s0: "kdata s0 = kdata s" by (simp add: s0_def)
  obtain r s' where r: "map_all d (kmap (kdata s)) s0 = Ret r s'" and P: "kern_post s0 s' d ys (kmap (kdata s)) r"
    using map_all_spec [OF Z(1) nu segs_ok_kmap [OF D]] np by blast
  have "setupkvm s = map_all d (kmap (kdata s)) s0"
    using K(1,2) s0_def by (simp add: setupkvm_def bnd_def seqp_def modify_def gets_def P2V_def)
  then have run: "setupkvm s = Ret r s'" using r by simp
  have set: "set ys \<union> pt_pages (mem s0) d = set xs" using Z(3) Cons by simp
  have out: "kend s' = kend s" "\<forall>x. page_of x \<notin> set xs \<longrightarrow> mem s' x = mem s x"
    using P K(4,5) set Cons by (auto simp: kern_post_def)
  have "r = d \<and> (\<exists>ts xs'. ys = ts @ xs' \<and> asp s' d xs' \<and> pt_pages (mem s') d = set ts \<union> pt_pages (mem s0) d)
          \<and> (\<forall>x. \<not> upage (mem s') d x)
          \<and> (\<forall>k \<in> set (kmap (kdata s)). \<forall>x. in_seg k x \<longrightarrow> ventry (mem s') d x = seg_entry k x)
          \<and> (\<forall>x. (\<forall>k \<in> set (kmap (kdata s)). \<not> in_seg k x) \<longrightarrow> ventry (mem s') d x = ventry (mem s0) d x)
       \<or> r = 0 \<and> (\<exists>xs'. free_pages s' xs' \<and> set xs' = set ys \<union> pt_pages (mem s0) d)" (is "?ok \<or> ?bad") using P by (simp only: kern_post_def)
  then show ?thesis
  proof
    assume ?bad
    then obtain xs' where "r = 0" "free_pages s' xs'" "set xs' = set xs" using set by auto
    then show ?thesis using run out by (intro exI [of _ r] exI [of _ s'] exI [of _ xs']) simp
  next
    assume ok: ?ok
    then obtain ts xs' where t: "ys = ts @ xs'" "asp s' d xs'" "pt_pages (mem s') d = set ts \<union> pt_pages (mem s0) d" by blast
    have u: "\<forall>x. \<not> upage (mem s') d x" "r = d" using ok by blast+
    have "kernel_map (kdata s) (mem s') d" using ok Z(2) by (intro kernel_mapI [OF D]) simp_all
    moreover have "set xs = set xs' \<union> asp_pages (mem s') d" using asp_pages_kernel [OF u(1)] t(1,3) set by auto
    ultimately show ?thesis using run out t(2) u K(2) by (intro exI [of _ r] exI [of _ s'] exI [of _ xs']) simp
  qed
qed

section \<open>Copying an address space\<close>

lemma page_move:
  assumes "page_ok k p" "page_ok k q"
  shows "memmove m p q PGSIZE x = (if page_of x = p then m (q + (x - p)) else m x)"
proof -
  have "unat p + 4096 < 4294967296" "unat q + 4096 < 4294967296" using page_ok_range [OF assms(1)] page_ok_range [OF assms(2)] by simp_all
  then show ?thesis using in_page_iff [OF page_ok_aligned [OF assms(1)]] by (simp add: memmove_copies)
qed

lemma upage_walk:
  assumes "asp s g xs" "upage (mem s) g i"
  obtains pte where "walkpgdir g i False s = Ret pte s" "pte \<noteq> 0" "load32 (mem s) pte = ventry (mem s) g i" "ventry (mem s) g i AND PTE_P \<noteq> 0"
proof
  have h: "has_table (mem s) g (PDX i)" using assms(2) by (auto simp: upage_def ventry_def split: if_splits)
  show "walkpgdir g i False s = Ret (pgtab (mem s) g (PDX i) + 4 * PTX i) s" using h by (rule walk_hit)
  show "pgtab (mem s) g (PDX i) + 4 * PTX i \<noteq> 0" using walk_nonzero [OF aspD(1) [OF assms(1)] h] .
  show "load32 (mem s) (pgtab (mem s) g (PDX i) + 4 * PTX i) = ventry (mem s) g i" using h by (simp add: ventry_def)
  show "ventry (mem s) g i AND PTE_P \<noteq> 0" using assms(2) by (simp add: upage_def pte_present_def)
qed

lemma flags_present: "pte_present e \<Longrightarrow> PTE_FLAGS e OR PTE_P = PTE_FLAGS e"
proof -
  assume "pte_present e"
  then have "bit e 0" by (simp add: pte_present_def and_one_eq odd_iff_mod_2_eq_one [symmetric] bit_0)
  then show ?thesis by (intro bit_word_eqI) (auto simp: PTE_FLAGS_def bit_simps)
qed

text \<open>
  The state of the loop of \<^verbatim>\<open>copyuvm\<close>: \<open>m\<close> is the memory it started from and \<open>F\<close> the pages that were
  free then; the pages below \<open>a\<close> have been copied from \<open>g\<close> to \<open>d\<close>.
\<close>

definition copied :: "memory \<Rightarrow> u32 set \<Rightarrow> u32 \<Rightarrow> u32 \<Rightarrow> u32 \<Rightarrow> u32 \<Rightarrow> 'a mem_st_scheme \<Rightarrow> u32 list \<Rightarrow> bool" where
  "copied m F data g d a s xs \<longleftrightarrow> uvm s d a xs \<and> kernel_map data (mem s) d \<and> set xs \<union> asp_pages (mem s) d = F
     \<and> (\<forall>x. page_of x \<notin> F \<longrightarrow> mem s x = m x)
     \<and> (\<forall>va. unat va < ru a \<longrightarrow> PTE_FLAGS (ventry (mem s) d va) = PTE_FLAGS (ventry m g va) \<and> ubyte (mem s) d va = ubyte m g va)"

definition all_free :: "memory \<Rightarrow> u32 set \<Rightarrow> 'a mem_st_scheme \<Rightarrow> bool" where
  "all_free m F s \<longleftrightarrow> (\<exists>xs. free_pages s xs \<and> set xs = F) \<and> (\<forall>x. page_of x \<notin> F \<longrightarrow> mem s x = m x)"

lemma copy_undo:
  fixes s :: "'a mem_st_scheme"
  assumes A: "asp s d xs" and F: "set xs \<union> asp_pages (mem s) d = F" and m: "\<forall>x. page_of x \<notin> F \<longrightarrow> mem s x = m x"
  shows "\<exists>s'. seqp (freevm d) (ret 0) s = Ret (0 :: u32) s' \<and> all_free m F s' \<and> kend s' = kend s"
proof -
  obtain s' ys where s': "freevm d s = Ret () s'" "released s s' d xs ys" using freevm_spec [OF A] by blast
  have "free_pages s' (ys @ xs)" "set (ys @ xs) = F" "kend s' = kend s" using s'(2) F by (auto simp: released_def)
  moreover have "\<forall>x. page_of x \<notin> F \<longrightarrow> mem s' x = m x" using s'(2) F m by (auto simp: released_def)
  ultimately show ?thesis using s'(1) by (auto simp: all_free_def seqp_def bnd_def ret_def)
qed

lemma parent_kept:
  assumes G: "asp o' g xs0" and m: "\<forall>x. page_of x \<notin> set xs0 \<longrightarrow> mem s x = mem o' x" and k: "kend s = kend o'"
    and f: "free_pages s xs" "set xs \<subseteq> set xs0"
  shows "asp s g xs" "ventry (mem s) g = ventry (mem o') g" "upage (mem s) g = upage (mem o') g" "frame (mem s) g = frame (mem o') g"
    "asp_pages (mem s) g = asp_pages (mem o') g" "upage (mem o') g va \<Longrightarrow> ubyte (mem s) g va = ubyte (mem o') g va"
proof -
  have own: "page_of x \<notin> set xs0" if "page_of x \<in> asp_pages (mem o') g" for x using asp_pages_free [OF G that] by blast
  have m': "\<forall>x. page_of x \<in> pt_pages (mem o') g \<longrightarrow> mem s x = mem o' x" using m own by (auto simp: asp_pages_def)
  have "set xs \<inter> asp_pages (mem o') g = {}" using asp_pages_free [OF G] f(2) by blast
  note O = asp_other [OF G m' k f(1) this]
  show "asp s g xs" "ventry (mem s) g = ventry (mem o') g" "upage (mem s) g = upage (mem o') g" "frame (mem s) g = frame (mem o') g"
    "asp_pages (mem s) g = asp_pages (mem o') g" using O by simp_all
  assume u: "upage (mem o') g va"
  then have "\<forall>x. page_of x = frame (mem o') g va \<longrightarrow> mem s x = mem o' x" using m own by (auto simp: asp_pages_def)
  then show "ubyte (mem s) g va = ubyte (mem o') g va" using O(2) by (intro ubyte_same [OF G u]) simp_all
qed

lemma copied_next:
  fixes s s1 :: "'a mem_st_scheme"
  assumes C: "copied m F data g d a s (p # ys)" and al: "unat a mod 4096 = 0" and top: "unat a + 4096 \<le> 2147483648"
    and U1: "uvm s1 d (a + PGSIZE) xs1" and ts: "ys = ts @ xs1" and sb: "same_below (mem s) (mem s1) d (unat a)"
    and ap: "asp_pages (mem s1) d = insert p (set ts) \<union> asp_pages (mem s) d"
    and v: "\<forall>x. ventry (mem s1) d x = (if page_of x = a then e else ventry (mem s) d x)"
    and fl: "PTE_FLAGS e = PTE_FLAGS (ventry m g a)"
    and b: "\<forall>x. page_of x = a \<longrightarrow> ubyte (mem s1) d x = ubyte m g x"
    and out: "\<forall>x. page_of x \<notin> F \<longrightarrow> mem s1 x = mem s x"
  shows "copied m F data g d (a + PGSIZE) s1 xs1"
proof -
  have ra: "ru a = unat a" "ru (a + PGSIZE) = unat a + 4096"
    using al top unat_add_nowrap32 [of a PGSIZE] by (simp_all add: ru_aligned)
  have pa: "page_of a = a" using al by (rule page_of_page)
  have "page_of x \<noteq> a" if "KERNBASE \<le> x" for x
    using KERNBASE_page [of x a] that top pa by (auto simp: word_le_nat_alt word_less_nat_alt)
  then have K: "kernel_map data (mem s1) d" using C v by (simp add: copied_def kernel_map_def)
  have "PTE_FLAGS (ventry (mem s1) d va) = PTE_FLAGS (ventry m g va) \<and> ubyte (mem s1) d va = ubyte m g va" if "unat va < unat a + 4096" for va
  proof (cases "unat va < unat a")
    case True
    then show ?thesis using C sb ra(1) by (simp add: copied_def same_below_def)
  next
    case False
    then have "page_of va = a" using page_next_iff [OF al top, of va] that by simp
    then show ?thesis using v fl b ventry_page [of va a m g] pa by simp
  qed
  moreover have "set xs1 \<union> asp_pages (mem s1) d = F" using C ap ts by (auto simp: copied_def)
  moreover have "\<forall>x. page_of x \<notin> F \<longrightarrow> mem s1 x = m x" using C out by (simp add: copied_def)
  ultimately show ?thesis using U1 K ra(2) by (simp only: copied_def) simp
qed

lemma copied_fail:
  fixes s0 :: "'a mem_st_scheme"
  assumes U: "uvm s0 d a []" and p: "page_ok (kend s0) p" "p \<notin> asp_pages (mem s0) d" and F: "insert p (asp_pages (mem s0) d) = F"
    and m: "\<forall>x. page_of x \<notin> F \<longrightarrow> mem s0 x = m x"
  shows "\<exists>s'. seqp (kfree p) (seqp (freevm d) (ret 0)) s0 = Ret (0 :: u32) s' \<and> all_free m F s' \<and> kend s' = kend s0"
proof -
  obtain s1 where s1: "kfree p s0 = Ret () s1" "uvm s1 d a [p]" "kend s1 = kend s0"
    "asp_pages (mem s1) d = asp_pages (mem s0) d" "\<forall>x. page_of x \<noteq> p \<longrightarrow> mem s1 x = mem s0 x"
    using uvm_give_back [OF U p(1) _ p(2)] by auto
  have "set [p] \<union> asp_pages (mem s1) d = F" "\<forall>x. page_of x \<notin> F \<longrightarrow> mem s1 x = m x" using s1(4,5) F m by auto
  then obtain s' where "seqp (freevm d) (ret 0) s1 = Ret (0 :: u32) s'" "all_free m F s'" "kend s' = kend s1"
    using copy_undo [OF uvmD(1) [OF s1(2)]] by blast
  then show ?thesis using s1(1,3) by (auto simp: seqp_def bnd_def)
qed

lemma copy_loop_spec:
  fixes s o' :: "'a mem_st_scheme"
  assumes G: "uvm o' g sz xs0" and "copied (mem o') (set xs0) data g d a s xs" "kend s = kend o'"
    "unat a mod 4096 = 0" "unat a + 4096 * k = ru sz"
  shows "\<exists>r s'. copyuvm_loop g d (map (\<lambda>i. a + of_nat (4096 * i)) [0..<k]) s = Ret r s' \<and> kend s' = kend o'
    \<and> (r = d \<and> (\<exists>xs'. copied (mem o') (set xs0) data g d sz s' xs') \<or> r = 0 \<and> all_free (mem o') (set xs0) s')"
  using assms(2-)
proof (induction k arbitrary: s a xs)
  case 0
  have "ru a = ru sz" using 0(3,4) by (simp add: ru_aligned)
  then have "copied (mem o') (set xs0) data g d sz s xs" using 0(1) uvmD(2) [OF G] by (simp add: copied_def uvm_def)
  then show ?case using 0(2) by (auto simp: ret_def)
next
  case (Suc k)
  note C = Suc.prems(1) and k = Suc.prems(2) and al = Suc.prems(3)
  define qs where "qs = map (\<lambda>i. a + PGSIZE + of_nat (4096 * i)) [0..<k]"
  have top: "unat a + 4096 \<le> 2147483648" using Suc.prems(4) ru_le_base [OF uvmD(2) [OF G]] by simp
  have pa: "page_of a = a" using al by (rule page_of_page)
  have U: "uvm s d a xs" and F: "set xs \<union> asp_pages (mem s) d = set xs0" and m: "\<forall>x. page_of x \<notin> set xs0 \<longrightarrow> mem s x = mem o' x"
    using C by (auto simp: copied_def)
  have fp: "free_pages s xs" "set xs \<subseteq> set xs0" using pt_invD(1) [OF aspD(1) [OF uvmD(1) [OF U]]] F by auto
  note P = parent_kept [OF uvmD(1) [OF G] m k fp]
  have ua: "upage (mem o') g va" if "page_of va = a" for va
    using page_next_iff [OF al top, of va] that Suc.prems(4) uvmD(3) [OF G, of va] by simp
  define e where "e = ventry (mem o') g a"
  define q where "q = frame (mem o') g a"
  obtain pte where w: "walkpgdir g a False s = Ret pte s" "pte \<noteq> 0" "load32 (mem s) pte = e" "e AND PTE_P \<noteq> 0"
    using upage_walk [OF P(1), of a] P(2,3) ua [OF pa] e_def by metis
  show ?case
  proof (cases xs)
    case Nil
    obtain s' where "seqp (freevm d) (ret 0) s = Ret (0 :: u32) s'" "all_free (mem o') (set xs0) s'" "kend s' = kend s"
      using copy_undo [OF uvmD(1) [OF U] F m] by blast
    moreover have "kalloc s = Ret 0 s" using kalloc_empty fp(1) Nil by simp
    ultimately have "copyuvm_loop g d (a # qs) s = Ret 0 s'" using w by (simp add: bnd_def gets_def)
    then show ?thesis using \<open>all_free (mem o') (set xs0) s'\<close> \<open>kend s' = kend s\<close> k unfolding pages_Suc qs_def [symmetric] by (intro exI [of _ 0] exI [of _ s']) simp
  next
    case (Cons p ys)
    have p: "page_ok (kend s) p" "p \<notin> set ys" "p \<notin> asp_pages (mem s) d" "page_ok (kend s) q"
      using fp(1) Cons asp_pages_free [OF uvmD(1) [OF U]] aspD(2) [OF P(1)] P(3,4) ua [OF pa] by (auto simp: free_pages_def q_def)
    note mv = page_move [OF p(1,4), of "mem s"]
    define s0 where "s0 = s\<lparr>freelist := load32 (mem s) p, mem := memmove (mem s) p q PGSIZE\<rparr>"
    have "\<forall>x. page_of x \<noteq> p \<longrightarrow> memmove (mem s) p q PGSIZE x = mem s x" using mv by simp
    note K = kalloc_fill [OF fp(1) [unfolded Cons] this, folded s0_def]
    have run: "copyuvm_loop g d (a # qs) s = bnd (mappages d a PGSIZE (V2P p) (PTE_FLAGS e))
        (\<lambda>r. if r < 0 then seqp (kfree p) (seqp (freevm d) (ret 0)) else copyuvm_loop g d qs) s0"
      using w K(1,2) by (simp add: bnd_def gets_def seqp_def modify_def s0_def q_def frame_def e_def)
    have perm: "unat (PTE_FLAGS e) < 4096" by (simp add: unat_PTE_FLAGS)
    from uvm_add_page [OF U [unfolded Cons] al top perm K(5,4,3)] show ?thesis
    proof (elim disjE exE conjE)
      assume n: "ys = []" "mappages d a PGSIZE (V2P p) (PTE_FLAGS e) s0 = Ret (-1) s0" and U0: "uvm s0 d a []" and ap: "asp_pages (mem s0) d = asp_pages (mem s) d"
      have F0: "insert p (asp_pages (mem s0) d) = set xs0" using F Cons n(1) ap by simp
      then have m0: "\<forall>x. page_of x \<notin> set xs0 \<longrightarrow> mem s0 x = mem o' x" using K(5) m by auto
      have p0: "page_ok (kend s0) p" "p \<notin> asp_pages (mem s0) d" using p(1,3) K(4) ap by simp_all
      obtain s' where "seqp (kfree p) (seqp (freevm d) (ret 0)) s0 = Ret (0 :: u32) s'" "all_free (mem o') (set xs0) s'" "kend s' = kend s0"
        using copied_fail [OF U0 p0 F0 m0] by blast
      then show ?thesis using run n(2) K(4) k unfolding pages_Suc qs_def [symmetric] by (auto simp: bnd_def)
    next
      fix s1 :: "'a mem_st_scheme" and ts xs1
      assume r: "mappages d a PGSIZE (V2P p) (PTE_FLAGS e) s0 = Ret 0 s1" and U1: "uvm s1 d (a + PGSIZE) xs1" and ts: "ys = ts @ xs1"
        and sb: "same_below (mem s) (mem s1) d (unat a)" and k1: "kend s1 = kend s" and ap: "asp_pages (mem s1) d = insert p (set ts) \<union> asp_pages (mem s) d"
        and v: "\<forall>x. ventry (mem s1) d x = (if page_of x = a then V2P p OR PTE_FLAGS e OR PTE_P else ventry (mem s) d x)"
        and b: "\<forall>x. page_of x = a \<longrightarrow> ubyte (mem s1) d x = mem s0 (p + (x AND 0xFFF))"
        and out: "\<forall>x. page_of x \<notin> set ts \<union> pt_pages (mem s) d \<longrightarrow> mem s1 x = mem s0 x"
      have fl: "PTE_FLAGS (V2P p OR PTE_FLAGS e OR PTE_P) = PTE_FLAGS (ventry (mem o') g a)"
        using entry_parts(2) [OF V2P_aligned [OF p(1)] perm] flags_present [of e] w(4) by (simp add: e_def pte_present_def)
      have "ubyte (mem s1) d x = ubyte (mem o') g x" if x: "page_of x = a" for x
      proof -
        have "page_of (p + (x AND 0xFFF)) = p"
          using page_ok_aligned [OF p(1)] by (intro page_of_add) (auto simp: unat_and_4095 [simplified])
        then have "ubyte (mem s1) d x = mem s (q + (x AND 0xFFF))" using b x mv by (simp add: s0_def)
        also have "\<dots> = ubyte (mem s) g x" using frame_page [of x a "mem s" g] x pa P(4) by (simp add: ubyte_def q_def)
        also have "\<dots> = ubyte (mem o') g x" using P(6) ua [OF x] .
        finally show ?thesis .
      qed
      moreover have "mem s1 x = mem s x" if x: "page_of x \<notin> set xs0" for x
      proof -
        have "page_of x \<notin> set ts \<union> pt_pages (mem s) d" "page_of x \<noteq> p" using x F Cons ts by (auto simp: asp_pages_def)
        then show ?thesis using out K(5) by simp
      qed
      ultimately have C1: "copied (mem o') (set xs0) data g d (a + PGSIZE) s1 xs1"
        using copied_next [OF C [unfolded Cons] al top U1 ts sb ap v fl] by simp
      have na: "unat (a + PGSIZE) mod 4096 = 0" "unat (a + PGSIZE) + 4096 * k = ru sz"
        using top al Suc.prems(4) unat_add_nowrap32 [of a PGSIZE] by simp_all
      from Suc.IH [OF C1 _ na] k1 k show ?thesis
        unfolding pages_Suc qs_def [symmetric] run using r by (auto simp: bnd_def qs_def)
    qed
  qed
qed

lemma copied_start:
  assumes "asp s d xs" "\<forall>x. \<not> upage (mem s) d x" "kernel_map data (mem s) d" "set xs \<union> asp_pages (mem s) d = F" "\<forall>x. page_of x \<notin> F \<longrightarrow> mem s x = m x"
  shows "copied m F data g d 0 s xs"
  using assms by (simp add: copied_def uvm_def ru_def)

lemma copyuvm_spec:
  fixes s :: "'a mem_st_scheme"
  assumes U: "uvm s g sz xs" and D: "kdata_ok (kdata s)"
  shows "\<exists>r s'. copyuvm g sz s = Ret r s' \<and> kend s' = kend s
    \<and> (r \<noteq> 0 \<and> (\<exists>xs'. copied (mem s) (set xs) (kdata s) g r sz s' xs') \<or> r = 0 \<and> all_free (mem s) (set xs) s')"
proof -
  have "free_pages s xs" "KERNBASE < kend s" using pt_invD(1) [OF aspD(1)] aspD(6) uvmD(1) [OF U] by blast+
  from setupkvm_spec [OF this D] obtain d s1 xs1 where r: "setupkvm s = Ret d s1" and k: "kend s1 = kend s"
    and m: "\<forall>x. page_of x \<notin> set xs \<longrightarrow> mem s1 x = mem s x"
    and c: "d \<noteq> 0 \<and> asp s1 d xs1 \<and> (\<forall>x. \<not> upage (mem s1) d x) \<and> kernel_map (kdata s) (mem s1) d \<and> set xs = set xs1 \<union> asp_pages (mem s1) d
       \<or> d = 0 \<and> free_pages s1 xs1 \<and> set xs1 = set xs" by blast
  show ?thesis
  proof (cases "d = 0")
    case True
    then have "copyuvm g sz s = Ret 0 s1" using r by (simp add: copyuvm_def bnd_def ret_def)
    moreover have "all_free (mem s) (set xs) s1" using c True m by (auto simp: all_free_def)
    ultimately show ?thesis using k by auto
  next
    case False
    then have C: "copied (mem s) (set xs) (kdata s) g d 0 s1 xs1" using c m by (intro copied_start) simp_all
    have n: "unat (0 :: u32) mod 4096 = 0" "unat (0 :: u32) + 4096 * ((unat sz + 4095) div 4096) = ru sz" by (simp_all add: ru_def)
    have "copyuvm g sz s = copyuvm_loop g d (map (\<lambda>i. 0 + of_nat (4096 * i)) [0..<(unat sz + 4095) div 4096]) s1"
      using r False by (simp add: copyuvm_def bnd_def page_steps_def)
    then show ?thesis using copy_loop_spec [OF U C k n] False by auto
  qed
qed


text \<open>The kernel mappings need at least two page tables.\<close>

lemma kernel_map_tables:
  assumes I: "pt_inv s d xs" and K: "kernel_map data (mem s) d" and D: "kdata_ok data"
  shows "\<not> pt_pages (mem s) d \<subseteq> {p, q}"
proof -
  have "ventry (mem s) d KERNBASE \<noteq> 0" "ventry (mem s) d DEVSPACE \<noteq> 0"
    using K D by (auto simp: kernel_map_def P2V_def kdata_ok_def or_eq_0_iff)
  then have h: "has_table (mem s) d (PDX KERNBASE)" "has_table (mem s) d (PDX DEVSPACE)"
    by (auto simp: ventry_def split: if_splits)
  have "PDX KERNBASE \<noteq> PDX DEVSPACE" by (simp add: PDX_def)
  then have "pgtab (mem s) d (PDX KERNBASE) \<noteq> pgtab (mem s) d (PDX DEVSPACE)" using pt_invD(8) [OF I h] by blast
  moreover have "pgtab (mem s) d (PDX KERNBASE) \<noteq> d" "pgtab (mem s) d (PDX DEVSPACE) \<noteq> d" using pt_invD(6) [OF I] h by blast+
  moreover have "{d, pgtab (mem s) d (PDX KERNBASE), pgtab (mem s) d (PDX DEVSPACE)} \<subseteq> pt_pages (mem s) d"
    using h by (auto simp: pt_pages_def)
  ultimately show ?thesis by auto
qed


end
