(* ===== verification/Lifecycle.thy ===== *)
theory Lifecycle
  imports File Kvm
begin

text \<open>
  The life of a process, the functions of \<^verbatim>\<open>proc.c\<close> that need memory and files: \<^verbatim>\<open>userinit\<close>,
  \<^verbatim>\<open>growproc\<close>, \<^verbatim>\<open>fork\<close>, \<^verbatim>\<open>exit\<close>, \<^verbatim>\<open>wait\<close> and \<^verbatim>\<open>forkret\<close>.  The program text of \<^verbatim>\<open>initcode.S\<close>, which the
  build links in, is an argument of \<^verbatim>\<open>userinit\<close>.  The flag is the static variable of \<^verbatim>\<open>forkret\<close>.
\<close>

declare One_nat_def [simp del]

record life_st = file_st +
  forkret_first :: bool

text \<open>\<^verbatim>\<open>safestrcpy(p->name, t, sizeof(p->name))\<close>: the bytes behind the terminating NUL stay.\<close>

definition set_name :: "u8 list \<Rightarrow> proc \<Rightarrow> proc" where
  "set_name t q = (let w = safestrcpy (cstr_of t) 16 in q\<lparr>p_name := w @ drop (length w) (p_name q)\<rparr>)"

abbreviation (input) UCODE_SEL :: u16 where "UCODE_SEL \<equiv> 27"
abbreviation (input) UDATA_SEL :: u16 where "UDATA_SEL \<equiv> 35"

definition userinit :: "('a life_st_scheme) devsw \<Rightarrow> u8 list \<Rightarrow> ('a life_st_scheme, unit) prog" where
  "userinit devsw initcode =
     bnd allocproc (\<lambda>pp.
     seqp (modify (\<lambda>s. s\<lparr>initproc := pp\<rparr>))
     (bnd (deref pp) (\<lambda>p.
      bnd setupkvm (\<lambda>pgdir.
      seqp (modify (upd_proc p (\<lambda>q. q\<lparr>p_pgdir := pgdir\<rparr>)))
      (if pgdir = 0 then panic ''userinit: out of memory?''
       else
         seqp (inituvm pgdir initcode)
         (seqp (modify (upd_proc p (\<lambda>q. q\<lparr>p_sz := PGSIZE\<rparr>)))
         (seqp (modify (upd_proc p (\<lambda>q. q\<lparr>p_tf := zero_tf\<lparr>tf_cs := UCODE_SEL, tf_ds := UDATA_SEL, tf_es := UDATA_SEL,
                 tf_ss := UDATA_SEL, tf_eflags := FL_IF, tf_esp := PGSIZE, tf_eip := 0\<rparr>\<rparr>)))
         (seqp (modify (upd_proc p (set_name [105, 110, 105, 116, 99, 111, 100, 101])))
         (bnd (namei devsw [SLASH]) (\<lambda>cwd.
          seqp (modify (upd_proc p (\<lambda>q. q\<lparr>p_cwd := cwd\<rparr>)))
           (modify (upd_proc p (\<lambda>q. q\<lparr>p_state := RUNNABLE\<rparr>)))))))))))))"

definition growproc :: "int \<Rightarrow> ('a life_st_scheme, int) prog" where
  "growproc n =
     bnd myproc (\<lambda>me. bnd (deref me) (\<lambda>p.
     bnd (gets (\<lambda>s. (p_sz (ptable s ! p), p_pgdir (ptable s ! p)))) (\<lambda>(sz, pgdir).
     bnd (if n > 0 then allocuvm pgdir sz (sz + of_int n)
          else if n < 0 then deallocuvm pgdir sz (sz + of_int n)
          else ret sz) (\<lambda>sz'.
     if n \<noteq> 0 \<and> sz' = 0 then ret (-1)
     else
       seqp (modify (upd_proc p (\<lambda>q. q\<lparr>p_sz := sz'\<rparr>)))
       (seqp (switchuvm p)
        (ret 0))))))"

text \<open>The copy of the open files in \<^verbatim>\<open>fork\<close>.\<close>

definition dup_files :: "nat \<Rightarrow> nat \<Rightarrow> ('a life_st_scheme, unit) prog" where
  "dup_files cp np =
     forp [0..<NOFILE] (\<lambda>i.
       bnd (gets (\<lambda>s. p_ofile (ptable s ! cp) ! i)) (\<lambda>f.
       case f of
         None \<Rightarrow> ret ()
       | Some f \<Rightarrow>
           bnd (filedup f) (\<lambda>f.
           modify (upd_proc np (\<lambda>q. q\<lparr>p_ofile := (p_ofile q)[i := Some f]\<rparr>)))))"

definition fork :: "('a life_st_scheme, int) prog" where
  "fork =
     bnd myproc (\<lambda>me. bnd allocproc (\<lambda>npp.
     case npp of
       None \<Rightarrow> ret (-1)
     | Some np \<Rightarrow>
         bnd (deref me) (\<lambda>cp.
         bnd (gets (\<lambda>s. ptable s ! cp)) (\<lambda>c.
         bnd (copyuvm (p_pgdir c) (p_sz c)) (\<lambda>pgdir.
         seqp (modify (upd_proc np (\<lambda>q. q\<lparr>p_pgdir := pgdir\<rparr>)))
         (if pgdir = 0 then
            bnd (gets (\<lambda>s. p_kstack (ptable s ! np))) (\<lambda>ks.
            seqp (kfree ks)
            (seqp (modify (upd_proc np (\<lambda>q. q\<lparr>p_kstack := 0, p_state := UNUSED\<rparr>)))
             (ret (-1))))
          else
            seqp (modify (upd_proc np (\<lambda>q. q\<lparr>p_sz := p_sz c, p_parent := Some cp, p_tf := (p_tf c)\<lparr>tf_eax := 0\<rparr>\<rparr>)))
            (seqp (dup_files cp np)
            (bnd (bnd (deref (p_cwd c)) idup) (\<lambda>cwd.
             seqp (modify (upd_proc np (\<lambda>q. q\<lparr>p_cwd := Some cwd\<rparr>)))
             (seqp (modify (upd_proc np (set_name (p_name c))))
             (bnd (gets (\<lambda>s. p_pid (ptable s ! np))) (\<lambda>pid.
              seqp (modify (upd_proc np (\<lambda>q. q\<lparr>p_state := RUNNABLE\<rparr>)))
               (ret pid)))))))))))))"

definition close_files :: "nat \<Rightarrow> ('a life_st_scheme, unit) prog" where
  "close_files cp =
     forp [0..<NOFILE] (\<lambda>fd.
       bnd (gets (\<lambda>s. p_ofile (ptable s ! cp) ! fd)) (\<lambda>f.
       case f of
         None \<Rightarrow> ret ()
       | Some f \<Rightarrow>
           seqp (fileclose f)
            (modify (upd_proc cp (\<lambda>q. q\<lparr>p_ofile := (p_ofile q)[fd := None]\<rparr>)))))"

definition exit :: "('a life_st_scheme, unit) prog" where
  "exit =
     bnd myproc (\<lambda>me.
     bnd (gets initproc) (\<lambda>ip.
     if me = ip then panic ''init exiting''
     else
       bnd (deref me) (\<lambda>cp.
       seqp (close_files cp)
       (seqp begin_op
       (bnd (gets (\<lambda>s. p_cwd (ptable s ! cp))) (\<lambda>cwd.
        seqp (bnd (deref cwd) iput)
        (seqp end_op
        (seqp (modify (upd_proc cp (\<lambda>q. q\<lparr>p_cwd := None\<rparr>)))
         exit_table))))))))"

text \<open>
  One round of the loop of \<^verbatim>\<open>wait\<close>: the scan, and the decision after it.  Woken from the sleep the
  call scans again.
\<close>

definition wait :: "('a life_st_scheme, int) prog" where
  "wait =
     bnd myproc (\<lambda>me. bnd (deref me) (\<lambda>cp.
     bnd (gets (\<lambda>s. find (\<lambda>i. p_parent (ptable s ! i) = Some cp \<and> p_state (ptable s ! i) = ZOMBIE) [0..<NPROC])) (\<lambda>found.
     case found of
       Some i \<Rightarrow>
         bnd (gets (\<lambda>s. ptable s ! i)) (\<lambda>p.
         seqp (kfree (p_kstack p))
         (seqp (modify (upd_proc i (\<lambda>q. q\<lparr>p_kstack := 0\<rparr>)))
         (seqp (freevm (p_pgdir p))
         (seqp (modify (upd_proc i (\<lambda>q. q\<lparr>p_pid := 0, p_parent := None, p_name := (p_name q)[0 := 0],
                 p_killed := False, p_state := UNUSED\<rparr>)))
          (ret (p_pid p))))))
     | None \<Rightarrow>
         bnd (gets (\<lambda>s. list_ex (\<lambda>i. p_parent (ptable s ! i) = Some cp) [0..<NPROC] \<and> \<not> p_killed (ptable s ! cp))) (\<lambda>more.
         if \<not> more then ret (-1)
         else seqp (sleep (ChanProc cp)) (ret 0)))))"

definition forkret :: "('a life_st_scheme, unit) prog" where
  "forkret =
     bnd (gets forkret_first) (\<lambda>first.
     whenp first
       (seqp (modify (\<lambda>s. s\<lparr>forkret_first := False\<rparr>))
       (seqp (iinit ROOTDEV)
        (initlog ROOTDEV))))"

end
