(* ===== verification/Sysarg.thy ===== *)
theory Sysarg
  imports Lifecycle
begin

text \<open>
  How the kernel reads the arguments of a system call, the first half of \<^verbatim>\<open>syscall.c\<close>.  The kernel
  runs on the page table of the current process, so it reads and writes user memory through the
  page walk of that table; an address with no page is a page fault in the kernel, a panic.  A
  failing fetch is \<open>None\<close> (the code returns -1 and leaves the caller's variable alone); a fetched
  string is the list of its characters, which nothing changes before the kernel uses it.
\<close>

declare One_nat_def [simp del]

section \<open>User memory\<close>

definition user_load :: "u32 \<Rightarrow> ('a proc_st_scheme, u8) prog" where
  "user_load a =
     bnd myproc (\<lambda>me. bnd (deref me) (\<lambda>p.
     bnd (gets (\<lambda>s. vmap (mem s) (p_pgdir (ptable s ! p)) a)) (\<lambda>ka.
     case ka of
       None \<Rightarrow> panic ''trap''
     | Some ka \<Rightarrow> gets (\<lambda>s. mem s ka))))"

definition user_store :: "u32 \<Rightarrow> u8 \<Rightarrow> ('a proc_st_scheme, unit) prog" where
  "user_store a v =
     bnd myproc (\<lambda>me. bnd (deref me) (\<lambda>p.
     bnd (gets (\<lambda>s. vmap (mem s) (p_pgdir (ptable s ! p)) a)) (\<lambda>ka.
     case ka of
       None \<Rightarrow> panic ''trap''
     | Some ka \<Rightarrow> modify (\<lambda>s. s\<lparr>mem := (mem s)(ka := v)\<rparr>))))"

fun user_bytes :: "u32 \<Rightarrow> nat \<Rightarrow> ('a proc_st_scheme, u8 list) prog" where
  "user_bytes a 0 = ret []"
| "user_bytes a (Suc n) =
     bnd (user_load a) (\<lambda>b.
     bnd (user_bytes (a + 1) n) (\<lambda>bs.
     ret (b # bs)))"

fun user_put :: "u32 \<Rightarrow> u8 list \<Rightarrow> ('a proc_st_scheme, unit) prog" where
  "user_put a [] = ret ()"
| "user_put a (b # bs) = seqp (user_store a b) (user_put (a + 1) bs)"

section \<open>Fetching arguments\<close>

definition fetchint :: "u32 \<Rightarrow> ('a proc_st_scheme, int option) prog" where
  "fetchint addr =
     bnd myproc (\<lambda>me. bnd (deref me) (\<lambda>p.
     bnd (gets (\<lambda>s. p_sz (ptable s ! p))) (\<lambda>sz.
     if addr \<ge> sz \<or> addr + 4 > sz then ret None
     else
       bnd (user_bytes addr 4) (\<lambda>bs.
       ret (Some (to_int (get32 bs 0)))))))"

text \<open>The scan of \<^verbatim>\<open>fetchstr\<close> with the number of bytes left before \<^verbatim>\<open>ep\<close>.\<close>

fun fetchstr_scan :: "u32 \<Rightarrow> nat \<Rightarrow> ('a proc_st_scheme, u8 list option) prog" where
  "fetchstr_scan s 0 = ret None"
| "fetchstr_scan s (Suc n) =
     bnd (user_load s) (\<lambda>c.
     if c = 0 then ret (Some [])
     else
       bnd (fetchstr_scan (s + 1) n) (\<lambda>r.
       ret (map_option (\<lambda>cs. c # cs) r)))"

definition fetchstr :: "u32 \<Rightarrow> ('a proc_st_scheme, u8 list option) prog" where
  "fetchstr addr =
     bnd myproc (\<lambda>me. bnd (deref me) (\<lambda>p.
     bnd (gets (\<lambda>s. p_sz (ptable s ! p))) (\<lambda>sz.
     if addr \<ge> sz then ret None
     else fetchstr_scan addr (unat sz - unat addr))))"

definition argint :: "nat \<Rightarrow> ('a proc_st_scheme, int option) prog" where
  "argint n =
     bnd myproc (\<lambda>me. bnd (deref me) (\<lambda>p.
     bnd (gets (\<lambda>s. tf_esp (p_tf (ptable s ! p)))) (\<lambda>esp.
     fetchint (esp + 4 + 4 * of_nat n))))"

definition argptr :: "nat \<Rightarrow> int \<Rightarrow> ('a proc_st_scheme, u32 option) prog" where
  "argptr n size0 =
     bnd (argint n) (\<lambda>i.
     case i of
       None \<Rightarrow> ret None
     | Some i \<Rightarrow>
         bnd myproc (\<lambda>me. bnd (deref me) (\<lambda>p.
         bnd (gets (\<lambda>s. p_sz (ptable s ! p))) (\<lambda>sz.
         if size0 < 0 \<or> word_of_int i \<ge> sz \<or> word_of_int i + word_of_int size0 > sz then ret None
         else ret (Some (word_of_int i))))))"

definition argstr :: "nat \<Rightarrow> ('a proc_st_scheme, u8 list option) prog" where
  "argstr n =
     bnd (argint n) (\<lambda>addr.
     case addr of
       None \<Rightarrow> ret None
     | Some addr \<Rightarrow> fetchstr (word_of_int addr))"

section \<open>Fetching is safe\<close>

text \<open>
  A process that runs on a well-formed address space of its size, and the byte it has at an
  address.
\<close>

definition on_user :: "'a proc_st_scheme \<Rightarrow> nat \<Rightarrow> u32 list \<Rightarrow> bool" where
  "on_user s p xs \<longleftrightarrow> curproc s = Some p \<and> p < length (ptable s) \<and> uvm s (p_pgdir (ptable s ! p)) (p_sz (ptable s ! p)) xs"

definition uview :: "'a proc_st_scheme \<Rightarrow> nat \<Rightarrow> u32 \<Rightarrow> u8" where
  "uview s p va = ubyte (mem s) (p_pgdir (ptable s ! p)) va"

abbreviation (input) usize :: "'a proc_st_scheme \<Rightarrow> nat \<Rightarrow> nat" where
  "usize s p \<equiv> unat (p_sz (ptable s ! p))"

lemma on_userD:
  assumes "on_user s p xs"
  shows "curproc s = Some p" "p < length (ptable s)" "uvm s (p_pgdir (ptable s ! p)) (p_sz (ptable s ! p)) xs"
    "usize s p \<le> ru (p_sz (ptable s ! p))" "ru (p_sz (ptable s ! p)) \<le> 2147483648"
  using assms ru_ge(1) ru_le_base [OF uvmD(2), of s "p_pgdir (ptable s ! p)"] by (auto simp: on_user_def)

lemma user_load_ok:
  assumes O: "on_user s p xs" and a: "unat a < ru (p_sz (ptable s ! p))"
  shows "user_load a s = Ret (uview s p a) s"
proof -
  have "upage (mem s) (p_pgdir (ptable s ! p)) a" using uvmD(3) [OF on_userD(3) [OF O]] a by simp
  then obtain ka where "vmap (mem s) (p_pgdir (ptable s ! p)) a = Some ka" "mem s ka = uview s p a" using vmap_ubyte by (metis uview_def)
  then show ?thesis using on_userD(1) [OF O] by (simp add: user_load_def myproc_def deref_def prog_defs)
qed

lemma unat_next: "unat (a :: u32) + Suc n \<le> 2147483648 \<Longrightarrow> unat (a + 1) = Suc (unat a)"
  using unat_add_nowrap32 [of a 1] by simp

lemma user_bytes_ok:
  assumes O: "on_user s p xs" and a: "unat a + n \<le> ru (p_sz (ptable s ! p))"
  shows "user_bytes a n s = Ret (map (\<lambda>i. uview s p (a + of_nat i)) [0..<n]) s"
  using a
proof (induction n arbitrary: a)
  case (Suc n)
  have n: "unat (a + 1) = Suc (unat a)" using Suc.prems on_userD(5) [OF O] by (intro unat_next [of a n]) simp
  have "map (\<lambda>i. uview s p (a + of_nat i)) [0..<Suc n] = uview s p a # map (\<lambda>i. uview s p (a + 1 + of_nat i)) [0..<n]"
    by (simp only: map_upt_Suc) (simp add: add.assoc)
  then show ?case using Suc.IH [of "a + 1"] Suc.prems n user_load_ok [OF O, of a] by (simp add: prog_defs del: upt_Suc)
qed (simp add: ret_def)

text \<open>The C string at an address, if it ends within the next \<open>n\<close> bytes.\<close>

fun ustring :: "(u32 \<Rightarrow> u8) \<Rightarrow> u32 \<Rightarrow> nat \<Rightarrow> u8 list option" where
  "ustring f a 0 = None"
| "ustring f a (Suc n) = (if f a = 0 then Some [] else map_option (\<lambda>cs. f a # cs) (ustring f (a + 1) n))"

lemma fetchstr_scan_ok:
  assumes O: "on_user s p xs" and a: "unat a + n \<le> ru (p_sz (ptable s ! p))"
  shows "fetchstr_scan a n s = Ret (ustring (uview s p) a n) s"
  using a
proof (induction n arbitrary: a)
  case (Suc n)
  have n: "unat (a + 1) = Suc (unat a)" using Suc.prems on_userD(5) [OF O] by (intro unat_next [of a n]) simp
  show ?case using Suc.IH [of "a + 1"] Suc.prems n user_load_ok [OF O, of a] by (simp add: prog_defs)
qed (simp add: ret_def)

text \<open>The word at an address, and the argument words on the stack.\<close>

definition uword :: "'a proc_st_scheme \<Rightarrow> nat \<Rightarrow> u32 \<Rightarrow> int" where
  "uword s p a = to_int (get32 (map (\<lambda>i. uview s p (a + of_nat i)) [0..<4]) 0)"

abbreviation (input) arg_at :: "'a proc_st_scheme \<Rightarrow> nat \<Rightarrow> nat \<Rightarrow> u32" where
  "arg_at s p n \<equiv> tf_esp (p_tf (ptable s ! p)) + 4 + 4 * of_nat n"

text \<open>The range of \<open>k\<close> bytes from \<open>a\<close> on is below the size of the process.\<close>

abbreviation (input) inside :: "'a proc_st_scheme \<Rightarrow> nat \<Rightarrow> u32 \<Rightarrow> nat \<Rightarrow> bool" where
  "inside s p a k \<equiv> unat a < usize s p \<and> unat a + k \<le> usize s p"

lemma bound_check:
  assumes "unat sz \<le> 2147483648" "k < 2147483648"
  shows "(a \<ge> sz \<or> a + of_nat k > sz) \<longleftrightarrow> \<not> (unat a < unat sz \<and> unat a + k \<le> unat (sz :: u32))"
proof (cases "unat a < unat sz")
  case True
  have "unat (of_nat k :: u32) = k" using assms(2) by (simp add: unsigned_of_nat take_bit_nat_eq_self)
  then have "unat (a + of_nat k) = unat a + k" using True assms unat_add_nowrap32 [of a "of_nat k"] by simp
  then show ?thesis using True by (auto simp: word_le_nat_alt word_less_nat_alt)
qed (simp add: word_le_nat_alt)

lemma fetchint_ok:
  assumes O: "on_user s p xs"
  shows "fetchint a s = Ret (if inside s p a 4 then Some (uword s p a) else None) s"
proof -
  note D = on_userD [OF O]
  have c: "(a \<ge> p_sz (ptable s ! p) \<or> a + 4 > p_sz (ptable s ! p)) \<longleftrightarrow> \<not> inside s p a 4"
    using bound_check [of "p_sz (ptable s ! p)" 4 a] D(4,5) by simp
  show ?thesis
  proof (cases "inside s p a 4")
    case True
    then have "user_bytes a 4 s = Ret (map (\<lambda>i. uview s p (a + of_nat i)) [0..<4]) s" using D(4) by (intro user_bytes_ok [OF O]) simp
    then show ?thesis using True c D(1) by (simp add: fetchint_def myproc_def deref_def prog_defs uword_def)
  next
    case False
    then show ?thesis using c D(1) by (simp add: fetchint_def myproc_def deref_def prog_defs)
  qed
qed

lemma argint_ok:
  "on_user s p xs \<Longrightarrow> argint n s = Ret (if inside s p (arg_at s p n) 4 then Some (uword s p (arg_at s p n)) else None) s"
  using fetchint_ok [of s p xs "arg_at s p n"] on_userD(1) [of s p xs] by (simp add: argint_def myproc_def deref_def prog_defs)

lemma argptr_ok:
  assumes O: "on_user s p xs" and z: "size0 < 2147483648"
  shows "argptr n size0 s = Ret (let a = arg_at s p n; ptr = word_of_int (uword s p a) in
    if inside s p a 4 \<and> 0 \<le> size0 \<and> inside s p ptr (nat size0) then Some ptr else None) s"
proof (cases "inside s p (arg_at s p n) 4 \<and> 0 \<le> size0")
  case True
  define ptr :: u32 where "ptr = word_of_int (uword s p (arg_at s p n))"
  have w: "word_of_int size0 = (of_nat (nat size0) :: u32)" using True by simp
  have c: "(ptr \<ge> p_sz (ptable s ! p) \<or> ptr + word_of_int size0 > p_sz (ptable s ! p)) \<longleftrightarrow> \<not> inside s p ptr (nat size0)"
    unfolding w using on_userD(4,5) [OF O] z by (intro bound_check) simp_all
  show ?thesis using argint_ok [OF O, of n] True c on_userD(1) [OF O]
    by (simp add: argptr_def myproc_def deref_def prog_defs Let_def ptr_def [symmetric])
next
  case False
  then show ?thesis using argint_ok [OF O, of n] on_userD(1) [OF O] by (auto simp: argptr_def myproc_def deref_def prog_defs)
qed

lemma fetchstr_ok:
  assumes O: "on_user s p xs"
  shows "fetchstr a s = Ret (ustring (uview s p) a (usize s p - unat a)) s"
proof (cases "unat a < usize s p")
  case True
  then have "fetchstr_scan a (usize s p - unat a) s = Ret (ustring (uview s p) a (usize s p - unat a)) s"
    using on_userD(4) [OF O] by (intro fetchstr_scan_ok [OF O]) simp
  then show ?thesis using True on_userD(1) [OF O] by (simp add: fetchstr_def myproc_def deref_def prog_defs word_le_nat_alt)
next
  case False
  then show ?thesis using on_userD(1) [OF O] by (simp add: fetchstr_def myproc_def deref_def prog_defs word_le_nat_alt)
qed

lemma argstr_ok:
  assumes O: "on_user s p xs"
  shows "argstr n s = Ret (let a = arg_at s p n; str = word_of_int (uword s p a) in
    if inside s p a 4 then ustring (uview s p) str (usize s p - unat str) else None) s"
  using argint_ok [OF O, of n] fetchstr_ok [OF O] by (auto simp: argstr_def prog_defs Let_def)

text \<open>
  A store of the kernel to user memory changes that byte of the process and nothing else of it, and
  touches no page that the process does not own.
\<close>

definition user_only :: "'a proc_st_scheme \<Rightarrow> nat \<Rightarrow> 'a proc_st_scheme \<Rightarrow> bool" where
  "user_only s p s' \<longleftrightarrow> s' = s\<lparr>mem := mem s'\<rparr>
     \<and> (\<forall>y. page_of y \<notin> frame (mem s) (p_pgdir (ptable s ! p)) ` {va. unat va < ru (p_sz (ptable s ! p))} \<longrightarrow> mem s' y = mem s y)
     \<and> frame (mem s') (p_pgdir (ptable s ! p)) = frame (mem s) (p_pgdir (ptable s ! p))"

lemma user_only_ptable: "user_only s p s' \<Longrightarrow> ptable s' = ptable s"
proof -
  assume "user_only s p s'"
  then have "ptable s' = ptable (s\<lparr>mem := mem s'\<rparr>)" unfolding user_only_def by (elim conjE) (rule arg_cong [of s' _ ptable])
  then show ?thesis by simp
qed

lemma user_store_ok:
  fixes s :: "'a proc_st_scheme"
  assumes O: "on_user s p xs" and a: "unat a < ru (p_sz (ptable s ! p))"
  shows "\<exists>s'. user_store a v s = Ret () s' \<and> on_user s' p xs \<and> user_only s p s'
    \<and> (\<forall>x. unat x < ru (p_sz (ptable s ! p)) \<longrightarrow> uview s' p x = (if x = a then v else uview s p x))"
proof -
  note D = on_userD [OF O]
  define d where "d = p_pgdir (ptable s ! p)"
  define ka where "ka = frame (mem s) d a + (a AND 0xFFF)"
  define s' where "s' = s\<lparr>mem := (mem s)(ka := v)\<rparr>"
  note A = uvmD(1) [OF D(3), folded d_def]
  have u: "upage (mem s) d x \<longleftrightarrow> unat x < ru (p_sz (ptable s ! p))" for x using uvmD(3) [OF D(3)] by (simp add: d_def)
  have ua: "upage (mem s) d a" using a u by simp
  have pk: "page_of ka = frame (mem s) d a" unfolding ka_def by (rule page_of_frame [OF A ua])
  have fr: "frame (mem s) d a \<notin> set xs" "frame (mem s) d a \<notin> pt_pages (mem s) d" using aspD(3,4) [OF A ua] by simp_all
  have out: "mem s' y = mem s y" if "page_of y \<noteq> frame (mem s) d a" for y using that pk by (auto simp: s'_def)
  have fp: "free_pages s' xs" by (rule free_pages_frame [OF pt_invD(1) [OF aspD(1) [OF A]]]) (use fr pk in \<open>auto simp: s'_def\<close>)
  have ptm: "\<forall>x. page_of x \<in> pt_pages (mem s) d \<longrightarrow> mem s' x = mem s x" using out fr by metis
  have k: "kend s' = kend s" by (simp add: s'_def)
  have dis: "set xs \<inter> asp_pages (mem s) d = {}" using asp_pages_free [OF A] by blast
  have ot: "asp s' d xs" "upage (mem s') d = upage (mem s) d" "frame (mem s') d = frame (mem s) d"
    by (rule asp_other [OF A ptm k fp dis])+
  have run: "user_store a v s = Ret () s'"
    using D(1) ua by (simp add: user_store_def myproc_def deref_def prog_defs vmap_ventry upage_def ka_def frame_def s'_def d_def)
  have same: "x = a" if x: "upage (mem s) d x" and e: "frame (mem s) d x + (x AND 0xFFF) = ka" for x
  proof -
    have f: "frame (mem s) d x = frame (mem s) d a" using page_of_frame [OF A x] e pk by simp
    then have "x AND 0xFFF = a AND 0xFFF" using e by (simp add: ka_def)
    moreover have "page_of x = page_of a" using aspD(5) [OF A x ua f] .
    ultimately show ?thesis by (metis page_of_offset)
  qed
  have v: "uview s' p x = (if x = a then v else uview s p x)" if "unat x < ru (p_sz (ptable s ! p))" for x
  proof -
    have m: "mem s' = (mem s)(ka := v)" and d': "p_pgdir (ptable s' ! p) = d" by (simp_all add: s'_def d_def)
    show ?thesis
    proof (cases "x = a")
      case False
      then have "frame (mem s) d x + (x AND 0xFFF) \<noteq> ka" using same that u by blast
      then show ?thesis using False unfolding uview_def ubyte_def d' d_def [symmetric] ot(3) by (simp add: m)
    next
      case True
      then show ?thesis unfolding uview_def ubyte_def d' ot(3) by (simp add: m ka_def)
    qed
  qed
  have s': "curproc s' = curproc s" "ptable s' = ptable s" by (simp_all add: s'_def)
  have "on_user s' p xs" using ot(1) D(1,2) uvmD(2) [OF D(3)] u unfolding on_user_def uvm_def s' d_def [symmetric] ot(2) by simp
  moreover have "mem s' y = mem s y" if "page_of y \<notin> frame (mem s) d ` {va. unat va < ru (p_sz (ptable s ! p))}" for y
    using out [of y] that a by blast
  then have "user_only s p s'"
    unfolding user_only_def d_def [symmetric] ot(3) by (simp add: s'_def)
  ultimately show ?thesis using run v by blast
qed

lemma user_only_refl: "user_only s p s"
  by (simp add: user_only_def)

lemma user_only_trans:
  fixes s :: "'a proc_st_scheme"
  assumes "user_only s p s1" "user_only s1 p s2"
  shows "user_only s p s2"
proof -
  have 1: "s1 = s\<lparr>mem := mem s1\<rparr>" and 2: "s2 = s1\<lparr>mem := mem s2\<rparr>" using assms by (simp_all add: user_only_def)
  have "s2 = s\<lparr>mem := mem s2\<rparr>" by (subst 2, subst 1) simp
  then show ?thesis using assms user_only_ptable [OF assms(1)] by (auto simp: user_only_def)
qed

lemma user_put_ok:
  fixes s :: "'a proc_st_scheme"
  assumes "on_user s p xs" "unat a + length bs \<le> ru (p_sz (ptable s ! p))"
  shows "\<exists>s'. user_put a bs s = Ret () s' \<and> on_user s' p xs \<and> user_only s p s'
    \<and> (\<forall>x. unat x < ru (p_sz (ptable s ! p)) \<longrightarrow>
          uview s' p x = (if unat a \<le> unat x \<and> unat x < unat a + length bs then bs ! (unat x - unat a) else uview s p x))"
  using assms
proof (induction bs arbitrary: a s)
  case Nil
  then show ?case using user_only_refl [of s p] by (auto simp: ret_def)
next
  case (Cons b bs)
  have n: "unat (a + 1) = Suc (unat a)" using Cons.prems(2) on_userD(5) [OF Cons.prems(1)] by (intro unat_next [of a "length bs"]) simp
  obtain s1 where s1: "user_store a b s = Ret () s1" "on_user s1 p xs" "user_only s p s1"
    and v1: "\<forall>x. unat x < ru (p_sz (ptable s ! p)) \<longrightarrow> uview s1 p x = (if x = a then b else uview s p x)"
    using user_store_ok [OF Cons.prems(1), of a b] Cons.prems(2) by auto
  note pt = user_only_ptable [OF s1(3)]
  have "unat (a + 1) + length bs \<le> ru (p_sz (ptable s1 ! p))" using Cons.prems(2) n pt by simp
  from Cons.IH [OF s1(2) this] obtain s2 where s2: "user_put (a + 1) bs s1 = Ret () s2" "on_user s2 p xs" "user_only s1 p s2"
    and v2: "\<forall>x. unat x < ru (p_sz (ptable s ! p)) \<longrightarrow> uview s2 p x =
      (if Suc (unat a) \<le> unat x \<and> unat x < Suc (unat a) + length bs then bs ! (unat x - Suc (unat a)) else uview s1 p x)"
    unfolding n pt by blast
  have v: "uview s2 p x = (if unat a \<le> unat x \<and> unat x < unat a + length (b # bs) then (b # bs) ! (unat x - unat a) else uview s p x)"
    if "unat x < ru (p_sz (ptable s ! p))" for x
  proof (cases "x = a")
    case False
    then have "unat x \<noteq> unat a" by (metis unsigned_word_eqI)
    then show ?thesis using that v1 v2 False by (auto simp: nth_Cons' One_nat_def)
  qed (use that v1 v2 in simp)
  show ?case using s1(1) s2 user_only_trans [OF s1(3) s2(3)] v by (auto simp: seqp_def bnd_def)
qed

text \<open>
  C14.  When a process runs on a well-formed address space of its size, fetching a pointer or string
  argument never faults and changes nothing.  \<open>argptr\<close> accepts exactly when the argument word is in the
  process's memory, the size is not negative, and the whole range from the pointer lies below the
  size of the process, compared without wrap-around although the code adds in 32 bits.  After it
  accepts, the kernel reads the range without a fault and gets the process's bytes; it writes the range
  without a fault, the process then has those bytes there and every other byte as before, and no
  page the process does not own changes.  \<open>argstr\<close> gives the bytes before the first zero and fails when
  there is none below the size.
\<close>

theorem args_stay_in_bounds:
  fixes s :: "'a proc_st_scheme" and n :: nat and size0 :: int
  assumes O: "on_user s p xs" and z: "size0 < 2147483648"
  defines "a \<equiv> tf_esp (p_tf (ptable s ! p)) + 4 + 4 * of_nat n"
  defines "w \<equiv> word_of_int (uword s p a) :: u32"
  defines "sz \<equiv> unat (p_sz (ptable s ! p))"
  defines "fits \<equiv> unat a + 4 \<le> sz \<and> 0 \<le> size0 \<and> unat w < sz \<and> unat w + nat size0 \<le> sz"
  shows "argptr n size0 s = Ret (if fits then Some w else None) s
    \<and> argstr n s = Ret (if unat a + 4 \<le> sz then ustring (uview s p) w (sz - unat w) else None) s
    \<and> (fits \<longrightarrow> user_bytes w (nat size0) s = Ret (map (\<lambda>i. uview s p (w + of_nat i)) [0..<nat size0]) s)
    \<and> (\<forall>bs. fits \<and> length bs = nat size0 \<longrightarrow> (\<exists>s'. user_put w bs s = Ret () s' \<and> on_user s' p xs \<and> user_only s p s'
        \<and> (\<forall>x. unat x < sz \<longrightarrow> uview s' p x =
              (if unat w \<le> unat x \<and> unat x < unat w + nat size0 then bs ! (unat x - unat w) else uview s p x))))"
proof (intro conjI impI allI)
  note le = on_userD(4) [OF O, folded sz_def]
  show "argptr n size0 s = Ret (if fits then Some w else None) s"
    using argptr_ok [OF O z, of n] by (auto simp: Let_def fits_def a_def w_def sz_def)
  show "argstr n s = Ret (if unat a + 4 \<le> sz then ustring (uview s p) w (sz - unat w) else None) s"
    using argstr_ok [OF O, of n] by (auto simp: Let_def a_def w_def sz_def)
  show "user_bytes w (nat size0) s = Ret (map (\<lambda>i. uview s p (w + of_nat i)) [0..<nat size0]) s" if fits
    using that le by (intro user_bytes_ok [OF O]) (simp add: fits_def)
  fix bs :: "u8 list"
  assume b: "fits \<and> length bs = nat size0"
  then have "unat w + length bs \<le> ru (p_sz (ptable s ! p))" using le by (simp add: fits_def)
  from user_put_ok [OF O this] obtain s' where "user_put w bs s = Ret () s'" "on_user s' p xs" "user_only s p s'"
    and "\<forall>x. unat x < ru (p_sz (ptable s ! p)) \<longrightarrow>
          uview s' p x = (if unat w \<le> unat x \<and> unat x < unat w + length bs then bs ! (unat x - unat w) else uview s p x)" by blast
  then show "\<exists>s'. user_put w bs s = Ret () s' \<and> on_user s' p xs \<and> user_only s p s' \<and> (\<forall>x. unat x < sz \<longrightarrow> uview s' p x =
      (if unat w \<le> unat x \<and> unat x < unat w + nat size0 then bs ! (unat x - unat w) else uview s p x))"
    using le b by (intro exI [of _ s']) simp
qed

text \<open>A process of 2048 bytes with its stack pointer at 256, before its page is allocated.\<close>

definition user_start :: proc_st where
  "user_start = boot_proc\<lparr>mem := mem two_free, freelist := freelist two_free, curproc := Some 0,
     ptable := [zero_proc\<lparr>p_pgdir := 0x80200000, p_sz := 0x800, p_tf := zero_tf\<lparr>tf_esp := 0x100\<rparr>\<rparr>]\<rparr>"

lemma uvm_user_start: "uvm user_start 0x80200000 0 [0x80201000, 0x80202000]"
proof -
  have e: "mem user_start = mem two_free" "freelist user_start = freelist two_free" "kend user_start = kend two_free"
    by (simp_all add: user_start_def boot_proc_def two_free_def boot_mem_def)
  show ?thesis using uvm_two_free unfolding uvm_def asp_def pt_inv_def free_pages_def e .
qed

lemma user_start_grown:
  "\<exists>(s :: proc_st) xs. on_user s 0 xs \<and> tf_esp (p_tf (ptable s ! 0)) = 0x100 \<and> p_sz (ptable s ! 0) = 0x800 \<and> (\<forall>x. unat x < 4096 \<longrightarrow> uview s 0 x = 0)"
proof -
  obtain s xs where r: "allocuvm 0x80200000 0 0x800 user_start = Ret 0x800 s"
    and u: "uvm s 0x80200000 0x800 xs" "\<forall>x. unat x < 4096 \<longrightarrow> ubyte (mem s) 0x80200000 x = 0"
    using allocuvm_spec [OF uvm_user_start, where new = "0x800"] by (auto simp: ru_def alloc_post_def One_nat_def)
  have "keeps (\<lambda>s. (ptable s, curproc s)) (allocuvm 0x80200000 0 0x800)" by (rule keeps_allocuvm) simp_all
  from keepsD [OF this r] have "ptable s = ptable user_start" "curproc s = curproc user_start" by simp_all
  then have "on_user s 0 xs \<and> tf_esp (p_tf (ptable s ! 0)) = 0x100 \<and> p_sz (ptable s ! 0) = 0x800 \<and> (\<forall>x. unat x < 4096 \<longrightarrow> uview s 0 x = 0)"
    using u by (simp add: on_user_def uview_def user_start_def)
  then show ?thesis by blast
qed

theorem args_stay_in_bounds_witness:
  "\<exists>(s :: proc_st) s' xs. on_user s 0 xs \<and> argptr 0 16 s = Ret (Some 0) s \<and> argstr 0 s = Ret (Some []) s
    \<and> user_put 0 (replicate 16 7) s = Ret () s' \<and> uview s' 0 15 = 7 \<and> uview s' 0 16 = 0"
proof -
  obtain s :: proc_st and xs where O: "on_user s 0 xs" and t: "tf_esp (p_tf (ptable s ! 0)) = 0x100" "p_sz (ptable s ! 0) = 0x800"
    and z: "\<forall>x. unat x < 4096 \<longrightarrow> uview s 0 x = 0" using user_start_grown by blast
  have w: "uword s 0 (0x100 + 4 + 4 * of_nat 0) = 0" using z by (simp add: uword_def get32_def get16_def to_int_def upt_rec)
  note T = args_stay_in_bounds [OF O, of 16 0, unfolded t w, simplified]
  obtain s' where p: "user_put 0 (replicate 16 7) s = Ret () s'"
    and v: "\<forall>x. unat x < 2048 \<longrightarrow> uview s' 0 x = (if unat x < 16 then replicate 16 7 ! unat x else uview s 0 x)"
    using T by (elim conjE allE [of _ "replicate 16 7"]) auto
  have "ustring (uview s 0) 0 2048 = Some []" using z ustring.simps(2) [of "uview s 0" 0 2047] by simp
  moreover have "uview s' 0 15 = 7" "uview s' 0 16 = 0" using v z by simp_all
  ultimately have "on_user s 0 xs \<and> argptr 0 16 s = Ret (Some 0) s \<and> argstr 0 s = Ret (Some []) s
    \<and> user_put 0 (replicate 16 7) s = Ret () s' \<and> uview s' 0 15 = 7 \<and> uview s' 0 16 = 0" using T O p by simp
  then show ?thesis by blast
qed

end
