(* ===== verification/Sysproc.thy ===== *)
theory Sysproc
  imports Sysarg
begin

text \<open>
  The process system calls, \<^verbatim>\<open>sysproc.c\<close>, with the tick counter of \<^verbatim>\<open>trap.c\<close>.  The three semaphore
  calls ignore whether their arguments could be fetched, so the old contents of their local
  variables are arguments of the model.
\<close>

declare One_nat_def [simp del]

record trap_st = life_st +
  ticks :: u32

definition sys_fork :: "('a trap_st_scheme, int) prog" where
  "sys_fork = fork"

definition sys_exit :: "('a trap_st_scheme, int) prog" where
  "sys_exit = seqp exit (ret 0)"

definition sys_wait :: "('a trap_st_scheme, int) prog" where
  "sys_wait = wait"

definition sys_kill :: "('a trap_st_scheme, int) prog" where
  "sys_kill =
     bnd (argint 0) (\<lambda>pid.
     case pid of
       None \<Rightarrow> ret (-1)
     | Some pid \<Rightarrow> kill pid)"

definition sys_getpid :: "('a trap_st_scheme, int) prog" where
  "sys_getpid = bnd myproc (\<lambda>me. bnd (deref me) (\<lambda>p. gets (\<lambda>s. p_pid (ptable s ! p))))"

definition sys_sbrk :: "('a trap_st_scheme, int) prog" where
  "sys_sbrk =
     bnd (argint 0) (\<lambda>n.
     case n of
       None \<Rightarrow> ret (-1)
     | Some n \<Rightarrow>
         bnd myproc (\<lambda>me. bnd (deref me) (\<lambda>p.
         bnd (gets (\<lambda>s. sint (p_sz (ptable s ! p)))) (\<lambda>addr.
         bnd (growproc n) (\<lambda>r.
         if r < 0 then ret (-1) else ret addr)))))"

text \<open>
  The loop of \<^verbatim>\<open>sys_sleep\<close> from a test of its condition; a process woken from the sleep comes back
  to it.  The comparison is unsigned, so a negative \<^verbatim>\<open>n\<close> is a long time.
\<close>

definition sys_sleep_loop :: "int \<Rightarrow> u32 \<Rightarrow> ('a trap_st_scheme, int) prog" where
  "sys_sleep_loop n ticks0 =
     bnd (gets ticks) (\<lambda>t.
     if t - ticks0 < word_of_int n then
       bnd myproc (\<lambda>me. bnd (deref me) (\<lambda>p.
       bnd (gets (\<lambda>s. p_killed (ptable s ! p))) (\<lambda>killed.
       if killed then ret (-1)
       else seqp (sleep ChanTicks) (ret 0))))
     else ret 0)"

definition sys_sleep :: "('a trap_st_scheme, int) prog" where
  "sys_sleep =
     bnd (argint 0) (\<lambda>n.
     case n of
       None \<Rightarrow> ret (-1)
     | Some n \<Rightarrow>
         bnd (gets ticks) (\<lambda>ticks0.
         sys_sleep_loop n ticks0))"

definition sys_uptime :: "('a trap_st_scheme, int) prog" where
  "sys_uptime = gets (\<lambda>s. sint (ticks s))"

definition sys_flpf :: "('a trap_st_scheme, int) prog" where
  "sys_flpf =
     bnd myproc (\<lambda>me. bnd (deref me) (\<lambda>p.
     bnd (gets (\<lambda>s. sint (tf_ebx (p_tf (ptable s ! p))))) (\<lambda>num.
     case flpf num of
       None \<Rightarrow> (\<lambda>s. Spin)
     | Some r \<Rightarrow> ret r)))"

text \<open>
  \<^verbatim>\<open>sys_get_parent_pid\<close> follows \<^verbatim>\<open>parent\<close> without a test.  For a null pointer it reads the word at the
  offset 16 of \<^verbatim>\<open>pid\<close> from address 0, which is memory of the calling process.
\<close>

definition sys_get_parent_pid :: "('a trap_st_scheme, int) prog" where
  "sys_get_parent_pid =
     bnd myproc (\<lambda>me. bnd (deref me) (\<lambda>p.
     bnd (gets (\<lambda>s. p_parent (ptable s ! p))) (\<lambda>par.
     case par of
       Some q \<Rightarrow> gets (\<lambda>s. p_pid (ptable s ! q))
     | None \<Rightarrow> bnd (user_bytes 16 4) (\<lambda>bs. ret (to_int (get32 bs 0))))))"

definition arg_into :: "int \<Rightarrow> nat \<Rightarrow> ('a trap_st_scheme, int) prog" where
  "arg_into old n = bnd (argint n) (\<lambda>a. ret (case a of None \<Rightarrow> old | Some v \<Rightarrow> v))"

definition sys_sem_init :: "int \<Rightarrow> int \<Rightarrow> ('a trap_st_scheme, int) prog" where
  "sys_sem_init i0 v0 =
     bnd (arg_into i0 0) (\<lambda>i.
     bnd (arg_into v0 1) (\<lambda>v.
     sem_init i v))"

definition sys_sem_acquire :: "int \<Rightarrow> ('a trap_st_scheme, int) prog" where
  "sys_sem_acquire i0 = bnd (arg_into i0 0) sem_acquire"

definition sys_sem_release :: "int \<Rightarrow> ('a trap_st_scheme, int) prog" where
  "sys_sem_release i0 = bnd (arg_into i0 0) sem_release"

end
