(* ===== verification/Exec.thy ===== *)
theory Exec
  imports Sysarg
begin

text \<open>
  Running a program: \<^verbatim>\<open>exec.c\<close>, the ELF headers of \<^verbatim>\<open>elf.h\<close> and \<^verbatim>\<open>loaduvm\<close> of \<^verbatim>\<open>vm.c\<close>.  The argument
  vector is the list of its strings.  The label \<^verbatim>\<open>bad\<close> is \<open>exec_bad\<close>, called with the page directory
  (0 when there is none) and the inode still held.  The message printed for a path that does not
  exist is left out.
\<close>

declare One_nat_def [simp del]

abbreviation (input) ELF_MAGIC :: u32 where "ELF_MAGIC \<equiv> 0x464C457F"
abbreviation (input) ELF_PROG_LOAD :: u32 where "ELF_PROG_LOAD \<equiv> 1"

record elfhdr =
  eh_magic :: u32
  eh_elf :: "u8 list"
  eh_type :: u16
  eh_machine :: u16
  eh_version :: u32
  eh_entry :: u32
  eh_phoff :: u32
  eh_shoff :: u32
  eh_flags :: u32
  eh_ehsize :: u16
  eh_phentsize :: u16
  eh_phnum :: u16
  eh_shentsize :: u16
  eh_shnum :: u16
  eh_shstrndx :: u16

record proghdr =
  ph_type :: u32
  ph_off :: u32
  ph_vaddr :: u32
  ph_paddr :: u32
  ph_filesz :: u32
  ph_memsz :: u32
  ph_flags :: u32
  ph_align :: u32

text \<open>The structures read as bytes from the file.\<close>

definition get_elfhdr :: "u8 list \<Rightarrow> elfhdr" where
  "get_elfhdr d = (let w = (\<lambda>p. of_nat (get32 d p)); h = (\<lambda>p. of_nat (get16 d p)) in
     \<lparr>eh_magic = w 0, eh_elf = get_bytes d 4 12, eh_type = h 16, eh_machine = h 18, eh_version = w 20, eh_entry = w 24,
      eh_phoff = w 28, eh_shoff = w 32, eh_flags = w 36, eh_ehsize = h 40, eh_phentsize = h 42, eh_phnum = h 44,
      eh_shentsize = h 46, eh_shnum = h 48, eh_shstrndx = h 50\<rparr>)"

definition get_proghdr :: "u8 list \<Rightarrow> proghdr" where
  "get_proghdr d = (let w = (\<lambda>p. of_nat (get32 d p)) in
     \<lparr>ph_type = w 0, ph_off = w 4, ph_vaddr = w 8, ph_paddr = w 12, ph_filesz = w 16, ph_memsz = w 20, ph_flags = w 24,
      ph_align = w 28\<rparr>)"

text \<open>The loop of \<^verbatim>\<open>loaduvm\<close> over the offsets \<^verbatim>\<open>i\<close>; \<^verbatim>\<open>exec\<close> only calls it with a size below \<^verbatim>\<open>KERNBASE\<close>.\<close>

fun loaduvm_loop :: "('a life_st_scheme) devsw \<Rightarrow> u32 \<Rightarrow> u32 \<Rightarrow> nat \<Rightarrow> u32 \<Rightarrow> u32 \<Rightarrow> u32 list \<Rightarrow> ('a life_st_scheme, int) prog" where
  "loaduvm_loop devsw pgdir addr ip offset sz [] = ret 0"
| "loaduvm_loop devsw pgdir addr ip offset sz (i # is) =
     bnd (walkpgdir pgdir (addr + i) False) (\<lambda>pte.
     if pte = 0 then panic ''loaduvm: address should exist''
     else
       bnd (gets (\<lambda>s. PTE_ADDR (load32 (mem s) pte))) (\<lambda>pa.
       let n = (if sz - i < PGSIZE then sz - i else PGSIZE) in
       bnd (readi devsw ip (unat (offset + i)) (unat n)) (\<lambda>(r, bytes).
       seqp (modify (\<lambda>s. s\<lparr>mem := put_mem (mem s) (P2V pa) bytes\<rparr>))
       (if r \<noteq> int (unat n) then ret (-1)
        else loaduvm_loop devsw pgdir addr ip offset sz is))))"

definition loaduvm :: "('a life_st_scheme) devsw \<Rightarrow> u32 \<Rightarrow> u32 \<Rightarrow> nat \<Rightarrow> u32 \<Rightarrow> u32 \<Rightarrow> ('a life_st_scheme, int) prog" where
  "loaduvm devsw pgdir addr ip offset sz =
     (if unat addr mod 4096 \<noteq> 0 then panic ''loaduvm: addr must be page aligned''
      else loaduvm_loop devsw pgdir addr ip offset sz (page_steps 0 sz))"

definition exec_bad :: "u32 \<Rightarrow> nat option \<Rightarrow> ('a life_st_scheme, int) prog" where
  "exec_bad pgdir ipp =
     seqp (whenp (pgdir \<noteq> 0) (freevm pgdir))
     (seqp (case ipp of
              None \<Rightarrow> ret ()
            | Some ip \<Rightarrow> seqp (iunlockput ip) end_op)
      (ret (-1)))"

text \<open>The loop over the program headers, with their offsets; \<open>None\<close> is \<^verbatim>\<open>goto bad\<close>.\<close>

fun exec_load :: "('a life_st_scheme) devsw \<Rightarrow> nat \<Rightarrow> u32 \<Rightarrow> u32 list \<Rightarrow> u32 \<Rightarrow> ('a life_st_scheme, u32 option) prog" where
  "exec_load devsw ip pgdir [] sz = ret (Some sz)"
| "exec_load devsw ip pgdir (off # offs) sz =
     bnd (readi devsw ip (unat off) 32) (\<lambda>(n, bytes).
     let ph = get_proghdr bytes in
     if n \<noteq> 32 then ret None
     else if ph_type ph \<noteq> ELF_PROG_LOAD then exec_load devsw ip pgdir offs sz
     else if ph_memsz ph < ph_filesz ph then ret None
     else if ph_vaddr ph + ph_memsz ph < ph_vaddr ph then ret None
     else
       bnd (allocuvm pgdir sz (ph_vaddr ph + ph_memsz ph)) (\<lambda>sz.
       if sz = 0 then ret None
       else if unat (ph_vaddr ph) mod 4096 \<noteq> 0 then ret None
       else
         bnd (loaduvm devsw pgdir (ph_vaddr ph) ip (ph_off ph) (ph_filesz ph)) (\<lambda>r.
         if r < 0 then ret None
         else exec_load devsw ip pgdir offs sz)))"

text \<open>Pushing the argument strings; \<open>us\<close> is the part \<^verbatim>\<open>ustack[3..]\<close> filled so far.\<close>

fun push_args :: "u32 \<Rightarrow> u8 list list \<Rightarrow> u32 \<Rightarrow> u32 list \<Rightarrow> ('a life_st_scheme, (u32 \<times> u32 list) option) prog" where
  "push_args pgdir [] sp us = ret (Some (sp, us))"
| "push_args pgdir (arg # args) sp us =
     (if length us \<ge> MAXARG then ret None
      else
        let sp = (sp - (of_nat (length arg) + 1)) AND NOT 3 in
        bnd (copyout pgdir sp (arg @ [0])) (\<lambda>r.
        if r < 0 then ret None
        else push_args pgdir args sp (us @ [sp])))"

definition bytes32 :: "u32 \<Rightarrow> u8 list" where
  "bytes32 v = [ucast v, ucast (drop_bit 8 v), ucast (drop_bit 16 v), ucast (drop_bit 24 v)]"

text \<open>\<^verbatim>\<open>last\<close>: what follows the last slash of the path.\<close>

fun last_elem :: "u8 list \<Rightarrow> u8 list \<Rightarrow> u8 list" where
  "last_elem l [] = l"
| "last_elem l (c # s) = (if c = SLASH then last_elem s s else last_elem l s)"

text \<open>The second half of \<^verbatim>\<open>exec\<close>, after the inode is put: the stack, and the switch to the new image.\<close>

definition exec_stack :: "nat option \<Rightarrow> u8 list \<Rightarrow> u8 list list \<Rightarrow> u32 \<Rightarrow> u32 \<Rightarrow> u32 \<Rightarrow> ('a life_st_scheme, int) prog" where
  "exec_stack me path argv entry pgdir sz0 =
     (let sz1 = PGROUNDUP sz0 in
      bnd (allocuvm pgdir sz1 (sz1 + 2 * PGSIZE)) (\<lambda>sz.
      if sz = 0 then exec_bad pgdir None
      else
        seqp (clearpteu pgdir (sz - 2 * PGSIZE))
        (bnd (push_args pgdir argv sz []) (\<lambda>pushed.
         case pushed of
           None \<Rightarrow> exec_bad pgdir None
         | Some (sp, us) \<Rightarrow>
             let argc = of_nat (length us);
                 ustack = [0xffffffff, argc, sp - (argc + 1) * 4] @ us @ [0];
                 sp = sp - (3 + argc + 1) * 4
             in
             bnd (copyout pgdir sp (concat (map bytes32 ustack))) (\<lambda>r.
             if r < 0 then exec_bad pgdir None
             else
               bnd (deref me) (\<lambda>p.
               seqp (modify (upd_proc p (set_name (last_elem path path))))
               (bnd (gets (\<lambda>s. p_pgdir (ptable s ! p))) (\<lambda>oldpgdir.
                seqp (modify (upd_proc p (\<lambda>q. q\<lparr>p_pgdir := pgdir, p_sz := sz, p_tf := (p_tf q)\<lparr>tf_eip := entry, tf_esp := sp\<rparr>\<rparr>)))
                (seqp (switchuvm p)
                (seqp (freevm oldpgdir)
                 (ret 0)))))))))))"

definition exec :: "('a life_st_scheme) devsw \<Rightarrow> u8 list \<Rightarrow> u8 list list \<Rightarrow> ('a life_st_scheme, int) prog" where
  "exec devsw path argv =
     bnd myproc (\<lambda>me.
     seqp begin_op
     (bnd (namei devsw path) (\<lambda>ipp.
      case ipp of
        None \<Rightarrow> seqp end_op (ret (-1))
      | Some ip \<Rightarrow>
          seqp (ilock (Some ip))
          (bnd (readi devsw ip 0 52) (\<lambda>(n, bytes).
           let elf = get_elfhdr bytes in
           if n \<noteq> 52 then exec_bad 0 (Some ip)
           else if eh_magic elf \<noteq> ELF_MAGIC then exec_bad 0 (Some ip)
           else
             bnd setupkvm (\<lambda>pgdir.
             if pgdir = 0 then exec_bad 0 (Some ip)
             else
               bnd (exec_load devsw ip pgdir (map (\<lambda>i. eh_phoff elf + 32 * of_nat i) [0..<unat (eh_phnum elf)]) 0) (\<lambda>loaded.
               case loaded of
                 None \<Rightarrow> exec_bad pgdir (Some ip)
               | Some sz \<Rightarrow>
                   seqp (iunlockput ip)
                   (seqp end_op
                    (exec_stack me path argv (eh_entry elf) pgdir sz)))))))))"

end
