(* ===== verification/Sysfile.thy ===== *)
theory Sysfile
  imports Exec
begin

text \<open>
  The file system calls, \<^verbatim>\<open>sysfile.c\<close>.  A call that fetches an argument fails as the code does when
  the fetch fails.  Bytes that \<^verbatim>\<open>fileread\<close> and \<^verbatim>\<open>filestat\<close> store through a user pointer are stored when
  they return, and the bytes \<^verbatim>\<open>filewrite\<close> reads through one are read when it is called: no other
  process can see or change them meanwhile.
\<close>

declare One_nat_def [simp del]

abbreviation (input) O_RDONLY :: int where "O_RDONLY \<equiv> 0"
abbreviation (input) O_WRONLY :: u32 where "O_WRONLY \<equiv> 1"
abbreviation (input) O_RDWR :: u32 where "O_RDWR \<equiv> 2"
abbreviation (input) O_CREATE :: u32 where "O_CREATE \<equiv> 0x200"

text \<open>Conversion to \<^verbatim>\<open>short\<close>, the type of \<^verbatim>\<open>major\<close>, \<^verbatim>\<open>minor\<close> and \<^verbatim>\<open>nlink\<close>.\<close>

definition as_short :: "int \<Rightarrow> int" where
  "as_short v = to_short (of_short v)"

section \<open>Descriptors\<close>

definition argfd :: "nat \<Rightarrow> ('a life_st_scheme, (nat \<times> nat) option) prog" where
  "argfd n =
     bnd (argint n) (\<lambda>fd.
     case fd of
       None \<Rightarrow> ret None
     | Some fd \<Rightarrow>
         if fd < 0 \<or> fd \<ge> int NOFILE then ret None
         else
           bnd myproc (\<lambda>me. bnd (deref me) (\<lambda>p.
           bnd (gets (\<lambda>s. p_ofile (ptable s ! p) ! nat fd)) (\<lambda>f.
           ret (map_option (Pair (nat fd)) f)))))"

definition set_ofile :: "nat \<Rightarrow> nat option \<Rightarrow> ('a life_st_scheme, unit) prog" where
  "set_ofile fd f =
     bnd myproc (\<lambda>me. bnd (deref me) (\<lambda>p.
     modify (upd_proc p (\<lambda>q. q\<lparr>p_ofile := (p_ofile q)[fd := f]\<rparr>))))"

definition fdalloc :: "nat \<Rightarrow> ('a life_st_scheme, nat option) prog" where
  "fdalloc f =
     bnd myproc (\<lambda>me. bnd (deref me) (\<lambda>p.
     bnd (gets (\<lambda>s. find (\<lambda>fd. p_ofile (ptable s ! p) ! fd = None) [0..<NOFILE])) (\<lambda>free.
     case free of
       None \<Rightarrow> ret None
     | Some fd \<Rightarrow> seqp (set_ofile fd (Some f)) (ret (Some fd)))))"

definition sys_dup :: "('a life_st_scheme, int) prog" where
  "sys_dup =
     bnd (argfd 0) (\<lambda>a.
     case a of
       None \<Rightarrow> ret (-1)
     | Some (_, f) \<Rightarrow>
         bnd (fdalloc f) (\<lambda>fd.
         case fd of
           None \<Rightarrow> ret (-1)
         | Some fd \<Rightarrow> seqp (filedup f) (ret (int fd))))"

text \<open>The arguments of \<^verbatim>\<open>sys_read\<close> and \<^verbatim>\<open>sys_write\<close>: file, buffer and count.\<close>

definition arg_rw :: "('a life_st_scheme, (nat \<times> u32 \<times> int) option) prog" where
  "arg_rw =
     bnd (argfd 0) (\<lambda>a.
     case a of
       None \<Rightarrow> ret None
     | Some (_, f) \<Rightarrow>
         bnd (argint 2) (\<lambda>n.
         case n of
           None \<Rightarrow> ret None
         | Some n \<Rightarrow>
             bnd (argptr 1 n) (\<lambda>p.
             ret (map_option (\<lambda>p. (f, p, n)) p))))"

definition sys_read :: "('a life_st_scheme) devsw \<Rightarrow> ('a life_st_scheme, int) prog" where
  "sys_read devsw =
     bnd arg_rw (\<lambda>a.
     case a of
       None \<Rightarrow> ret (-1)
     | Some (f, p, n) \<Rightarrow>
         bnd (fileread devsw f n) (\<lambda>(r, bytes).
         seqp (user_put p bytes)
          (ret r)))"

definition sys_write :: "('a life_st_scheme) devsw \<Rightarrow> ('a life_st_scheme, int) prog" where
  "sys_write devsw =
     bnd arg_rw (\<lambda>a.
     case a of
       None \<Rightarrow> ret (-1)
     | Some (f, p, n) \<Rightarrow>
         bnd (user_bytes p (nat n)) (\<lambda>bytes.
         filewrite devsw f bytes))"

definition sys_close :: "('a life_st_scheme, int) prog" where
  "sys_close =
     bnd (argfd 0) (\<lambda>a.
     case a of
       None \<Rightarrow> ret (-1)
     | Some (fd, f) \<Rightarrow>
         seqp (set_ofile fd None)
         (seqp (fileclose f)
          (ret 0)))"

text \<open>The fields of \<^verbatim>\<open>struct stat\<close> at their offsets; the two paddings are not written.\<close>

definition put_stat :: "u32 \<Rightarrow> stat \<Rightarrow> ('a life_st_scheme, unit) prog" where
  "put_stat a st =
     seqp (user_put a (take 2 (bytes32 (word_of_int (st_type st)))))
     (seqp (user_put (a + 4) (bytes32 (of_nat (st_dev st))))
     (seqp (user_put (a + 8) (bytes32 (of_nat (st_ino st))))
     (seqp (user_put (a + 12) (take 2 (bytes32 (word_of_int (st_nlink st)))))
      (user_put (a + 16) (bytes32 (of_nat (st_size st)))))))"

definition sys_fstat :: "('a life_st_scheme, int) prog" where
  "sys_fstat =
     bnd (argfd 0) (\<lambda>a.
     case a of
       None \<Rightarrow> ret (-1)
     | Some (_, f) \<Rightarrow>
         bnd (argptr 1 20) (\<lambda>st.
         case st of
           None \<Rightarrow> ret (-1)
         | Some p \<Rightarrow>
             bnd (filestat f) (\<lambda>(r, st).
             seqp (case st of None \<Rightarrow> ret () | Some st \<Rightarrow> put_stat p st)
              (ret r))))"

section \<open>Links\<close>

definition add_nlink :: "nat \<Rightarrow> int \<Rightarrow> ('a life_st_scheme, unit) prog" where
  "add_nlink ip k =
     seqp (modify (upd_inode ip (\<lambda>x. x\<lparr>i_nlink := as_short (i_nlink x + k)\<rparr>)))
      (iupdate ip)"

text \<open>The label \<^verbatim>\<open>bad\<close> of \<^verbatim>\<open>sys_link\<close>.\<close>

definition link_bad :: "nat \<Rightarrow> ('a life_st_scheme, int) prog" where
  "link_bad ip =
     seqp (ilock (Some ip))
     (seqp (add_nlink ip (-1))
     (seqp (iunlockput ip)
     (seqp end_op
      (ret (-1)))))"

definition link_paths :: "('a life_st_scheme) devsw \<Rightarrow> u8 list \<Rightarrow> u8 list \<Rightarrow> ('a life_st_scheme, int) prog" where
  "link_paths devsw old new =
     seqp begin_op
     (bnd (namei devsw old) (\<lambda>ipp.
      case ipp of
        None \<Rightarrow> seqp end_op (ret (-1))
      | Some ip \<Rightarrow>
          seqp (ilock (Some ip))
          (bnd (gets (\<lambda>s. i_type (inodes s ! ip))) (\<lambda>type.
           if type = T_DIR then seqp (iunlockput ip) (seqp end_op (ret (-1)))
           else
             seqp (add_nlink ip 1)
             (seqp (iunlock (Some ip))
             (bnd (nameiparent devsw new) (\<lambda>(dpp, name).
              case dpp of
                None \<Rightarrow> link_bad ip
              | Some dp \<Rightarrow>
                  seqp (ilock (Some dp))
                  (bnd (gets (\<lambda>s. (i_dev (inodes s ! dp), i_dev (inodes s ! ip), i_inum (inodes s ! ip)))) (\<lambda>(ddev, idev, inum).
                   bnd (if ddev \<noteq> idev then ret (-1) else dirlink devsw dp name inum) (\<lambda>r.
                   if r < 0 then seqp (iunlockput dp) (link_bad ip)
                   else
                     seqp (iunlockput dp)
                     (seqp (iput ip)
                     (seqp end_op
                      (ret 0)))))))))))))"

definition sys_link :: "('a life_st_scheme) devsw \<Rightarrow> ('a life_st_scheme, int) prog" where
  "sys_link devsw =
     bnd (argstr 0) (\<lambda>old.
     case old of
       None \<Rightarrow> ret (-1)
     | Some old \<Rightarrow>
         bnd (argstr 1) (\<lambda>new.
         case new of
           None \<Rightarrow> ret (-1)
         | Some new \<Rightarrow> link_paths devsw old new))"

fun isdirempty_from :: "('a life_st_scheme) devsw \<Rightarrow> nat \<Rightarrow> nat list \<Rightarrow> ('a life_st_scheme, bool) prog" where
  "isdirempty_from devsw dp [] = ret True"
| "isdirempty_from devsw dp (off # offs) =
     bnd (readi devsw dp off 16) (\<lambda>(n, bytes).
     if n \<noteq> 16 then panic ''isdirempty: readi''
     else if de_inum (get_dirent bytes) \<noteq> 0 then ret False
     else isdirempty_from devsw dp offs)"

definition isdirempty :: "('a life_st_scheme) devsw \<Rightarrow> nat \<Rightarrow> ('a life_st_scheme, bool) prog" where
  "isdirempty devsw dp =
     bnd (gets (\<lambda>s. i_size (inodes s ! dp))) (\<lambda>size.
     isdirempty_from devsw dp (drop 2 (dir_offsets size)))"

text \<open>The label \<^verbatim>\<open>bad\<close> of \<^verbatim>\<open>sys_unlink\<close>.\<close>

definition unlink_bad :: "nat \<Rightarrow> ('a life_st_scheme, int) prog" where
  "unlink_bad dp = seqp (iunlockput dp) (seqp end_op (ret (-1)))"

text \<open>The part of \<^verbatim>\<open>sys_unlink\<close> after the entry is found and its inode locked.\<close>

definition unlink_entry :: "('a life_st_scheme) devsw \<Rightarrow> nat \<Rightarrow> nat \<Rightarrow> nat \<Rightarrow> ('a life_st_scheme, int) prog" where
  "unlink_entry devsw dp ip off =
     bnd (gets (\<lambda>s. inodes s ! ip)) (\<lambda>x.
     if i_nlink x < 1 then panic ''unlink: nlink < 1''
     else
       bnd (if i_type x = T_DIR then isdirempty devsw ip else ret True) (\<lambda>empty.
       if \<not> empty then seqp (iunlockput ip) (unlink_bad dp)
       else
         bnd (writei devsw dp (replicate 16 0) off) (\<lambda>n.
         if n \<noteq> 16 then panic ''unlink: writei''
         else
           seqp (whenp (i_type x = T_DIR) (add_nlink dp (-1)))
           (seqp (iunlockput dp)
           (seqp (add_nlink ip (-1))
           (seqp (iunlockput ip)
           (seqp end_op
            (ret 0))))))))"

definition unlink_path :: "('a life_st_scheme) devsw \<Rightarrow> u8 list \<Rightarrow> ('a life_st_scheme, int) prog" where
  "unlink_path devsw path =
     seqp begin_op
     (bnd (nameiparent devsw path) (\<lambda>(dpp, name).
      case dpp of
        None \<Rightarrow> seqp end_op (ret (-1))
      | Some dp \<Rightarrow>
          seqp (ilock (Some dp))
          (if namecmp name [46] = 0 \<or> namecmp name [46, 46] = 0 then unlink_bad dp
           else
             bnd (dirlookup devsw dp name) (\<lambda>found.
             case found of
               None \<Rightarrow> unlink_bad dp
             | Some (ip, off) \<Rightarrow>
                 seqp (ilock (Some ip))
                  (unlink_entry devsw dp ip off)))))"

definition sys_unlink :: "('a life_st_scheme) devsw \<Rightarrow> ('a life_st_scheme, int) prog" where
  "sys_unlink devsw =
     bnd (argstr 0) (\<lambda>path.
     case path of
       None \<Rightarrow> ret (-1)
     | Some path \<Rightarrow> unlink_path devsw path)"

section \<open>Creating and opening\<close>

text \<open>The part of \<^verbatim>\<open>create\<close> that makes a new inode, in the locked directory \<^verbatim>\<open>dp\<close>.\<close>

definition create_new :: "('a life_st_scheme) devsw \<Rightarrow> nat \<Rightarrow> u8 list \<Rightarrow> int \<Rightarrow> int \<Rightarrow> int \<Rightarrow> ('a life_st_scheme, nat) prog" where
  "create_new devsw dp name type major minor =
     bnd (gets (\<lambda>s. i_dev (inodes s ! dp))) (\<lambda>dev.
     bnd (ialloc dev type) (\<lambda>ip.
     seqp (ilock (Some ip))
     (seqp (modify (upd_inode ip (\<lambda>x. x\<lparr>i_major := major, i_minor := minor, i_nlink := 1\<rparr>)))
     (seqp (iupdate ip)
     (bnd (gets (\<lambda>s. (i_inum (inodes s ! ip), i_inum (inodes s ! dp)))) (\<lambda>(inum, dinum).
      seqp (whenp (type = T_DIR)
        (seqp (add_nlink dp 1)
         (bnd (dirlink devsw ip [46] inum) (\<lambda>r.
          bnd (if r < 0 then ret r else dirlink devsw ip [46, 46] dinum) (\<lambda>r.
          if r < 0 then panic ''create dots'' else ret ())))))
      (bnd (dirlink devsw dp name inum) (\<lambda>r.
       if r < 0 then panic ''create: dirlink''
       else
         seqp (iunlockput dp)
          (ret ip)))))))))"

definition create :: "('a life_st_scheme) devsw \<Rightarrow> u8 list \<Rightarrow> int \<Rightarrow> int \<Rightarrow> int \<Rightarrow> ('a life_st_scheme, nat option) prog" where
  "create devsw path type major minor =
     bnd (nameiparent devsw path) (\<lambda>(dpp, name).
     case dpp of
       None \<Rightarrow> ret None
     | Some dp \<Rightarrow>
         seqp (ilock (Some dp))
         (bnd (dirlookup devsw dp name) (\<lambda>found.
          case found of
            Some (ip, off) \<Rightarrow>
              seqp (iunlockput dp)
              (seqp (ilock (Some ip))
              (bnd (gets (\<lambda>s. i_type (inodes s ! ip))) (\<lambda>itype.
               if type = T_FILE \<and> itype = T_FILE then ret (Some ip)
               else seqp (iunlockput ip) (ret None))))
          | None \<Rightarrow>
              bnd (create_new devsw dp name type (as_short major) (as_short minor)) (\<lambda>ip.
              ret (Some ip)))))"

text \<open>The two ways \<^verbatim>\<open>sys_open\<close> gets its locked inode.\<close>

definition open_inode :: "('a life_st_scheme) devsw \<Rightarrow> u8 list \<Rightarrow> int \<Rightarrow> ('a life_st_scheme, nat option) prog" where
  "open_inode devsw path omode =
     (if word_of_int omode AND O_CREATE \<noteq> 0 then create devsw path T_FILE 0 0
      else
        bnd (namei devsw path) (\<lambda>ipp.
        case ipp of
          None \<Rightarrow> ret None
        | Some ip \<Rightarrow>
            seqp (ilock (Some ip))
            (bnd (gets (\<lambda>s. i_type (inodes s ! ip))) (\<lambda>type.
             if type = T_DIR \<and> omode \<noteq> O_RDONLY then seqp (iunlockput ip) (ret None)
             else ret (Some ip)))))"

definition open_path :: "('a life_st_scheme) devsw \<Rightarrow> u8 list \<Rightarrow> int \<Rightarrow> ('a life_st_scheme, int) prog" where
  "open_path devsw path omode =
     seqp begin_op
     (bnd (open_inode devsw path omode) (\<lambda>ipp.
      case ipp of
        None \<Rightarrow> seqp end_op (ret (-1))
      | Some ip \<Rightarrow>
          bnd filealloc (\<lambda>f.
          bnd (case f of None \<Rightarrow> ret None | Some f \<Rightarrow> fdalloc f) (\<lambda>fd.
          case (f, fd) of
            (Some f, Some fd) \<Rightarrow>
              seqp (iunlock (Some ip))
              (seqp end_op
              (seqp (modify (upd_file f (\<lambda>x. x\<lparr>f_type := FD_INODE, f_ip := Some ip, f_off := 0,
                       f_readable := (word_of_int omode AND O_WRONLY = 0),
                       f_writable := (word_of_int omode AND O_WRONLY \<noteq> 0 \<or> word_of_int omode AND O_RDWR \<noteq> 0)\<rparr>)))
               (ret (int fd))))
          | _ \<Rightarrow>
              seqp (close_opt f)
              (seqp (iunlockput ip)
              (seqp end_op
               (ret (-1))))))))"

definition sys_open :: "('a life_st_scheme) devsw \<Rightarrow> ('a life_st_scheme, int) prog" where
  "sys_open devsw =
     bnd (argstr 0) (\<lambda>path.
     case path of
       None \<Rightarrow> ret (-1)
     | Some path \<Rightarrow>
         bnd (argint 1) (\<lambda>omode.
         case omode of
           None \<Rightarrow> ret (-1)
         | Some omode \<Rightarrow> open_path devsw path omode))"

text \<open>How \<^verbatim>\<open>sys_mkdir\<close> and \<^verbatim>\<open>sys_mknod\<close> end: nothing was made, or the new inode is put.\<close>

definition made :: "nat option \<Rightarrow> ('a life_st_scheme, int) prog" where
  "made ipp =
     (case ipp of
        None \<Rightarrow> seqp end_op (ret (-1))
      | Some ip \<Rightarrow> seqp (iunlockput ip) (seqp end_op (ret 0)))"

definition sys_mkdir :: "('a life_st_scheme) devsw \<Rightarrow> ('a life_st_scheme, int) prog" where
  "sys_mkdir devsw =
     seqp begin_op
     (bnd (argstr 0) (\<lambda>path.
      bnd (case path of None \<Rightarrow> ret None | Some path \<Rightarrow> create devsw path T_DIR 0 0) made))"

definition sys_mknod :: "('a life_st_scheme) devsw \<Rightarrow> ('a life_st_scheme, int) prog" where
  "sys_mknod devsw =
     seqp begin_op
     (bnd (argstr 0) (\<lambda>path.
      case path of
        None \<Rightarrow> made None
      | Some path \<Rightarrow>
          bnd (argint 1) (\<lambda>major.
          case major of
            None \<Rightarrow> made None
          | Some major \<Rightarrow>
              bnd (argint 2) (\<lambda>minor.
              case minor of
                None \<Rightarrow> made None
              | Some minor \<Rightarrow> bnd (create devsw path T_DEV major minor) made))))"

definition sys_chdir :: "('a life_st_scheme) devsw \<Rightarrow> ('a life_st_scheme, int) prog" where
  "sys_chdir devsw =
     bnd myproc (\<lambda>me.
     seqp begin_op
     (bnd (argstr 0) (\<lambda>path.
      bnd (case path of None \<Rightarrow> ret None | Some path \<Rightarrow> namei devsw path) (\<lambda>ipp.
      case ipp of
        None \<Rightarrow> seqp end_op (ret (-1))
      | Some ip \<Rightarrow>
          seqp (ilock (Some ip))
          (bnd (gets (\<lambda>s. i_type (inodes s ! ip))) (\<lambda>type.
           if type \<noteq> T_DIR then seqp (iunlockput ip) (seqp end_op (ret (-1)))
           else
             seqp (iunlock (Some ip))
             (bnd (deref me) (\<lambda>p.
              seqp (bnd (gets (\<lambda>s. p_cwd (ptable s ! p))) (\<lambda>cwd. bnd (deref cwd) iput))
              (seqp end_op
              (seqp (modify (upd_proc p (\<lambda>q. q\<lparr>p_cwd := Some ip\<rparr>)))
               (ret 0)))))))))))"

text \<open>The argument loop of \<^verbatim>\<open>sys_exec\<close>, with the number of entries of \<^verbatim>\<open>argv\<close> left.\<close>

fun exec_args :: "nat \<Rightarrow> u32 \<Rightarrow> ('a life_st_scheme, u8 list list option) prog" where
  "exec_args 0 a = ret None"
| "exec_args (Suc k) a =
     bnd (fetchint a) (\<lambda>uarg.
     case uarg of
       None \<Rightarrow> ret None
     | Some uarg \<Rightarrow>
         if uarg = 0 then ret (Some [])
         else
           bnd (fetchstr (word_of_int uarg)) (\<lambda>arg.
           case arg of
             None \<Rightarrow> ret None
           | Some arg \<Rightarrow>
               bnd (exec_args k (a + 4)) (\<lambda>args.
               ret (map_option (\<lambda>as. arg # as) args))))"

definition sys_exec :: "('a life_st_scheme) devsw \<Rightarrow> ('a life_st_scheme, int) prog" where
  "sys_exec devsw =
     bnd (argstr 0) (\<lambda>path.
     case path of
       None \<Rightarrow> ret (-1)
     | Some path \<Rightarrow>
         bnd (argint 1) (\<lambda>uargv.
         case uargv of
           None \<Rightarrow> ret (-1)
         | Some uargv \<Rightarrow>
             bnd (exec_args MAXARG (word_of_int uargv)) (\<lambda>argv.
             case argv of
               None \<Rightarrow> ret (-1)
             | Some argv \<Rightarrow> exec devsw path argv)))"

definition sys_pipe :: "('a life_st_scheme, int) prog" where
  "sys_pipe =
     bnd (argptr 0 8) (\<lambda>fd.
     case fd of
       None \<Rightarrow> ret (-1)
     | Some fd \<Rightarrow>
         bnd pipealloc (\<lambda>fs.
         case fs of
           None \<Rightarrow> ret (-1)
         | Some (rfile, wfile) \<Rightarrow>
             bnd (fdalloc rfile) (\<lambda>fd0.
             bnd (case fd0 of None \<Rightarrow> ret None | Some _ \<Rightarrow> fdalloc wfile) (\<lambda>fd1.
             case (fd0, fd1) of
               (Some fd0, Some fd1) \<Rightarrow>
                 seqp (user_put fd (bytes32 (of_nat fd0)))
                 (seqp (user_put (fd + 4) (bytes32 (of_nat fd1)))
                  (ret 0))
             | _ \<Rightarrow>
                 seqp (case fd0 of None \<Rightarrow> ret () | Some fd0 \<Rightarrow> set_ofile fd0 None)
                 (seqp (fileclose rfile)
                 (seqp (fileclose wfile)
                  (ret (-1))))))))"

end
