(* ===== verification/Trap.thy ===== *)
theory Trap
  imports Sysproc Sysfile
begin

text \<open>
  The way into the kernel: the dispatch of system calls, the second half of \<^verbatim>\<open>syscall.c\<close>, and
  \<^verbatim>\<open>trap\<close> of \<^verbatim>\<open>trap.c\<close>.  The interrupt handlers of the disk, the keyboard and the serial line are
  arguments of \<open>trap\<close>, as is the number of the CPU; \<^verbatim>\<open>lapiceoi\<close>, which only talks to the interrupt
  controller, and the messages printed are left out.  \<open>junk\<close> holds the old contents of the local
  variables of the semaphore calls.
\<close>

declare One_nat_def [simp del]

abbreviation (input) T_SYSCALL :: u32 where "T_SYSCALL \<equiv> 64"
abbreviation (input) T_IRQ0 :: u32 where "T_IRQ0 \<equiv> 32"
abbreviation (input) IRQ_TIMER :: u32 where "IRQ_TIMER \<equiv> 0"
abbreviation (input) IRQ_KBD :: u32 where "IRQ_KBD \<equiv> 1"
abbreviation (input) IRQ_COM1 :: u32 where "IRQ_COM1 \<equiv> 4"
abbreviation (input) IRQ_IDE :: u32 where "IRQ_IDE \<equiv> 14"
abbreviation (input) IRQ_SPURIOUS :: u32 where "IRQ_SPURIOUS \<equiv> 31"
abbreviation (input) DPL_USER :: u16 where "DPL_USER \<equiv> 3"

text \<open>The table \<^verbatim>\<open>syscalls\<close>, indexed by the constants of \<^verbatim>\<open>syscall.h\<close>.\<close>

definition syscalls :: "('a trap_st_scheme) devsw \<Rightarrow> int \<times> int \<Rightarrow> ('a trap_st_scheme, int) prog option list" where
  "syscalls devsw junk =
     [None,
      Some sys_fork,
      Some sys_exit,
      Some sys_wait,
      Some sys_pipe,
      Some (sys_read devsw),
      Some sys_kill,
      Some (sys_exec devsw),
      Some sys_fstat,
      Some (sys_chdir devsw),
      Some sys_dup,
      Some sys_getpid,
      Some sys_sbrk,
      Some sys_sleep,
      Some sys_uptime,
      Some (sys_open devsw),
      Some (sys_write devsw),
      Some (sys_mknod devsw),
      Some (sys_unlink devsw),
      Some (sys_link devsw),
      Some (sys_mkdir devsw),
      Some sys_close,
      Some sys_flpf,
      Some sys_get_parent_pid,
      Some (sys_sem_init (fst junk) (snd junk)),
      Some (sys_sem_acquire (fst junk)),
      Some (sys_sem_release (fst junk))]"

definition set_eax :: "nat \<Rightarrow> int \<Rightarrow> ('a trap_st_scheme, unit) prog" where
  "set_eax p v = modify (upd_proc p (\<lambda>q. q\<lparr>p_tf := (p_tf q)\<lparr>tf_eax := word_of_int v\<rparr>\<rparr>))"

definition syscall :: "('a trap_st_scheme) devsw \<Rightarrow> int \<times> int \<Rightarrow> ('a trap_st_scheme, unit) prog" where
  "syscall devsw junk =
     bnd myproc (\<lambda>me. bnd (deref me) (\<lambda>p.
     bnd (gets (\<lambda>s. sint (tf_eax (p_tf (ptable s ! p))))) (\<lambda>num.
     if num > 0 \<and> num < int (length (syscalls devsw junk)) then
       (case syscalls devsw junk ! nat num of
          Some call \<Rightarrow> bnd call (set_eax p)
        | None \<Rightarrow> set_eax p (-1))
     else set_eax p (-1))))"

text \<open>\<^verbatim>\<open>if(myproc()->killed) exit();\<close>, where there is a process, and where there may be none.\<close>

definition exit_if_killed :: "('a trap_st_scheme, unit) prog" where
  "exit_if_killed =
     bnd myproc (\<lambda>me. bnd (deref me) (\<lambda>p.
     bnd (gets (\<lambda>s. p_killed (ptable s ! p))) (\<lambda>killed.
     whenp killed exit)))"

definition exit_if_killed_user :: "trapframe \<Rightarrow> ('a trap_st_scheme, unit) prog" where
  "exit_if_killed_user tf =
     bnd myproc (\<lambda>me.
     case me of
       None \<Rightarrow> ret ()
     | Some p \<Rightarrow>
         bnd (gets (\<lambda>s. p_killed (ptable s ! p))) (\<lambda>killed.
         whenp (killed \<and> tf_cs tf AND 3 = DPL_USER) exit))"

definition timer_tick :: "nat \<Rightarrow> ('a trap_st_scheme, unit) prog" where
  "timer_tick cpu =
     whenp (cpu = 0)
       (seqp (modify (\<lambda>s. s\<lparr>ticks := ticks s + 1\<rparr>))
        (wakeup ChanTicks))"

text \<open>The \<^verbatim>\<open>switch\<close> of \<^verbatim>\<open>trap\<close>.\<close>

definition trap_switch :: "('a trap_st_scheme, unit) prog \<Rightarrow> ('a trap_st_scheme, unit) prog \<Rightarrow> ('a trap_st_scheme, unit) prog \<Rightarrow>
    nat \<Rightarrow> trapframe \<Rightarrow> ('a trap_st_scheme, unit) prog" where
  "trap_switch ideintr kbdintr uartintr cpu tf =
     (if tf_trapno tf = T_IRQ0 + IRQ_TIMER then timer_tick cpu
      else if tf_trapno tf = T_IRQ0 + IRQ_IDE then ideintr
      else if tf_trapno tf = T_IRQ0 + IRQ_IDE + 1 then ret ()
      else if tf_trapno tf = T_IRQ0 + IRQ_KBD then kbdintr
      else if tf_trapno tf = T_IRQ0 + IRQ_COM1 then uartintr
      else if tf_trapno tf = T_IRQ0 + 7 \<or> tf_trapno tf = T_IRQ0 + IRQ_SPURIOUS then ret ()
      else
        bnd myproc (\<lambda>me.
        case me of
          None \<Rightarrow> panic ''trap''
        | Some p \<Rightarrow>
            if tf_cs tf AND 3 = 0 then panic ''trap''
            else modify (upd_proc p (\<lambda>q. q\<lparr>p_killed := True\<rparr>))))"

text \<open>
  \<^verbatim>\<open>trap\<close>.  A process that gives up the CPU in \<^verbatim>\<open>yield\<close> comes back to the last statement,
  \<open>exit_if_killed_user\<close>.
\<close>

definition trap :: "('a trap_st_scheme, unit) prog \<Rightarrow> ('a trap_st_scheme, unit) prog \<Rightarrow> ('a trap_st_scheme, unit) prog \<Rightarrow>
    ('a trap_st_scheme) devsw \<Rightarrow> int \<times> int \<Rightarrow> nat \<Rightarrow> trapframe \<Rightarrow> ('a trap_st_scheme, unit) prog" where
  "trap ideintr kbdintr uartintr devsw junk cpu tf =
     (if tf_trapno tf = T_SYSCALL then
        seqp exit_if_killed
        (seqp (bnd myproc (\<lambda>me. bnd (deref me) (\<lambda>p. modify (upd_proc p (\<lambda>q. q\<lparr>p_tf := tf\<rparr>)))))
        (seqp (syscall devsw junk)
         exit_if_killed))
      else
        seqp (trap_switch ideintr kbdintr uartintr cpu tf)
        (seqp (exit_if_killed_user tf)
        (seqp (bnd myproc (\<lambda>me.
           case me of
             None \<Rightarrow> ret ()
           | Some p \<Rightarrow>
               bnd (gets (\<lambda>s. p_state (ptable s ! p))) (\<lambda>st.
               whenp (st = RUNNING \<and> tf_trapno tf = T_IRQ0 + IRQ_TIMER) yield)))
         (exit_if_killed_user tf))))"

end
