(* ===== verification/Spinlock.thy ===== *)
theory Spinlock
  imports Mmu
begin

text \<open>
  Spin locks, \<^verbatim>\<open>spinlock.c\<close>, with the interrupt flag and the \<^verbatim>\<open>cli\<close> nesting counter of each CPU.
  The operations are given twice from the same pieces: as whole calls (\<^verbatim>\<open>acquire\<close> of a lock
  another CPU holds spins), and as the atomic actions an interleaving sees: the checks
  before the loop, each \<^verbatim>\<open>xchg\<close>, the recording of the owner, and the two halves of \<^verbatim>\<open>release\<close>
  around the store that frees the lock.  The second form is a transition system over any
  number of CPUs and locks, and mutual exclusion is an invariant of it.

  The call stack kept in \<^verbatim>\<open>lk->pcs\<close> is debugging information and is not part of the lock
  state; the stack walk \<^verbatim>\<open>getcallerpcs\<close> itself is modelled.
\<close>

section \<open>State and operations\<close>

record cpu =
  ncli :: int
  intena :: bool
  IF :: bool

record spinlock =
  lk_locked :: bool
  lk_cpu :: "nat option"

record lk_st =
  cpus :: "nat \<Rightarrow> cpu"
  locks :: "nat \<Rightarrow> spinlock"

definition upd_cpu :: "nat \<Rightarrow> (cpu \<Rightarrow> cpu) \<Rightarrow> lk_st \<Rightarrow> lk_st" where
  "upd_cpu c f s = s\<lparr>cpus := (cpus s)(c := f (cpus s c))\<rparr>"

definition upd_lock :: "nat \<Rightarrow> (spinlock \<Rightarrow> spinlock) \<Rightarrow> lk_st \<Rightarrow> lk_st" where
  "upd_lock l f s = s\<lparr>locks := (locks s)(l := f (locks s l))\<rparr>"

definition initlock :: "nat \<Rightarrow> (lk_st, unit) prog" where
  "initlock l = modify (upd_lock l (\<lambda>_. \<lparr>lk_locked = False, lk_cpu = None\<rparr>))"

text \<open>\<^verbatim>\<open>mycpu\<close> on CPU \<open>c\<close>: it insists on interrupts being off.\<close>

definition mycpu :: "nat \<Rightarrow> (lk_st, nat) prog" where
  "mycpu c = bnd (gets (\<lambda>s. IF (cpus s c))) (\<lambda>on.
     if on then panic ''mycpu called with interrupts enabled'' else ret c)"

definition pushcli :: "nat \<Rightarrow> (lk_st, unit) prog" where
  "pushcli c =
     bnd (gets (\<lambda>s. IF (cpus s c))) (\<lambda>eflags.
     seqp (modify (upd_cpu c (\<lambda>p. p\<lparr>IF := False\<rparr>)))
     (bnd (mycpu c) (\<lambda>me.
      seqp (modify (upd_cpu me (\<lambda>p. if ncli p = 0 then p\<lparr>intena := eflags\<rparr> else p)))
       (modify (upd_cpu me (\<lambda>p. p\<lparr>ncli := ncli p + 1\<rparr>))))))"

definition popcli :: "nat \<Rightarrow> (lk_st, unit) prog" where
  "popcli c =
     bnd (gets (\<lambda>s. IF (cpus s c))) (\<lambda>on.
     if on then panic ''popcli - interruptible''
     else bnd (mycpu c) (\<lambda>me.
       seqp (modify (upd_cpu me (\<lambda>p. p\<lparr>ncli := ncli p - 1\<rparr>)))
       (bnd (gets (\<lambda>s. cpus s me)) (\<lambda>p.
        if ncli p < 0 then panic ''popcli''
        else whenp (ncli p = 0 \<and> intena p) (modify (upd_cpu c (\<lambda>p. p\<lparr>IF := True\<rparr>)))))))"

definition holding :: "nat \<Rightarrow> nat \<Rightarrow> (lk_st, bool) prog" where
  "holding c l =
     seqp (pushcli c)
     (bnd (mycpu c) (\<lambda>me.
      bnd (gets (\<lambda>s. lk_locked (locks s l) \<and> lk_cpu (locks s l) = Some me)) (\<lambda>r.
      seqp (popcli c) (ret r))))"

text \<open>The pieces of \<^verbatim>\<open>acquire\<close> and \<^verbatim>\<open>release\<close>.\<close>

definition acquire_begin :: "nat \<Rightarrow> nat \<Rightarrow> (lk_st, unit) prog" where
  "acquire_begin c l =
     seqp (pushcli c)
     (bnd (holding c l) (\<lambda>h. if h then panic ''acquire'' else ret ()))"

definition xchg_locked :: "nat \<Rightarrow> (lk_st, bool) prog" where
  "xchg_locked l =
     bnd (gets (\<lambda>s. lk_locked (locks s l))) (\<lambda>old.
     seqp (modify (upd_lock l (\<lambda>k. k\<lparr>lk_locked := True\<rparr>))) (ret old))"

definition acquire_end :: "nat \<Rightarrow> nat \<Rightarrow> (lk_st, unit) prog" where
  "acquire_end c l =
     bnd (mycpu c) (\<lambda>me. modify (upd_lock l (\<lambda>k. k\<lparr>lk_cpu := Some me\<rparr>)))"

definition acquire :: "nat \<Rightarrow> nat \<Rightarrow> (lk_st, unit) prog" where
  "acquire c l =
     seqp (acquire_begin c l)
     (bnd (xchg_locked l) (\<lambda>old.
      if old then (\<lambda>s. Spin) else acquire_end c l))"

definition release_begin :: "nat \<Rightarrow> nat \<Rightarrow> (lk_st, unit) prog" where
  "release_begin c l =
     bnd (holding c l) (\<lambda>h.
     if \<not> h then panic ''release''
     else modify (upd_lock l (\<lambda>k. k\<lparr>lk_cpu := None\<rparr>)))"

definition release_end :: "nat \<Rightarrow> nat \<Rightarrow> (lk_st, unit) prog" where
  "release_end c l =
     seqp (modify (upd_lock l (\<lambda>k. k\<lparr>lk_locked := False\<rparr>))) (popcli c)"

definition release :: "nat \<Rightarrow> nat \<Rightarrow> (lk_st, unit) prog" where
  "release c l = seqp (release_begin c l) (release_end c l)"

text \<open>
  \<^verbatim>\<open>getcallerpcs\<close>: follow the saved frame pointers, at most ten of them.  \<open>pcs_walk n m ebp\<close> is
  the rest of the loop with \<open>n\<close> entries to go; the entries after the chain ends are zero.
\<close>

fun pcs_walk :: "nat \<Rightarrow> memory \<Rightarrow> u32 \<Rightarrow> u32 list" where
  "pcs_walk 0 m ebp = []"
| "pcs_walk (Suc n) m ebp =
     (if ebp = 0 \<or> ebp < KERNBASE \<or> ebp = 0xffffffff then replicate (Suc n) 0
      else load32 m (ebp + 4) # pcs_walk n m (load32 m ebp))"

definition getcallerpcs :: "memory \<Rightarrow> u32 \<Rightarrow> u32 list" where
  "getcallerpcs m v = pcs_walk 10 m (v - 8)"

section \<open>Interleaving\<close>

text \<open>
  Where each CPU is: outside any lock operation, in the loop of \<^verbatim>\<open>acquire\<close>, past the
  successful \<^verbatim>\<open>xchg\<close>, or in the middle of \<^verbatim>\<open>release\<close>; and the locks it holds.
\<close>

datatype lkpc = Out | Spinning nat | Taken nat | Releasing nat

record lk_sys =
  lks :: lk_st
  at :: "nat \<Rightarrow> lkpc"
  held :: "nat \<Rightarrow> nat set"

inductive lk_step :: "lk_sys \<Rightarrow> lk_sys \<Rightarrow> bool" where
  step_begin: "at s c = Out \<Longrightarrow> acquire_begin c l (lks s) = Ret () t \<Longrightarrow>
     lk_step s (s\<lparr>lks := t, at := (at s)(c := Spinning l)\<rparr>)"
| step_busy: "at s c = Spinning l \<Longrightarrow> xchg_locked l (lks s) = Ret True t \<Longrightarrow>
     lk_step s (s\<lparr>lks := t\<rparr>)"
| step_take: "at s c = Spinning l \<Longrightarrow> xchg_locked l (lks s) = Ret False t \<Longrightarrow>
     lk_step s (s\<lparr>lks := t, at := (at s)(c := Taken l)\<rparr>)"
| step_record: "at s c = Taken l \<Longrightarrow> acquire_end c l (lks s) = Ret () t \<Longrightarrow>
     lk_step s (s\<lparr>lks := t, at := (at s)(c := Out), held := (held s)(c := insert l (held s c))\<rparr>)"
| step_unlock: "at s c = Out \<Longrightarrow> release_begin c l (lks s) = Ret () t \<Longrightarrow>
     lk_step s (s\<lparr>lks := t, at := (at s)(c := Releasing l), held := (held s)(c := held s c - {l})\<rparr>)"
| step_free: "at s c = Releasing l \<Longrightarrow> release_end c l (lks s) = Ret () t \<Longrightarrow>
     lk_step s (s\<lparr>lks := t, at := (at s)(c := Out)\<rparr>)"

inductive_cases lk_stepE: "lk_step s t"

definition lk_init :: "lk_sys \<Rightarrow> bool" where
  "lk_init s \<longleftrightarrow> (\<forall>c. ncli (cpus (lks s) c) = 0 \<and> at s c = Out \<and> held s c = {})
     \<and> (\<forall>l. locks (lks s) l = \<lparr>lk_locked = False, lk_cpu = None\<rparr>)"

definition owns :: "lk_sys \<Rightarrow> nat \<Rightarrow> nat \<Rightarrow> bool" where
  "owns s c l \<longleftrightarrow> at s c = Taken l \<or> at s c = Releasing l \<or> l \<in> held s c"

definition lk_inv :: "lk_sys \<Rightarrow> bool" where
  "lk_inv s \<longleftrightarrow>
     (\<forall>l. lk_locked (locks (lks s) l) \<longleftrightarrow> (\<exists>c. owns s c l))
   \<and> (\<forall>c d l. owns s c l \<longrightarrow> owns s d l \<longrightarrow> c = d)
   \<and> (\<forall>c l. lk_cpu (locks (lks s) l) = Some c \<longleftrightarrow> l \<in> held s c)
   \<and> (\<forall>c l. at s c = Taken l \<or> at s c = Releasing l \<longrightarrow> l \<notin> held s c)
   \<and> (\<forall>c. finite (held s c) \<and> ncli (cpus (lks s) c) = int (card (held s c)) + (if at s c = Out then 0 else 1))
   \<and> (\<forall>c. 0 < ncli (cpus (lks s) c) \<longrightarrow> \<not> IF (cpus (lks s) c))"

section \<open>Lemmas\<close>

lemma upd_sel [simp]:
  "locks (upd_cpu c f s) = locks s" "cpus (upd_lock l g s) = cpus s"
  "cpus (upd_cpu c f s) = (cpus s)(c := f (cpus s c))" "locks (upd_lock l g s) = (locks s)(l := g (locks s l))"
  by (simp_all add: upd_cpu_def upd_lock_def)

lemma lk_st_eq: "s = t \<longleftrightarrow> cpus s = cpus t \<and> locks s = locks t" for s t :: lk_st
  by (cases s; cases t) simp

definition pushed :: "cpu \<Rightarrow> cpu" where
  "pushed p = \<lparr>ncli = ncli p + 1, intena = (if ncli p = 0 then IF p else intena p), IF = False\<rparr>"

definition popped :: "cpu \<Rightarrow> cpu" where
  "popped p = \<lparr>ncli = ncli p - 1, intena = intena p, IF = (ncli p = 1 \<and> intena p)\<rparr>"

lemma cpu_eq: "p = q \<longleftrightarrow> ncli p = ncli q \<and> intena p = intena q \<and> IF p = IF q" for p q :: cpu
  by (cases p; cases q) simp

lemma pushcli_eq: "pushcli c s = Ret () (upd_cpu c pushed s)"
  by (simp add: pushcli_def mycpu_def bnd_def seqp_def gets_def modify_def ret_def lk_st_eq fun_upd_def fun_eq_iff
      cpu_eq pushed_def)

lemma popcli_eq:
  "popcli c s = (if IF (cpus s c) then Panic ''popcli - interruptible''
     else if ncli (cpus s c) < 1 then Panic ''popcli'' else Ret () (upd_cpu c popped s))"
  by (auto simp: popcli_def mycpu_def bnd_def seqp_def gets_def modify_def ret_def panic_def whenp_def lk_st_eq
      fun_upd_def fun_eq_iff cpu_eq popped_def)

lemma popped_pushed:
  "0 \<le> ncli p \<Longrightarrow> (0 < ncli p \<longrightarrow> \<not> IF p) \<Longrightarrow>
     popped (pushed p) = p\<lparr>intena := (if ncli p = 0 then IF p else intena p)\<rparr>"
  by (simp add: popped_def pushed_def cpu_eq)

lemma holding_eq:
  assumes "0 \<le> ncli (cpus s c)" "0 < ncli (cpus s c) \<longrightarrow> \<not> IF (cpus s c)"
  shows "holding c l s = Ret (lk_locked (locks s l) \<and> lk_cpu (locks s l) = Some c)
    (upd_cpu c (\<lambda>p. p\<lparr>intena := (if ncli p = 0 then IF p else intena p)\<rparr>) s)"
proof -
  have "popped (pushed (cpus s c)) = (cpus s c)\<lparr>intena := (if ncli (cpus s c) = 0 then IF (cpus s c) else intena (cpus s c))\<rparr>"
    by (rule popped_pushed [OF assms])
  moreover have "\<not> IF (pushed (cpus s c))" "\<not> ncli (pushed (cpus s c)) < 1"
    using assms(1) by (simp_all add: pushed_def)
  ultimately show ?thesis
    by (simp add: holding_def seqp_def bnd_def pushcli_eq popcli_eq mycpu_def gets_def ret_def lk_st_eq fun_eq_iff)
qed

lemma holding_locked_eq:
  assumes "0 < ncli (cpus s c)" "\<not> IF (cpus s c)"
  shows "holding c l s = Ret (lk_locked (locks s l) \<and> lk_cpu (locks s l) = Some c) s"
proof -
  have "upd_cpu c (\<lambda>p. p\<lparr>intena := (if ncli p = 0 then IF p else intena p)\<rparr>) s = s"
    using assms(1) by (simp add: lk_st_eq fun_eq_iff cpu_eq)
  then show ?thesis using assms by (simp add: holding_eq)
qed

lemma acquire_begin_eq:
  assumes "0 \<le> ncli (cpus s c)"
  shows "acquire_begin c l s = (if lk_locked (locks s l) \<and> lk_cpu (locks s l) = Some c then Panic ''acquire''
    else Ret () (upd_cpu c pushed s))"
  using assms by (simp add: acquire_begin_def seqp_def bnd_def pushcli_eq holding_locked_eq pushed_def panic_def ret_def)

lemma xchg_locked_eq:
  "xchg_locked l s = Ret (lk_locked (locks s l)) (upd_lock l (\<lambda>k. k\<lparr>lk_locked := True\<rparr>) s)"
  by (simp add: xchg_locked_def bnd_def seqp_def gets_def modify_def ret_def)

lemma acquire_end_eq:
  "\<not> IF (cpus s c) \<Longrightarrow> acquire_end c l s = Ret () (upd_lock l (\<lambda>k. k\<lparr>lk_cpu := Some c\<rparr>) s)"
  by (simp add: acquire_end_def mycpu_def bnd_def gets_def modify_def ret_def)

lemma release_begin_eq:
  assumes "0 \<le> ncli (cpus s c)" "0 < ncli (cpus s c) \<longrightarrow> \<not> IF (cpus s c)"
  shows "release_begin c l s = (if lk_locked (locks s l) \<and> lk_cpu (locks s l) = Some c
    then Ret () (upd_lock l (\<lambda>k. k\<lparr>lk_cpu := None\<rparr>)
      (upd_cpu c (\<lambda>p. p\<lparr>intena := (if ncli p = 0 then IF p else intena p)\<rparr>) s)) else Panic ''release'')"
  using assms by (simp add: release_begin_def bnd_def holding_eq panic_def modify_def)

lemma release_end_eq:
  assumes "0 < ncli (cpus s c)" "\<not> IF (cpus s c)"
  shows "release_end c l s = Ret () (upd_cpu c popped (upd_lock l (\<lambda>k. k\<lparr>lk_locked := False\<rparr>) s))"
  using assms by (simp add: release_end_def seqp_def bnd_def modify_def popcli_eq)

lemma length_pcs_walk: "length (pcs_walk n m ebp) = n"
  by (induction n m ebp rule: pcs_walk.induct) simp_all

section \<open>Mutual exclusion\<close>

lemma lk_invD:
  assumes "lk_inv s"
  shows "lk_locked (locks (lks s) l) \<longleftrightarrow> (\<exists>c. owns s c l)"
    and "owns s c l \<Longrightarrow> owns s d l \<Longrightarrow> c = d"
    and "lk_cpu (locks (lks s) l) = Some c \<longleftrightarrow> l \<in> held s c"
    and "at s c = Taken l \<or> at s c = Releasing l \<Longrightarrow> l \<notin> held s c"
    and "finite (held s c)"
    and "ncli (cpus (lks s) c) = int (card (held s c)) + (if at s c = Out then 0 else 1)"
    and "0 < ncli (cpus (lks s) c) \<Longrightarrow> \<not> IF (cpus (lks s) c)"
  using assms unfolding lk_inv_def by (blast, blast, blast, blast, blast, blast, blast)

lemma lk_invI:
  assumes "\<And>l. lk_locked (locks (lks s) l) \<longleftrightarrow> (\<exists>c. owns s c l)"
    and "\<And>c d l. owns s c l \<Longrightarrow> owns s d l \<Longrightarrow> c = d"
    and "\<And>l c. lk_cpu (locks (lks s) l) = Some c \<longleftrightarrow> l \<in> held s c"
    and "\<And>l c. at s c = Taken l \<or> at s c = Releasing l \<Longrightarrow> l \<notin> held s c"
    and "\<And>c. finite (held s c)"
    and "\<And>c. ncli (cpus (lks s) c) = int (card (held s c)) + (if at s c = Out then 0 else 1)"
    and "\<And>c. 0 < ncli (cpus (lks s) c) \<Longrightarrow> \<not> IF (cpus (lks s) c)"
  shows "lk_inv s"
  unfolding lk_inv_def using assms by blast

lemma lk_inv_ncli: "lk_inv s \<Longrightarrow> 0 \<le> ncli (cpus (lks s) c)"
  by (simp add: lk_invD(6))

lemma lk_inv_busy_cpu: "lk_inv s \<Longrightarrow> at s c \<noteq> Out \<Longrightarrow> 0 < ncli (cpus (lks s) c) \<and> \<not> IF (cpus (lks s) c)"
  using lk_invD(6,7) [of s c] by simp

lemma inv_begin:
  assumes I: "lk_inv s" and c: "at s c = Out" and t: "acquire_begin c l (lks s) = Ret () t"
  shows "lk_inv (s\<lparr>lks := t, at := (at s)(c := Spinning l)\<rparr>)" (is "lk_inv ?s")
proof (rule lk_invI)
  have t: "t = upd_cpu c pushed (lks s)"
    using t lk_inv_ncli [OF I, of c] by (simp add: acquire_begin_eq split: if_splits)
  have o: "owns ?s d k = owns s d k" for d k using c by (auto simp: owns_def)
  show "lk_locked (locks (lks ?s) l) \<longleftrightarrow> (\<exists>c. owns ?s c l)" for l
    unfolding o by (simp add: t lk_invD(1) [OF I])
  show "owns ?s c l \<Longrightarrow> owns ?s d l \<Longrightarrow> c = d" for c d l unfolding o by (rule lk_invD(2) [OF I])
  show "lk_cpu (locks (lks ?s) l) = Some c \<longleftrightarrow> l \<in> held ?s c" for l c by (simp add: t lk_invD(3) [OF I])
  show "l \<notin> held ?s c" if "at ?s c = Taken l \<or> at ?s c = Releasing l" for l c
    using that lk_invD(4) [OF I, of c l] by (auto split: if_splits)
  show "finite (held ?s c)" for c by (simp add: lk_invD(5) [OF I])
  show "ncli (cpus (lks ?s) d) = int (card (held ?s d)) + (if at ?s d = Out then 0 else 1)" for d
    using lk_invD(6) [OF I, of d] c by (auto simp: t pushed_def)
  show "\<not> IF (cpus (lks ?s) d)" if "0 < ncli (cpus (lks ?s) d)" for d
    using lk_invD(7) [OF I, of d] that by (auto simp: t pushed_def split: if_splits)
qed

lemma inv_busy:
  assumes I: "lk_inv s" and t: "xchg_locked l (lks s) = Ret True t"
  shows "lk_inv (s\<lparr>lks := t\<rparr>)"
proof -
  have "lk_locked (locks (lks s) l)" "t = upd_lock l (\<lambda>k. k\<lparr>lk_locked := True\<rparr>) (lks s)"
    using t by (simp_all add: xchg_locked_eq)
  then have "t = lks s" by (simp add: lk_st_eq fun_eq_iff)
  then show ?thesis using I by simp
qed

lemma inv_take:
  assumes I: "lk_inv s" and c: "at s c = Spinning l" and t: "xchg_locked l (lks s) = Ret False t"
  shows "lk_inv (s\<lparr>lks := t, at := (at s)(c := Taken l)\<rparr>)" (is "lk_inv ?s")
proof (rule lk_invI)
  have free: "\<not> owns s d l" for d
    using t lk_invD(1) [OF I, of l] by (auto simp: xchg_locked_eq)
  have t: "t = upd_lock l (\<lambda>k. k\<lparr>lk_locked := True\<rparr>) (lks s)"
    using t by (simp add: xchg_locked_eq)
  have o: "owns ?s d k \<longleftrightarrow> d = c \<and> k = l \<or> owns s d k" for d k using c by (auto simp: owns_def)
  show "lk_locked (locks (lks ?s) k) \<longleftrightarrow> (\<exists>c. owns ?s c k)" for k
    unfolding o by (auto simp: t lk_invD(1) [OF I])
  show "a = d" if "owns ?s a k" "owns ?s d k" for a d k
    using that free lk_invD(2) [OF I, of a k d] unfolding o by auto
  show "lk_cpu (locks (lks ?s) k) = Some d \<longleftrightarrow> k \<in> held ?s d" for k d by (simp add: t lk_invD(3) [OF I])
  show "k \<notin> held ?s d" if "at ?s d = Taken k \<or> at ?s d = Releasing k" for k d
    using that free lk_invD(4) [OF I, of d k] by (auto simp: owns_def split: if_splits)
  show "finite (held ?s c)" for c by (simp add: lk_invD(5) [OF I])
  show "ncli (cpus (lks ?s) d) = int (card (held ?s d)) + (if at ?s d = Out then 0 else 1)" for d
    using lk_invD(6) [OF I, of d] c by (auto simp: t)
  show "\<not> IF (cpus (lks ?s) d)" if "0 < ncli (cpus (lks ?s) d)" for d
    using lk_invD(7) [OF I, of d] that by (simp add: t)
qed

lemma inv_record:
  assumes I: "lk_inv s" and c: "at s c = Taken l" and t: "acquire_end c l (lks s) = Ret () t"
  shows "lk_inv (s\<lparr>lks := t, at := (at s)(c := Out), held := (held s)(c := insert l (held s c))\<rparr>)" (is "lk_inv ?s")
proof (rule lk_invI)
  have t: "t = upd_lock l (\<lambda>k. k\<lparr>lk_cpu := Some c\<rparr>) (lks s)"
    using t lk_inv_busy_cpu [OF I, of c] c by (simp add: acquire_end_eq)
  have own: "owns s c l" using c by (simp add: owns_def)
  have new: "l \<notin> held s d" for d
    using lk_invD(2) [OF I own, of d] lk_invD(4) [OF I, of c l] c by (auto simp: owns_def)
  have o: "owns ?s d k = owns s d k" for d k using c by (auto simp: owns_def)
  show "lk_locked (locks (lks ?s) k) \<longleftrightarrow> (\<exists>c. owns ?s c k)" for k
    using lk_invD(1) [OF I] unfolding o by (simp add: t)
  show "a = d" if "owns ?s a k" "owns ?s d k" for a d k using that unfolding o by (rule lk_invD(2) [OF I])
  show "lk_cpu (locks (lks ?s) k) = Some d \<longleftrightarrow> k \<in> held ?s d" for k d
    using new lk_invD(3) [OF I] by (auto simp: t)
  show "k \<notin> held ?s d" if "at ?s d = Taken k \<or> at ?s d = Releasing k" for k d
    using that lk_invD(4) [OF I, of d k] by (auto split: if_splits)
  show "finite (held ?s d)" for d by (simp add: lk_invD(5) [OF I])
  show "ncli (cpus (lks ?s) d) = int (card (held ?s d)) + (if at ?s d = Out then 0 else 1)" for d
    using lk_invD(5,6) [OF I, of d] c new [of c] by (auto simp: t)
  show "\<not> IF (cpus (lks ?s) d)" if "0 < ncli (cpus (lks ?s) d)" for d
    using lk_invD(7) [OF I, of d] that by (simp add: t)
qed

lemma inv_unlock:
  assumes I: "lk_inv s" and c: "at s c = Out" and t: "release_begin c l (lks s) = Ret () t"
  shows "lk_inv (s\<lparr>lks := t, at := (at s)(c := Releasing l), held := (held s)(c := held s c - {l})\<rparr>)" (is "lk_inv ?s")
proof (rule lk_invI)
  note n = lk_inv_ncli [OF I, of c] and i = lk_invD(7) [OF I, of c]
  let ?f = "\<lambda>p. p\<lparr>intena := (if ncli p = 0 then IF p else intena p)\<rparr>"
  have h: "l \<in> held s c"
    using t n i lk_invD(3) [OF I, of l c] by (simp add: release_begin_eq split: if_splits)
  have t: "t = upd_lock l (\<lambda>k. k\<lparr>lk_cpu := None\<rparr>) (upd_cpu c ?f (lks s))"
    using t n i by (simp add: release_begin_eq split: if_splits)
  have own: "owns s c l" using h by (simp add: owns_def)
  have only: "l \<in> held s d \<Longrightarrow> d = c" for d
    using lk_invD(2) [OF I own, of d] by (auto simp: owns_def)
  have card: "card (held s c) = Suc (card (held s c - {l}))"
    by (rule card.remove [OF lk_invD(5) [OF I] h])
  have o: "owns ?s d k = owns s d k" for d k using c h by (auto simp: owns_def)
  show "lk_locked (locks (lks ?s) k) \<longleftrightarrow> (\<exists>c. owns ?s c k)" for k
    using lk_invD(1) [OF I] unfolding o by (simp add: t)
  show "a = d" if "owns ?s a k" "owns ?s d k" for a d k using that unfolding o by (rule lk_invD(2) [OF I])
  show "lk_cpu (locks (lks ?s) k) = Some d \<longleftrightarrow> k \<in> held ?s d" for k d
    using only lk_invD(3) [OF I] by (auto simp: t)
  show "k \<notin> held ?s d" if "at ?s d = Taken k \<or> at ?s d = Releasing k" for k d
    using that lk_invD(4) [OF I, of d k] by (auto split: if_splits)
  show "finite (held ?s d)" for d by (simp add: lk_invD(5) [OF I])
  show "ncli (cpus (lks ?s) d) = int (card (held ?s d)) + (if at ?s d = Out then 0 else 1)" for d
    using lk_invD(6) [OF I, of d] c card by (auto simp: t)
  show "\<not> IF (cpus (lks ?s) d)" if "0 < ncli (cpus (lks ?s) d)" for d
    using lk_invD(7) [OF I, of d] that by (simp add: t split: if_splits)
qed

lemma inv_free:
  assumes I: "lk_inv s" and c: "at s c = Releasing l" and t: "release_end c l (lks s) = Ret () t"
  shows "lk_inv (s\<lparr>lks := t, at := (at s)(c := Out)\<rparr>)" (is "lk_inv ?s")
proof (rule lk_invI)
  have t: "t = upd_cpu c popped (upd_lock l (\<lambda>k. k\<lparr>lk_locked := False\<rparr>) (lks s))"
    using t lk_inv_busy_cpu [OF I, of c] c by (simp add: release_end_eq)
  have own: "owns s c l" using c by (simp add: owns_def)
  have nh: "l \<notin> held s c" using lk_invD(4) [OF I, of c l] c by simp
  have o: "owns ?s d k \<longleftrightarrow> owns s d k \<and> \<not> (d = c \<and> k = l)" for d k
    using c nh by (auto simp: owns_def)
  have only: "owns s d l \<Longrightarrow> d = c" for d using lk_invD(2) [OF I own, of d] by simp
  show "lk_locked (locks (lks ?s) k) \<longleftrightarrow> (\<exists>c. owns ?s c k)" for k
    using lk_invD(1) [OF I, of k] only unfolding o by (auto simp: t)
  show "a = d" if "owns ?s a k" "owns ?s d k" for a d k
    using that lk_invD(2) [OF I, of a k d] unfolding o by blast
  show "lk_cpu (locks (lks ?s) k) = Some d \<longleftrightarrow> k \<in> held ?s d" for k d
    using lk_invD(3) [OF I] by (simp add: t)
  show "k \<notin> held ?s d" if "at ?s d = Taken k \<or> at ?s d = Releasing k" for k d
    using that lk_invD(4) [OF I, of d k] by (auto split: if_splits)
  show "finite (held ?s d)" for d by (simp add: lk_invD(5) [OF I])
  show "ncli (cpus (lks ?s) d) = int (card (held ?s d)) + (if at ?s d = Out then 0 else 1)" for d
    using lk_invD(6) [OF I, of d] c by (auto simp: t popped_def)
  show "\<not> IF (cpus (lks ?s) d)" if "0 < ncli (cpus (lks ?s) d)" for d
    using lk_invD(7) [OF I, of d] that by (auto simp: t popped_def split: if_splits)
qed

lemma lk_step_inv: "lk_inv s \<Longrightarrow> lk_step s t \<Longrightarrow> lk_inv t"
  by (erule lk_stepE) (auto intro: inv_begin inv_busy inv_take inv_record inv_unlock inv_free)

lemma lk_init_inv: "lk_init s \<Longrightarrow> lk_inv s"
  by (simp add: lk_init_def lk_inv_def owns_def)

interpretation spin: transition_system lk_init lk_step lk_inv
  by unfold_locales (auto intro: lk_init_inv lk_step_inv)

text \<open>
  C17. Mutual exclusion: however the atomic actions of any number of CPUs interleave, no lock
  is ever held by two CPUs, a held lock is marked locked with its holder's name, and a CPU
  that holds a lock has its interrupts off.
\<close>

theorem spinlock_mutual_exclusion:
  assumes "reach lk_init lk_step s" "l \<in> held s c"
  shows "(\<forall>d. l \<in> held s d \<longrightarrow> d = c) \<and> lk_locked (locks (lks s) l) \<and> lk_cpu (locks (lks s) l) = Some c
    \<and> \<not> IF (cpus (lks s) c)"
proof -
  have I: "lk_inv s" using assms(1) by (rule spin.reach_inv)
  have own: "owns s d l" if "l \<in> held s d" for d using that by (simp add: owns_def)
  have "held s c \<noteq> {}" using assms(2) by auto
  then have "0 < card (held s c)" using lk_invD(5) [OF I, of c] by (simp add: card_gt_0_iff)
  then have "0 < ncli (cpus (lks s) c)" using lk_invD(6) [OF I, of c] by simp
  then show ?thesis
    using lk_invD(1,3,7) [OF I] lk_invD(2) [OF I own own] own assms(2) by blast
qed

text \<open>A run of two CPUs for one lock: CPU 0 takes it while CPU 1 is in its loop.\<close>

definition lk_boot :: lk_sys where
  "lk_boot = \<lparr>lks = \<lparr>cpus = \<lambda>_. \<lparr>ncli = 0, intena = False, IF = True\<rparr>,
      locks = \<lambda>_. \<lparr>lk_locked = False, lk_cpu = None\<rparr>\<rparr>, at = \<lambda>_. Out, held = \<lambda>_. {}\<rparr>"

lemma lk_boot_taken: "\<exists>s. reach lk_init lk_step s \<and> 7 \<in> held s 0 \<and> at s 1 = Spinning 7"
proof -
  let ?c = "\<lparr>ncli = 1, intena = True, IF = False\<rparr>"
  define s1 where "s1 = lk_boot\<lparr>lks := upd_cpu 0 pushed (lks lk_boot), at := (at lk_boot)(0 := Spinning 7)\<rparr>"
  define s2 where "s2 = s1\<lparr>lks := upd_cpu 1 pushed (lks s1), at := (at s1)(1 := Spinning 7)\<rparr>"
  define s3 where "s3 = s2\<lparr>lks := upd_lock 7 (\<lambda>k. k\<lparr>lk_locked := True\<rparr>) (lks s2), at := (at s2)(0 := Taken 7)\<rparr>"
  define s4 where "s4 = s3\<lparr>lks := upd_lock 7 (\<lambda>k. k\<lparr>lk_cpu := Some 0\<rparr>) (lks s3), at := (at s3)(0 := Out),
    held := (held s3)(0 := insert 7 (held s3 0))\<rparr>"
  note defs = s4_def s3_def s2_def s1_def lk_boot_def
  have r0: "reach lk_init lk_step lk_boot" by (rule reach_init) (simp add: lk_init_def lk_boot_def)
  have r1: "reach lk_init lk_step s1"
    unfolding s1_def by (rule reach_step [OF r0 step_begin]) (simp_all add: acquire_begin_eq lk_boot_def)
  have r2: "reach lk_init lk_step s2"
    unfolding s2_def by (rule reach_step [OF r1 step_begin]) (simp_all add: acquire_begin_eq defs pushed_def)
  have r3: "reach lk_init lk_step s3"
    unfolding s3_def by (rule reach_step [OF r2 step_take]) (simp_all add: xchg_locked_eq defs)
  have r4: "reach lk_init lk_step s4"
    unfolding s4_def by (rule reach_step [OF r3 step_record]) (simp_all add: acquire_end_eq defs pushed_def)
  have "7 \<in> held s4 0" "at s4 1 = Spinning 7" by (simp_all add: defs)
  with r4 show ?thesis by blast
qed

theorem spinlock_mutual_exclusion_witness:
  "\<exists>s. reach lk_init lk_step s \<and> 7 \<in> held s 0 \<and> (\<forall>d. 7 \<in> held s d \<longrightarrow> d = 0) \<and> \<not> IF (cpus (lks s) 0)"
  using lk_boot_taken spinlock_mutual_exclusion by blast

text \<open>
  C30. The lock code never trips over itself: in every reachable state a CPU that holds a lock
  can release it (no panic), a CPU that does not hold it can start to acquire it, and the
  one that tries to acquire a lock it already holds is stopped by \<^verbatim>\<open>panic("acquire")\<close> rather
  than left spinning for ever.
\<close>

theorem spinlock_calls_defined:
  assumes "reach lk_init lk_step s"
  shows "if l \<in> held s c then acquire_begin c l (lks s) = Panic ''acquire'' \<and> (\<exists>t. release_begin c l (lks s) = Ret () t)
     else (\<exists>t. acquire_begin c l (lks s) = Ret () t) \<and> release_begin c l (lks s) = Panic ''release''"
proof -
  have I: "lk_inv s" using assms by (rule spin.reach_inv)
  have "lk_cpu (locks (lks s) l) = Some c \<longleftrightarrow> l \<in> held s c" by (rule lk_invD(3) [OF I])
  moreover have "l \<in> held s c \<Longrightarrow> lk_locked (locks (lks s) l)" using lk_invD(1) [OF I, of l] by (auto simp: owns_def)
  ultimately show ?thesis
    using lk_inv_ncli [OF I, of c] lk_invD(7) [OF I, of c] by (simp add: acquire_begin_eq release_begin_eq)
qed

theorem spinlock_calls_defined_witness:
  "\<exists>s. reach lk_init lk_step s \<and> acquire_begin 0 7 (lks s) = Panic ''acquire''"
  using lk_boot_taken spinlock_calls_defined [of _ 7 0] by (auto split: if_splits)

text \<open>
  C31. \<^verbatim>\<open>pushcli\<close> and \<^verbatim>\<open>popcli\<close> match: after any number of nested \<^verbatim>\<open>pushcli\<close> calls interrupts are
  off, the same number of \<^verbatim>\<open>popcli\<close> calls restores the interrupt flag and the depth the CPU
  had, and one more \<^verbatim>\<open>popcli\<close> panics.
\<close>

theorem pushcli_popcli_nest:
  assumes "ncli (cpus s c) = 0"
  shows "\<exists>s1 s2. forp [0..<Suc n] (\<lambda>_. pushcli c) s = Ret () s1 \<and> \<not> IF (cpus s1 c) \<and> ncli (cpus s1 c) = int (Suc n)
    \<and> forp [0..<Suc n] (\<lambda>_. popcli c) s1 = Ret () s2 \<and> IF (cpus s2 c) = IF (cpus s c) \<and> ncli (cpus s2 c) = 0
    \<and> locks s2 = locks s \<and> (\<exists>e. popcli c s2 = Panic e)"
proof -
  have push: "forp xs (\<lambda>_. pushcli c) t = Ret () (upd_cpu c (\<lambda>p. if xs = [] then p else
        \<lparr>ncli = ncli p + int (length xs), intena = (if ncli p = 0 then IF p else intena p), IF = False\<rparr>) t)"
    if "0 \<le> ncli (cpus t c)" for xs :: "nat list" and t
    using that
    by (induction xs arbitrary: t) (simp_all add: ret_def bnd_def pushcli_eq pushed_def lk_st_eq fun_eq_iff)
  have pop: "forp xs (\<lambda>_. popcli c) t = Ret () (upd_cpu c (\<lambda>p. if xs = [] then p else
        \<lparr>ncli = ncli p - int (length xs), intena = intena p, IF = (ncli p = int (length xs) \<and> intena p)\<rparr>) t)"
    if "int (length xs) \<le> ncli (cpus t c)" "\<not> IF (cpus t c)" for xs :: "nat list" and t
    using that
  proof (induction xs arbitrary: t)
    case (Cons x xs)
    show ?case
    proof (cases xs)
      case Nil
      then show ?thesis using Cons.prems by (simp add: ret_def bnd_def popcli_eq popped_def lk_st_eq fun_eq_iff)
    next
      case (Cons y ys)
      then have "int (length xs) \<le> ncli (popped (cpus t c))" "\<not> IF (popped (cpus t c))"
        using Cons.prems by (auto simp: popped_def)
      then show ?thesis using Cons.prems Cons.IH [of "upd_cpu c popped t"] Cons
        by (simp add: bnd_def popcli_eq lk_st_eq fun_eq_iff) (simp add: popped_def)
    qed
  qed (simp add: ret_def lk_st_eq)
  show ?thesis using assms
    by (simp add: push pop popcli_eq del: forp.simps upt_Suc)
qed

theorem pushcli_popcli_nest_witness:
  "\<exists>s1 s2. forp [0..<Suc 1] (\<lambda>_. pushcli 0) (lks lk_boot) = Ret () s1 \<and> \<not> IF (cpus s1 0)
     \<and> forp [0..<Suc 1] (\<lambda>_. popcli 0) s1 = Ret () s2 \<and> IF (cpus s2 0)"
  using pushcli_popcli_nest [of "lks lk_boot" 0 1] by (auto simp: lk_boot_def)

end
