(* ===== verification/Console.thy ===== *)
theory Console
  imports Trap Spinlock
begin

text \<open>
  The console, \<^verbatim>\<open>console.c\<close>, with the serial line of \<^verbatim>\<open>uart.c\<close> and \<^verbatim>\<open>procdump\<close> of \<^verbatim>\<open>proc.c\<close>, which prints on it.
  The devices are state: the cells of the screen and the cursor register, the bytes sent to the
  serial line, and the bytes waiting at the keyboard and at the serial line.  The waits for the
  transmitter have no effect.  \<^verbatim>\<open>printf\<close> arguments are tagged with how the format uses them.

  Where the code writes or reads outside an array, and where a printed argument is missing, C
  gives no meaning; the model stops there, with the outcome of \<open>undef\<close>.
\<close>

declare One_nat_def [simp del]

definition undef :: "('s, 'a) prog" where
  "undef = panic ''undefined behaviour''"

abbreviation (input) INPUT_BUF :: nat where "INPUT_BUF \<equiv> 128"
abbreviation (input) BACKSPACE :: int where "BACKSPACE \<equiv> 256"
abbreviation (input) NEWLINE :: u8 where "NEWLINE \<equiv> 10"

record cons_st = trap_st +
  in_buf :: "u8 list"
  in_r :: u32
  in_w :: u32
  in_e :: u32
  cmd_history :: "u8 list list"
  complete_result :: "u8 list"
  panicked :: bool
  crt :: "nat \<Rightarrow> u16"
  crt_pos :: nat
  uart :: bool
  uart_out :: "u8 list"
  uart_in :: "u8 list"
  kbd_in :: "u8 list"
  kbd_shift :: u32

section \<open>Output\<close>

definition uartputc :: "int \<Rightarrow> ('a cons_st_scheme, unit) prog" where
  "uartputc c =
     bnd (gets uart) (\<lambda>u.
     whenp u (modify (\<lambda>s. s\<lparr>uart_out := uart_out s @ [word_of_int c]\<rparr>)))"

definition uartgetc :: "('a cons_st_scheme, int) prog" where
  "uartgetc =
     bnd (gets (\<lambda>s. (uart s, uart_in s))) (\<lambda>(u, q).
     if \<not> u then ret (-1)
     else case q of
       [] \<Rightarrow> ret (-1)
     | b # q \<Rightarrow>
         seqp (modify (\<lambda>s. s\<lparr>uart_in := q\<rparr>))
          (ret (uint b)))"

text \<open>
  \<^verbatim>\<open>uartinit\<close> finds out whether there is a serial port (\<open>present\<close> stands for a status that is not
  \<^verbatim>\<open>0xFF\<close>), drops a byte that is waiting, and announces itself.
\<close>

definition uartinit :: "bool \<Rightarrow> ('a cons_st_scheme, unit) prog" where
  "uartinit present =
     whenp present
       (seqp (modify (\<lambda>s. s\<lparr>uart := True, uart_in := tl (uart_in s)\<rparr>))
        (forp [120, 118, 54, 46, 46, 46, 10] uartputc))"

text \<open>
  \<^verbatim>\<open>cgaputc\<close>: the new cursor position and screen.  The register holds 16 bits; \<open>scroll\<close> is the move
  of the lower rows up and the clearing of what follows the new position.
\<close>

definition scroll :: "(nat \<Rightarrow> u16) \<Rightarrow> nat \<Rightarrow> nat \<Rightarrow> u16" where
  "scroll m pos i = (if pos \<le> i \<and> i < 24 * 80 then 0 else if i < 23 * 80 then m (i + 80) else m i)"

definition cgaputc :: "int \<Rightarrow> ('a cons_st_scheme, unit) prog" where
  "cgaputc c =
     bnd (gets (\<lambda>s. (crt_pos s, crt s))) (\<lambda>(pos0, m0).
     let pos = (if c = 10 then pos0 + (80 - pos0 mod 80) else if c = BACKSPACE then pos0 - 1 else pos0 + 1);
         m = (if c = 10 \<or> c = BACKSPACE then m0 else m0(pos0 := word_of_int c AND 0xFF OR 0x0700))
     in
     if pos > 25 * 80 then panic ''pos under/overflow''
     else
       let scrolls = (pos div 80 \<ge> 24);
           pos1 = (if scrolls then pos - 80 else pos);
           m1 = (if scrolls then scroll m pos1 else m)
       in modify (\<lambda>s. s\<lparr>crt_pos := pos1 mod 65536, crt := m1(pos1 := 0x0720)\<rparr>))"

definition consputc :: "int \<Rightarrow> ('a cons_st_scheme, unit) prog" where
  "consputc c =
     bnd (gets panicked) (\<lambda>p.
     if p then (\<lambda>s. Spin)
     else
       seqp (if c = BACKSPACE then
               seqp (uartputc 8) (seqp (uartputc 32) (uartputc 8))
             else uartputc c)
        (cgaputc c))"

section \<open>Formatted output\<close>

definition str :: "string \<Rightarrow> u8 list" where
  "str cs = map (\<lambda>c. of_nat (of_char c)) cs"

definition digit :: "nat \<Rightarrow> u8" where
  "digit d = (if d < 10 then 48 + of_nat d else 87 + of_nat d)"

text \<open>The digits of a number, the last one first, as \<^verbatim>\<open>printint\<close> computes them; the base is 10 or 16.\<close>

function digits_rev :: "nat \<Rightarrow> nat \<Rightarrow> u8 list" where
  "digits_rev base x = digit (x mod base) # (if x div base = 0 \<or> base < 2 then [] else digits_rev base (x div base))"
  by auto
termination
  by (relation "measure snd") (auto intro!: div_less_dividend simp: div_greater_zero_iff)

declare digits_rev.simps [simp del]

definition printint_chars :: "u32 \<Rightarrow> nat \<Rightarrow> bool \<Rightarrow> u8 list" where
  "printint_chars xx base sign =
     (let neg = (sign \<and> sint xx < 0);
          x = (if neg then - xx else xx);
          buf = digits_rev base (unat x) @ (if neg then [45] else [])
      in rev buf)"

definition printint :: "u32 \<Rightarrow> nat \<Rightarrow> bool \<Rightarrow> ('a cons_st_scheme, unit) prog" where
  "printint xx base sign = forp (printint_chars xx base sign) (\<lambda>c. consputc (sint c))"

datatype parg = PInt u32 | PStr "u8 list option"

text \<open>The loop of \<^verbatim>\<open>cprintf\<close> over the rest of the format and of the arguments.\<close>

fun cprintf :: "u8 list \<Rightarrow> parg list \<Rightarrow> ('a cons_st_scheme, unit) prog" where
  "cprintf [] args = ret ()"
| "cprintf (c # fmt) args =
     (if c \<noteq> 37 then seqp (consputc (uint c)) (cprintf fmt args)
      else case fmt of
        [] \<Rightarrow> ret ()
      | c # fmt \<Rightarrow>
          if c = 100 then
            (case args of
               PInt v # args \<Rightarrow> seqp (printint v 10 True) (cprintf fmt args)
             | _ \<Rightarrow> undef)
          else if c = 120 \<or> c = 112 then
            (case args of
               PInt v # args \<Rightarrow> seqp (printint v 16 False) (cprintf fmt args)
             | _ \<Rightarrow> undef)
          else if c = 115 then
            (case args of
               PStr t # args \<Rightarrow>
                 seqp (forp (case t of None \<Rightarrow> str ''(null)'' | Some t \<Rightarrow> t) (\<lambda>c. consputc (sint c)))
                  (cprintf fmt args)
             | _ \<Rightarrow> undef)
          else if c = 37 then seqp (consputc 37) (cprintf fmt args)
          else seqp (consputc 37) (seqp (consputc (uint c)) (cprintf fmt args)))"

text \<open>\<^verbatim>\<open>procdump\<close>; a name is printed up to its NUL.\<close>

definition state_name :: "procstate \<Rightarrow> u8 list" where
  "state_name st = str (case st of
      UNUSED \<Rightarrow> ''unused'' | EMBRYO \<Rightarrow> ''embryo'' | SLEEPING \<Rightarrow> ''sleep '' | RUNNABLE \<Rightarrow> ''runble''
    | RUNNING \<Rightarrow> ''run   '' | ZOMBIE \<Rightarrow> ''zombie'')"

definition procdump :: "('a cons_st_scheme, unit) prog" where
  "procdump =
     forp [0..<NPROC] (\<lambda>i.
       bnd (gets (\<lambda>s. (ptable s ! i, mem s))) (\<lambda>(p, m).
       if p_state p = UNUSED then ret ()
       else
         seqp (cprintf (str ''%d %s %s'') [PInt (word_of_int (p_pid p)), PStr (Some (state_name (p_state p))),
                 PStr (Some (takeWhile (\<lambda>c. c \<noteq> 0) (p_name p)))])
         (seqp (whenp (p_state p = SLEEPING)
            (forp (takeWhile (\<lambda>pc. pc \<noteq> 0) (getcallerpcs m (c_ebp (p_context p) + 8))) (\<lambda>pc.
              cprintf (str '' %p'') [PInt pc])))
          (cprintf [NEWLINE] []))))"

section \<open>Input\<close>

definition upd_in :: "nat \<Rightarrow> u8 \<Rightarrow> 'a cons_st_scheme \<Rightarrow> 'a cons_st_scheme" where
  "upd_in i c s = s\<lparr>in_buf := (in_buf s)[i mod INPUT_BUF := c]\<rparr>"

definition in_at :: "'a cons_st_scheme \<Rightarrow> u32 \<Rightarrow> u8" where
  "in_at s i = in_buf s ! (unat i mod INPUT_BUF)"

text \<open>
  The command history.  A row is a string with its NUL and what follows it; \<open>crow\<close> is the string.
  \<^verbatim>\<open>save_command\<close> copies a row down only when it is not empty and does not start with a space.
\<close>

definition crow :: "u8 list \<Rightarrow> u8 list" where
  "crow row = takeWhile (\<lambda>c. c \<noteq> 0) row"

definition copy_row :: "u8 list \<Rightarrow> u8 list \<Rightarrow> u8 list" where
  "copy_row src dst = (if crow src = [] then dst else put_bytes dst 0 (crow src @ [0]))"

definition shift_history :: "u8 list list \<Rightarrow> u8 list list" where
  "shift_history h = fold (\<lambda>i h. if h ! i ! 0 \<noteq> 32 then h[i + 1 := copy_row (h ! i) (h ! (i + 1))] else h) (rev [0..<14]) h"

definition save_command :: "u8 list \<Rightarrow> u8 list list \<Rightarrow> u8 list list" where
  "save_command buffer h = (let h = shift_history h in h[0 := put_bytes (h ! 0) 0 (crow buffer @ [0])])"

text \<open>\<^verbatim>\<open>search\<close>: each row that starts with the text found so far replaces it.\<close>

definition search_row :: "u8 list \<Rightarrow> u8 list \<Rightarrow> u8 list" where
  "search_row row cr =
     (let t = crow cr; h = crow row in
      if list_all (\<lambda>j. j < length h \<and> t ! j = h ! j) [0..<length t] then put_bytes cr 0 (h @ [0]) else cr)"

definition search :: "u8 list list \<Rightarrow> u8 list \<Rightarrow> u8 list" where
  "search h cr = fold search_row (take 15 h) cr"

text \<open>
  The loop that erases the line being edited, with a bound on its rounds, the number of characters
  of the line.
\<close>

fun kill_line :: "nat \<Rightarrow> ('a cons_st_scheme, unit) prog" where
  "kill_line 0 = ret ()"
| "kill_line (Suc k) =
     bnd (gets (\<lambda>s. in_e s \<noteq> in_w s \<and> in_at s (in_e s - 1) \<noteq> NEWLINE)) (\<lambda>go.
     whenp go
       (seqp (modify (\<lambda>s. s\<lparr>in_e := in_e s - 1\<rparr>))
       (seqp (consputc BACKSPACE)
        (kill_line k))))"

definition line_len :: "'a cons_st_scheme \<Rightarrow> nat" where
  "line_len s = unat (in_e s - in_w s)"

text \<open>The characters at the counters from \<^verbatim>\<open>w\<close> up to \<^verbatim>\<open>e\<close>, which a loop with a signed counter visits.\<close>

definition line_chars :: "('a cons_st_scheme, u8 list) prog" where
  "line_chars =
     bnd (gets (\<lambda>s. (in_w s, in_e s))) (\<lambda>(w, e).
     if w < e \<and> e > 0x80000000 then undef
     else gets (\<lambda>s. map (\<lambda>k. in_at s (w + of_nat k)) [0..<unat e - unat w]))"

text \<open>
  \<^verbatim>\<open>C('N')\<close> and \<^verbatim>\<open>C('R')\<close>: the line goes to \<^verbatim>\<open>newBuf\<close>, without its digits or backwards, is erased, and put
  back from there.  An array of 128 characters holds it.
\<close>

definition put_back :: "u8 list \<Rightarrow> ('a cons_st_scheme, unit) prog" where
  "put_back newBuf =
     (if length newBuf > INPUT_BUF then undef
      else
        forp [0..<length newBuf] (\<lambda>i.
          seqp (modify (\<lambda>s. s\<lparr>in_e := in_e s + 1\<rparr>))
          (seqp (modify (\<lambda>s. upd_in (unat (in_w s + of_nat i)) (newBuf ! i) s))
           (consputc (sint (newBuf ! i))))))"

definition edit_line :: "(u8 list \<Rightarrow> u8 list) \<Rightarrow> ('a cons_st_scheme, unit) prog" where
  "edit_line f =
     bnd line_chars (\<lambda>cs.
     bnd (gets line_len) (\<lambda>k.
     seqp (kill_line k)
      (put_back (f cs))))"

definition not_digit :: "u8 \<Rightarrow> bool" where
  "not_digit c \<longleftrightarrow> sint c > 57 \<or> sint c < 48"

text \<open>The erasing loop of the tabulator, which collects the line in \<^verbatim>\<open>complete_result\<close>.\<close>

fun tab_line :: "nat \<Rightarrow> nat \<Rightarrow> ('a cons_st_scheme, nat) prog" where
  "tab_line 0 index = ret index"
| "tab_line (Suc k) index =
     bnd (gets (\<lambda>s. in_e s \<noteq> in_w s \<and> in_at s (in_e s - 1) \<noteq> NEWLINE)) (\<lambda>go.
     if \<not> go then ret index
     else if index \<ge> INPUT_BUF then undef
     else
       seqp (modify (\<lambda>s. s\<lparr>complete_result := (complete_result s)[index := in_at s (in_w s + of_nat index)]\<rparr>))
       (seqp (modify (\<lambda>s. s\<lparr>in_e := in_e s - 1\<rparr>))
       (seqp (consputc BACKSPACE)
        (tab_line k (index + 1)))))"

definition tab_key :: "('a cons_st_scheme, unit) prog" where
  "tab_key =
     bnd (gets line_len) (\<lambda>k.
     bnd (tab_line k 0) (\<lambda>index.
     if index \<ge> INPUT_BUF then undef
     else
       seqp (modify (\<lambda>s. s\<lparr>complete_result := (complete_result s)[index := 0]\<rparr>))
       (seqp (modify (\<lambda>s. s\<lparr>complete_result := search (cmd_history s) (complete_result s)\<rparr>))
       (bnd (gets (\<lambda>s. crow (complete_result s))) (\<lambda>t.
        forp t (\<lambda>c.
          seqp (modify (\<lambda>s. s\<lparr>in_e := in_e s + 1\<rparr>))
           (consputc (sint c))))))))"

text \<open>The end of a command: the line without its newline is copied to \<^verbatim>\<open>buffer\<close> and saved.\<close>

definition end_of_command :: "('a cons_st_scheme, unit) prog" where
  "end_of_command =
     bnd (gets (\<lambda>s. (in_w s, in_e s))) (\<lambda>(w, e).
     if e - 1 < w \<or> w < e - 1 \<and> e - 1 > 0x80000000 \<or> unat (e - 1) - unat w \<ge> INPUT_BUF then undef
     else
       bnd (gets (\<lambda>s. map (\<lambda>k. in_at s (w + of_nat k)) [0..<unat (e - 1) - unat w])) (\<lambda>buffer.
       modify (\<lambda>s. s\<lparr>cmd_history := save_command (buffer @ [0]) (cmd_history s)\<rparr>)))"

definition default_key :: "int \<Rightarrow> ('a cons_st_scheme, unit) prog" where
  "default_key c0 =
     bnd (gets (\<lambda>s. in_e s - in_r s < of_nat INPUT_BUF)) (\<lambda>room.
     whenp (c0 \<noteq> 0 \<and> room)
       (let c = (if c0 = 13 then 10 else c0) in
        seqp (modify (\<lambda>s. (upd_in (unat (in_e s)) (word_of_int c) s)\<lparr>in_e := in_e s + 1\<rparr>))
        (seqp (consputc c)
        (bnd (gets (\<lambda>s. in_e s = in_r s + of_nat INPUT_BUF)) (\<lambda>full.
         whenp (c = 10 \<or> c = 4 \<or> full)
           (seqp (whenp (c = 10) end_of_command)
           (seqp (modify (\<lambda>s. s\<lparr>in_w := in_e s\<rparr>))
            (wakeup ChanInputR))))))))"

text \<open>One round of \<^verbatim>\<open>consoleintr\<close>: the \<^verbatim>\<open>switch\<close> on the character, which says whether to dump processes.\<close>

definition console_key :: "int \<Rightarrow> ('a cons_st_scheme, bool) prog" where
  "console_key c =
     (if c = 14 then seqp (edit_line (filter not_digit)) (ret False)
      else if c = 18 then seqp (edit_line rev) (ret False)
      else if c = 20 then
        seqp (modify (\<lambda>s. s\<lparr>in_e := in_e s + 1\<rparr>))
        (bnd (gets (\<lambda>s. sint (97 + in_w s))) (\<lambda>v.
         seqp (consputc v) (ret False)))
      else if c = 5 then
        seqp (modify (\<lambda>s. s\<lparr>in_e := in_e s + 1\<rparr>))
        (bnd (gets (\<lambda>s. sint (97 + in_e s))) (\<lambda>v.
         seqp (consputc v) (ret False)))
      else if c = 16 then ret True
      else if c = 21 then
        bnd (gets line_len) (\<lambda>k. seqp (kill_line k) (ret False))
      else if c = 8 \<or> c = 127 then
        bnd (gets (\<lambda>s. in_e s \<noteq> in_w s)) (\<lambda>go.
        seqp (whenp go
          (seqp (modify (\<lambda>s. s\<lparr>in_e := in_e s - 1\<rparr>))
           (consputc BACKSPACE)))
         (ret False))
      else if c = 9 then seqp tab_key (ret False)
      else seqp (default_key c) (ret False))"

text \<open>
  The loop of \<^verbatim>\<open>consoleintr\<close>.  Each round takes a byte from a device, so the bytes waiting bound
  the rounds.
\<close>

fun console_loop :: "nat \<Rightarrow> ('a cons_st_scheme, int) prog \<Rightarrow> bool \<Rightarrow> ('a cons_st_scheme, bool) prog" where
  "console_loop 0 getc dump = (\<lambda>s. Spin)"
| "console_loop (Suc k) getc dump =
     bnd getc (\<lambda>c.
     if c < 0 then ret dump
     else bnd (console_key c) (\<lambda>d. console_loop k getc (dump \<or> d)))"

definition consoleintr :: "('a cons_st_scheme, int) prog \<Rightarrow> ('a cons_st_scheme, unit) prog" where
  "consoleintr getc =
     bnd (gets (\<lambda>s. Suc (length (kbd_in s) + length (uart_in s)))) (\<lambda>k.
     bnd (console_loop k getc False) (\<lambda>dump.
     whenp dump procdump))"

definition uartintr :: "('a cons_st_scheme, unit) prog" where
  "uartintr = consoleintr uartgetc"

section \<open>The console device\<close>

text \<open>
  The loop of \<^verbatim>\<open>consoleread\<close>: \<open>n\<close> is what is left to read, \<open>some\<close> says that \<^verbatim>\<open>n < target\<close>.  The result \<open>None\<close>
  is the return of -1.  A call that sleeps goes on, woken up, from the test it slept in.
\<close>

fun consoleread_loop :: "nat \<Rightarrow> bool \<Rightarrow> ('a cons_st_scheme, u8 list option) prog" where
  "consoleread_loop 0 some = ret (Some [])"
| "consoleread_loop (Suc n) some =
     bnd (gets (\<lambda>s. in_r s = in_w s)) (\<lambda>empty.
     if empty then
       bnd myproc (\<lambda>me. bnd (deref me) (\<lambda>p.
       bnd (gets (\<lambda>s. p_killed (ptable s ! p))) (\<lambda>killed.
       if killed then ret None
       else seqp (sleep ChanInputR) (ret None))))
     else
       bnd (gets (\<lambda>s. in_at s (in_r s))) (\<lambda>c.
       seqp (modify (\<lambda>s. s\<lparr>in_r := in_r s + 1\<rparr>))
       (if c = 4 then
          seqp (whenp some (modify (\<lambda>s. s\<lparr>in_r := in_r s - 1\<rparr>)))
           (ret (Some []))
        else if c = NEWLINE then ret (Some [c])
        else
          bnd (consoleread_loop n True) (\<lambda>r.
          ret (map_option (\<lambda>cs. c # cs) r)))))"

definition consoleread :: "nat \<Rightarrow> nat \<Rightarrow> ('a cons_st_scheme, int \<times> u8 list) prog" where
  "consoleread ip n =
     seqp (iunlock (Some ip))
     (bnd (consoleread_loop n False) (\<lambda>r.
      seqp (ilock (Some ip))
       (ret (case r of None \<Rightarrow> (-1, []) | Some cs \<Rightarrow> (int (length cs), cs)))))"

definition consolewrite :: "nat \<Rightarrow> u8 list \<Rightarrow> ('a cons_st_scheme, int) prog" where
  "consolewrite ip buf =
     seqp (iunlock (Some ip))
     (seqp (forp buf (\<lambda>c. consputc (uint c)))
     (seqp (ilock (Some ip))
      (ret (int (length buf)))))"

text \<open>The device switch that \<^verbatim>\<open>consoleinit\<close> fills: device 1 is the console, no other device exists.\<close>

definition console_devsw :: "('a cons_st_scheme) devsw" where
  "console_devsw = \<lparr>dv_read = (\<lambda>d. if d = 1 then Some consoleread else None),
     dv_write = (\<lambda>d. if d = 1 then Some consolewrite else None)\<rparr>"

end
