(* ===== verification/Kbd.thy ===== *)
theory Kbd
  imports Console
begin

text \<open>
  The keyboard, \<^verbatim>\<open>kbd.c\<close> and the tables of \<^verbatim>\<open>kbd.h\<close>: scan codes to characters, with the state of the
  modifier keys in \<^verbatim>\<open>shift\<close>.  Characters are written as their codes, in rows of eight as in the
  source; the entries given by index are \<open>extended\<close> ones, for codes after an \<^verbatim>\<open>E0\<close> escape.
\<close>

declare One_nat_def [simp del]

abbreviation (input) SHIFT :: u32 where "SHIFT \<equiv> 1"
abbreviation (input) CTL :: u32 where "CTL \<equiv> 2"
abbreviation (input) ALT :: u32 where "ALT \<equiv> 4"
abbreviation (input) CAPSLOCK :: u32 where "CAPSLOCK \<equiv> 8"
abbreviation (input) NUMLOCK :: u32 where "NUMLOCK \<equiv> 16"
abbreviation (input) SCROLLLOCK :: u32 where "SCROLLLOCK \<equiv> 32"
abbreviation (input) E0ESC :: u32 where "E0ESC \<equiv> 64"

definition shiftcode :: "nat \<Rightarrow> u32" where
  "shiftcode d =
     (if d = 0x1D then CTL else if d = 0x2A then SHIFT else if d = 0x36 then SHIFT
      else if d = 0x38 then ALT else if d = 0x9D then CTL else if d = 0xB8 then ALT else 0)"

definition togglecode :: "nat \<Rightarrow> u32" where
  "togglecode d = (if d = 0x3A then CAPSLOCK else if d = 0x45 then NUMLOCK else if d = 0x46 then SCROLLLOCK else 0)"

text \<open>An array of 256 entries from its first rows and its entries by index.\<close>

definition keytable :: "u32 list \<Rightarrow> (nat \<times> u32) list \<Rightarrow> nat \<Rightarrow> u32" where
  "keytable rows ext d = (case map_of ext d of Some c \<Rightarrow> c | None \<Rightarrow> if d < length rows then rows ! d else 0)"

definition normalmap :: "nat \<Rightarrow> u32" where
  "normalmap = keytable
     [0, 27, 49, 50, 51, 52, 53, 54,
      55, 56, 57, 48, 45, 61, 8, 9,
      113, 119, 101, 114, 116, 121, 117, 105,
      111, 112, 91, 93, 10, 0, 97, 115,
      100, 102, 103, 104, 106, 107, 108, 59,
      39, 96, 0, 92, 122, 120, 99, 118,
      98, 110, 109, 44, 46, 47, 0, 42,
      0, 32, 0, 0, 0, 0, 0, 0,
      0, 0, 0, 0, 0, 0, 0, 55,
      56, 57, 45, 52, 53, 54, 43, 49,
      50, 51, 48, 46, 0, 0, 0, 0]
     [(0x9C, 0xA), (0xB5, 0x2F), (0xC8, 0xE2), (0xD0, 0xE3), (0xC9, 0xE6), (0xD1, 0xE7), (0xCB, 0xE4), (0xCD, 0xE5), (0x97, 0xE0), (0xCF, 0xE1), (0xD2, 0xE8), (0xD3, 0xE9)]"

definition shiftmap :: "nat \<Rightarrow> u32" where
  "shiftmap = keytable
     [0, 27, 33, 64, 35, 36, 37, 94,
      38, 42, 40, 41, 95, 43, 8, 9,
      81, 87, 69, 82, 84, 89, 85, 73,
      79, 80, 123, 125, 10, 0, 65, 83,
      68, 70, 71, 72, 74, 75, 76, 58,
      34, 126, 0, 124, 90, 88, 67, 86,
      66, 78, 77, 60, 62, 63, 0, 42,
      0, 32, 0, 0, 0, 0, 0, 0,
      0, 0, 0, 0, 0, 0, 0, 55,
      56, 57, 45, 52, 53, 54, 43, 49,
      50, 51, 48, 46, 0, 0, 0, 0]
     [(0x9C, 0xA), (0xB5, 0x2F), (0xC8, 0xE2), (0xD0, 0xE3), (0xC9, 0xE6), (0xD1, 0xE7), (0xCB, 0xE4), (0xCD, 0xE5), (0x97, 0xE0), (0xCF, 0xE1), (0xD2, 0xE8), (0xD3, 0xE9)]"

definition ctlmap :: "nat \<Rightarrow> u32" where
  "ctlmap = keytable
     [0, 0, 0, 0, 0, 0, 0, 0,
      0, 0, 0, 0, 0, 0, 0, 0,
      17, 23, 5, 18, 20, 25, 21, 9,
      15, 16, 0, 0, 13, 0, 1, 19,
      4, 6, 7, 8, 10, 11, 12, 0,
      0, 0, 0, 28, 26, 24, 3, 22,
      2, 14, 13, 0, 0, 239, 0, 0]
     [(0x9C, 0xD), (0xB5, 0xEF), (0xC8, 0xE2), (0xD0, 0xE3), (0xC9, 0xE6), (0xD1, 0xE7), (0xCB, 0xE4), (0xCD, 0xE5), (0x97, 0xE0), (0xCF, 0xE1), (0xD2, 0xE8), (0xD3, 0xE9)]"

definition charcode :: "u32 \<Rightarrow> nat \<Rightarrow> u32" where
  "charcode i = (if i = 0 then normalmap else if i = 1 then shiftmap else ctlmap)"

definition capslock :: "u32 \<Rightarrow> u32" where
  "capslock c = (if 97 \<le> c \<and> c \<le> 122 then c - 32 else if 65 \<le> c \<and> c \<le> 90 then c + 32 else c)"

text \<open>What one scan code does: the new \<^verbatim>\<open>shift\<close> and the value returned.\<close>

definition kbd_decode :: "u32 \<Rightarrow> u8 \<Rightarrow> u32 \<times> int" where
  "kbd_decode shift data =
     (if data = 0xE0 then (shift OR E0ESC, 0)
      else if data AND 0x80 \<noteq> 0 then
        let d = (if shift AND E0ESC \<noteq> 0 then unat data else unat (data AND 0x7F)) in
        (shift AND NOT (shiftcode d OR E0ESC), 0)
      else
        let esc = (shift AND E0ESC \<noteq> 0);
            d = (if esc then unat (data OR 0x80) else unat data);
            shift1 = (if esc then shift AND NOT E0ESC else shift);
            shift2 = (shift1 OR shiftcode d) XOR togglecode d;
            c = charcode (shift2 AND (CTL OR SHIFT)) d
        in (shift2, uint (if shift2 AND CAPSLOCK \<noteq> 0 then capslock c else c)))"

definition kbdgetc :: "('a cons_st_scheme, int) prog" where
  "kbdgetc =
     bnd (gets (\<lambda>s. (kbd_in s, kbd_shift s))) (\<lambda>(q, shift).
     case q of
       [] \<Rightarrow> ret (-1)
     | data # q \<Rightarrow>
         (let (shift, c) = kbd_decode shift data in
          seqp (modify (\<lambda>s. s\<lparr>kbd_in := q, kbd_shift := shift\<rparr>))
           (ret c)))"

definition kbdintr :: "('a cons_st_scheme, unit) prog" where
  "kbdintr = consoleintr kbdgetc"

end
