(* ===== verification/Ide.thy ===== *)
theory Ide
  imports Bio
begin

text \<open>
  The IDE driver (\<^verbatim>\<open>ide.c\<close>), the disk the kernel runs on; \<^verbatim>\<open>memide.c\<close> replaces it in the memory disk
  build.  The queue of requests is the linked list the code keeps, \<open>idequeue\<close> and the \<open>qnext\<close> field
  of the buffers.  The sections under \<^verbatim>\<open>idelock\<close> are single steps.

  The controller is hardware.  What the driver writes to its ports is in \<open>ports\<close> and \<open>dreg\<close> (the data
  port), what \<^verbatim>\<open>inb(0x1f7)\<close> will return is \<open>status\<close>, and \<open>drive_done\<close> is what an ATA disk does when it
  has carried out the command in its registers.  The theorem is that the driver and a disk that
  works so do, request by request in the order of the calls, what \<^verbatim>\<open>iderw\<close> of \<^verbatim>\<open>memide.c\<close> does at once.
\<close>

declare One_nat_def [simp del]

abbreviation (input) IDE_CMD_READ :: u8 where "IDE_CMD_READ \<equiv> 0x20"
abbreviation (input) IDE_CMD_WRITE :: u8 where "IDE_CMD_WRITE \<equiv> 0x30"

record ide_st = bio_st +
  idequeue :: "nat option"
  qnext :: "nat \<Rightarrow> nat option"
  havedisk1 :: bool
  ports :: "nat \<Rightarrow> u8"
  dreg :: block
  status :: "u8 list"
  drives :: "nat \<Rightarrow> nat \<Rightarrow> block"

section \<open>The driver\<close>

fun ready :: "u8 list \<Rightarrow> (u8 \<times> u8 list) option" where
  "ready [] = None"
| "ready (r # rs) = (if r AND 0xC0 = 0x40 then Some (r, rs) else ready rs)"

definition idewait :: "bool \<Rightarrow> ('a ide_st_scheme, int) prog" where
  "idewait checkerr =
     (\<lambda>s. case ready (status s) of
        None \<Rightarrow> Spin
      | Some (r, rs) \<Rightarrow> Ret (if checkerr \<and> r AND 0x21 \<noteq> 0 then -1 else 0) (s\<lparr>status := rs\<rparr>))"

definition outb :: "nat \<Rightarrow> u32 \<Rightarrow> ('a ide_st_scheme, unit) prog" where
  "outb port v = modify (\<lambda>s. s\<lparr>ports := (ports s)(port := ucast v)\<rparr>)"

text \<open>\<^verbatim>\<open>ideinit\<close> looks at the next thousand status bytes at most.\<close>

definition ide_init :: "('a ide_st_scheme, unit) prog" where
  "ide_init =
     seqp (seqp (idewait False) (ret ()))
     (seqp (outb 0x1f6 (0xe0 OR push_bit 4 1))
     (seqp (modify (\<lambda>s. let n = length (takeWhile (\<lambda>r. r = 0) (take 1000 (status s))) in
              if n < min 1000 (length (status s)) then s\<lparr>havedisk1 := True, status := drop (Suc n) (status s)\<rparr>
              else s\<lparr>status := drop n (status s)\<rparr>))
      (outb 0x1f6 (0xe0 OR push_bit 4 0))))"

definition idestart :: "nat option \<Rightarrow> ('a ide_st_scheme, unit) prog" where
  "idestart bp =
     (case bp of
        None \<Rightarrow> panic ''idestart''
      | Some b \<Rightarrow>
        bnd (gets (\<lambda>s. bufs s ! b)) (\<lambda>x.
        if b_blockno x \<ge> FSSIZE then panic ''incorrect blockno''
        else
          let sector_per_block = BSIZE div 512;
              sector = of_nat (b_blockno x * sector_per_block) :: u32;
              read_cmd = (if sector_per_block = 1 then 0x20 else 0xc4) :: u32;
              write_cmd = (if sector_per_block = 1 then 0x30 else 0xc5) :: u32
          in if sector_per_block > 7 then panic ''idestart''
          else
            seqp (seqp (idewait False) (ret ()))
            (seqp (outb 0x3f6 0)
            (seqp (outb 0x1f2 (of_nat sector_per_block))
            (seqp (outb 0x1f3 (sector AND 0xff))
            (seqp (outb 0x1f4 (drop_bit 8 sector AND 0xff))
            (seqp (outb 0x1f5 (drop_bit 16 sector AND 0xff))
            (seqp (outb 0x1f6 (0xe0 OR push_bit 4 (of_nat (b_dev x) AND 1) OR (drop_bit 24 sector AND 0x0f)))
             (if b_dirty x then
                seqp (outb 0x1f7 write_cmd) (modify (\<lambda>s. s\<lparr>dreg := b_data x\<rparr>))
              else outb 0x1f7 read_cmd)))))))))"

definition ideintr :: "('a ide_st_scheme, unit) prog" where
  "ideintr =
     bnd (gets idequeue) (\<lambda>q.
     case q of
       None \<Rightarrow> ret ()
     | Some b \<Rightarrow>
         seqp (modify (\<lambda>s. s\<lparr>idequeue := qnext s b\<rparr>))
         (bnd (gets (\<lambda>s. b_dirty (bufs s ! b))) (\<lambda>d.
          seqp (if \<not> d then
                  bnd (idewait True) (\<lambda>r. whenp (r \<ge> 0) (modify (\<lambda>s. upd_buf b (\<lambda>x. x\<lparr>b_data := dreg s\<rparr>) s)))
                else ret ())
          (seqp (modify (upd_buf b (\<lambda>x. x\<lparr>b_valid := True\<rparr>)))
          (seqp (modify (upd_buf b (\<lambda>x. x\<lparr>b_dirty := False\<rparr>)))
          (seqp (wakeup (ChanBuf b))
          (bnd (gets idequeue) (\<lambda>q. whenp (q \<noteq> None) (idestart q)))))))))"

text \<open>
  The walk to the end of the queue; \<open>None\<close> is a walk that has not ended after as many links as there
  are buffers.
\<close>

fun ide_last :: "(nat \<Rightarrow> nat option) \<Rightarrow> nat \<Rightarrow> nat \<Rightarrow> nat option" where
  "ide_last next 0 b = None"
| "ide_last next (Suc n) b = (case next b of None \<Rightarrow> Some b | Some c \<Rightarrow> ide_last next n c)"

definition ide_append :: "nat \<Rightarrow> ('a ide_st_scheme, unit) prog" where
  "ide_append b =
     seqp (modify (\<lambda>s. s\<lparr>qnext := (qnext s)(b := None)\<rparr>))
     (bnd (gets idequeue) (\<lambda>q.
      case q of
        None \<Rightarrow> modify (\<lambda>s. s\<lparr>idequeue := Some b\<rparr>)
      | Some h \<Rightarrow>
          bnd (gets (\<lambda>s. ide_last (qnext s) NBUF h)) (\<lambda>l.
          case l of
            None \<Rightarrow> (\<lambda>s. Spin)
          | Some l \<Rightarrow> modify (\<lambda>s. s\<lparr>qnext := (qnext s)(l := Some b)\<rparr>))))"

text \<open>The loop around \<^verbatim>\<open>sleep\<close>; a call that slept resumes with this test.\<close>

definition ide_wait :: "nat \<Rightarrow> ('a ide_st_scheme, unit) prog" where
  "ide_wait b =
     bnd (gets (\<lambda>s. bufs s ! b)) (\<lambda>x.
     if b_valid x \<and> \<not> b_dirty x then ret () else sleep (ChanBuf b))"

definition ide_rw :: "nat \<Rightarrow> ('a ide_st_scheme, unit) prog" where
  "ide_rw b =
     bnd (holdingsleep (get_buflock b)) (\<lambda>h.
     if \<not> h then panic ''iderw: buf not locked''
     else
     bnd (gets (\<lambda>s. bufs s ! b)) (\<lambda>x.
     bnd (gets havedisk1) (\<lambda>d.
     if b_valid x \<and> \<not> b_dirty x then panic ''iderw: nothing to do''
     else if b_dev x \<noteq> 0 \<and> \<not> d then panic ''iderw: ide disk 1 not present''
     else
       seqp (ide_append b)
       (seqp (bnd (gets idequeue) (\<lambda>q. whenp (q = Some b) (idestart q)))
        (ide_wait b)))))"

section \<open>The disk\<close>

text \<open>The request in the registers of the controller.\<close>

definition req_drive :: "(nat \<Rightarrow> u8) \<Rightarrow> nat" where
  "req_drive p = unat (drop_bit 4 (p 0x1f6) AND 1)"

definition req_sector :: "(nat \<Rightarrow> u8) \<Rightarrow> nat" where
  "req_sector p = unat (p 0x1f3) + 2 ^ 8 * unat (p 0x1f4) + 2 ^ 16 * unat (p 0x1f5) + 2 ^ 24 * unat (p 0x1f6 AND 0x0f)"

definition drive_done :: "'a ide_st_scheme \<Rightarrow> 'a ide_st_scheme" where
  "drive_done s =
     (let d = req_drive (ports s); n = req_sector (ports s) in
      if ports s 0x1f2 \<noteq> 1 then s
      else if ports s 0x1f7 = IDE_CMD_WRITE then s\<lparr>drives := (drives s)(d := (drives s d)(n := dreg s))\<rparr>
      else if ports s 0x1f7 = IDE_CMD_READ then s\<lparr>dreg := drives s d n\<rparr>
      else s)"

text \<open>What a request does in one step: the effect of \<^verbatim>\<open>iderw\<close> of \<^verbatim>\<open>memide.c\<close>, on the disk the buffer names.\<close>

definition sync :: "nat \<Rightarrow> buf list \<times> (nat \<Rightarrow> nat \<Rightarrow> block) \<Rightarrow> buf list \<times> (nat \<Rightarrow> nat \<Rightarrow> block)" where
  "sync b a =
     (let x = fst a ! b; d = b_dev x; n = b_blockno x in
      if b_dirty x then ((fst a)[b := x\<lparr>b_dirty := False, b_valid := True\<rparr>], (snd a)(d := (snd a d)(n := b_data x)))
      else ((fst a)[b := x\<lparr>b_data := snd a d n, b_valid := True\<rparr>], snd a))"

lemma memide_sync:
  assumes "iderw b s = Ret () s'" "\<forall>n. dr 1 n = disk s n" "b < length (bufs s)"
  shows "bufs s' = fst (sync b (bufs s, dr)) \<and> disk s' = snd (sync b (bufs s, dr)) 1"
  using assms
  by (auto simp: iderw_def bnd_eq_Ret seqp_def gets_def modify_def panic_def ret_def holdingsleep_def myproc_def deref_def
      sync_def Let_def upd_buf_def fun_eq_iff split: if_splits option.splits)

section \<open>A request in the registers\<close>

definition request_of :: "'a ide_st_scheme \<Rightarrow> nat \<Rightarrow> bool" where
  "request_of s b \<longleftrightarrow> (let x = bufs s ! b in
     req_drive (ports s) = b_dev x \<and> req_sector (ports s) = b_blockno x \<and> ports s 0x1f2 = 1
     \<and> ports s 0x1f7 = (if b_dirty x then IDE_CMD_WRITE else IDE_CMD_READ) \<and> (b_dirty x \<longrightarrow> dreg s = b_data x))"

lemma unat_sector_bytes:
  assumes "n < 1000"
  shows "unat (ucast ((of_nat n :: u32) AND 0xff) :: u8) = n mod 256"
    "unat (ucast (drop_bit 8 (of_nat n :: u32) AND 0xff) :: u8) = n div 256"
    "drop_bit 16 (of_nat n :: u32) = 0" "drop_bit 24 (of_nat n :: u32) = 0"
proof -
  have n: "unat (of_nat n :: u32) = n" using assms by (simp add: unsigned_of_nat take_bit_nat_eq_self)
  have m: "(w :: u32) AND 0xff = take_bit 8 w" for w by (simp add: take_bit_eq_mask mask_eq_exp_minus_1)
  have t: "unat (ucast (take_bit 8 w) :: u8) = unat w mod 256" for w :: u32
    unfolding unsigned_ucast_eq unsigned_take_bit_eq by (simp add: take_bit_eq_mod)
  show "unat (ucast ((of_nat n :: u32) AND 0xff) :: u8) = n mod 256" unfolding m t n ..
  have "unat (drop_bit 8 (of_nat n :: u32)) = n div 256" using assms unfolding unsigned_drop_bit_eq n by (simp add: drop_bit_eq_div take_bit_nat_eq_self)
  then show "unat (ucast (drop_bit 8 (of_nat n :: u32) AND 0xff) :: u8) = n div 256" unfolding m t using assms by simp
  show "drop_bit 16 (of_nat n :: u32) = 0" "drop_bit 24 (of_nat n :: u32) = 0"
    using assms unfolding word_unat_eq_iff unsigned_drop_bit_eq n by (simp_all add: drop_bit_eq_div take_bit_nat_eq_self)
qed

lemma idestart_spec:
  fixes s :: "'a ide_st_scheme"
  assumes "b_blockno (bufs s ! b) < 1000" "b_dev (bufs s ! b) \<le> 1" "ready (status s) = Some (r, rs)"
  shows "\<exists>p d. idestart (Some b) s = Ret () (s\<lparr>status := rs, ports := p, dreg := d\<rparr>) \<and> request_of (s\<lparr>status := rs, ports := p, dreg := d\<rparr>) b"
proof -
  let ?x = "bufs s ! b"
  note u = unat_sector_bytes [OF assms(1)]
  define p where "p = (ports s)(0x3f6 := 0, 0x1f2 := 1, 0x1f3 := ucast ((of_nat (b_blockno ?x) :: u32) AND 0xff),
     0x1f4 := ucast (drop_bit 8 (of_nat (b_blockno ?x) :: u32) AND 0xff), 0x1f5 := 0,
     0x1f6 := ucast (0xe0 OR push_bit 4 (of_nat (b_dev ?x) AND 1) :: u32), 0x1f7 := (if b_dirty ?x then 0x30 else 0x20 :: u8))"
  define d where "d = (if b_dirty ?x then b_data ?x else dreg s)"
  have "\<not> b_blockno ?x \<ge> 1000" using assms(1) by simp
  then have "idestart (Some b) s = Ret () (s\<lparr>status := rs, ports := p, dreg := d\<rparr>)"
    using assms(3) by (simp add: idestart_def Let_def idewait_def outb_def bnd_def seqp_def gets_def modify_def ret_def p_def d_def u(3,4))
  moreover have "request_of (s\<lparr>status := rs, ports := p, dreg := d\<rparr>) b"
  proof -
    have v: "b_dev ?x = 0 \<or> b_dev ?x = 1" using assms(2) by auto
    then have dr: "req_drive p = b_dev ?x" "p 0x1f6 AND 0x0f = 0" by (auto simp: req_drive_def p_def One_nat_def)
    have "req_sector p = b_blockno ?x mod 256 + 256 * (b_blockno ?x div 256)"
      using dr(2) u(1,2) by (simp add: req_sector_def) (simp add: p_def)
    then show ?thesis using dr(1) by (simp add: request_of_def p_def d_def)
  qed
  ultimately show ?thesis by blast
qed

section \<open>The queue\<close>

fun qlist :: "(nat \<Rightarrow> nat option) \<Rightarrow> nat option \<Rightarrow> nat list \<Rightarrow> bool" where
  "qlist next h [] \<longleftrightarrow> h = None"
| "qlist next h (b # q) \<longleftrightarrow> h = Some b \<and> qlist next (next b) q"

lemma qlist_cong: "(\<And>c. c \<in> set q \<Longrightarrow> next' c = next c) \<Longrightarrow> qlist next' h q = qlist next h q"
  by (induction q arbitrary: h) auto

lemma qlist_last:
  assumes "qlist next (Some h) q" "length q \<le> n"
  shows "ide_last next n h = Some (last q)"
  using assms
proof (induction q arbitrary: h n)
  case (Cons b q)
  obtain m where n: "n = Suc m" using Cons.prems(2) by (cases n) auto
  show ?case
  proof (cases q)
    case Nil
    then show ?thesis using Cons n by simp
  next
    case (Cons c q')
    then show ?thesis using Cons.IH [of c m] Cons.prems n by simp
  qed
qed simp

lemma qlist_snoc:
  assumes "qlist next h q" "distinct q" "b \<notin> set q" "next b = None" "q \<noteq> []"
  shows "qlist (next(last q := Some b)) h (q @ [b])"
  using assms
proof (induction q arbitrary: h)
  case (Cons c q)
  show ?case
  proof (cases "q = []")
    case False
    then have "c \<noteq> last q" using Cons.prems(2) by auto
    then show ?thesis using Cons False by simp
  qed (use Cons.prems in simp)
qed simp

lemma ide_append_spec:
  fixes s :: "'a ide_st_scheme"
  assumes Q: "qlist (qnext s) (idequeue s) q" "distinct q" "b \<notin> set q" "length q \<le> 30"
  shows "\<exists>h n. ide_append b s = Ret () (s\<lparr>idequeue := h, qnext := n\<rparr>) \<and> qlist n h (q @ [b]) \<and> (h = Some b \<longleftrightarrow> q = [])"
proof -
  let ?n = "(qnext s)(b := None)"
  have "qlist ?n (idequeue s) q = qlist (qnext s) (idequeue s) q" using Q(3) by (intro qlist_cong) auto
  then have n: "qlist ?n (idequeue s) q" using Q(1) by simp
  show ?thesis
  proof (cases q)
    case Nil
    then show ?thesis using Q(1) by (intro exI [of _ "Some b"] exI [of _ ?n]) (simp add: ide_append_def bnd_def seqp_def gets_def modify_def)
  next
    case (Cons c q')
    then have h: "idequeue s = Some c" "b \<noteq> c" using Q by auto
    have l: "ide_last ?n 30 c = Some (last q)" using qlist_last [of ?n c q 30] n h(1) Q(4) by simp
    have "ide_append b s = Ret () (s\<lparr>idequeue := Some c, qnext := ?n(last q := Some b)\<rparr>)"
      using h(1) l by (simp add: ide_append_def bnd_def seqp_def gets_def modify_def)
    moreover have "qlist (?n(last q := Some b)) (Some c) (q @ [b])" using qlist_snoc [OF n Q(2,3)] Cons h(1) by simp
    ultimately show ?thesis using h(2) Cons by blast
  qed
qed

section \<open>Requests are carried out in the order of the calls\<close>

definition pending :: "buf \<Rightarrow> bool" where
  "pending x \<longleftrightarrow> \<not> (b_valid x \<and> \<not> b_dirty x) \<and> b_blockno x < FSSIZE \<and> b_dev x \<le> 1"

definition ide_inv :: "'a ide_st_scheme \<Rightarrow> nat list \<Rightarrow> bool" where
  "ide_inv s q \<longleftrightarrow> qlist (qnext s) (idequeue s) q \<and> distinct q \<and> length (bufs s) = NBUF
     \<and> (\<forall>b \<in> set q. b < NBUF \<and> pending (bufs s ! b)) \<and> (q \<noteq> [] \<longrightarrow> request_of s (hd q))"

lemma queue_length: "ide_inv s q \<Longrightarrow> length q \<le> 30"
proof -
  assume "ide_inv s q"
  then have "set q \<subseteq> {..<30}" "distinct q" by (auto simp: ide_inv_def)
  then show ?thesis using card_mono [of "{..<30}" "set q"] by (simp add: distinct_card)
qed

lemma request_of_cong:
  "bufs s' ! b = bufs s ! b \<Longrightarrow> ports s' = ports s \<Longrightarrow> dreg s' = dreg s \<Longrightarrow> request_of s' b = request_of s b"
  by (simp add: request_of_def)

lemma ide_rw_spec:
  fixes s :: "'a ide_st_scheme"
  assumes I: "ide_inv s q" and b: "b < NBUF" "b \<notin> set q" "pending (bufs s ! b)" "b_dev (bufs s ! b) = 0 \<or> havedisk1 s"
    and h: "holdingsleep (get_buflock b) s = Ret True s" and r: "running s" and rdy: "ready (status s) = Some (v, vs)"
  shows "\<exists>s'. ide_rw b s = Sleep (ChanBuf b) s' \<and> ide_inv s' (q @ [b]) \<and> bufs s' = bufs s \<and> drives s' = drives s"
proof -
  have Q: "qlist (qnext s) (idequeue s) q" "distinct q" "length (bufs s) = 30" "\<forall>c \<in> set q. c < 30 \<and> pending (bufs s ! c)"
    and rq: "q \<noteq> [] \<Longrightarrow> request_of s (hd q)" using I by (auto simp: ide_inv_def)
  obtain hd' n where a: "ide_append b s = Ret () (s\<lparr>idequeue := hd', qnext := n\<rparr>)" "qlist n hd' (q @ [b])" "hd' = Some b \<longleftrightarrow> q = []"
    using ide_append_spec [OF Q(1,2) b(2) queue_length [OF I]] by blast
  obtain p where p: "curproc s = Some p" "p < length (ptable s)" using r by (auto simp: running_def split: option.splits)
  let ?s1 = "s\<lparr>idequeue := hd', qnext := n\<rparr>"
  have start: "\<exists>st ps d. bnd (gets idequeue) (\<lambda>q. whenp (q = Some b) (idestart q)) ?s1 = Ret () (?s1\<lparr>status := st, ports := ps, dreg := d\<rparr>)
      \<and> request_of (?s1\<lparr>status := st, ports := ps, dreg := d\<rparr>) (hd (q @ [b]))"
  proof (cases "q = []")
    case True
    obtain ps d where "idestart (Some b) ?s1 = Ret () (?s1\<lparr>status := vs, ports := ps, dreg := d\<rparr>)"
      and rq': "request_of (?s1\<lparr>status := vs, ports := ps, dreg := d\<rparr>) b"
      using idestart_spec [of ?s1 b v vs] b(3) rdy by (auto simp: pending_def)
    then have "bnd (gets idequeue) (\<lambda>q. whenp (q = Some b) (idestart q)) ?s1 = Ret () (?s1\<lparr>status := vs, ports := ps, dreg := d\<rparr>)"
      using a(3) True by (simp add: bnd_def gets_def whenp_def)
    then show ?thesis using rq' True by (intro exI [of _ vs] exI [of _ ps] exI [of _ d]) simp
  next
    case False
    then have "bnd (gets idequeue) (\<lambda>q. whenp (q = Some b) (idestart q)) ?s1 = Ret () (?s1\<lparr>status := status s, ports := ports s, dreg := dreg s\<rparr>)"
      using a(3) by (simp add: bnd_def gets_def whenp_def ret_def)
    moreover have "request_of (?s1\<lparr>status := status s, ports := ports s, dreg := dreg s\<rparr>) (hd q)"
      using rq [OF False] by (simp add: request_of_def)
    ultimately show ?thesis using False by (intro exI [of _ "status s"] exI [of _ "ports s"] exI [of _ "dreg s"]) simp
  qed
  then obtain st ps d where s2: "bnd (gets idequeue) (\<lambda>q. whenp (q = Some b) (idestart q)) ?s1 = Ret () (?s1\<lparr>status := st, ports := ps, dreg := d\<rparr>)"
    and rq2: "request_of (?s1\<lparr>status := st, ports := ps, dreg := d\<rparr>) (hd (q @ [b]))" by blast
  let ?s2 = "?s1\<lparr>status := st, ports := ps, dreg := d\<rparr>"
  let ?s3 = "upd_proc p (\<lambda>x. x\<lparr>p_chan := ChanBuf b, p_state := SLEEPING\<rparr>) ?s2"
  have np: "\<not> (b_valid (bufs s ! b) \<and> \<not> b_dirty (bufs s ! b))" using b(3) by (simp add: pending_def)
  have nd: "\<not> (b_dev (bufs s ! b) \<noteq> 0 \<and> \<not> havedisk1 s)" using b(4) by auto
  have "sleep (ChanBuf b) ?s2 = Sleep (ChanBuf b) ?s3" using p by (intro sleep_eq) simp_all
  then have w: "ide_wait b ?s2 = Sleep (ChanBuf b) ?s3" using np by (auto simp: ide_wait_def bnd_def gets_def)
  have "ide_rw b s = Sleep (ChanBuf b) ?s3"
    unfolding ide_rw_def bnd_def [of "holdingsleep (get_buflock b)"] h
    using np nd a(1) s2 w by (auto simp: bnd_def gets_def seqp_def)
  moreover have "request_of ?s3 (hd (q @ [b]))" using rq2 by (simp add: request_of_def upd_proc_def)
  then have "ide_inv ?s3 (q @ [b])" using a(2) Q b by (auto simp: ide_inv_def upd_proc_def)
  ultimately show ?thesis by (intro exI [of _ ?s3]) (simp add: upd_proc_def)
qed

lemma ide_restart:
  fixes s :: "'a ide_st_scheme"
  assumes "qlist (qnext s) (idequeue s) q" "distinct q" "length (bufs s) = NBUF" "\<forall>b \<in> set q. b < NBUF \<and> pending (bufs s ! b)"
    and "ready (status s) = Some (v, vs)"
  shows "\<exists>s'. bnd (gets idequeue) (\<lambda>q. whenp (q \<noteq> None) (idestart q)) s = Ret () s' \<and> ide_inv s' q
    \<and> bufs s' = bufs s \<and> drives s' = drives s \<and> ptable s' = ptable s"
proof (cases q)
  case Nil
  then have "bnd (gets idequeue) (\<lambda>q. whenp (q \<noteq> None) (idestart q)) s = Ret () s" using assms(1) by (simp add: bnd_def gets_def whenp_def ret_def)
  then show ?thesis using assms Nil by (simp add: ide_inv_def)
next
  case (Cons c q')
  obtain p d where p: "idestart (Some c) s = Ret () (s\<lparr>status := vs, ports := p, dreg := d\<rparr>)" "request_of (s\<lparr>status := vs, ports := p, dreg := d\<rparr>) c"
    using idestart_spec [of s c v vs] assms(4,5) Cons by (auto simp: pending_def)
  let ?s = "s\<lparr>status := vs, ports := p, dreg := d\<rparr>"
  have "bnd (gets idequeue) (\<lambda>q. whenp (q \<noteq> None) (idestart q)) s = Ret () ?s" using assms(1) Cons p(1) by (simp add: bnd_def gets_def whenp_def)
  moreover have "ide_inv ?s q" using assms p(2) Cons by (simp add: ide_inv_def)
  ultimately show ?thesis by (intro exI [of _ ?s]) simp
qed

text \<open>An interrupt ends the first request, and starts the next.\<close>

lemma ideintr_spec:
  fixes s :: "'a ide_st_scheme"
  assumes I: "ide_inv s (b # q)" and rdy: "ready (status s) = Some (v, vs)" "v AND 0x21 = 0" "ready vs = Some (w, us)"
  shows "\<exists>s'. ideintr (drive_done s) = Ret () s' \<and> ide_inv s' q \<and> (bufs s', drives s') = sync b (bufs s, drives s)
    \<and> ptable s' = map (wake_on (ChanBuf b)) (ptable s)"
proof -
  let ?x = "bufs s ! b"
  have Q: "idequeue s = Some b" "qlist (qnext s) (qnext s b) q" "distinct q" "b \<notin> set q" "length (bufs s) = 30" "b < 30"
    "\<forall>c \<in> set q. c < 30 \<and> pending (bufs s ! c)" and R: "request_of s b" using I by (auto simp: ide_inv_def)
  define y where "y = (if b_dirty ?x then ?x\<lparr>b_valid := True, b_dirty := False\<rparr> else ?x\<lparr>b_data := drives s (b_dev ?x) (b_blockno ?x), b_valid := True, b_dirty := False\<rparr>)"
  define s2 where "s2 = (drive_done s)\<lparr>idequeue := qnext s b, status := (if b_dirty ?x then status s else vs), bufs := (bufs s)[b := y], ptable := map (wake_on (ChanBuf b)) (ptable s)\<rparr>"
  have d: "drive_done s = (if b_dirty ?x then s\<lparr>drives := (drives s)(b_dev ?x := (drives s (b_dev ?x))(b_blockno ?x := b_data ?x))\<rparr>
      else s\<lparr>dreg := drives s (b_dev ?x) (b_blockno ?x)\<rparr>)"
    using R by (auto simp: drive_done_def request_of_def Let_def)
  have run: "ideintr (drive_done s) = bnd (gets idequeue) (\<lambda>q. whenp (q \<noteq> None) (idestart q)) s2"
    using Q(1,5,6) rdy(1,2)
    by (cases "b_dirty ?x") (simp_all add: ideintr_def d s2_def y_def prog_defs idewait_def whenp_def wakeup_def wakeup1_eq upd_buf_def)
  have pend: "\<forall>c \<in> set q. c < NBUF \<and> pending (bufs s2 ! c)" 
  proof
    fix c assume "c \<in> set q"
    moreover from this have "c \<noteq> b" using Q(4) by auto
    ultimately show "c < NBUF \<and> pending (bufs s2 ! c)" using Q(7) by (simp add: s2_def)
  qed
  have "\<exists>v vs. ready (status s2) = Some (v, vs)" using rdy by (simp add: s2_def)
  then obtain v' vs' where r2: "ready (status s2) = Some (v', vs')" by blast
  have q2: "qlist (qnext s2) (idequeue s2) q" using Q(2) by (simp add: s2_def d)
  have l2: "length (bufs s2) = NBUF" using Q(5) by (simp add: s2_def)
  obtain s' where s': "bnd (gets idequeue) (\<lambda>q. whenp (q \<noteq> None) (idestart q)) s2 = Ret () s'" "ide_inv s' q"
    "bufs s' = bufs s2" "drives s' = drives s2" "ptable s' = ptable s2"
    using ide_restart [OF q2 Q(3) l2 pend r2] by blast
  have "y = (if b_dirty ?x then ?x\<lparr>b_dirty := False, b_valid := True\<rparr> else ?x\<lparr>b_data := drives s (b_dev ?x) (b_blockno ?x), b_valid := True\<rparr>)"
    by (rule buf.equality) (auto simp: y_def)
  then have "(bufs s2, drives s2) = sync b (bufs s, drives s)" by (simp add: s2_def d sync_def Let_def)
  then show ?thesis using run s' by (intro exI [of _ s']) (simp add: s2_def)
qed

text \<open>
  The driver under any interleaving of calls, interrupts and other code.  A state is the kernel state,
  the requests not yet carried out in the order of their calls, and what the buffers and disks
  hold when each request is one step, taken at its interrupt.
\<close>

type_synonym 'a ide_run = "'a ide_st_scheme \<times> nat list \<times> (buf list \<times> (nat \<Rightarrow> nat \<Rightarrow> block))"

definition same_ide :: "'a ide_st_scheme \<Rightarrow> 'a ide_st_scheme \<Rightarrow> bool" where
  "same_ide s s' \<longleftrightarrow> bufs s' = bufs s \<and> idequeue s' = idequeue s \<and> qnext s' = qnext s \<and> ports s' = ports s \<and> dreg s' = dreg s \<and> drives s' = drives s"

inductive ide_step :: "'a ide_run \<Rightarrow> 'a ide_run \<Rightarrow> bool" where
  call: "ide_rw b s = Sleep c s' \<Longrightarrow> holdingsleep (get_buflock b) s = Ret True s \<Longrightarrow> running s \<Longrightarrow> ready (status s) \<noteq> None \<Longrightarrow>
     b < NBUF \<Longrightarrow> b \<notin> set q \<Longrightarrow> b_blockno (bufs s ! b) < FSSIZE \<Longrightarrow> b_dev (bufs s ! b) \<le> 1 \<Longrightarrow>
     ide_step (s, q, a) (s', q @ [b], a)"
| interrupt: "ideintr (drive_done s) = Ret () s' \<Longrightarrow> ready (status s) = Some (v, vs) \<Longrightarrow> v AND 0x21 = 0 \<Longrightarrow> ready vs \<noteq> None \<Longrightarrow>
     ide_step (s, b # q, a) (s', q, sync b a)"
| spurious: "ideintr s = Ret () s' \<Longrightarrow> ide_step (s, [], a) (s', [], a)"
| client: "b < NBUF \<Longrightarrow> b \<notin> set q \<Longrightarrow> ide_step (s, q, a) (s\<lparr>bufs := (bufs s)[b := x]\<rparr>, q, ((fst a)[b := x], snd a))"
| other: "same_ide s s' \<Longrightarrow> ide_step (s, q, a) (s', q, a)"

definition ide_start :: "'a ide_run \<Rightarrow> bool" where
  "ide_start r \<longleftrightarrow> (case r of (s, q, a) \<Rightarrow> idequeue s = None \<and> q = [] \<and> length (bufs s) = NBUF \<and> a = (bufs s, drives s))"

definition ide_run_inv :: "'a ide_run \<Rightarrow> bool" where
  "ide_run_inv r \<longleftrightarrow> (case r of (s, q, a) \<Rightarrow> ide_inv s q \<and> a = (bufs s, drives s))"

lemma ide_rw_panics: "ide_rw b s = Sleep c s' \<Longrightarrow> holdingsleep (get_buflock b) s = Ret True s \<Longrightarrow>
   \<not> (b_valid (bufs s ! b) \<and> \<not> b_dirty (bufs s ! b)) \<and> (b_dev (bufs s ! b) = 0 \<or> havedisk1 s)"
  by (auto simp: ide_rw_def prog_defs split: if_splits)

interpretation ide: transition_system ide_start ide_step ide_run_inv
proof
  show "ide_start r \<Longrightarrow> ide_run_inv r" for r :: "'a ide_run"
    by (auto simp: ide_start_def ide_run_inv_def ide_inv_def)
  fix r t :: "'a ide_run"
  assume I: "ide_run_inv r" and "ide_step r t"
  from this(2,1) show "ide_run_inv t"
  proof cases
    case (call b s c s' q a)
    then have "pending (bufs s ! b)" "b_dev (bufs s ! b) = 0 \<or> havedisk1 s" using ide_rw_panics by (auto simp: pending_def)
    moreover obtain v vs where "ready (status s) = Some (v, vs)" using call by auto
    ultimately obtain s'' where "ide_rw b s = Sleep (ChanBuf b) s''" "ide_inv s'' (q @ [b])" "bufs s'' = bufs s" "drives s'' = drives s"
      using ide_rw_spec [of s q b v vs] call I by (auto simp: ide_run_inv_def)
    then show ?thesis using call I by (simp add: ide_run_inv_def)
  next
    case (interrupt s s' v vs b q a)
    obtain w us where "ready vs = Some (w, us)" using interrupt by auto
    then show ?thesis using ideintr_spec [of s b q v vs w us] interrupt I by (auto simp: ide_run_inv_def)
  next
    case (spurious s s' a)
    then have "idequeue s = None" using I by (simp add: ide_run_inv_def ide_inv_def)
    then show ?thesis using spurious I by (simp add: ideintr_def prog_defs)
  next
    case (client b q s a x)
    have "ide_inv (s\<lparr>bufs := (bufs s)[b := x]\<rparr>) q"
    proof -
      have n: "(bufs s)[b := x] ! c = bufs s ! c" if "c \<in> set q" for c using that client by (cases "c = b") auto
      show ?thesis using I client n by (cases q) (auto simp: ide_run_inv_def ide_inv_def request_of_def)
    qed
    then show ?thesis using I client by (simp add: ide_run_inv_def)
  next
    case (other s s' q a)
    then show ?thesis using I by (simp add: ide_run_inv_def ide_inv_def same_ide_def request_of_def)
  qed
qed

lemma sync_done: "b < length (fst a) \<Longrightarrow> b_valid (fst (sync b a) ! b) \<and> \<not> b_dirty (fst (sync b a) ! b)"
  by (simp add: sync_def Let_def)

text \<open>
  C6. The driver carries out requests one by one in the order of the calls.  Whatever the
  interleaving of calls of \<^verbatim>\<open>iderw\<close>, disk interrupts and changes by other code to buffers that are not
  queued, the buffers and disks are as if each request were a single step, the one \<^verbatim>\<open>memide.c\<close> takes
  (\<open>memide_sync\<close>), in that order, and the linked queue holds the requests still to do.  A
  call with a valid request never panics: it queues the buffer behind the others and sleeps.  When
  the disk, reporting no error, has done the first request, the interrupt completes it, wakes
  its caller, whose test then succeeds, and starts the next.
\<close>

theorem ide_in_order:
  fixes s :: "'a ide_st_scheme"
  assumes "reach ide_start ide_step (s, q, a)"
  shows "a = (bufs s, drives s) \<and> qlist (qnext s) (idequeue s) q
    \<and> (\<forall>b. b < NBUF \<and> b \<notin> set q \<and> pending (bufs s ! b) \<and> (b_dev (bufs s ! b) = 0 \<or> havedisk1 s)
          \<and> holdingsleep (get_buflock b) s = Ret True s \<and> running s \<and> ready (status s) \<noteq> None \<longrightarrow>
        (\<exists>s'. ide_rw b s = Sleep (ChanBuf b) s' \<and> ide_step (s, q, a) (s', q @ [b], a)))
    \<and> (\<forall>b q' v vs. q = b # q' \<and> ready (status s) = Some (v, vs) \<and> v AND 0x21 = 0 \<and> ready vs \<noteq> None \<longrightarrow>
        (\<exists>s'. ideintr (drive_done s) = Ret () s' \<and> ide_step (s, q, a) (s', q', sync b a)
          \<and> ptable s' = map (wake_on (ChanBuf b)) (ptable s) \<and> ide_wait b s' = Ret () s'))"
proof -
  have I: "ide_inv s q" and a: "a = (bufs s, drives s)" using ide.reach_inv [OF assms] by (auto simp: ide_run_inv_def)
  have call: "\<exists>s'. ide_rw b s = Sleep (ChanBuf b) s' \<and> ide_step (s, q, a) (s', q @ [b], a)"
    if b: "b < NBUF" "b \<notin> set q" "pending (bufs s ! b)" "b_dev (bufs s ! b) = 0 \<or> havedisk1 s"
      "holdingsleep (get_buflock b) s = Ret True s" "running s" and r: "ready (status s) \<noteq> None" for b
  proof -
    obtain v vs where "ready (status s) = Some (v, vs)" using r by auto
    then obtain s' where s': "ide_rw b s = Sleep (ChanBuf b) s'" using ide_rw_spec [OF I b] by blast
    then show ?thesis using ide_step.call [OF s' b(5,6) r b(1,2)] b(3) by (auto simp: pending_def)
  qed
  have intr: "\<exists>s'. ideintr (drive_done s) = Ret () s' \<and> ide_step (s, q, a) (s', q', sync b a)
          \<and> ptable s' = map (wake_on (ChanBuf b)) (ptable s) \<and> ide_wait b s' = Ret () s'"
    if q: "q = b # q'" and r: "ready (status s) = Some (v, vs)" "v AND 0x21 = 0" "ready vs \<noteq> None" for b q' v vs
  proof -
    obtain w us where "ready vs = Some (w, us)" using r(3) by auto
    then obtain s' where s': "ideintr (drive_done s) = Ret () s'" "(bufs s', drives s') = sync b (bufs s, drives s)"
      "ptable s' = map (wake_on (ChanBuf b)) (ptable s)"
      using ideintr_spec [OF I [unfolded q] r(1,2)] by blast
    have "b < length (bufs s)" using I q by (auto simp: ide_inv_def)
    then have "b_valid (bufs s' ! b) \<and> \<not> b_dirty (bufs s' ! b)" using sync_done [of b "(bufs s, drives s)"] s'(2) by (metis fst_conv)
    then have "ide_wait b s' = Ret () s'" by (simp add: ide_wait_def prog_defs)
    then show ?thesis using ide_step.interrupt [OF s'(1) r] s'(1,3) q by blast
  qed
  show ?thesis using a I call intr by (simp add: ide_inv_def)
qed

definition ide_demo :: ide_st where
  "ide_demo = bio_st.extend (boot_bio\<lparr>bufs := (bufs boot_bio)[0 := zero_buf\<lparr>b_dev := 1, b_blockno := 7, b_lock := \<lparr>sl_locked = True, sl_pid = 1\<rparr>\<rparr>]\<rparr>)
     \<lparr>idequeue = None, qnext = (\<lambda>_. None), havedisk1 = True, ports = (\<lambda>_. 0), dreg = [], status = [0x40], drives = (\<lambda>d n. [of_nat d, of_nat n])\<rparr>"

theorem ide_in_order_witness:
  "\<exists>s' s''. ide_rw 0 ide_demo = Sleep (ChanBuf 0) s' \<and> ideintr (drive_done (s'\<lparr>status := [0x40, 0x40]\<rparr>)) = Ret () s''
     \<and> b_data (bufs s'' ! 0) = [1, 7] \<and> ide_wait 0 s'' = Ret () s''"
proof -
  let ?a = "(bufs ide_demo, drives ide_demo)"
  have l: "length (bufs ide_demo) = 30" "bufs ide_demo ! 0 = zero_buf\<lparr>b_dev := 1, b_blockno := 7, b_lock := \<lparr>sl_locked = True, sl_pid = 1\<rparr>\<rparr>"
    by (simp_all add: ide_demo_def boot_bio_def bio_st.defs)
  have r0: "reach ide_start ide_step (ide_demo, [], ?a)"
    using l(1) by (intro reach_init) (simp add: ide_start_def, simp add: ide_demo_def bio_st.defs)
  have h: "holdingsleep (get_buflock 0) ide_demo = Ret True ide_demo"
    by (simp add: holdingsleep_def prog_defs get_buflock_def l(2)) (simp add: ide_demo_def boot_bio_def bio_st.defs myproc_def deref_def prog_defs)
  have p: "pending (bufs ide_demo ! 0)" by (simp add: l(2) pending_def zero_buf_def)
  have d: "havedisk1 ide_demo" "ready (status ide_demo) \<noteq> None" "running ide_demo" by (simp_all add: ide_demo_def boot_bio_def bio_st.defs running_def)
  obtain s' where s': "ide_rw 0 ide_demo = Sleep (ChanBuf 0) s'" "ide_step (ide_demo, [], ?a) (s', [0], ?a)"
    using ide_in_order [OF r0, THEN conjunct2, THEN conjunct2, THEN conjunct1, rule_format, of 0] h p d by auto
  let ?s = "s'\<lparr>status := [0x40, 0x40]\<rparr>"
  have "reach ide_start ide_step (?s, [0], ?a)"
    using reach_step [OF reach_step [OF r0 s'(2)]] ide_step.other [of s' ?s] by (simp add: same_ide_def)
  then obtain s'' where s'': "ideintr (drive_done ?s) = Ret () s''" "ide_step (?s, [0], ?a) (s'', [], sync 0 ?a)" "ide_wait 0 s'' = Ret () s''"
    using ide_in_order [THEN conjunct2, THEN conjunct2, THEN conjunct2, rule_format, of ?s "[0]" ?a 0 "[]" "0x40" "[0x40]"] by auto
  have "sync 0 ?a = (bufs s'', drives s'')"
    using ide_in_order [OF reach_step [OF \<open>reach ide_start ide_step (?s, [0], ?a)\<close> s''(2)]] by simp
  then have "bufs s'' = fst (sync 0 ?a)" by simp
  also have "fst (sync 0 ?a) ! 0 = (zero_buf\<lparr>b_dev := 1, b_blockno := 7, b_lock := \<lparr>sl_locked = True, sl_pid = 1\<rparr>\<rparr>)\<lparr>b_data := [1, 7], b_valid := True\<rparr>"
    using l by (simp add: sync_def zero_buf_def) (simp add: ide_demo_def bio_st.defs)
  finally show ?thesis using s'(1) s''(1,3) by (intro exI [of _ s'] exI [of _ s'']) simp
qed

text \<open>
  An error status is not reported: the interrupt skips the transfer and marks the buffer valid all the
  same, with the data it had before.
\<close>

lemma ideintr_ignores_errors:
  assumes "idequeue s = Some b" "qnext s b = None" "b < length (bufs s)" "\<not> b_dirty (bufs s ! b)" "ready (status s) = Some (v, vs)" "v AND 0x21 \<noteq> 0"
  shows "\<exists>s'. ideintr s = Ret () s' \<and> b_valid (bufs s' ! b) \<and> b_data (bufs s' ! b) = b_data (bufs s ! b)"
  using assms by (auto simp: ideintr_def prog_defs idewait_def whenp_def wakeup_def wakeup1_eq upd_buf_def)

end
