(* ===== verification/Grep.thy ===== *)
theory Grep
  imports Prelude
begin

text \<open>
  \<^verbatim>\<open>grep.c\<close>: the regular expression matcher and the loop over the lines of a file.  A C string is the
  list of its characters before the NUL byte, so \<^verbatim>\<open>*s == 0\<close> is \<open>s = []\<close> and \<^verbatim>\<open>s+1\<close> is \<open>tl s\<close>.  The
  matcher is proved equal to a definition by regular languages, and the loop to print the matching
  lines, as long as no read ends inside the first line of the buffer.
\<close>

section \<open>The matcher\<close>

function (sequential) matchhere :: "string \<Rightarrow> string \<Rightarrow> bool"
  and matchstar :: "char \<Rightarrow> string \<Rightarrow> string \<Rightarrow> bool" where
  "matchhere re text =
     (case re of [] \<Rightarrow> True
      | r # rs \<Rightarrow>
        if rs \<noteq> [] \<and> hd rs = CHR ''*'' then matchstar r (tl rs) text
        else if r = CHR ''$'' \<and> rs = [] then text = []
        else (case text of [] \<Rightarrow> False
              | t # ts \<Rightarrow> if r = CHR ''.'' \<or> r = t then matchhere rs ts else False))"
| "matchstar c re text =
     (if matchhere re text then True
      else (case text of [] \<Rightarrow> False
            | t # ts \<Rightarrow> if t = c \<or> c = CHR ''.'' then matchstar c re ts else False))"
  by pat_completeness auto

termination
  by (relation "measures [\<lambda>x. case x of Inl (re, text) \<Rightarrow> 2 * length re | Inr (c, re, text) \<Rightarrow> 2 * length re + 1,
                          \<lambda>x. case x of Inl (re, text) \<Rightarrow> length text | Inr (c, re, text) \<Rightarrow> length text]")
     (auto simp: neq_Nil_conv)

text \<open>The loop of \<^verbatim>\<open>match\<close> tries every suffix of the text, the empty one included.\<close>

fun match_from :: "string \<Rightarrow> string \<Rightarrow> bool" where
  "match_from re text =
     (if matchhere re text then True
      else (case text of [] \<Rightarrow> False | t # ts \<Rightarrow> match_from re ts))"

definition match :: "string \<Rightarrow> string \<Rightarrow> bool" where
  "match re text =
     (if re \<noteq> [] \<and> hd re = CHR ''^'' then matchhere (tl re) text else match_from re text)"

declare matchhere.simps [simp del] matchstar.simps [simp del] match_from.simps [simp del]

section \<open>The language of a pattern\<close>

text \<open>
  The elements of a pattern, each a character and whether a star follows it, and whether the pattern
  ends with the anchor.
\<close>

fun items :: "string \<Rightarrow> (char \<times> bool) list" where
  "items [] = []"
| "items [r] = (if r = CHR ''$'' then [] else [(r, False)])"
| "items (r # x # rs) = (if x = CHR ''*'' then (r, True) # items rs else (r, False) # items (x # rs))"

fun end_anchor :: "string \<Rightarrow> bool" where
  "end_anchor [] = False"
| "end_anchor [r] = (r = CHR ''$'')"
| "end_anchor (r # x # rs) = (if x = CHR ''*'' then end_anchor rs else end_anchor (x # rs))"

definition stands_for :: "char \<Rightarrow> char \<Rightarrow> bool" where
  "stands_for c x \<longleftrightarrow> c = CHR ''.'' \<or> c = x"

definition item_lang :: "char \<times> bool \<Rightarrow> string set" where
  "item_lang i = (if snd i then {w. list_all (stands_for (fst i)) w} else {[x] | x. stands_for (fst i) x})"

fun lang :: "(char \<times> bool) list \<Rightarrow> string set" where
  "lang [] = {[]}"
| "lang (i # is) = {u @ v | u v. u \<in> item_lang i \<and> v \<in> lang is}"

text \<open>A prefix of the text is in the language; with the anchor it is the whole text.\<close>

definition here :: "(char \<times> bool) list \<Rightarrow> bool \<Rightarrow> string \<Rightarrow> bool" where
  "here is anchor text \<longleftrightarrow> (\<exists>u v. text = u @ v \<and> u \<in> lang is \<and> (anchor \<longrightarrow> v = []))"

lemma here_Nil: "here [] a text \<longleftrightarrow> (a \<longrightarrow> text = [])"
  by (auto simp: here_def)

lemma hereE:
  assumes "here (i # is) a text"
  obtains w u v where "text = w @ u @ v" "w \<in> item_lang i" "u \<in> lang is" "a \<longrightarrow> v = []"
proof -
  obtain y v where y: "text = y @ v" "y \<in> lang (i # is)" "a \<longrightarrow> v = []" using assms unfolding here_def by blast
  from y(2) obtain w u where "y = w @ u" "w \<in> item_lang i" "u \<in> lang is" by auto
  then show thesis using that [of w u v] y(1,3) by simp
qed

lemma hereI: "w \<in> item_lang i \<Longrightarrow> here is a text \<Longrightarrow> here (i # is) a (w @ text)"
  unfolding here_def
  apply (elim exE conjE)
  subgoal for u v by (intro exI [of _ "w @ u"] exI [of _ v]) auto
  done

lemma hereD: "text = u @ v \<Longrightarrow> u \<in> lang is \<Longrightarrow> a \<longrightarrow> v = [] \<Longrightarrow> here is a text"
  unfolding here_def by blast

lemma here_char: "here ((c, False) # is) a text \<longleftrightarrow> (\<exists>x ts. text = x # ts \<and> stands_for c x \<and> here is a ts)"
proof
  assume "here ((c, False) # is) a text"
  then show "\<exists>x ts. text = x # ts \<and> stands_for c x \<and> here is a ts"
  proof (rule hereE)
    fix w u v
    assume w: "text = w @ u @ v" "w \<in> item_lang (c, False)" and h: "u \<in> lang is" "a \<longrightarrow> v = []"
    show ?thesis using w hereD [OF refl h] by (auto simp: item_lang_def)
  qed
next
  assume "\<exists>x ts. text = x # ts \<and> stands_for c x \<and> here is a ts"
  then obtain x ts where x: "text = x # ts" "stands_for c x" "here is a ts" by blast
  then show "here ((c, False) # is) a text"
    using hereI [of "[x]" "(c, False)" "is" a ts] by (simp add: item_lang_def)
qed

lemma here_star:
  "here ((c, True) # is) a text \<longleftrightarrow> here is a text \<or> (\<exists>x ts. text = x # ts \<and> stands_for c x \<and> here ((c, True) # is) a ts)"
proof
  assume "here ((c, True) # is) a text"
  then show "here is a text \<or> (\<exists>x ts. text = x # ts \<and> stands_for c x \<and> here ((c, True) # is) a ts)"
  proof (rule hereE)
    fix w u v
    assume w: "text = w @ u @ v" "w \<in> item_lang (c, True)" "u \<in> lang is" "a \<longrightarrow> v = []"
    have h: "here is a (u @ v)" using w(3,4) by (intro hereD) auto
    show ?thesis
    proof (cases w)
      case Nil
      then show ?thesis using w(1) h by simp
    next
      case (Cons x xs)
      then have "here ((c, True) # is) a (xs @ u @ v)" using w(2) h by (intro hereI) (auto simp: item_lang_def)
      then show ?thesis using w(1,2) Cons by (simp add: item_lang_def)
    qed
  qed
next
  assume "here is a text \<or> (\<exists>x ts. text = x # ts \<and> stands_for c x \<and> here ((c, True) # is) a ts)"
  then show "here ((c, True) # is) a text"
  proof (elim disjE exE conjE)
    assume "here is a text"
    then show ?thesis using hereI [of "[]" "(c, True)"] by (simp add: item_lang_def)
  next
    fix x ts
    assume x: "text = x # ts" "stands_for c x" "here ((c, True) # is) a ts"
    from x(3) show ?thesis
    proof (rule hereE)
      fix w u v
      assume "ts = w @ u @ v" "w \<in> item_lang (c, True)" "u \<in> lang is" "a \<longrightarrow> v = []"
      then show ?thesis using hereI [of "x # w" "(c, True)" "is" a "u @ v"] hereD [of "u @ v" u v "is" a] x(1,2)
        by (simp add: item_lang_def)
    qed
  qed
qed

lemma matchhere_here:
  "matchhere re text \<longleftrightarrow> here (items re) (end_anchor re) text"
  "matchstar c re text \<longleftrightarrow> here ((c, True) # items re) (end_anchor re) text"
proof (induction re "text" and c re "text" rule: matchhere_matchstar.induct)
  case (1 re "text")
  show ?case
  proof (cases re)
    case Nil
    then show ?thesis by (simp add: matchhere.simps here_Nil)
  next
    case (Cons r rs)
    show ?thesis
    proof (cases "rs \<noteq> [] \<and> hd rs = CHR ''*''")
      case True
      then obtain rs' where "rs = CHR ''*'' # rs'" by (cases rs) auto
      then show ?thesis using 1(1) [OF Cons True] Cons by (simp add: matchhere.simps)
    next
      case star: False
      show ?thesis
      proof (cases "r = CHR ''$'' \<and> rs = []")
        case True
        then show ?thesis using Cons by (simp add: matchhere.simps here_Nil)
      next
        case False
        then have i: "items re = (r, False) # items rs" "end_anchor re = end_anchor rs" using star Cons by (cases rs; auto)+
        show ?thesis
        proof (cases "text")
          case Nil
          then show ?thesis using Cons star False i by (auto simp: matchhere.simps here_char)
        next
          case (Cons u us)
          have "matchhere re text = (if r = CHR ''.'' \<or> r = u then matchhere rs us else False)"
            unfolding matchhere.simps [of re "text"] using \<open>re = r # rs\<close> star False Cons by auto
          then show ?thesis using 1(2) [OF \<open>re = r # rs\<close> star False Cons] i Cons
            by (auto simp: here_char stands_for_def)
        qed
      qed
    qed
  qed
next
  case (2 c re "text")
  show ?case
  proof (cases "matchhere re text")
    case True
    then show ?thesis using 2(1) by (simp add: matchstar.simps [of c re "text"] here_star [of c "items re" _ "text"])
  next
    case False
    then show ?thesis using 2 unfolding matchstar.simps [of c re "text"] here_star [of c "items re" _ "text"]
      by (cases "text") (auto simp: stands_for_def)
  qed
qed

text \<open>
  C16. \<^verbatim>\<open>match\<close> decides the regular language of its pattern: a pattern that starts with the anchor
  matches at the start of the text, any other at some position, and there a prefix of the text (up
  to the end of it when the pattern ends in a dollar sign) is in the language of the elements.  The
  recursion of \<^verbatim>\<open>matchhere\<close> and \<^verbatim>\<open>matchstar\<close> ends on every pattern and text.
\<close>

theorem match_regular:
  "match re text \<longleftrightarrow>
     (if \<exists>re'. re = CHR ''^'' # re' then here (items (tl re)) (end_anchor (tl re)) text
      else \<exists>w rest. text = w @ rest \<and> here (items re) (end_anchor re) rest)"
proof -
  have from_iff: "match_from re text \<longleftrightarrow> (\<exists>w rest. text = w @ rest \<and> here (items re) (end_anchor re) rest)" for "text"
  proof (induction "text")
    case Nil
    show ?case by (simp add: match_from.simps [of re "[]"] matchhere_here)
  next
    case (Cons x xs)
    have "match_from re (x # xs) \<longleftrightarrow> here (items re) (end_anchor re) (x # xs) \<or> match_from re xs"
      by (simp add: match_from.simps [of re "x # xs"] matchhere_here)
    also have "\<dots> \<longleftrightarrow> (\<exists>w rest. x # xs = w @ rest \<and> here (items re) (end_anchor re) rest)"
      unfolding Cons.IH by (auto simp: Cons_eq_append_conv) 
    finally show ?case .
  qed
  have "(\<exists>re'. re = CHR ''^'' # re') \<longleftrightarrow> re \<noteq> [] \<and> hd re = CHR ''^''" by (cases re) auto
  then show ?thesis by (simp only: match_def from_iff matchhere_here)
qed

section \<open>The loop over the input\<close>

text \<open>
  The lines of the buffer: \<^verbatim>\<open>p\<close> is the rest of the buffer, the result what is written and the rest
  without a newline before its first NUL byte.
\<close>

function grep_lines :: "string \<Rightarrow> string \<Rightarrow> string \<times> string" where
  "grep_lines pattern p =
     (if CHR 0x0A \<in> set (takeWhile (\<lambda>c. c \<noteq> CHR 0x00) p) then
        let l = takeWhile (\<lambda>c. c \<noteq> CHR 0x0A) p;
            (out, rest) = grep_lines pattern (drop (Suc (length l)) p)
        in ((if match pattern l then l @ [CHR 0x0A] else []) @ out, rest)
      else ([], p))"
  by pat_completeness auto

termination
proof (relation "measure (\<lambda>(pattern, p). length p)", goal_cases)
  case (2 pattern p x)
  then have "p \<noteq> []" by auto
  then show ?case by simp
qed simp

declare grep_lines.simps [simp del]

text \<open>
  \<^verbatim>\<open>grep\<close> on what the successive calls of \<^verbatim>\<open>read\<close> return; the loop ends with the first that returns
  nothing.  \<open>b\<close> is the part of the buffer that holds bytes, \<^verbatim>\<open>m\<close> its length.
\<close>

fun grep :: "string \<Rightarrow> string \<Rightarrow> string list \<Rightarrow> string" where
  "grep pattern b [] = []"
| "grep pattern b (c # cs) =
     (if c = [] then []
      else
        let (out, p) = grep_lines pattern (b @ c)
        in out @ grep pattern (if length p = length (b @ c) then [] else p) cs)"

text \<open>The complete lines of a text.\<close>

fun lines_from :: "string \<Rightarrow> string \<Rightarrow> string list" where
  "lines_from l [] = []"
| "lines_from l (x # xs) = (if x = CHR 0x0A then l # lines_from [] xs else lines_from (l @ [x]) xs)"

definition printed :: "string \<Rightarrow> string list \<Rightarrow> string" where
  "printed pattern ls = concat (map (\<lambda>l. l @ [CHR 0x0A]) (filter (match pattern) ls))"

lemma lines_from_append: "CHR 0x0A \<notin> set b \<Longrightarrow> lines_from l (b @ s) = lines_from (l @ b) s"
  by (induction b arbitrary: l) auto

lemma grep_lines_none: "CHR 0x0A \<notin> set p \<Longrightarrow> grep_lines pattern p = ([], p)"
  by (subst grep_lines.simps) (auto dest: set_takeWhileD)

lemma grep_lines_line:
  assumes "CHR 0x00 \<notin> set (l @ r)" "CHR 0x0A \<notin> set l" "grep_lines pattern r = (out, rest)"
  shows "grep_lines pattern (l @ CHR 0x0A # r) = ((if match pattern l then l @ [CHR 0x0A] else []) @ out, rest)"
proof -
  have "takeWhile (\<lambda>c. c \<noteq> CHR 0x00) (l @ CHR 0x0A # r) = l @ CHR 0x0A # r" using assms(1) by (intro takeWhile_eq_all_conv [THEN iffD2]) auto
  moreover have "\<forall>x \<in> set l. x \<noteq> CHR 0x0A" using assms(2) by blast
  then have "takeWhile (\<lambda>c. c \<noteq> CHR 0x0A) (l @ CHR 0x0A # r) = l" by (simp add: takeWhile_append)
  ultimately show ?thesis using assms(3) by (subst grep_lines.simps) simp
qed

lemma grep_lines_printed:
  assumes "CHR 0x00 \<notin> set p"
  obtains rest where "grep_lines pattern p = (printed pattern (lines_from [] p), rest)" "CHR 0x0A \<notin> set rest" "set rest \<subseteq> set p"
    "\<And>s. lines_from [] (p @ s) = lines_from [] p @ lines_from [] (rest @ s)" "CHR 0x0A \<in> set p \<Longrightarrow> length rest < length p"
proof -
  have "\<exists>rest. grep_lines pattern p = (printed pattern (lines_from [] p), rest) \<and> CHR 0x0A \<notin> set rest \<and> set rest \<subseteq> set p
    \<and> (\<forall>s. lines_from [] (p @ s) = lines_from [] p @ lines_from [] (rest @ s)) \<and> (CHR 0x0A \<in> set p \<longrightarrow> length rest < length p)"
    using assms
  proof (induction "length p" arbitrary: p rule: less_induct)
    case less
    show ?case
    proof (cases "CHR 0x0A \<in> set p")
      case False
      then have "lines_from [] p = []" using lines_from_append [of p "[]" "[]"] by simp
      then show ?thesis using False grep_lines_none [OF False] by (simp add: printed_def)
    next
      case True
      obtain l r where p: "p = l @ CHR 0x0A # r" "CHR 0x0A \<notin> set l" using split_list_first [OF True] by blast
      have nz: "CHR 0x00 \<notin> set (l @ r)" "CHR 0x00 \<notin> set r" using less.prems p(1) by auto
      obtain rest where R: "grep_lines pattern r = (printed pattern (lines_from [] r), rest)" "CHR 0x0A \<notin> set rest" "set rest \<subseteq> set r"
        "\<forall>s. lines_from [] (r @ s) = lines_from [] r @ lines_from [] (rest @ s)" "CHR 0x0A \<in> set r \<longrightarrow> length rest < length r"
        using less.hyps [of r] nz(2) p by auto
      have ll: "lines_from [] (p @ s) = l # lines_from [] (r @ s)" for s
        using p lines_from_append [OF p(2), of "[]" "CHR 0x0A # r @ s"] by simp
      have ll0: "lines_from [] p = l # lines_from [] r" using ll [of "[]"] by simp
      have g: "grep_lines pattern p = (printed pattern (lines_from [] p), rest)"
        using grep_lines_line [OF nz(1) p(2) R(1)] p(1) ll0 by (simp add: printed_def)
      have len: "length rest < length p"
        using R(1,5) grep_lines_none [of r pattern] p(1) by (cases "CHR 0x0A \<in> set r") auto
      have "\<forall>s. lines_from [] (p @ s) = lines_from [] p @ lines_from [] (rest @ s)" using R(4) ll ll0 by simp
      moreover have "set rest \<subseteq> set p" using R(3) p(1) by auto
      ultimately show ?thesis using g R(2) len by blast
    qed
  qed
  then show thesis using that by blast
qed

text \<open>
  C38. \<^verbatim>\<open>grep\<close> writes exactly the lines of its input that match, in order, when no read returns a part
  of a line only.  (The buffer is emptied after a read without a newline, so that otherwise the
  start of a line is lost; \<open>grep_loses_partial_line\<close>.)
\<close>

theorem grep_prints_matching_lines:
  assumes "\<forall>c \<in> set cs. CHR 0x0A \<in> set c \<and> CHR 0x00 \<notin> set c"
  shows "grep pattern [] cs = printed pattern (lines_from [] (concat cs))"
proof -
  have "grep pattern b cs = printed pattern (lines_from [] (b @ concat cs))" if "CHR 0x0A \<notin> set b" "CHR 0x00 \<notin> set b" for b
    using that assms
  proof (induction cs arbitrary: b)
    case Nil
    then show ?case using lines_from_append [of b "[]" "[]"] by (simp add: printed_def)
  next
    case (Cons c cs)
    have c: "CHR 0x0A \<in> set (b @ c)" "CHR 0x00 \<notin> set (b @ c)" "c \<noteq> []" using Cons.prems by auto
    obtain rest where R: "grep_lines pattern (b @ c) = (printed pattern (lines_from [] (b @ c)), rest)" "CHR 0x0A \<notin> set rest" "set rest \<subseteq> set (b @ c)"
      "\<And>s. lines_from [] ((b @ c) @ s) = lines_from [] (b @ c) @ lines_from [] (rest @ s)" "length rest < length (b @ c)"
      using grep_lines_printed [OF c(2), of pattern] c(1) by metis
    have "grep pattern rest cs = printed pattern (lines_from [] (rest @ concat cs))"
      using Cons.prems R(2,3) c(2) by (intro Cons.IH) auto
    then show ?case using R(1,5) R(4) [of "concat cs"] c(3) by (simp add: printed_def)
  qed
  then show ?thesis by simp
qed

theorem grep_prints_matching_lines_witness:
  "grep ''b*c$'' [] [''abc'' @ [CHR 0x0A] @ ''x'', ''yz'' @ [CHR 0x0A] @ ''c'' @ [CHR 0x0A]]
    = printed ''b*c$'' [''abc'', ''xyz'', ''c'']"
  using grep_prints_matching_lines [of "[''abc'' @ [CHR 0x0A] @ ''x'', ''yz'' @ [CHR 0x0A] @ ''c'' @ [CHR 0x0A]]" "''b*c$''"] by simp

lemma grep_loses_partial_line:
  "grep ''^c'' [] [''ab'', ''c'' @ [CHR 0x0A]] = ''c'' @ [CHR 0x0A] \<and> \<not> match ''^c'' ''abc''"
  by (simp add: grep_lines.simps match_def matchhere.simps)

end
