(* ===== verification/Sh.thy ===== *)
theory Sh
  imports Prelude
begin

text \<open>
  The shell (\<^verbatim>\<open>sh.c\<close>).  The command line is the list \<open>b\<close> of the characters before the NUL byte;
  a \<^verbatim>\<open>char*\<close> into it is an offset, \<^verbatim>\<open>es\<close> is its length, and the variable \<^verbatim>\<open>*ps\<close> that the parsers pass
  around is the state of their programs.  \<^verbatim>\<open>panic\<close> of the shell is the outcome \<open>Panic\<close>.  The parsers
  take fuel, one unit per call or loop round, and are \<open>Spin\<close> without; the lemmas show that the fuel
  \<^verbatim>\<open>parsecmd\<close> gives them is never used up.  \<^verbatim>\<open>malloc\<close> of a node is the constructor of the tree.

  \<^verbatim>\<open>runcmd\<close> makes system calls and forks; it is the tree of the calls it makes, branching on what the
  kernel answers.
\<close>

section \<open>Tokens\<close>

definition whitespace :: string where
  "whitespace = [CHR 0x20, CHR 0x09, CHR 0x0D, CHR 0x0A, CHR 0x0B]"

definition symbols :: string where
  "symbols = ''<|>&;()''"

definition blank :: "char \<Rightarrow> bool" where
  "blank c \<longleftrightarrow> c \<in> set whitespace"

definition wordch :: "char \<Rightarrow> bool" where
  "wordch c \<longleftrightarrow> c \<notin> set whitespace \<and> c \<notin> set symbols"

text \<open>The character a pointer points to; the byte at \<^verbatim>\<open>es\<close> is NUL.\<close>

definition char_at :: "string \<Rightarrow> nat \<Rightarrow> char" where
  "char_at b s = (if s < length b then b ! s else CHR 0x00)"

text \<open>The loop \<^verbatim>\<open>while(s < es && P(*s)) s++\<close>.\<close>

function scan :: "(char \<Rightarrow> bool) \<Rightarrow> string \<Rightarrow> nat \<Rightarrow> nat" where
  "scan P b s = (if s < length b \<and> P (b ! s) then scan P b (Suc s) else s)"
  by pat_completeness auto

termination
  by (relation "measure (\<lambda>(P, b, s). length b - s)") auto

declare scan.simps [simp del]

definition gettoken :: "string \<Rightarrow> (nat, char \<times> nat \<times> nat) prog" where
  "gettoken b =
     bnd (gets (\<lambda>ps. ps)) (\<lambda>ps.
     let s = scan blank b ps; c = char_at b s;
         (r, e) =
           (if c = CHR 0x00 then (c, s)
            else if c \<in> set ''|();&<'' then (c, Suc s)
            else if c = CHR ''>'' then
              (if char_at b (Suc s) = CHR ''>'' then (CHR ''+'', Suc (Suc s)) else (c, Suc s))
            else (CHR ''a'', scan wordch b s))
     in seqp (modify (\<lambda>_. scan blank b e)) (ret (r, s, e)))"

definition peek :: "string \<Rightarrow> string \<Rightarrow> (nat, bool) prog" where
  "peek b toks =
     bnd (gets (\<lambda>ps. ps)) (\<lambda>ps.
     let s = scan blank b ps in
     seqp (modify (\<lambda>_. s)) (ret (char_at b s \<noteq> CHR 0x00 \<and> char_at b s \<in> set toks)))"

section \<open>Commands\<close>

text \<open>
  \<^verbatim>\<open>struct cmd\<close> and its variants.  A word is a pair of pointers, \<^verbatim>\<open>argv[i]\<close> and \<^verbatim>\<open>eargv[i]\<close> or
  \<^verbatim>\<open>file\<close> and \<^verbatim>\<open>efile\<close>, in what the parser builds, and a string in what it means.
\<close>

datatype 'w cmd =
    EXEC "'w list"
  | REDIR "'w cmd" 'w nat nat
  | PIPE "'w cmd" "'w cmd"
  | LIST "'w cmd" "'w cmd"
  | BACK "'w cmd"

type_synonym word_at = "nat \<times> nat"

text \<open>\<^verbatim>\<open>cmd->argv[argc] = q\<close> of \<^verbatim>\<open>parseexec\<close>: \<^verbatim>\<open>cmd\<close> points to the exec node inside the redirections \<^verbatim>\<open>ret\<close>.\<close>

fun add_arg :: "'w cmd \<Rightarrow> 'w \<Rightarrow> 'w cmd" where
  "add_arg (EXEC args) w = EXEC (args @ [w])"
| "add_arg (REDIR c f mode fd) w = REDIR (add_arg c w) f mode fd"
| "add_arg c w = c"

abbreviation (input) O_RDONLY :: nat where "O_RDONLY \<equiv> 0"
abbreviation (input) O_WRONLY_CREATE :: nat where "O_WRONLY_CREATE \<equiv> 0x201"
abbreviation (input) MAXARGS :: nat where "MAXARGS \<equiv> 10"

section \<open>The parser\<close>

fun parseredirs :: "string \<Rightarrow> nat \<Rightarrow> word_at cmd \<Rightarrow> (nat, word_at cmd) prog" where
  "parseredirs b 0 cmd = (\<lambda>s. Spin)"
| "parseredirs b (Suc n) cmd =
     bnd (peek b ''<>'') (\<lambda>p.
     if \<not> p then ret cmd
     else
       bnd (gettoken b) (\<lambda>(tok, _, _).
       bnd (gettoken b) (\<lambda>(t, q, eq).
       if t \<noteq> CHR ''a'' then panic ''missing file for redirection''
       else
         parseredirs b n
           (if tok = CHR ''<'' then REDIR cmd (q, eq) O_RDONLY 0
            else if tok = CHR ''>'' then REDIR cmd (q, eq) O_WRONLY_CREATE 1
            else if tok = CHR ''+'' then REDIR cmd (q, eq) O_WRONLY_CREATE 1
            else cmd))))"

fun parseargs :: "string \<Rightarrow> nat \<Rightarrow> nat \<Rightarrow> word_at cmd \<Rightarrow> (nat, word_at cmd) prog" where
  "parseargs b 0 argc r = (\<lambda>s. Spin)"
| "parseargs b (Suc n) argc r =
     bnd (peek b ''|)&;'') (\<lambda>p.
     if p then ret r
     else
       bnd (gettoken b) (\<lambda>(tok, q, eq).
       if tok = CHR 0x00 then ret r
       else if tok \<noteq> CHR ''a'' then panic ''syntax''
       else if Suc argc \<ge> MAXARGS then panic ''too many args''
       else bnd (parseredirs b n (add_arg r (q, eq))) (parseargs b n (Suc argc))))"

fun parseback :: "string \<Rightarrow> nat \<Rightarrow> word_at cmd \<Rightarrow> (nat, word_at cmd) prog" where
  "parseback b 0 cmd = (\<lambda>s. Spin)"
| "parseback b (Suc n) cmd =
     bnd (peek b ''&'') (\<lambda>p. if p then seqp (gettoken b) (parseback b n (BACK cmd)) else ret cmd)"

fun parseline :: "string \<Rightarrow> nat \<Rightarrow> (nat, word_at cmd) prog"
  and parsepipe :: "string \<Rightarrow> nat \<Rightarrow> (nat, word_at cmd) prog"
  and parseblock :: "string \<Rightarrow> nat \<Rightarrow> (nat, word_at cmd) prog"
  and parseexec :: "string \<Rightarrow> nat \<Rightarrow> (nat, word_at cmd) prog" where
  "parseline b 0 = (\<lambda>s. Spin)"
| "parseline b (Suc n) =
     bnd (parsepipe b n) (\<lambda>cmd.
     bnd (parseback b n cmd) (\<lambda>cmd.
     bnd (peek b '';'') (\<lambda>p.
     if p then seqp (gettoken b) (bnd (parseline b n) (\<lambda>r. ret (LIST cmd r)))
     else ret cmd)))"
| "parsepipe b 0 = (\<lambda>s. Spin)"
| "parsepipe b (Suc n) =
     bnd (parseexec b n) (\<lambda>cmd.
     bnd (peek b ''|'') (\<lambda>p.
     if p then seqp (gettoken b) (bnd (parsepipe b n) (\<lambda>r. ret (PIPE cmd r)))
     else ret cmd))"
| "parseblock b 0 = (\<lambda>s. Spin)"
| "parseblock b (Suc n) =
     bnd (peek b ''('') (\<lambda>p.
     if \<not> p then panic ''parseblock''
     else
       seqp (gettoken b)
       (bnd (parseline b n) (\<lambda>cmd.
        bnd (peek b '')'') (\<lambda>p.
        if \<not> p then panic ''syntax - missing )''
        else seqp (gettoken b) (parseredirs b n cmd)))))"
| "parseexec b 0 = (\<lambda>s. Spin)"
| "parseexec b (Suc n) =
     bnd (peek b ''('') (\<lambda>p.
     if p then parseblock b n
     else bnd (parseredirs b n (EXEC [])) (parseargs b n 0))"

text \<open>\<open>buf\<close> is the whole buffer, with the byte at \<^verbatim>\<open>es\<close>.\<close>

fun nulterminate :: "word_at cmd \<Rightarrow> string \<Rightarrow> string" where
  "nulterminate (EXEC args) buf = foldl (\<lambda>buf w. buf[snd w := CHR 0x00]) buf args"
| "nulterminate (REDIR c f mode fd) buf = (nulterminate c buf)[snd f := CHR 0x00]"
| "nulterminate (PIPE l r) buf = nulterminate r (nulterminate l buf)"
| "nulterminate (LIST l r) buf = nulterminate r (nulterminate l buf)"
| "nulterminate (BACK c) buf = nulterminate c buf"

definition parsecmd :: "string \<Rightarrow> (nat, word_at cmd \<times> string) prog" where
  "parsecmd b =
     bnd (parseline b (4 * length b + 4)) (\<lambda>cmd.
     seqp (peek b '''')
     (bnd (gets (\<lambda>s. s)) (\<lambda>s.
      if s \<noteq> length b then panic ''syntax''
      else ret (cmd, nulterminate cmd (b @ [CHR 0x00])))))"

section \<open>The parser always ends\<close>

text \<open>\<open>ends m Q s\<close>: the program returns with \<open>Q\<close>, or stops in \<^verbatim>\<open>panic\<close>.\<close>

definition ends :: "('s, 'a) prog \<Rightarrow> ('a \<Rightarrow> 's \<Rightarrow> bool) \<Rightarrow> 's \<Rightarrow> bool" where
  "ends m Q s = (case m s of Ret a s' \<Rightarrow> Q a s' | Panic e \<Rightarrow> True | Sleep c s' \<Rightarrow> False | Spin \<Rightarrow> False)"

named_theorems ends_simps

lemma ends_ret [ends_simps]: "ends (ret a) Q s = Q a s"
  by (simp add: ends_def ret_def)

lemma ends_panic [ends_simps]: "ends (panic e) Q s"
  by (simp add: ends_def panic_def)

lemma ends_bnd [ends_simps]: "ends (bnd m f) Q s = ends m (\<lambda>a. ends (f a) Q) s"
  by (simp add: ends_def bnd_def split: outcome.split)

lemma ends_seqp [ends_simps]: "ends (seqp m n) Q s = ends m (\<lambda>_. ends n Q) s"
  by (simp add: seqp_def ends_bnd)

lemma ends_gets [ends_simps]: "ends (gets f) Q s = Q (f s) s"
  by (simp add: ends_def gets_def)

lemma ends_modify [ends_simps]: "ends (modify f) Q s = Q () (f s)"
  by (simp add: ends_def modify_def)

lemma ends_mono: "ends m Q s \<Longrightarrow> (\<And>a s'. Q a s' \<Longrightarrow> R a s') \<Longrightarrow> ends m R s"
  by (auto simp: ends_def split: outcome.splits)

lemma scan_spec:
  assumes "s \<le> length b"
  shows "s \<le> scan P b s" "scan P b s \<le> length b" "s \<le> i \<Longrightarrow> i < scan P b s \<Longrightarrow> P (b ! i)"
    "scan P b s < length b \<Longrightarrow> \<not> P (b ! scan P b s)"
proof -
  have "s \<le> scan P b s \<and> scan P b s \<le> length b \<and> (\<forall>i. s \<le> i \<longrightarrow> i < scan P b s \<longrightarrow> P (b ! i)) \<and> (scan P b s < length b \<longrightarrow> \<not> P (b ! scan P b s))"
    using assms
  proof (induction P b s rule: scan.induct)
    case (1 P b s)
    show ?case
    proof (cases "s < length b \<and> P (b ! s)")
      case True
      then have "P (b ! i)" if "s \<le> i" "i < scan P b s" for i
        using 1 that by (cases "i = s") (auto simp: scan.simps [of P b s])
      then show ?thesis using 1 True by (auto simp: scan.simps [of P b s])
    qed (use 1 in \<open>auto simp: scan.simps [of P b s]\<close>)
  qed
  then show "s \<le> scan P b s" "scan P b s \<le> length b" "s \<le> i \<Longrightarrow> i < scan P b s \<Longrightarrow> P (b ! i)"
    "scan P b s < length b \<Longrightarrow> \<not> P (b ! scan P b s)" by blast+
qed

text \<open>A word of the line: it cannot be extended to the right.\<close>

definition word_ok :: "string \<Rightarrow> word_at \<Rightarrow> bool" where
  "word_ok b w \<longleftrightarrow> fst w < snd w \<and> snd w \<le> length b \<and> (\<forall>i. fst w \<le> i \<and> i < snd w \<longrightarrow> wordch (b ! i))
     \<and> (snd w < length b \<longrightarrow> \<not> wordch (b ! snd w))"

definition words_ok :: "string \<Rightarrow> word_at cmd \<Rightarrow> bool" where
  "words_ok b c \<longleftrightarrow> (\<forall>w \<in> set_cmd c. word_ok b w)"

lemma set_add_arg: "set_cmd (add_arg c w) \<subseteq> insert w (set_cmd c)"
  by (induction c w rule: add_arg.induct) auto

lemma words_ok_simps [simp]:
  "words_ok b (EXEC [])"
  "words_ok b (REDIR c f mode fd) \<longleftrightarrow> words_ok b c \<and> word_ok b f"
  "words_ok b (PIPE l r) \<longleftrightarrow> words_ok b l \<and> words_ok b r"
  "words_ok b (LIST l r) \<longleftrightarrow> words_ok b l \<and> words_ok b r"
  "words_ok b (BACK c) \<longleftrightarrow> words_ok b c"
  by (auto simp: words_ok_def)

lemma words_ok_add_arg: "words_ok b c \<Longrightarrow> word_ok b w \<Longrightarrow> words_ok b (add_arg c w)"
  using set_add_arg [of c w] by (auto simp: words_ok_def)

lemma ends_peek:
  assumes "s \<le> length b" "\<And>p s'. s \<le> s' \<Longrightarrow> s' \<le> length b \<Longrightarrow> (p \<Longrightarrow> s' < length b) \<Longrightarrow> Q p s'"
  shows "ends (peek b toks) Q s"
  using assms scan_spec(1,2) [OF assms(1), of blank] by (auto simp: peek_def ends_simps char_at_def Let_def split: if_splits)

lemma ends_gettoken:
  assumes s: "s \<le> length b" and z: "CHR 0x00 \<notin> set b"
    and Q: "\<And>r q e s'. s \<le> s' \<Longrightarrow> s' \<le> length b \<Longrightarrow> (s < length b \<Longrightarrow> s < s') \<Longrightarrow> (r = CHR ''a'' \<Longrightarrow> word_ok b (q, e) \<and> s < s') \<Longrightarrow> Q (r, q, e) s'"
  shows "ends (gettoken b) Q s"
proof -
  define t where "t = scan blank b s"
  have t: "s \<le> t" "t \<le> length b" "t < length b \<Longrightarrow> \<not> blank (b ! t)" using scan_spec [OF s, where P = blank] by (auto simp: t_def)
  have nz: "t < length b \<Longrightarrow> b ! t \<noteq> CHR 0x00" using z nth_mem by metis
  define re where "re = (if char_at b t = CHR 0x00 then (char_at b t, t)
            else if char_at b t \<in> set ''|();&<'' then (char_at b t, Suc t)
            else if char_at b t = CHR ''>'' then
              (if char_at b (Suc t) = CHR ''>'' then (CHR ''+'', Suc (Suc t)) else (char_at b t, Suc t))
            else (CHR ''a'', scan wordch b t))"
  obtain r e where re: "re = (r, e)" by (cases re)
  have w: "word_ok b (t, e) \<and> t < e" if "t < length b" "wordch (b ! t)" "e = scan wordch b t"
  proof -
    note S = scan_spec [OF t(2), where P = wordch]
    have "t \<noteq> e" using S(4) that by auto
    then show ?thesis using S that by (auto simp: word_ok_def)
  qed
  have e: "t \<le> e \<and> e \<le> length b \<and> (t < length b \<longrightarrow> t < e) \<and> (r = CHR ''a'' \<longrightarrow> word_ok b (t, e))"
  proof (cases "t < length b")
    case False
    then show ?thesis using re t(2) by (auto simp: re_def char_at_def)
  next
    case True
    then have wc: "wordch (b ! t)" if "b ! t \<notin> set ''|();&<''" "b ! t \<noteq> CHR ''>''"
      using that t(3) by (auto simp: wordch_def blank_def symbols_def)
    show ?thesis
      using re True nz wc w scan_spec(2) [OF t(2), of wordch]
      by (auto simp: re_def char_at_def split: if_splits)
  qed
  define s' where "s' = scan blank b e"
  have "e \<le> s'" "s' \<le> length b" using scan_spec [of e b, where P = blank] e by (auto simp: s'_def)
  moreover have "gettoken b s = Ret (r, t, e) s'"
    using re unfolding re_def t_def s'_def by (auto simp: gettoken_def bnd_def gets_def Let_def seqp_def modify_def ret_def split: prod.splits)
  moreover have "s < s'" if "s < length b" using that e t \<open>e \<le> s'\<close> by (cases "t < length b") auto
  moreover have "s < s'" if "r = CHR ''a''" using that e t(1) \<open>e \<le> s'\<close> by (auto simp: word_ok_def)
  ultimately show ?thesis using e t(1) Q [of s' r t e] by (simp add: ends_def)
qed

text \<open>What every parser keeps: the pointer moves forward and every word is a word of the line.\<close>

abbreviation (input) parsed :: "string \<Rightarrow> nat \<Rightarrow> word_at cmd \<Rightarrow> nat \<Rightarrow> bool" where
  "parsed b s \<equiv> (\<lambda>c s'. s \<le> s' \<and> s' \<le> length b \<and> words_ok b c)"

lemma ends_parseredirs:
  assumes "CHR 0x00 \<notin> set b" "s \<le> length b" "length b - s < n" "words_ok b c"
  shows "ends (parseredirs b n c) (parsed b s) s"
  using assms(2-)
proof (induction n arbitrary: s c)
  case (Suc n)
  have "ends (parseredirs b n c') (parsed b s) s'" if "s \<le> s'" "s' \<le> length b" "length b - s' < n" "words_ok b c'" for s' c'
    by (rule ends_mono [OF Suc.IH [OF that(2,3,4)]]) (use that(1) in auto)
  then show ?case
    using Suc.prems
    by (auto simp: ends_simps split: prod.splits intro!: ends_peek ends_gettoken [OF _ assms(1)])
qed simp

lemma ends_parseback:
  assumes "CHR 0x00 \<notin> set b" "s \<le> length b" "length b - s < n" "words_ok b c"
  shows "ends (parseback b n c) (parsed b s) s"
  using assms(2-)
proof (induction n arbitrary: s c)
  case (Suc n)
  have "ends (parseback b n c') (parsed b s) s'" if "s \<le> s'" "s' \<le> length b" "length b - s' < n" "words_ok b c'" for s' c'
    by (rule ends_mono [OF Suc.IH [OF that(2,3,4)]]) (use that(1) in auto)
  then show ?case
    using Suc.prems
    by (auto simp: ends_simps split: prod.splits intro!: ends_peek ends_gettoken [OF _ assms(1)])
qed simp

lemma ends_parseargs:
  assumes "CHR 0x00 \<notin> set b" "s \<le> length b" "length b - s < n" "words_ok b c"
  shows "ends (parseargs b n argc c) (parsed b s) s"
  using assms(2-)
proof (induction n arbitrary: s c argc)
  case (Suc n)
  have *: "ends (bnd (parseredirs b n (add_arg c w)) (parseargs b n a)) (parsed b s) s'"
    if "s < s'" "s' \<le> length b" "word_ok b w" for s' a w
  proof -
    have "ends (parseargs b n a c'') (parsed b s) s''" if "parsed b s' c'' s''" for c'' s''
      by (rule ends_mono [OF Suc.IH]) (use Suc.prems that \<open>s < s'\<close> in auto)
    moreover have "ends (parseredirs b n (add_arg c w)) (parsed b s') s'"
      using Suc.prems that by (intro ends_parseredirs assms(1) words_ok_add_arg) auto
    ultimately show ?thesis unfolding ends_bnd by (rule ends_mono [rotated])
  qed
  show ?case
    using Suc.prems unfolding parseargs.simps ends_bnd
    apply (intro ends_peek)
     apply simp
    subgoal for p s1
      apply (cases p)
       apply (simp add: ends_simps)
      apply (simp add: ends_bnd)
      apply (intro ends_gettoken [OF _ assms(1)])
       apply simp
      subgoal for r q e s2
        using * [of s2 "(q, e)" "Suc argc"] by (auto simp: ends_simps)
      done
    done
qed simp

lemma ends_step:
  assumes "ends m (parsed b s') s'" "\<And>c t. s' \<le> t \<Longrightarrow> t \<le> length b \<Longrightarrow> words_ok b c \<Longrightarrow> Q c t"
  shows "ends m Q s'"
  by (rule ends_mono [OF assms(1)]) (use assms(2) in auto)

lemma ends_parse:
  assumes z: "CHR 0x00 \<notin> set b"
  shows "(\<forall>s \<le> length b. 4 * (length b - s) + 4 \<le> n \<longrightarrow> ends (parseline b n) (parsed b s) s)
    \<and> (\<forall>s \<le> length b. 4 * (length b - s) + 3 \<le> n \<longrightarrow> ends (parsepipe b n) (parsed b s) s)
    \<and> (\<forall>s \<le> length b. 4 * (length b - s) + 1 \<le> n \<longrightarrow> ends (parseblock b n) (parsed b s) s)
    \<and> (\<forall>s \<le> length b. 4 * (length b - s) + 2 \<le> n \<longrightarrow> ends (parseexec b n) (parsed b s) s)"
proof (induction n)
  case (Suc n)
  have line: "ends (parseline b n) (parsed b s) s" if "s \<le> length b" "4 * (length b - s) + 4 \<le> n" for s using Suc that by blast
  have pipe: "ends (parsepipe b n) (parsed b s) s" if "s \<le> length b" "4 * (length b - s) + 3 \<le> n" for s using Suc that by blast
  have block: "ends (parseblock b n) (parsed b s) s" if "s \<le> length b" "4 * (length b - s) + 1 \<le> n" for s using Suc that by blast
  have exec: "ends (parseexec b n) (parsed b s) s" if "s \<le> length b" "4 * (length b - s) + 2 \<le> n" for s using Suc that by blast
  show ?case
  proof (intro conjI allI impI)
    fix s assume s: "s \<le> length b" "4 * (length b - s) + 4 \<le> Suc n"
    show "ends (parseline b (Suc n)) (parsed b s) s"
      unfolding parseline.simps ends_bnd
      apply (rule ends_step [OF pipe], use s in simp, use s in simp)
      apply (rule ends_step [OF ends_parseback [OF z]], simp, use s in simp, simp)
      apply (rule ends_peek, simp)
      using s by (auto simp: ends_simps intro!: ends_gettoken [OF _ z] ends_step [OF line])
  next
    fix s assume s: "s \<le> length b" "4 * (length b - s) + 3 \<le> Suc n"
    show "ends (parsepipe b (Suc n)) (parsed b s) s"
      unfolding parsepipe.simps ends_bnd
      apply (rule ends_step [OF exec], use s in simp, use s in simp)
      apply (rule ends_peek, simp)
      using s by (auto simp: ends_simps intro!: ends_gettoken [OF _ z] ends_step [OF pipe])
  next
    fix s assume s: "s \<le> length b" "4 * (length b - s) + 1 \<le> Suc n"
    show "ends (parseblock b (Suc n)) (parsed b s) s"
      unfolding parseblock.simps ends_bnd
      apply (rule ends_peek, use s in simp)
      using s apply (auto simp: ends_simps intro!: ends_peek ends_gettoken [OF _ z] ends_step [OF line] ends_step [OF ends_parseredirs [OF z]])
      by linarith+
  next
    fix s assume s: "s \<le> length b" "4 * (length b - s) + 2 \<le> Suc n"
    show "ends (parseexec b (Suc n)) (parsed b s) s"
      unfolding parseexec.simps ends_bnd
      apply (rule ends_peek, use s in simp)
      using s by (auto simp: ends_simps intro!: ends_step [OF block] ends_step [OF ends_parseredirs [OF z]] ends_step [OF ends_parseargs [OF z]])
  qed
qed simp

text \<open>The bytes that \<^verbatim>\<open>nulterminate\<close> overwrites are the ends of words.\<close>

lemma nulterminate_nth:
  "length (nulterminate c buf) = length buf"
  "i < length buf \<Longrightarrow> nulterminate c buf ! i = (if i \<in> snd ` set_cmd c then CHR 0x00 else buf ! i)"
proof -
  have f: "length (foldl (\<lambda>buf w. buf[snd w := CHR 0x00]) buf args) = length buf
    \<and> (i < length buf \<longrightarrow> foldl (\<lambda>buf w. buf[snd w := CHR 0x00]) buf args ! i = (if i \<in> snd ` set args then CHR 0x00 else buf ! i))"
    for args :: "word_at list" and buf
    by (induction args arbitrary: buf) (auto simp: nth_list_update)
  have "length (nulterminate c buf) = length buf \<and> (i < length buf \<longrightarrow> nulterminate c buf ! i = (if i \<in> snd ` set_cmd c then CHR 0x00 else buf ! i))"
  proof (induction c arbitrary: buf)
    case (REDIR c w mode fd)
    then show ?case using REDIR.IH [of buf] by (cases "i = snd w") (simp_all add: nth_list_update)
  qed (simp_all add: f image_Un)
  then show "length (nulterminate c buf) = length buf"
    "i < length buf \<Longrightarrow> nulterminate c buf ! i = (if i \<in> snd ` set_cmd c then CHR 0x00 else buf ! i)" by blast+
qed

text \<open>The C string at an offset, and the text of a word of the line.\<close>

definition cstring :: "string \<Rightarrow> nat \<Rightarrow> string" where
  "cstring buf q = takeWhile (\<lambda>c. c \<noteq> CHR 0x00) (drop q buf)"

definition word_text :: "string \<Rightarrow> word_at \<Rightarrow> string" where
  "word_text b w = take (snd w - fst w) (drop (fst w) b)"

lemma cstring_eq:
  assumes "q \<le> e" "e < length buf" "buf ! e = CHR 0x00" "\<And>i. q \<le> i \<Longrightarrow> i < e \<Longrightarrow> buf ! i \<noteq> CHR 0x00"
  shows "cstring buf q = take (e - q) (drop q buf)"
  unfolding cstring_def
proof (rule takeWhile_eq_take_P_nth)
  show "i < e - q \<Longrightarrow> i < length (drop q buf) \<Longrightarrow> drop q buf ! i \<noteq> CHR 0x00" for i using assms(4) [of "q + i"] assms(1,2) by simp
  show "e - q < length (drop q buf) \<Longrightarrow> \<not> drop q buf ! (e - q) \<noteq> CHR 0x00" using assms(1,2,3) by simp
qed

lemma cstring_nulterminate:
  assumes z: "CHR 0x00 \<notin> set b" and W: "words_ok b c" and w: "w \<in> set_cmd c"
  shows "cstring (nulterminate c (b @ [CHR 0x00])) (fst w) = word_text b w"
proof -
  let ?buf = "nulterminate c (b @ [CHR 0x00])"
  have ok: "word_ok b v" if "v \<in> set_cmd c" for v using W that by (simp add: words_ok_def)
  have q: "fst w < snd w" "snd w \<le> length b" using ok [OF w] by (auto simp: word_ok_def)
  have n: "?buf ! i = b ! i" if i: "fst w \<le> i" "i < snd w" for i
  proof -
    have "wordch (b ! i)" using ok [OF w] i by (auto simp: word_ok_def)
    then have "i \<notin> snd ` set_cmd c" using ok q i by (auto simp: word_ok_def)
    then show ?thesis using nulterminate_nth(2) [of i "b @ [CHR 0x00]" c] i q by (simp add: nth_append)
  qed
  have "?buf ! snd w = CHR 0x00" using nulterminate_nth(2) [of "snd w" "b @ [CHR 0x00]" c] w q by (simp add: rev_image_eqI)
  moreover have "?buf ! i \<noteq> CHR 0x00" if "fst w \<le> i" "i < snd w" for i
  proof -
    have "b ! i \<in> set b" using that q by simp
    then show ?thesis using n [OF that] z by auto
  qed
  ultimately have "cstring ?buf (fst w) = take (snd w - fst w) (drop (fst w) ?buf)"
    using q by (intro cstring_eq) (auto simp: nulterminate_nth(1))
  also have "\<dots> = word_text b w"
    unfolding word_text_def using q n by (intro nth_equalityI) (auto simp: nulterminate_nth(1))
  finally show ?thesis .
qed

lemma ends_parseline:
  assumes "CHR 0x00 \<notin> set b"
  shows "ends (parseline b (4 * length b + 4)) (parsed b 0) 0"
proof -
  have "4 * (length b - 0) + 4 \<le> 4 * length b + 4" by simp
  then show ?thesis using conjunct1 [OF ends_parse [OF assms]] by blast
qed

lemma parsecmd_words:
  assumes "CHR 0x00 \<notin> set b"
  shows "ends (parsecmd b) (\<lambda>(c, buf) s. words_ok b c \<and> map_cmd (\<lambda>w. cstring buf (fst w)) c = map_cmd (word_text b) c) 0"
proof -
  have "ends (parsecmd b) (\<lambda>(c, buf) s. words_ok b c \<and> buf = nulterminate c (b @ [CHR 0x00])) 0"
    unfolding parsecmd_def ends_bnd ends_seqp by (rule ends_step [OF ends_parseline [OF assms]]) (auto simp: ends_simps intro!: ends_peek)
  then show ?thesis
    using cstring_nulterminate [OF assms] by (elim ends_mono) (auto intro!: cmd.map_cong)
qed

text \<open>
  C11. \<^verbatim>\<open>parsecmd\<close> is safe on every command line.  It comes to an end (the recursion of the parsers and
  their loops do not outrun the fuel) either in \<^verbatim>\<open>panic\<close> or with a command, all of whose words are
  maximal runs of word characters of the line; and although \<^verbatim>\<open>nulterminate\<close> overwrites bytes of the line
  to end its words, no word is damaged: every \<^verbatim>\<open>argv[i]\<close> and \<^verbatim>\<open>file\<close> reads, as a C string of the new buffer,
  as its text in the line.
\<close>

theorem parsecmd_safe:
  assumes "CHR 0x00 \<notin> set b"
  shows "(\<exists>msg. parsecmd b 0 = Panic msg)
    \<or> (\<exists>c buf s. parsecmd b 0 = Ret (c, buf) s \<and> (\<forall>w \<in> set_cmd c. word_ok b w)
        \<and> map_cmd (\<lambda>w. cstring buf (fst w)) c = map_cmd (word_text b) c)"
  using parsecmd_words [OF assms] by (auto simp: ends_def words_ok_def split: outcome.splits)

lemma parsecmd_example:
  "parsecmd ''(ls;cat<f)|wc&'' 0 = Ret (BACK (PIPE (LIST (EXEC [(1, 3)]) (REDIR (EXEC [(4, 7)]) (8, 9) 0 0)) (EXEC [(11, 13)])),
     ''(ls'' @ [CHR 0x00] @ ''cat'' @ [CHR 0x00] @ ''f'' @ [CHR 0x00] @ ''|wc'' @ [CHR 0x00, CHR 0x00]) 14"
  by code_simp

theorem parsecmd_safe_witness:
  "\<exists>c buf s. parsecmd ''(ls;cat<f)|wc&'' 0 = Ret (c, buf) s
    \<and> map_cmd (\<lambda>w. cstring buf (fst w)) c = BACK (PIPE (LIST (EXEC [''ls'']) (REDIR (EXEC [''cat'']) ''f'' 0 0)) (EXEC [''wc'']))"
  using parsecmd_safe [of "''(ls;cat<f)|wc&''"] parsecmd_example by (simp add: word_text_def)

section \<open>Printing and parsing\<close>

text \<open>A command as a line of text; sub-commands are in parentheses.\<close>

fun print_cmd :: "string cmd \<Rightarrow> string" where
  "print_cmd (EXEC args) = concat (map (\<lambda>w. w @ '' '') args)"
| "print_cmd (REDIR c f mode fd) = ''('' @ print_cmd c @ '')'' @ (if fd = 0 then ''<'' else ''>'') @ f @ '' ''"
| "print_cmd (PIPE l r) = ''('' @ print_cmd l @ '')|('' @ print_cmd r @ '')''"
| "print_cmd (LIST l r) = ''('' @ print_cmd l @ '');('' @ print_cmd r @ '')''"
| "print_cmd (BACK c) = ''('' @ print_cmd c @ '')&''"

definition wf_word :: "string \<Rightarrow> bool" where
  "wf_word w \<longleftrightarrow> w \<noteq> [] \<and> list_all (\<lambda>c. wordch c \<and> c \<noteq> CHR 0x00) w"

fun wf_cmd :: "string cmd \<Rightarrow> bool" where
  "wf_cmd (EXEC args) \<longleftrightarrow> list_all wf_word args \<and> length args < MAXARGS"
| "wf_cmd (REDIR c f mode fd) \<longleftrightarrow> wf_cmd c \<and> wf_word f \<and> (mode = O_RDONLY \<and> fd = 0 \<or> mode = O_WRONLY_CREATE \<and> fd = 1)"
| "wf_cmd (PIPE l r) \<longleftrightarrow> wf_cmd l \<and> wf_cmd r"
| "wf_cmd (LIST l r) \<longleftrightarrow> wf_cmd l \<and> wf_cmd r"
| "wf_cmd (BACK c) \<longleftrightarrow> wf_cmd c"

text \<open>The rest of the line does not start with a blank.\<close>

definition nonblank :: "string \<Rightarrow> bool" where
  "nonblank r \<longleftrightarrow> (\<forall>x xs. r = x # xs \<longrightarrow> \<not> blank x)"

lemma scan_drop:
  assumes "drop i b = u @ r" "list_all P u" "\<forall>x xs. r = x # xs \<longrightarrow> \<not> P x"
  shows "scan P b i = i + length u"
  using assms
proof (induction u arbitrary: i)
  case Nil
  then show ?case by (cases "i < length b") (auto simp: scan.simps [of P b i] Cons_nth_drop_Suc [symmetric])
next
  case (Cons x u)
  then have i: "i < length b" "b ! i = x" "drop (Suc i) b = u @ r"
    by (metis append_Cons drop_eq_Nil list.distinct(1) not_le, metis append_Cons nth_via_drop, metis append_Cons drop_Suc list.sel(3) tl_drop)
  then show ?case using Cons by (simp add: scan.simps [of P b i])
qed

lemma char_at_drop: "char_at b i = (case drop i b of [] \<Rightarrow> CHR 0x00 | x # xs \<Rightarrow> x)"
  by (cases "i < length b") (simp_all add: char_at_def Cons_nth_drop_Suc [symmetric])

lemma drop_plus: "drop i b = u @ r \<Longrightarrow> drop (i + length u) b = r"
  by (metis append_eq_conv_conj drop_drop add.commute)

lemma wp_peek:
  assumes "drop i b = r" "nonblank r" "Q (\<exists>x xs. r = x # xs \<and> x \<noteq> CHR 0x00 \<and> x \<in> set toks) i"
  shows "wp (peek b toks) Q i"
proof -
  have "scan blank b i = i" using scan_drop [of i b "[]" r blank] assms(1,2) by (simp add: nonblank_def)
  then show ?thesis using assms(1,3) by (cases r) (simp_all add: peek_def prog_simps char_at_drop Let_def)
qed

lemma wp_gettoken:
  assumes d: "drop i b = w @ u @ r" "nonblank (w @ u @ r)" and u: "list_all blank u" "nonblank r"
    and w: "w = [] \<and> u = [] \<and> r = [] \<and> tok = CHR 0x00
      \<or> w = [tok] \<and> tok \<in> set ''|();&<''
      \<or> w = [CHR ''>''] \<and> tok = CHR ''>'' \<and> (\<forall>x xs. u @ r = x # xs \<longrightarrow> x \<noteq> CHR ''>'')
      \<or> wf_word w \<and> tok = CHR ''a'' \<and> (\<forall>x xs. u @ r = x # xs \<longrightarrow> \<not> wordch x)"
    and Q: "Q (tok, i, i + length w) (i + length w + length u)"
  shows "wp (gettoken b) Q i"
proof -
  have s: "scan blank b i = i" using scan_drop [of i b "[]" "w @ u @ r" blank] d by (simp add: nonblank_def)
  have d2: "drop (i + length w) b = u @ r" using drop_plus d(1) by blast
  have e: "scan blank b (i + length w) = i + length w + length u"
    using scan_drop [OF d2 u(1)] u(2) by (simp add: nonblank_def)
  have c: "char_at b i = (case w @ u @ r of [] \<Rightarrow> CHR 0x00 | x # xs \<Rightarrow> x)" using d(1) by (simp add: char_at_drop)
  have "gettoken b i = Ret (tok, i, i + length w) (i + length w + length u)"
    using w
  proof (elim disjE conjE)
    assume "w = []" "u = []" "r = []" "tok = CHR 0x00"
    then show ?thesis using s e c by (simp add: gettoken_def bnd_def gets_def seqp_def modify_def ret_def)
  next
    assume "w = [tok]" "tok \<in> set ''|();&<''"
    then show ?thesis using s e c by (auto simp: gettoken_def bnd_def gets_def seqp_def modify_def ret_def)
  next
    assume "w = [CHR ''>'']" "tok = CHR ''>''" "\<forall>x xs. u @ r = x # xs \<longrightarrow> x \<noteq> CHR ''>''"
    moreover from this have "char_at b (Suc i) \<noteq> CHR ''>''" using d2 by (cases "u @ r") (simp_all add: char_at_drop)
    ultimately show ?thesis using s e c by (simp add: gettoken_def bnd_def gets_def seqp_def modify_def ret_def)
  next
    assume wf: "wf_word w" "tok = CHR ''a''" "\<forall>x xs. u @ r = x # xs \<longrightarrow> \<not> wordch x"
    then obtain x xs where x: "w = x # xs" "wordch x" "x \<noteq> CHR 0x00" by (cases w) (auto simp: wf_word_def)
    then have "x \<notin> set ''|();&<''" "x \<noteq> CHR ''>''" by (auto simp: wordch_def symbols_def)
    moreover have "scan wordch b i = i + length w" using scan_drop [OF d(1), of wordch] wf by (auto simp: wf_word_def list_all_iff)
    ultimately show ?thesis using s e c x wf(2) by (simp add: gettoken_def bnd_def gets_def seqp_def modify_def ret_def)
  qed
  then show ?thesis using Q by (rule wpI)
qed

lemma not_blank [simp]: "wf_word w \<Longrightarrow> nonblank (w @ r)" "x \<in> set ''|();&<>'' \<Longrightarrow> nonblank (x # r)" "nonblank []"
  by (cases w) (auto simp: nonblank_def wf_word_def wordch_def blank_def whitespace_def)

lemma blank_space [simp]: "blank (CHR '' '')" "\<not> wordch (CHR '' '')"
  by (simp_all add: blank_def wordch_def whitespace_def)

lemma word_text_drop: "drop i b = w @ r \<Longrightarrow> word_text b (i, i + length w) = w"
  by (simp add: word_text_def)

text \<open>A word and the blank after it.\<close>

lemma wp_word:
  assumes "drop i b = w @ '' '' @ r" "wf_word w" "nonblank r" "Q (CHR ''a'', i, i + length w) (Suc (i + length w))"
  shows "wp (gettoken b) Q i"
  using assms by (intro wp_gettoken [of i b w "'' ''" r]) auto

text \<open>A one-character token.\<close>

lemma wp_symbol:
  assumes "drop i b = x # r" "x \<in> set ''|();&<''" "nonblank r" "Q (x, i, Suc i) (Suc i)"
  shows "wp (gettoken b) Q i"
  using assms by (intro wp_gettoken [of i b "[x]" "[]" r x]) auto

definition closed :: "string \<Rightarrow> bool" where
  "closed r \<longleftrightarrow> (\<forall>x xs. r = x # xs \<longrightarrow> x = CHR '')'')"

lemma closed_nonblank [simp]: "closed r \<Longrightarrow> nonblank r"
  by (cases r) (auto simp: closed_def nonblank_def blank_def whitespace_def)

lemma wp_no_redirs:
  assumes "drop i b = r" "nonblank r" "\<forall>x xs. r = x # xs \<longrightarrow> x \<notin> set ''<>''" "Q c i" "0 < n"
  shows "wp (parseredirs b n c) Q i"
proof -
  obtain k where "n = Suc k" using assms(5) by (cases n) auto
  moreover have "wp (peek b ''<>'') (\<lambda>p. wp (if \<not> p then ret c else m p) Q) i" for m
    using assms(3,4) by (intro wp_peek [OF assms(1,2)]) (auto simp: prog_simps)
  ultimately show ?thesis by (simp add: prog_simps)
qed

lemma nonblank_words: "list_all wf_word args \<Longrightarrow> nonblank r \<Longrightarrow> nonblank (concat (map (\<lambda>w. w @ '' '') args) @ r)"
  by (cases args) auto

lemma word_start: "wf_word w \<Longrightarrow> w @ r = x # xs \<Longrightarrow> wordch x"
  by (cases w) (auto simp: wf_word_def)

lemma words_start:
  assumes "list_all wf_word args" "closed r" "concat (map (\<lambda>w. w @ '' '') args) @ r = x # xs"
  shows "wordch x \<and> args \<noteq> [] \<or> x = CHR '')'' \<and> args = []"
  using assms word_start [of "hd args"] by (cases args) (auto simp: closed_def)

lemma wordch_not_symbol: "wordch x \<Longrightarrow> x \<notin> set ''|();&<>''"
  by (auto simp: wordch_def symbols_def)

lemma wp_args:
  assumes "drop i b = concat (map (\<lambda>w. w @ '' '') args) @ r" "list_all wf_word args" "closed r"
    "argc + length args < MAXARGS" "length args < n"
  shows "wp (parseargs b n argc (EXEC dn)) (\<lambda>c j. drop j b = r \<and> (\<exists>ws'. c = EXEC (dn @ ws') \<and> map (word_text b) ws' = args)) i"
  using assms
proof (induction args arbitrary: i argc dn n)
  case Nil
  then obtain k where n: "n = Suc k" by (cases n) auto
  have d: "drop i b = r" using Nil.prems(1) by simp
  have nb: "nonblank r" using Nil.prems(3) by simp
  show ?case
    unfolding n parseargs.simps wp_bnd
  proof (rule wp_peek [OF d nb], cases r)
    case Nil': Nil
    have "wp (gettoken b) Q i" if "Q (CHR 0x00, i, i) i" for Q
      using that d Nil' by (intro wp_gettoken [of i b "[]" "[]" "[]"]) auto
    then show "wp (if \<exists>x xs. r = x # xs \<and> x \<noteq> CHR 0x00 \<and> x \<in> set ''|)&;'' then ret (EXEC dn)
        else bnd (gettoken b) (\<lambda>(tok, q, eq). if tok = CHR 0x00 then ret (EXEC dn) else if tok \<noteq> CHR ''a'' then panic ''syntax''
          else if Suc argc \<ge> MAXARGS then panic ''too many args'' else bnd (parseredirs b k (add_arg (EXEC dn) (q, eq))) (parseargs b k (Suc argc))))
      (\<lambda>c j. drop j b = r \<and> (\<exists>ws'. c = EXEC (dn @ ws') \<and> map (word_text b) ws' = [])) i"
      using d Nil' by (simp add: wp_bnd wp_ret)
  next
    case (Cons x xs)
    then have "x = CHR '')''" using Nil.prems(3) by (simp add: closed_def)
    then show "wp (if \<exists>x xs. r = x # xs \<and> x \<noteq> CHR 0x00 \<and> x \<in> set ''|)&;'' then ret (EXEC dn)
        else bnd (gettoken b) (\<lambda>(tok, q, eq). if tok = CHR 0x00 then ret (EXEC dn) else if tok \<noteq> CHR ''a'' then panic ''syntax''
          else if Suc argc \<ge> MAXARGS then panic ''too many args'' else bnd (parseredirs b k (add_arg (EXEC dn) (q, eq))) (parseargs b k (Suc argc))))
      (\<lambda>c j. drop j b = r \<and> (\<exists>ws'. c = EXEC (dn @ ws') \<and> map (word_text b) ws' = [])) i"
      using d Cons by (simp add: wp_ret)
  qed
next
  case (Cons w args)
  then obtain k where n: "n = Suc k" by (cases n) auto
  let ?rest = "concat (map (\<lambda>w. w @ '' '') args) @ r" and ?j = "Suc (i + length w)"
  have w: "wf_word w" "list_all wf_word args" using Cons.prems(2) by auto
  have d: "drop i b = w @ '' '' @ ?rest" using Cons.prems(1) by simp
  have nb: "nonblank ?rest" using nonblank_words [OF w(2)] Cons.prems(3) by simp
  have j: "drop ?j b = ?rest" using drop_plus [of i b "w @ '' ''" ?rest] d by simp
  have p: "\<not> (\<exists>x xs. drop i b = x # xs \<and> x \<noteq> CHR 0x00 \<and> x \<in> set ''|)&;'')"
  proof
    assume "\<exists>x xs. drop i b = x # xs \<and> x \<noteq> CHR 0x00 \<and> x \<in> set ''|)&;''"
    then obtain x xs where x: "w @ '' '' @ ?rest = x # xs" "x \<in> set ''|)&;''" using d by auto
    then show False using wordch_not_symbol [OF word_start [OF w(1) x(1)]] by auto
  qed
  have t: "word_text b (i, i + length w) = w" using d by (rule word_text_drop)
  have IH: "wp (parseargs b k (Suc argc) (EXEC (dn @ [(i, i + length w)])))
     (\<lambda>c j. drop j b = r \<and> (\<exists>ws'. c = EXEC ((dn @ [(i, i + length w)]) @ ws') \<and> map (word_text b) ws' = args)) ?j"
    using Cons.prems n by (intro Cons.IH j w(2)) auto
  have "wp (parseargs b k (Suc argc) (EXEC (dn @ [(i, i + length w)])))
     (\<lambda>c j. drop j b = r \<and> (\<exists>ws'. c = EXEC (dn @ ws') \<and> map (word_text b) ws' = w # args)) ?j"
    by (rule wp_mono [OF IH]) (use t in \<open>auto simp: Cons_eq_map_conv\<close>)
  moreover have "\<forall>x xs. ?rest = x # xs \<longrightarrow> x \<notin> set ''<>''"
  proof (intro allI impI)
    fix x xs assume "?rest = x # xs"
    then show "x \<notin> set ''<>''" using words_start [OF w(2) Cons.prems(3)] wordch_not_symbol [of x] by auto
  qed
  ultimately have R: "wp (bnd (parseredirs b k (add_arg (EXEC dn) (i, i + length w))) (parseargs b k (Suc argc)))
     (\<lambda>c j. drop j b = r \<and> (\<exists>ws'. c = EXEC (dn @ ws') \<and> map (word_text b) ws' = w # args)) ?j"
    using n Cons.prems(5) by (simp only: wp_bnd add_arg.simps) (rule wp_no_redirs [OF j nb], simp_all)
  show ?case
    unfolding n parseargs.simps wp_bnd
    apply (rule wp_peek [OF refl])
     apply (use d w(1) in simp)
    unfolding if_not_P [OF p] wp_bnd
    apply (rule wp_word [OF d w(1) nb])
    using R Cons.prems(4) by (simp add: wp_bnd)
qed

lemma nonblank_print: "wf_cmd c \<Longrightarrow> nonblank r \<Longrightarrow> nonblank (print_cmd c @ r)"
  by (cases c) (auto intro: nonblank_words)

text \<open>A command in parentheses, parsed as an element of a pipeline.\<close>

lemma wp_paren:
  assumes line: "\<And>m. 4 * length (print_cmd c @ '')'' @ r) + 4 \<le> m \<Longrightarrow>
      wp (parseline b m) (\<lambda>c' j. drop j b = '')'' @ r \<and> map_cmd (word_text b) c' = c) (Suc i)"
    and d: "drop i b = ''('' @ print_cmd c @ '')'' @ r" and wf: "wf_cmd c" and nb: "nonblank r"
    and n: "4 * length (drop i b) + 2 \<le> n"
    and Q: "\<And>c' j k. drop j b = r \<Longrightarrow> map_cmd (word_text b) c' = c \<Longrightarrow> length r < k \<Longrightarrow> wp (parseredirs b k c') Q j"
  shows "wp (parseexec b n) Q i"
proof -
  obtain m where m: "n = Suc (Suc m)" "4 * length (print_cmd c @ '')'' @ r) + 4 \<le> m" using n d by (cases n; cases "n - 1") auto
  have nbl: "nonblank (print_cmd c @ '')'' @ r)" using nonblank_print [OF wf] by simp
  have d': "drop i b = CHR ''('' # print_cmd c @ '')'' @ r" using d by simp
  have rest: "wp (bnd (peek b '')'') (\<lambda>p. if \<not> p then panic ''syntax - missing )'' else seqp (gettoken b) (parseredirs b m c'))) Q j"
    if j: "drop j b = '')'' @ r" "map_cmd (word_text b) c' = c" for c' j
  proof -
    have jj: "drop j b = CHR '')'' # r" "drop (Suc j) b = r" using j(1) drop_plus [of j b "'')''" r] by auto
    have "length r < m" using m(2) by simp
    then have "wp (parseredirs b m c') Q (Suc j)" using Q [OF jj(2) j(2)] by blast
    then show ?thesis
      unfolding wp_bnd using nb by (intro wp_peek [OF jj(1)]) (simp_all add: wp_seqp wp_symbol [OF jj(1)])
  qed
  have "wp (parseblock b (Suc m)) Q i"
    unfolding parseblock.simps wp_bnd
    using line [OF m(2)] rest nbl d'
    by (intro wp_peek [OF d']) (auto simp: wp_seqp wp_bnd intro!: wp_symbol [OF d'] elim!: wp_mono)
  then show ?thesis unfolding m(1) parseexec.simps wp_bnd using d' by (intro wp_peek [OF d']) auto
qed

lemma wp_pipe_single:
  assumes "wp (parseexec b n) (\<lambda>c j. nonblank (drop j b) \<and> (\<forall>xs. drop j b \<noteq> CHR ''|'' # xs) \<and> Q c j) i"
  shows "wp (parsepipe b (Suc n)) Q i"
proof -
  have "wp (peek b ''|'') (\<lambda>p. wp (if p then m p else ret c) Q) j"
    if "nonblank (drop j b)" "\<forall>xs. drop j b \<noteq> CHR ''|'' # xs" "Q c j" for m c j
    using that by (intro wp_peek [OF refl]) (auto simp: wp_ret)
  then show ?thesis unfolding parsepipe.simps wp_bnd by (intro wp_mono [OF assms]) auto
qed

lemma wp_no_back:
  assumes "drop j b = r" "nonblank r" "\<forall>xs. r \<noteq> CHR ''&'' # xs" "Q c j" "0 < n"
  shows "wp (parseback b n c) Q j"
proof -
  obtain k where "n = Suc k" using assms(5) by (cases n) auto
  moreover have "wp (peek b ''&'') (\<lambda>p. wp (if p then m p else ret c) Q) j" for m
    using assms(3,4) by (intro wp_peek [OF assms(1,2)]) (auto simp: wp_ret)
  ultimately show ?thesis by (simp add: wp_bnd)
qed

lemma closed_start: "closed r \<Longrightarrow> r = x # xs \<Longrightarrow> x = CHR '')''"
  by (simp add: closed_def)

lemma wp_line_end:
  assumes "closed (drop j b)" "Q c j"
  shows "wp (peek b '';'') (\<lambda>p. wp (if p then m p else ret c) Q) j"
  using assms by (intro wp_peek [OF refl]) (auto simp: wp_ret dest: closed_start)

lemma wp_line_single:
  assumes "wp (parsepipe b n) (\<lambda>c j. closed (drop j b) \<and> Q c j) i" "0 < n"
  shows "wp (parseline b (Suc n)) Q i"
proof -
  have "wp (parseback b n c) (\<lambda>c. wp (bnd (peek b '';'') (\<lambda>p. if p then m c p else ret c)) Q) j"
    if "closed (drop j b)" "Q c j" for m c j
    using that by (intro wp_no_back [OF refl _ _ _ assms(2)]) (auto simp: wp_bnd intro!: wp_line_end dest: closed_start)
  then show ?thesis unfolding parseline.simps wp_bnd by (intro wp_mono [OF assms(1)]) (auto simp: wp_bnd)
qed

lemma wp_redir:
  assumes d: "drop j b = (if fd = 0 then ''<'' else ''>'') @ f @ '' '' @ r" and f: "wf_word f" and r: "closed r"
    and m: "mode = O_RDONLY \<and> fd = 0 \<or> mode = O_WRONLY_CREATE \<and> fd = 1" and k: "1 < k"
    and Q: "\<And>w j. word_text b w = f \<Longrightarrow> drop j b = r \<Longrightarrow> Q (REDIR c w mode fd) j"
  shows "wp (parseredirs b k c) Q j"
proof -
  obtain k' where k': "k = Suc k'" "0 < k'" using k by (cases k) auto
  define x where "x = (if fd = 0 then CHR ''<'' else CHR ''>'')"
  have x: "x \<in> {CHR ''<'', CHR ''>''}" by (simp add: x_def)
  have dx: "drop j b = x # f @ '' '' @ r" using d by (simp add: x_def)
  then have df: "drop (Suc j) b = f @ '' '' @ r" using drop_plus [of j b "[x]"] by simp
  have dr: "drop (Suc (Suc j + length f)) b = r" using drop_plus [of "Suc j" b "f @ '' ''" r] df by simp
  have nf: "nonblank (f @ '' '' @ r)" using f by simp
  have nx: "\<forall>y ys. f @ '' '' @ r = y # ys \<longrightarrow> y \<noteq> CHR ''>''" using word_start [OF f] wordch_not_symbol by fastforce
  have tok: "wp (gettoken b) R j" if "R (x, j, Suc j) (Suc j)" for R
    using that x nf nx dx by (intro wp_gettoken [of j b "[x]" "[]" "f @ '' '' @ r" x]) auto
  have last: "wp (parseredirs b k' (REDIR c (Suc j, Suc j + length f) mode fd)) Q (Suc (Suc j + length f))"
    using Q [OF word_text_drop [OF df] dr] r k'(2) by (intro wp_no_redirs [OF dr]) (auto dest: closed_start)
  have nb: "nonblank (x # f @ '' '' @ r)" using x by auto
  show ?thesis
    unfolding k'(1) parseredirs.simps wp_bnd
    apply (rule wp_peek [OF dx nb])
    using x m last x_def r by (auto simp: wp_bnd intro!: tok wp_word [OF df f])
qed

text \<open>The induction: what follows the printed command is the end of the line or a closing parenthesis.\<close>

abbreviation (input) reads_as :: "string \<Rightarrow> string cmd \<Rightarrow> string \<Rightarrow> word_at cmd \<Rightarrow> nat \<Rightarrow> bool" where
  "reads_as b c r \<equiv> (\<lambda>c' j. drop j b = r \<and> map_cmd (word_text b) c' = c)"

lemma wp_exec_args:
  assumes "drop i b = print_cmd (EXEC args) @ r" "wf_cmd (EXEC args)" "closed r" "length (drop i b) < n"
  shows "wp (parseexec b (Suc n)) (reads_as b (EXEC args) r) i"
proof -
  let ?t = "print_cmd (EXEC args) @ r"
  have a: "list_all wf_word args" "length args < MAXARGS" using assms(2) by auto
  have nb: "nonblank ?t" using nonblank_print [OF assms(2)] assms(3) by simp
  have st: "x \<notin> set ''<>(''" if "?t = x # xs" for x xs
    using words_start [OF a(1) assms(3)] wordch_not_symbol [of x] that by auto
  have "length args \<le> length (print_cmd (EXEC args))" by (induction args) auto
  then have len: "length args < n" using assms(1,4) by simp
  have "wp (parseargs b n 0 (EXEC [])) (reads_as b (EXEC args) r) i"
    by (rule wp_mono [OF wp_args [where dn = "[]"]]) (use assms a len in auto)
  then have "wp (bnd (parseredirs b n (EXEC [])) (parseargs b n 0)) (reads_as b (EXEC args) r) i"
    unfolding wp_bnd using st len by (intro wp_no_redirs [OF assms(1) nb]) auto
  then show ?thesis
    unfolding parseexec.simps wp_bnd using st by (intro wp_peek [OF assms(1) nb]) (auto simp: wp_bnd)
qed

declare parseredirs.simps [simp del] parseargs.simps [simp del] parseback.simps [simp del]
  parseline.simps [simp del] parsepipe.simps [simp del] parseblock.simps [simp del] parseexec.simps [simp del]

definition line_ok :: "string \<Rightarrow> string cmd \<Rightarrow> bool" where
  "line_ok b c \<longleftrightarrow> (\<forall>i r n. drop i b = print_cmd c @ r \<longrightarrow> closed r \<longrightarrow> 4 * length (drop i b) + 4 \<le> n \<longrightarrow> wp (parseline b n) (reads_as b c r) i)"

lemma wp_elem:
  assumes L: "line_ok b c" and wf: "wf_cmd c" and d: "drop i b = ''('' @ print_cmd c @ '')'' @ r" and nb: "nonblank r"
    and n: "4 * length (drop i b) + 2 \<le> n"
    and Q: "\<And>c' j k. drop j b = r \<Longrightarrow> map_cmd (word_text b) c' = c \<Longrightarrow> length r < k \<Longrightarrow> wp (parseredirs b k c') Q j"
  shows "wp (parseexec b n) Q i"
proof (rule wp_paren [OF _ d wf nb n Q])
  have "drop (Suc i) b = print_cmd c @ '')'' @ r" using drop_plus [of i b "''(''"] d by simp
  then show "4 * length (print_cmd c @ '')'' @ r) + 4 \<le> m \<Longrightarrow> wp (parseline b m) (reads_as b c ('')'' @ r)) (Suc i)" for m
    using L by (simp add: line_ok_def closed_def)
qed

lemma wp_elem_plain:
  assumes "line_ok b c" "wf_cmd c" "drop i b = ''('' @ print_cmd c @ '')'' @ r" "nonblank r" "4 * length (drop i b) + 2 \<le> n"
    and "\<forall>x xs. r = x # xs \<longrightarrow> x \<notin> set ''<>''"
  shows "wp (parseexec b n) (reads_as b c r) i"
  using assms by (intro wp_elem [OF assms(1-5)] wp_no_redirs) auto

lemma line_ok: "wf_cmd c \<Longrightarrow> line_ok b c"
proof (induction c)
  case (EXEC args)
  show ?case unfolding line_ok_def
  proof (intro allI impI)
    fix i r n assume a: "drop i b = print_cmd (EXEC args) @ r" "closed r" "4 * length (drop i b) + 4 \<le> n"
    obtain m where m: "n = Suc (Suc (Suc m))" "length (drop i b) < m" using a(3) by (cases n; cases "n - 1"; cases "n - 2") auto
    have "wp (parseexec b (Suc m)) (\<lambda>c j. nonblank (drop j b) \<and> (\<forall>xs. drop j b \<noteq> CHR ''|'' # xs) \<and> closed (drop j b) \<and> reads_as b (EXEC args) r c j) i"
      by (rule wp_mono [OF wp_exec_args [OF a(1) EXEC a(2) m(2)]]) (use a(2) in \<open>auto dest: closed_start\<close>)
    then show "wp (parseline b n) (reads_as b (EXEC args) r) i" unfolding m(1) by (intro wp_line_single wp_pipe_single) simp_all
  qed
next
  case (REDIR c f mode fd)
  then have c: "line_ok b c" "wf_cmd c" "wf_word f" and m: "mode = O_RDONLY \<and> fd = 0 \<or> mode = O_WRONLY_CREATE \<and> fd = 1" by auto
  show ?case unfolding line_ok_def
  proof (intro allI impI)
    fix i r n assume a: "drop i b = print_cmd (REDIR c f mode fd) @ r" "closed r" "4 * length (drop i b) + 4 \<le> n"
    obtain k where n: "n = Suc (Suc k)" "4 * length (drop i b) + 2 \<le> k" using a(3) by (cases n; cases "n - 1") auto
    let ?t = "(if fd = 0 then ''<'' else ''>'') @ f @ '' '' @ r"
    have d: "drop i b = ''('' @ print_cmd c @ '')'' @ ?t" using a(1) by simp
    have "wp (parseredirs b k' c') (\<lambda>c j. nonblank (drop j b) \<and> (\<forall>xs. drop j b \<noteq> CHR ''|'' # xs) \<and> closed (drop j b) \<and> reads_as b (REDIR (map_cmd (word_text b) c') f mode fd) r c j) j"
      if "drop j b = ?t" "length ?t < k'" for c' j k'
      using a(2) that(2) by (intro wp_redir [OF that(1) c(3) a(2) m]) (auto dest: closed_start)
    then have "wp (parseexec b k) (\<lambda>c' j. nonblank (drop j b) \<and> (\<forall>xs. drop j b \<noteq> CHR ''|'' # xs) \<and> closed (drop j b) \<and> reads_as b (REDIR c f mode fd) r c' j) i"
      by (intro wp_elem [OF c(1,2) d _ n(2)]) auto
    then show "wp (parseline b n) (reads_as b (REDIR c f mode fd) r) i" unfolding n(1) by (intro wp_line_single wp_pipe_single) simp_all
  qed
next
  case (PIPE c1 c2)
  then have c: "line_ok b c1" "wf_cmd c1" "line_ok b c2" "wf_cmd c2" by auto
  show ?case unfolding line_ok_def
  proof (intro allI impI)
    fix i r n assume a: "drop i b = print_cmd (PIPE c1 c2) @ r" "closed r" "4 * length (drop i b) + 4 \<le> n"
    obtain k where n: "n = Suc (Suc k)" "4 * length (drop i b) + 2 \<le> k" using a(3) by (cases n; cases "n - 1") auto
    let ?u = "''('' @ print_cmd c2 @ '')'' @ r"
    have d: "drop i b = ''('' @ print_cmd c1 @ '')'' @ CHR ''|'' # ?u" using a(1) by simp
    have two: "wp (peek b ''|'') (\<lambda>p. wp (if p then seqp (gettoken b) (bnd (parsepipe b k) (\<lambda>r. ret (PIPE c' r))) else ret c') (\<lambda>c j. closed (drop j b) \<and> reads_as b (PIPE c1 c2) r c j)) j"
      if j: "drop j b = CHR ''|'' # ?u" "map_cmd (word_text b) c' = c1" for c' j
    proof -
      have du: "drop (Suc j) b = ?u" using drop_plus [of j b "''|''" ?u] j(1) by simp
      obtain k' where k': "k = Suc k'" "4 * length (drop (Suc j) b) + 2 \<le> k'" using n(2) d du by (cases k) auto
      have "wp (parseexec b k') (\<lambda>c j. nonblank (drop j b) \<and> (\<forall>xs. drop j b \<noteq> CHR ''|'' # xs) \<and> closed (drop j b) \<and> reads_as b c2 r c j) (Suc j)"
        by (rule wp_mono [OF wp_elem_plain [OF c(3,4) du _ k'(2)]]) (use a(2) in \<open>auto dest: closed_start\<close>)
      then have "wp (parsepipe b k) (\<lambda>c j. closed (drop j b) \<and> reads_as b c2 r c j) (Suc j)" unfolding k'(1) by (rule wp_pipe_single)
      then have "wp (bnd (parsepipe b k) (\<lambda>r. ret (PIPE c' r))) (\<lambda>c j. closed (drop j b) \<and> reads_as b (PIPE c1 c2) r c j) (Suc j)"
        unfolding wp_bnd by (rule wp_mono) (use j(2) in \<open>auto simp: wp_ret\<close>)
      then show ?thesis by (intro wp_peek [OF j(1)]) (auto simp: wp_seqp intro!: wp_symbol [OF j(1)])
    qed
    have "wp (parseexec b k) (reads_as b c1 (CHR ''|'' # ?u)) i" using wp_elem_plain [OF c(1,2) d _ n(2)] by simp
    then have "wp (parsepipe b (Suc k)) (\<lambda>c j. closed (drop j b) \<and> reads_as b (PIPE c1 c2) r c j) i"
      unfolding parsepipe.simps wp_bnd using two by (auto elim!: wp_mono)
    then show "wp (parseline b n) (reads_as b (PIPE c1 c2) r) i" unfolding n(1) by (rule wp_line_single) simp
  qed
next
  case (LIST c1 c2)
  then have c: "line_ok b c1" "wf_cmd c1" "line_ok b c2" "wf_cmd c2" by auto
  show ?case unfolding line_ok_def
  proof (intro allI impI)
    fix i r n assume a: "drop i b = print_cmd (LIST c1 c2) @ r" "closed r" "4 * length (drop i b) + 4 \<le> n"
    obtain k where n: "n = Suc (Suc k)" "4 * length (drop i b) + 2 \<le> k" using a(3) by (cases n; cases "n - 1") auto
    let ?u = "''('' @ print_cmd c2 @ '')'' @ r"
    have d: "drop i b = ''('' @ print_cmd c1 @ '')'' @ CHR '';'' # ?u" using a(1) by simp
    have two: "wp (peek b '';'') (\<lambda>p. wp (if p then seqp (gettoken b) (bnd (parseline b (Suc k)) (\<lambda>r. ret (LIST c' r))) else ret c') (reads_as b (LIST c1 c2) r)) j"
      if j: "drop j b = CHR '';'' # ?u" "map_cmd (word_text b) c' = c1" for c' j
    proof -
      have du: "drop (Suc j) b = ?u" using drop_plus [of j b "'';''" ?u] j(1) by simp
      obtain k' where k': "k = Suc k'" "4 * length (drop (Suc j) b) + 2 \<le> k'" using n(2) d du by (cases k) auto
      have "wp (parseexec b k') (\<lambda>c j. nonblank (drop j b) \<and> (\<forall>xs. drop j b \<noteq> CHR ''|'' # xs) \<and> closed (drop j b) \<and> reads_as b c2 r c j) (Suc j)"
        by (rule wp_mono [OF wp_elem_plain [OF c(3,4) du _ k'(2)]]) (use a(2) in \<open>auto dest: closed_start\<close>)
      then have "wp (parseline b (Suc k)) (reads_as b c2 r) (Suc j)" unfolding k'(1) by (intro wp_line_single wp_pipe_single) simp_all
      then have "wp (bnd (parseline b (Suc k)) (\<lambda>r. ret (LIST c' r))) (reads_as b (LIST c1 c2) r) (Suc j)"
        unfolding wp_bnd by (rule wp_mono) (use j(2) in \<open>auto simp: wp_ret\<close>)
      then show ?thesis by (intro wp_peek [OF j(1)]) (auto simp: wp_seqp intro!: wp_symbol [OF j(1)])
    qed
    have "wp (parseexec b k) (\<lambda>c j. nonblank (drop j b) \<and> (\<forall>xs. drop j b \<noteq> CHR ''|'' # xs) \<and> reads_as b c1 (CHR '';'' # ?u) c j) i"
      by (rule wp_mono [OF wp_elem_plain [OF c(1,2) d _ n(2)]]) auto
    then have "wp (parsepipe b (Suc k)) (reads_as b c1 (CHR '';'' # ?u)) i" by (rule wp_pipe_single)
    then show "wp (parseline b n) (reads_as b (LIST c1 c2) r) i"
      unfolding n(1) parseline.simps(2) [of b "Suc k"] wp_bnd using two by (auto elim!: wp_mono intro!: wp_no_back)
  qed
next
  case (BACK c)
  then have c: "line_ok b c" "wf_cmd c" by auto
  show ?case unfolding line_ok_def
  proof (intro allI impI)
    fix i r n assume a: "drop i b = print_cmd (BACK c) @ r" "closed r" "4 * length (drop i b) + 4 \<le> n"
    obtain k where n: "n = Suc (Suc k)" "4 * length (drop i b) + 2 \<le> k" using a(3) by (cases n; cases "n - 1") auto
    have d: "drop i b = ''('' @ print_cmd c @ '')'' @ CHR ''&'' # r" using a(1) by simp
    have k: "0 < k" using n(2) by simp
    have two: "wp (parseback b (Suc k) c') (\<lambda>c. wp (peek b '';'') (\<lambda>p. wp (if p then m c p else ret c) (reads_as b (BACK (map_cmd (word_text b) c')) r))) j"
      if j: "drop j b = CHR ''&'' # r" for c' j m
    proof -
      have dr: "drop (Suc j) b = r" using drop_plus [of j b "''&''" r] j by simp
      have "wp (parseback b k (BACK c')) (\<lambda>c. wp (peek b '';'') (\<lambda>p. wp (if p then m c p else ret c) (reads_as b (BACK (map_cmd (word_text b) c')) r))) (Suc j)"
        using a(2) dr by (intro wp_no_back [OF dr _ _ _ k] wp_line_end) (auto dest: closed_start)
      then show ?thesis unfolding parseback.simps wp_bnd using a(2)
        by (intro wp_peek [OF j]) (auto simp: wp_seqp intro!: wp_symbol [OF j])
    qed
    have "wp (parseexec b k) (\<lambda>c' j. nonblank (drop j b) \<and> (\<forall>xs. drop j b \<noteq> CHR ''|'' # xs) \<and> reads_as b c (CHR ''&'' # r) c' j) i"
      by (rule wp_mono [OF wp_elem_plain [OF c d _ n(2)]]) auto
    then have "wp (parsepipe b (Suc k)) (reads_as b c (CHR ''&'' # r)) i" by (rule wp_pipe_single)
    then show "wp (parseline b n) (reads_as b (BACK c) r) i"
      unfolding n(1) parseline.simps(2) [of b "Suc k"] wp_bnd using two by (auto elim!: wp_mono)
  qed
qed

lemma print_no_NUL: "wf_cmd c \<Longrightarrow> CHR 0x00 \<notin> set (print_cmd c)"
  by (induction c) (auto simp: wf_word_def list_all_iff split: if_splits)

text \<open>
  C10. Parsing undoes printing: the line of any command tree (words of word characters, fewer than
  \<^verbatim>\<open>MAXARGS\<close> arguments, redirections as the shell makes them) is parsed by \<^verbatim>\<open>parsecmd\<close> to that tree, with
  the strings it finds in the buffer through \<^verbatim>\<open>argv\<close> and \<^verbatim>\<open>file\<close> as its words.
\<close>

theorem parsecmd_print:
  assumes "wf_cmd c"
  shows "\<exists>c' buf. parsecmd (print_cmd c) 0 = Ret (c', buf) (length (print_cmd c)) \<and> map_cmd (\<lambda>w. cstring buf (fst w)) c' = c"
proof -
  let ?b = "print_cmd c"
  have "wp (parseline ?b (4 * length ?b + 4)) (reads_as ?b c []) 0"
    using line_ok [OF assms, of ?b, unfolded line_ok_def, rule_format, of 0 "[]" "4 * length ?b + 4"] by (simp add: closed_def)
  then obtain c' j where p: "parseline ?b (4 * length ?b + 4) 0 = Ret c' j" "drop j ?b = []" "map_cmd (word_text ?b) c' = c"
    by (elim wpE conjE)
  have j: "j = length ?b" using ends_parseline [OF print_no_NUL [OF assms]] p(1,2) by (simp add: ends_def)
  have "scan blank ?b j = j" using scan_drop [of j ?b "[]" "[]" blank] p(2) by simp
  then have "parsecmd ?b 0 = Ret (c', nulterminate c' (?b @ [CHR 0x00])) (length ?b)"
    using p(1) j by (simp add: parsecmd_def peek_def bnd_def seqp_def gets_def modify_def ret_def)
  moreover from this have "map_cmd (\<lambda>w. cstring (nulterminate c' (?b @ [CHR 0x00])) (fst w)) c' = c"
    using parsecmd_words [OF print_no_NUL [OF assms]] p(3) by (simp add: ends_def)
  ultimately show ?thesis by blast
qed

theorem parsecmd_print_witness:
  "\<exists>c' buf s. parsecmd ''((cat )<f )|(wc -l )'' 0 = Ret (c', buf) s
    \<and> map_cmd (\<lambda>w. cstring buf (fst w)) c' = PIPE (REDIR (EXEC [''cat'']) ''f'' 0 0) (EXEC [''wc'', ''-l''])"
  using parsecmd_print [of "PIPE (REDIR (EXEC [''cat'']) ''f'' 0 0) (EXEC [''wc'', ''-l''])"]
  by (auto simp: wf_word_def wordch_def whitespace_def symbols_def)

end
