(* ===== verification/Runcmd.thy ===== *)
theory Runcmd
  imports Sh
begin

text \<open>
  Running commands (\<^verbatim>\<open>runcmd\<close> and \<^verbatim>\<open>main\<close> of \<^verbatim>\<open>sh.c\<close>).  The shell acts on the world by system calls only, so
  a piece of its code is the tree of the calls it makes: \<open>Call\<close> holds a call and what follows for every
  value the kernel may return, \<open>MkPipe\<close> is \<^verbatim>\<open>pipe(p)\<close>, which also fills in the two descriptors.  \<^verbatim>\<open>fork\<close>
  returns in both processes, with 0 in the child.  \<^verbatim>\<open>runcmd\<close> never returns, so nothing follows a call
  of it.
\<close>

datatype call =
    Fork
  | Wait
  | Exec string "string list"
  | Open string nat
  | Close int
  | Dup int
  | Chdir string
  | Print string

datatype shell =
    Exit
  | Call call "int \<Rightarrow> shell"
  | MkPipe "int \<Rightarrow> int \<Rightarrow> int \<Rightarrow> shell"

definition sh_panic :: "string \<Rightarrow> shell" where
  "sh_panic s = Call (Print (s @ [CHR 0x0A])) (\<lambda>_. Exit)"

definition fork1 :: "(int \<Rightarrow> shell) \<Rightarrow> shell" where
  "fork1 k = Call Fork (\<lambda>pid. if pid = -1 then sh_panic ''fork'' else k pid)"

fun runcmd :: "string cmd \<Rightarrow> shell" where
  "runcmd (EXEC argv) =
     (if argv = [] then Exit
      else
        Call (Exec (hd argv) argv) (\<lambda>_.
        Call (Print (''exec '' @ hd argv @ '' failed'' @ [CHR 0x0A])) (\<lambda>_. Exit)))"
| "runcmd (REDIR cmd f mode fd) =
     Call (Close (int fd)) (\<lambda>_.
     Call (Open f mode) (\<lambda>r.
     if r < 0 then Call (Print (''open '' @ f @ '' failed'' @ [CHR 0x0A])) (\<lambda>_. Exit)
     else runcmd cmd))"
| "runcmd (LIST left right) =
     fork1 (\<lambda>pid. if pid = 0 then runcmd left else Call Wait (\<lambda>_. runcmd right))"
| "runcmd (PIPE left right) =
     MkPipe (\<lambda>r p0 p1.
     if r < 0 then sh_panic ''pipe''
     else
       fork1 (\<lambda>pid.
       if pid = 0 then
         Call (Close 1) (\<lambda>_. Call (Dup p1) (\<lambda>_. Call (Close p0) (\<lambda>_. Call (Close p1) (\<lambda>_. runcmd left))))
       else
         fork1 (\<lambda>pid.
         if pid = 0 then
           Call (Close 0) (\<lambda>_. Call (Dup p0) (\<lambda>_. Call (Close p0) (\<lambda>_. Call (Close p1) (\<lambda>_. runcmd right))))
         else
           Call (Close p0) (\<lambda>_. Call (Close p1) (\<lambda>_. Call Wait (\<lambda>_. Call Wait (\<lambda>_. Exit)))))))"
| "runcmd (BACK cmd) = fork1 (\<lambda>pid. if pid = 0 then runcmd cmd else Exit)"

text \<open>
  The loop of \<^verbatim>\<open>main\<close> over the lines \<^verbatim>\<open>getcmd\<close> reads, up to the end of the input; \<open>buf\<close> is one of them, not
  empty.
\<close>

definition run_line :: "string \<Rightarrow> shell" where
  "run_line buf =
     (case parsecmd buf 0 of
        Ret (cmd, buf') _ \<Rightarrow> runcmd (map_cmd (\<lambda>w. cstring buf' (fst w)) cmd)
      | Panic s \<Rightarrow> sh_panic s
      | _ \<Rightarrow> Exit)"

fun sh_main :: "string list \<Rightarrow> shell" where
  "sh_main [] = Call (Print ''$ '') (\<lambda>_. Exit)"
| "sh_main (buf # lines) =
     Call (Print ''$ '') (\<lambda>_.
     if take 3 buf = ''cd '' then
       Call (Chdir (drop 3 (butlast buf))) (\<lambda>r.
       if r < 0 then Call (Print (''cannot cd '' @ drop 3 (butlast buf) @ [CHR 0x0A])) (\<lambda>_. sh_main lines)
       else sh_main lines)
     else fork1 (\<lambda>pid. if pid = 0 then run_line buf else Call Wait (\<lambda>_. sh_main lines)))"

section \<open>Descriptors\<close>

text \<open>
  What a run does to descriptors, as the kernel implements the calls (\<^verbatim>\<open>fdalloc\<close> takes the lowest free
  descriptor, a child gets a copy of the table).  \<open>launch\<close> lists the programs a run starts with the
  descriptors they get, when every call succeeds; a pipe is named by the place in the tree of
  processes where it was made.
\<close>

datatype obj = Std nat | File string nat | PipeR "nat list" | PipeW "nat list"

type_synonym fds = "nat \<Rightarrow> obj option"

definition lowest :: "fds \<Rightarrow> nat option" where
  "lowest t = find (\<lambda>n. t n = None) [0..<16]"

definition put_lowest :: "obj \<Rightarrow> fds \<Rightarrow> (int \<times> fds)" where
  "put_lowest b t = (case lowest t of None \<Rightarrow> (-1, t) | Some n \<Rightarrow> (int n, t(n \<mapsto> b)))"

primrec launch :: "shell \<Rightarrow> nat list \<Rightarrow> fds \<Rightarrow> (string list \<times> fds) list" where
  "launch Exit = (\<lambda>path t. [])"
| "launch (Call c k) = (\<lambda>path t.
     case c of
       Fork \<Rightarrow> launch (k 0) (0 # path) t @ launch (k 1) (1 # path) t
     | Wait \<Rightarrow> launch (k 1) path t
     | Exec p argv \<Rightarrow> [(argv, t)]
     | Open f mode \<Rightarrow> (case put_lowest (File f mode) t of (r, t') \<Rightarrow> launch (k r) path t')
     | Close fd \<Rightarrow> launch (k 0) path (t(nat fd := None))
     | Dup fd \<Rightarrow> (case t (nat fd) of None \<Rightarrow> launch (k (-1)) path t
                 | Some b \<Rightarrow> (case put_lowest b t of (r, t') \<Rightarrow> launch (k r) path t'))
     | Chdir d \<Rightarrow> launch (k 0) path t
     | Print s \<Rightarrow> launch (k 0) path t)"
| "launch (MkPipe k) = (\<lambda>path t.
     case put_lowest (PipeR path) t of (p0, t') \<Rightarrow>
     case put_lowest (PipeW path) t' of (p1, t'') \<Rightarrow>
       if p0 < 0 \<or> p1 < 0 then launch (k (-1) 0 0) path t else launch (k 0 p0 p1) path t'')"

text \<open>A process with exactly the three standard descriptors open.\<close>

definition three :: "obj \<Rightarrow> obj \<Rightarrow> obj \<Rightarrow> fds" where
  "three i out e = (\<lambda>n. if n = 0 then Some i else if n = 1 then Some out else if n = 2 then Some e else None)"

text \<open>What the command means: which programs run, on which input and output.\<close>

fun plan :: "string cmd \<Rightarrow> nat list \<Rightarrow> obj \<Rightarrow> obj \<Rightarrow> obj \<Rightarrow> (string list \<times> fds) list" where
  "plan (EXEC argv) path i out e = (if argv = [] then [] else [(argv, three i out e)])"
| "plan (REDIR c f mode fd) path i out e = (if fd = 0 then plan c path (File f mode) out e else plan c path i (File f mode) e)"
| "plan (PIPE l r) path i out e = plan l (0 # path) i (PipeW path) e @ plan r (0 # 1 # path) (PipeR path) out e"
| "plan (LIST l r) path i out e = plan l (0 # path) i out e @ plan r (1 # path) i out e"
| "plan (BACK c) path i out e = plan c (0 # path) i out e"

fun std_redirs :: "'w cmd \<Rightarrow> bool" where
  "std_redirs (EXEC argv) = True"
| "std_redirs (REDIR c f mode fd) \<longleftrightarrow> fd \<le> 1 \<and> std_redirs c"
| "std_redirs (PIPE l r) \<longleftrightarrow> std_redirs l \<and> std_redirs r"
| "std_redirs (LIST l r) \<longleftrightarrow> std_redirs l \<and> std_redirs r"
| "std_redirs (BACK c) \<longleftrightarrow> std_redirs c"

lemma upt16: "[0..<16] = [0, 1, 2, 3, 4, 5, 6, 7, 8, 9, 10, 11, 12, 13, 14, 15 :: nat]"
  by (simp add: upt_rec)

text \<open>The descriptors at each stage of a pipeline and of a redirection.\<close>

lemma pipe_fds:
  "put_lowest (PipeR p) (three i out e) = (3, (three i out e)(3 \<mapsto> PipeR p))"
  "put_lowest (PipeW p) ((three i out e)(3 \<mapsto> PipeR p)) = (4, (three i out e)(3 \<mapsto> PipeR p, 4 \<mapsto> PipeW p))"
  "put_lowest b ((three i out e)(3 \<mapsto> PipeR p, 4 \<mapsto> PipeW p, Suc 0 := None)) = (1, (three i b e)(3 \<mapsto> PipeR p, 4 \<mapsto> PipeW p))"
  "put_lowest b ((three i out e)(3 \<mapsto> PipeR p, 4 \<mapsto> PipeW p, 0 := None)) = (0, (three b out e)(3 \<mapsto> PipeR p, 4 \<mapsto> PipeW p))"
  "put_lowest b ((three i out e)(0 := None)) = (0, three b out e)"
  "put_lowest b ((three i out e)(Suc 0 := None)) = (1, three i b e)"
  "(three i out e)(3 := None, 4 := None) = three i out e"
  by (auto simp: put_lowest_def lowest_def upt16 three_def fun_eq_iff)

lemma launch_fork1: "launch (fork1 k) path t = launch (k 0) (0 # path) t @ launch (k 1) (1 # path) t"
  by (simp add: fork1_def)



end
