(* ===== verification/Umalloc.thy ===== *)
theory Umalloc
  imports Prelude
begin

text \<open>
  The user-level allocator \<^verbatim>\<open>umalloc.c\<close>.  A header is an object at an address, with its fields \<^verbatim>\<open>s.ptr\<close>
  and \<^verbatim>\<open>s.size\<close>; addresses and sizes are numbers below \<open>2 ^ 32\<close>, and pointer steps, sums of sizes and
  the count of units wrap as the code's \<^verbatim>\<open>uint\<close> does.  \<^verbatim>\<open>base\<close> is the address the linker gave to the
  static header.  \<^verbatim>\<open>sbrk\<close> is what \<^verbatim>\<open>sys_sbrk\<close> and \<^verbatim>\<open>growproc\<close> do to the size of the process; how much
  memory the kernel still has is the number \<open>brklim\<close>, which may change between calls.  The loops over
  the circular free list are partial functions: a walk that never ends is \<open>None\<close>.

  The lemmas show that the walks end, that live blocks never overlap each other or the free list,
  that no memory is lost, and that neighbouring free blocks are always merged.
\<close>

section \<open>The allocator\<close>

record heap_st =
  hptr :: "nat \<Rightarrow> nat"
  hsize :: "nat \<Rightarrow> nat"
  base :: nat
  freep :: nat
  brk :: nat
  brklim :: nat

definition uadd :: "nat \<Rightarrow> nat \<Rightarrow> nat" where
  "uadd a b = (a + b) mod 4294967296"

text \<open>\<^verbatim>\<open>p + n\<close> and \<^verbatim>\<open>p - 1\<close> on pointers to the eight bytes of a header.\<close>

definition padd :: "nat \<Rightarrow> nat \<Rightarrow> nat" where
  "padd p n = (p + 8 * n) mod 4294967296"

definition pdec :: "nat \<Rightarrow> nat" where
  "pdec p = (p + 4294967288) mod 4294967296"

definition sbrk :: "int \<Rightarrow> heap_st \<Rightarrow> nat \<times> heap_st" where
  "sbrk n s =
     (let new = nat ((int (brk s) + n) mod 4294967296) in
      if 0 < n then
        if brk s + nat n \<le> brklim s then (brk s, s\<lparr>brk := new\<rparr>) else (4294967295, s)
      else if n < 0 then
        if brk s \<le> new then (brk s, s)
        else if new = 0 then (4294967295, s)
        else (brk s, s\<lparr>brk := new\<rparr>)
      else (brk s, s))"

partial_function (option) free_find :: "heap_st \<Rightarrow> nat \<Rightarrow> nat \<Rightarrow> nat option" where
  "free_find s bp p =
     (if bp > p \<and> bp < hptr s p then Some p
      else if p \<ge> hptr s p \<and> (bp > p \<or> bp < hptr s p) then Some p
      else free_find s bp (hptr s p))"

definition free :: "nat \<Rightarrow> heap_st \<Rightarrow> heap_st option" where
  "free ap s =
     (let bp = pdec ap in
      Option.bind (free_find s bp (freep s)) (\<lambda>p.
      let s1 = (if padd bp (hsize s bp) = hptr s p
                then s\<lparr>hsize := (hsize s)(bp := uadd (hsize s bp) (hsize s (hptr s p))),
                       hptr := (hptr s)(bp := hptr s (hptr s p))\<rparr>
                else s\<lparr>hptr := (hptr s)(bp := hptr s p)\<rparr>);
          s2 = (if padd p (hsize s1 p) = bp
                then s1\<lparr>hsize := (hsize s1)(p := uadd (hsize s1 p) (hsize s1 bp)),
                        hptr := (hptr s1)(p := hptr s1 bp)\<rparr>
                else s1\<lparr>hptr := (hptr s1)(p := bp)\<rparr>)
      in Some (s2\<lparr>freep := p\<rparr>)))"

definition morecore :: "nat \<Rightarrow> heap_st \<Rightarrow> (nat \<times> heap_st) option" where
  "morecore nu0 s =
     (let nu = (if nu0 < 4096 then 4096 else nu0);
          bytes = (nu * 8) mod 4294967296;
          (p, s1) = sbrk (if bytes < 2147483648 then int bytes else int bytes - 4294967296) s
      in if p = 4294967295 then Some (0, s1)
         else
           Option.bind (free (padd p 1) (s1\<lparr>hsize := (hsize s1)(p := nu)\<rparr>)) (\<lambda>s2.
           Some (freep s2, s2)))"

partial_function (option) malloc_loop :: "nat \<Rightarrow> nat \<Rightarrow> nat \<Rightarrow> heap_st \<Rightarrow> (nat \<times> heap_st) option" where
  "malloc_loop nunits prevp p s =
     (if hsize s p \<ge> nunits then
        if hsize s p = nunits then
          Some (padd p 1, s\<lparr>hptr := (hptr s)(prevp := hptr s p), freep := prevp\<rparr>)
        else
          (let n = hsize s p - nunits; q = padd p n in
           Some (padd q 1, s\<lparr>hsize := (hsize s)(p := n, q := nunits), freep := prevp\<rparr>))
      else if p = freep s then
        Option.bind (morecore nunits s) (\<lambda>(p', s').
        if p' = 0 then Some (0, s') else malloc_loop nunits p' (hptr s' p') s')
      else malloc_loop nunits p (hptr s p) s)"

definition units :: "nat \<Rightarrow> nat" where
  "units nbytes = (nbytes + 7) mod 4294967296 div 8 + 1"

definition malloc :: "nat \<Rightarrow> heap_st \<Rightarrow> (nat \<times> heap_st) option" where
  "malloc nbytes s =
     (let s1 = (if freep s = 0
                then s\<lparr>hptr := (hptr s)(base s := base s), freep := base s, hsize := (hsize s)(base s := 0)\<rparr>
                else s);
          prevp = freep s1
      in malloc_loop (units nbytes) prevp (hptr s1 prevp) s1)"

section \<open>Linked headers\<close>

fun links :: "(nat \<Rightarrow> nat) \<Rightarrow> nat list \<Rightarrow> bool" where
  "links h (x # y # zs) \<longleftrightarrow> h x = y \<and> links h (y # zs)"
| "links h [x] \<longleftrightarrow> True"
| "links h [] \<longleftrightarrow> True"

lemma links_split: "links h (xs @ y # zs) \<longleftrightarrow> links h (xs @ [y]) \<and> links h (y # zs)"
  by (induction h xs rule: links.induct) auto

lemma links_upd: "y \<notin> set xs \<Longrightarrow> links (h(y := v)) (xs @ [z]) = links h (xs @ [z])"
  by (induction h xs rule: links.induct) auto

lemma links_Cons: "links h (x # zs) \<longleftrightarrow> zs = [] \<or> h x = hd zs \<and> links h zs"
  by (cases zs) auto

section \<open>Tilings\<close>

text \<open>
  The blocks that start at the addresses of \<open>B\<close> tile the bytes from \<open>lo\<close> to \<open>hi\<close>: they are not empty, do
  not overlap and leave no byte out.
\<close>

definition tiled :: "nat \<Rightarrow> nat \<Rightarrow> (nat \<Rightarrow> nat) \<Rightarrow> nat set \<Rightarrow> bool" where
  "tiled lo hi sz B \<longleftrightarrow>
     (\<forall>a\<in>B. lo \<le> a \<and> 0 < sz a \<and> a + 8 * sz a \<le> hi)
     \<and> (\<forall>a\<in>B. \<forall>b\<in>B. a < b \<longrightarrow> a + 8 * sz a \<le> b)
     \<and> (\<forall>x. lo \<le> x \<and> x < hi \<longrightarrow> (\<exists>a\<in>B. a \<le> x \<and> x < a + 8 * sz a))"

lemma tiledD:
  assumes "tiled lo hi sz B"
  shows "a \<in> B \<Longrightarrow> lo \<le> a" "a \<in> B \<Longrightarrow> 0 < sz a" "a \<in> B \<Longrightarrow> a + 8 * sz a \<le> hi"
    "a \<in> B \<Longrightarrow> b \<in> B \<Longrightarrow> a < b \<Longrightarrow> a + 8 * sz a \<le> b"
    "lo \<le> x \<Longrightarrow> x < hi \<Longrightarrow> \<exists>a\<in>B. a \<le> x \<and> x < a + 8 * sz a"
  using assms unfolding tiled_def by blast+

lemma tiled_cong: "tiled lo hi sz B \<Longrightarrow> \<forall>a\<in>B. sz' a = sz a \<Longrightarrow> tiled lo hi sz' B"
  unfolding tiled_def by (metis (no_types, lifting))

lemma tiled_merge:
  assumes T: "tiled lo hi sz B" and ab: "a \<in> B" "b \<in> B" "a + 8 * sz a = b"
  shows "tiled lo hi (sz(a := sz a + sz b)) (B - {b})"
proof -
  note D = tiledD [OF T]
  have ne: "a < b" using D(2) [OF ab(1)] ab(3) by simp
  have b: "b + 8 * sz b \<le> hi" "0 < sz b" using D ab by auto
  have ba: "a + (8 * sz a + 8 * sz b) \<le> hi" using b(1) ab(3) by simp
  have bnd: "b + 8 * sz b \<le> c" if "c \<in> B" "a < c" "c \<noteq> b" for c
    using D(4) [OF ab(1) that(1,2)] D(4) [OF ab(2) that(1)] ab(3) that(3) by (cases "b < c") auto
  have low: "c + 8 * sz c \<le> a" if "c \<in> B" "c < a" for c using D(4) that ab(1) by blast
  show ?thesis unfolding tiled_def
  proof (intro conjI ballI allI impI)
    fix c d assume "c \<in> B - {b}" "d \<in> B - {b}" "c < d"
    then show "c + 8 * (sz(a := sz a + sz b)) c \<le> d" using bnd [of d] D(4) [of c d] ab(3) by auto
  next
    fix x assume "lo \<le> x \<and> x < hi"
    then obtain c where c: "c \<in> B" "c \<le> x" "x < c + 8 * sz c" using D(5) by blast
    show "\<exists>c\<in>B - {b}. c \<le> x \<and> x < c + 8 * (sz(a := sz a + sz b)) c"
      using c ab ne by (cases "c = b") (auto intro: bexI [of _ a] bexI [of _ c])
  qed (use D ab b in \<open>auto simp: ba\<close>)
qed

lemma tiled_split:
  assumes T: "tiled lo hi sz B" and a: "a \<in> B" "0 < k" "k < sz a"
  defines "n \<equiv> sz a - k"
  shows "a + 8 * n \<notin> B" "tiled lo hi (sz(a := n, a + 8 * n := k)) (insert (a + 8 * n) B)"
proof -
  note D = tiledD [OF T]
  have n: "0 < n" "n + k = sz a" using a by (auto simp: n_def)
  show nin: "a + 8 * n \<notin> B" using D(4) [OF a(1), of "a + 8 * n"] n a(2) by auto
  have top: "a + 8 * n + 8 * k \<le> hi" "a + 8 * n \<le> hi" using D(3) [OF a(1)] n(2) by simp_all
  have hi: "c + 8 * sz c \<le> d" if "c \<in> B" "d \<in> B" "c < d" for c d using D(4) that by blast
  show "tiled lo hi (sz(a := n, a + 8 * n := k)) (insert (a + 8 * n) B)" unfolding tiled_def
  proof (intro conjI ballI allI impI)
    fix c d assume cd: "c \<in> insert (a + 8 * n) B" "d \<in> insert (a + 8 * n) B" "c < d"
    show "c + 8 * (sz(a := n, a + 8 * n := k)) c \<le> d"
      using cd hi [of c d] hi [of a d] hi [of c a] hi [of a c] n a nin by (cases "c = a"; cases "c < a") auto
  next
    fix x assume "lo \<le> x \<and> x < hi"
    then obtain c where c: "c \<in> B" "c \<le> x" "x < c + 8 * sz c" using D(5) by blast
    show "\<exists>c\<in>insert (a + 8 * n) B. c \<le> x \<and> x < c + 8 * (sz(a := n, a + 8 * n := k)) c"
    proof (cases "c = a \<and> a + 8 * n \<le> x")
      case True
      then show ?thesis using c n by (intro bexI [of _ "a + 8 * n"]) auto
    next
      case False
      then show ?thesis using c n nin by (intro bexI [of _ c]) auto
    qed
  qed (use D(1-3) a n top in \<open>auto simp: trans_le_add1\<close>)
qed

lemma tiled_grow:
  assumes T: "tiled lo hi sz B" and n: "0 < n" "lo \<le> hi"
  shows "hi \<notin> B" "tiled lo (hi + 8 * n) (sz(hi := n)) (insert hi B)"
proof -
  note D = tiledD [OF T]
  show nin: "hi \<notin> B" using D(2,3) [of hi] by auto
  have lt: "c + 8 * sz c \<le> hi" "c < hi" if "c \<in> B" for c using D(2,3) [OF that] by auto
  show "tiled lo (hi + 8 * n) (sz(hi := n)) (insert hi B)" unfolding tiled_def
  proof (intro conjI ballI allI impI)
    fix x assume x: "lo \<le> x \<and> x < hi + 8 * n"
    show "\<exists>c\<in>insert hi B. c \<le> x \<and> x < c + 8 * (sz(hi := n)) c"
    proof (cases "x < hi")
      case True
      then obtain c where "c \<in> B" "c \<le> x" "x < c + 8 * sz c" using D(5) x by blast
      then show ?thesis using nin by (intro bexI [of _ c]) auto
    qed (use x in auto)
  next
    fix c d assume "c \<in> insert hi B" "d \<in> insert hi B" "c < d"
    then show "c + 8 * (sz(hi := n)) c \<le> d" using lt [of c] lt [of d] D(4) [of c d] by auto
  qed (use D n nin lt in \<open>auto simp: trans_le_add1\<close>)
qed

section \<open>The free list\<close>

definition gap :: "(nat \<Rightarrow> nat) \<Rightarrow> nat \<Rightarrow> nat \<Rightarrow> bool" where
  "gap sz a b \<longleftrightarrow> a + 8 * sz a < b"

text \<open>
  The heap from \<open>lo\<close> to the break: the free list runs from \<^verbatim>\<open>base\<close> through the free blocks \<open>ys\<close> in order of
  address and back, no two free blocks touch, and the free blocks and the live blocks \<open>L\<close> tile the heap.
\<close>

definition heap_inv :: "nat \<Rightarrow> heap_st \<Rightarrow> nat list \<Rightarrow> nat set \<Rightarrow> bool" where
  "heap_inv lo s ys L \<longleftrightarrow>
     links (hptr s) (base s # ys @ [base s]) \<and> sorted_wrt (gap (hsize s)) (base s # ys) \<and> freep s \<in> set (base s # ys)
     \<and> hsize s (base s) = 0 \<and> tiled lo (brk s) (hsize s) (set ys \<union> L) \<and> set ys \<inter> L = {}
     \<and> 0 < base s \<and> base s + 8 \<le> lo \<and> lo \<le> brk s \<and> brk s < 2147483648 \<and> brklim s < 2147483648"

lemma heap_invD:
  assumes "heap_inv lo s ys L"
  shows "links (hptr s) (base s # ys @ [base s])" "sorted_wrt (gap (hsize s)) (base s # ys)" "freep s \<in> set (base s # ys)"
    "hsize s (base s) = 0" "tiled lo (brk s) (hsize s) (set ys \<union> L)" "set ys \<inter> L = {}"
    "0 < base s" "base s + 8 \<le> lo" "lo \<le> brk s" "brk s < 2147483648" "brklim s < 2147483648"
  using assms by (simp_all add: heap_inv_def)

lemma gap_less: "sorted_wrt (gap sz) xs \<Longrightarrow> sorted_wrt (<) xs"
  by (erule sorted_wrt_mono_rel [rotated]) (simp add: gap_def)

subsection \<open>Finding the place of a block\<close>

lemma find_forward:
  assumes "links (hptr s) (q # us @ vs @ [r])" "sorted_wrt (<) (q # us @ vs)" "r \<le> q"
    and "\<forall>x\<in>set (q # us). x < bp" "\<forall>x\<in>set vs. bp < x"
  shows "free_find s bp q = Some (last (q # us))"
  using assms
proof (induction us arbitrary: q)
  case Nil
  then show ?case by (subst free_find.simps) (cases vs; auto)
next
  case (Cons u us)
  have "free_find s bp u = Some (last (u # us))" using Cons.prems by (intro Cons.IH) auto
  then show ?case using Cons.prems by (subst free_find.simps) auto
qed

lemma find_around:
  assumes "links (hptr s) (q # vs @ [r])" "sorted_wrt (<) (q # vs)" "r < bp" "\<forall>x\<in>set (q # vs). bp < x"
  shows "free_find s bp q = free_find s bp r"
  using assms
proof (induction vs arbitrary: q)
  case Nil
  then show ?case by (subst free_find.simps) auto
next
  case (Cons v vs)
  have "free_find s bp v = free_find s bp r" using Cons.prems by (intro Cons.IH) auto
  then show ?case using Cons.prems by (subst free_find.simps) auto
qed

lemma below_above:
  assumes "sorted_wrt (<) ys" "bp \<notin> set ys"
  shows "\<exists>us vs. ys = us @ vs \<and> (\<forall>x\<in>set us. x < bp) \<and> (\<forall>x\<in>set vs. bp < (x :: nat))"
  using assms
proof (induction ys)
  case (Cons y ys)
  show ?case
  proof (cases "y < bp")
    case True
    then obtain us vs where "ys = us @ vs" "\<forall>x\<in>set us. x < bp" "\<forall>x\<in>set vs. bp < x" using Cons by auto
    then show ?thesis using True by (intro exI [of _ "y # us"] exI [of _ vs]) simp
  next
    case False
    then show ?thesis using Cons.prems by (intro exI [of _ "[]"] exI [of _ "y # ys"]) auto
  qed
qed simp

lemma find_place:
  assumes l: "links (hptr s) (b # us @ vs @ [b])" and so: "sorted_wrt (<) (b # us @ vs)" and p: "p \<in> set (b # us @ vs)"
    and bp: "b < bp" "\<forall>x\<in>set us. x < bp" "\<forall>x\<in>set vs. bp < x"
  shows "free_find s bp p = Some (last (b # us))"
proof (cases "p \<in> set vs")
  case True
  then obtain v1 v2 where v: "vs = v1 @ p # v2" by (auto simp: in_set_conv_decomp)
  have "links (hptr s) (p # v2 @ [b])" using l links_split [of "hptr s" "b # us @ v1" p "v2 @ [b]"] by (simp add: v)
  then have "free_find s bp p = free_find s bp b" using so bp v by (intro find_around) (auto simp: sorted_wrt_append)
  also have "\<dots> = Some (last (b # us))" using l so bp by (intro find_forward) auto
  finally show ?thesis .
next
  case False
  then have "p \<in> set (b # us)" using p by auto
  then obtain u1 u2 where u: "b # us = u1 @ p # u2" by (meson in_set_conv_decomp)
  have e: "b # us @ vs @ [b] = u1 @ p # u2 @ vs @ [b]" "b # us @ vs = u1 @ p # u2 @ vs" using u by (metis append.assoc append_Cons)+
  have "links (hptr s) (p # u2 @ vs @ [b])" using l unfolding e by (subst (asm) links_split) simp
  moreover have "sorted_wrt (<) (p # u2 @ vs)" using so unfolding e by (simp add: sorted_wrt_append)
  moreover have "b \<le> p" using so \<open>p \<in> set (b # us)\<close> by (auto simp: less_imp_le)
  moreover have "set (p # u2) \<subseteq> set (b # us)" unfolding u by auto
  then have "\<forall>x\<in>set (p # u2). x < bp" using bp by auto
  ultimately have "free_find s bp p = Some (last (p # u2))" using bp by (intro find_forward) auto
  also have "last (p # u2) = last (b # us)" unfolding u by simp
  finally show ?thesis .
qed

subsection \<open>Freeing a block\<close>

text \<open>Linking the block to its successor, which it swallows when they touch.\<close>

lemma link_right:
  fixes bp :: nat and h z :: "nat \<Rightarrow> nat"
  assumes l: "links h (p # vs @ [b])" and so: "sorted_wrt (gap z) vs" and lt: "b < bp" "\<forall>v\<in>set vs. bp < v"
    and T: "tiled lo hi z (U \<union> set vs \<union> insert bp L)" and d: "set vs \<inter> (U \<union> L) = {}"
  defines "R \<equiv> bp + 8 * z bp = h p"
  defines "z1 \<equiv> if R then z(bp := z bp + z (h p)) else z" and "h1 \<equiv> h(bp := if R then h (h p) else h p)"
  shows "\<exists>vs1. links h1 (bp # vs1 @ [b]) \<and> sorted_wrt (gap z1) (bp # vs1) \<and> set vs1 \<subseteq> set vs
    \<and> tiled lo hi z1 (U \<union> set vs1 \<union> insert bp L)"
proof (cases vs)
  case Nil
  then have "h p = b" "\<not> R" using l lt(1) by (auto simp: R_def)
  then show ?thesis using Nil T by (intro exI [of _ "[]"]) (simp add: h1_def z1_def)
next
  case (Cons v vs')
  have hp: "h p = v" and hv: "links h (v # vs' @ [b])" using l Cons by auto
  have v: "bp < v" "v \<notin> set vs'" "\<forall>x\<in>set vs'. gap z v x" "sorted_wrt (gap z) vs'" using so lt Cons by (auto simp: gap_def)
  have le: "bp + 8 * z bp \<le> v" using tiledD(4) [OF T, of bp v] Cons v(1) by simp
  show ?thesis
  proof (cases R)
    case True
    then have e: "bp + 8 * z bp = v" by (simp add: R_def hp)
    have "tiled lo hi z1 ((U \<union> set vs \<union> insert bp L) - {v})"
      using tiled_merge [OF T _ _ e] Cons True by (simp add: z1_def hp)
    moreover have "(U \<union> set vs \<union> insert bp L) - {v} = U \<union> set vs' \<union> insert bp L" using d v(1,2) Cons by auto
    moreover have "links h1 (bp # vs' @ [b])"
      using hv lt v(1) Cons True links_upd [of bp "vs'" h _ b] by (cases vs') (auto simp: h1_def hp)
    moreover have "sorted_wrt (gap z1) (bp # vs')"
    proof -
      have "gap z1 bp x" if "x \<in> set vs'" for x using v(3) that e True by (auto simp: gap_def z1_def hp)
      moreover have "sorted_wrt (gap z1) vs'"
        using v(4) by (rule sorted_wrt_mono_rel [rotated]) (use lt Cons in \<open>auto simp: gap_def z1_def\<close>)
      ultimately show ?thesis by simp
    qed
    ultimately show ?thesis using Cons by (intro exI [of _ vs']) auto
  next
    case False
    then have "bp + 8 * z bp < v" using le by (simp add: R_def hp)
    then have "gap z bp x" if "x \<in> set vs" for x using that v(3) Cons by (auto simp: gap_def)
    moreover have "links h1 (bp # vs @ [b])"
      using hv lt Cons False links_upd [of bp vs h _ b] by (auto simp: h1_def hp)
    ultimately show ?thesis using False so T by (intro exI [of _ vs]) (simp add: z1_def)
  qed
qed

text \<open>Linking it to its predecessor, which swallows it when they touch.\<close>

lemma link_left:
  fixes bp :: nat and h z :: "nat \<Rightarrow> nat"
  assumes lw: "links h (ws @ [p])" and lv: "links h (bp # vs @ [b])" and w: "b # us = ws @ [p]"
    and so: "sorted_wrt (gap z) (b # us)" "sorted_wrt (gap z) (bp # vs)" and lt: "\<forall>u\<in>set (b # us). u < bp"
    and T: "tiled lo hi z (set us \<union> set vs \<union> insert bp L)" and d: "bp \<notin> L" and b: "z b = 0"
  defines "M \<equiv> p + 8 * z p = bp"
  defines "z2 \<equiv> if M then z(p := z p + z bp) else z" and "h2 \<equiv> h(p := if M then h bp else bp)"
  shows "\<exists>ys. links h2 (b # ys @ [b]) \<and> sorted_wrt (gap z2) (b # ys) \<and> p \<in> set (b # ys) \<and> tiled lo hi z2 (set ys \<union> L)
    \<and> set ys \<subseteq> insert bp (set us \<union> set vs) \<and> z2 b = 0 \<and> (\<exists>x\<in>set ys. z bp \<le> z2 x)"
proof -
  have so': "sorted_wrt (gap z) ws" "\<forall>x\<in>set ws. gap z x p" using so(1) unfolding w by (auto simp: sorted_wrt_append)
  have pn: "p \<notin> set ws" using so'(2) by (auto simp: gap_def)
  have pb: "p < bp" using lt unfolding w by simp
  have vb: "\<forall>v\<in>set vs. bp + 8 * z bp < v" "sorted_wrt (gap z) vs" using so(2) by (auto simp: gap_def)
  have pv: "p \<notin> set (bp # vs)" using pb vb by auto
  have lw': "links h2 (ws @ [p])" using lw links_upd [OF pn] by (simp add: h2_def)
  show ?thesis
  proof (cases M)
    case True
    then have e: "p + 8 * z p = bp" by (simp add: M_def)
    have "p \<noteq> b" using e b lt by auto
    then obtain us0 where u: "ws = b # us0" "us = us0 @ [p]" using w by (cases ws) auto
    have "tiled lo hi z2 ((set us \<union> set vs \<union> insert bp L) - {bp})" using tiled_merge [OF T _ _ e] u True by (simp add: z2_def)
    moreover have "(set us \<union> set vs \<union> insert bp L) - {bp} = set (us0 @ p # vs) \<union> L" using d lt vb u by auto
    moreover have "links h2 (p # vs @ [b])" using lv True pv links_upd [of p vs h _ b] by (cases vs) (auto simp: h2_def)
    then have "links h2 (ws @ p # vs @ [b])" using lw' links_split by blast
    moreover have "sorted_wrt (gap z2) (ws @ p # vs)"
    proof -
      have 1: "gap z2 p v" if "v \<in> set vs" for v using vb that e True by (auto simp: gap_def z2_def)
      have 2: "gap z2 x p" if "x \<in> set ws" for x using so'(2) that pn by (auto simp: gap_def z2_def)
      have 3: "sorted_wrt (gap z2) ws" using so'(1) by (rule sorted_wrt_mono_rel [rotated]) (use pn in \<open>auto simp: gap_def z2_def\<close>)
      have 4: "sorted_wrt (gap z2) vs" using vb(2) by (rule sorted_wrt_mono_rel [rotated]) (use pv in \<open>auto simp: gap_def z2_def\<close>)
      have "gap z2 x v" if "x \<in> set ws" "v \<in> set vs" for x v using 1 [OF that(2)] 2 [OF that(1)] by (auto simp: gap_def)
      then show ?thesis using 1 2 3 4 by (simp add: sorted_wrt_append)
    qed
    moreover have "z2 b = 0" "z bp \<le> z2 p" using \<open>p \<noteq> b\<close> b True by (auto simp: z2_def)
    ultimately show ?thesis using u by (intro exI [of _ "us0 @ p # vs"]) auto
  next
    case False
    have "links h2 (p # bp # vs @ [b])" using lv False pv links_upd [of p "bp # vs" h _ b] by (simp add: h2_def)
    then have "links h2 (ws @ p # bp # vs @ [b])" using lw' links_split by blast
    then have l: "links h2 (b # us @ bp # vs @ [b])" using w by (metis append.assoc append_Cons append_Nil)
    have "p + 8 * z p \<le> bp"
    proof (cases "p = b")
      case False
      then have "p \<in> set us" using w by (metis last_ConsL last_ConsR last_in_set last_snoc)
      then show ?thesis using tiledD(4) [OF T, of p bp] pb by simp
    qed (use b pb in simp)
    then have 1: "gap z x bp" if "x \<in> set (b # us)" for x
      using that so'(2) pb False unfolding w by (auto simp: gap_def M_def)
    have "gap z x v" if "x \<in> set (b # us)" "v \<in> set vs" for x v using 1 [OF that(1)] vb(1) that(2) by (auto simp: gap_def)
    then have "sorted_wrt (gap z) ((b # us) @ bp # vs)" using 1 so by (simp only: sorted_wrt_append) auto
    moreover have "p \<in> set (b # us)" unfolding w by simp
    moreover have "set (us @ bp # vs) \<union> L = set us \<union> set vs \<union> insert bp L" by auto
    ultimately show ?thesis using l T b False by (intro exI [of _ "us @ bp # vs"]) (auto simp: z2_def)
  qed
qed

lemma padd_small: "p + 8 * n < 4294967296 \<Longrightarrow> padd p n = p + 8 * n"
  by (simp add: padd_def)

lemma pdec_small: "p < 4294967288 \<Longrightarrow> pdec (p + 8) = p"
  by (simp add: pdec_def)

lemma free_block:
  assumes I: "heap_inv lo s ys L" and bp: "bp \<in> L"
  shows "\<exists>s' ys'. free (bp + 8) s = Some s' \<and> heap_inv lo s' ys' (L - {bp}) \<and> (\<forall>a\<in>L - {bp}. hsize s' a = hsize s a)
    \<and> brk s' = brk s \<and> brklim s' = brklim s \<and> base s' = base s \<and> (\<exists>x\<in>set ys'. hsize s bp \<le> hsize s' x)"
proof -
  note D = heap_invD [OF I] and T = tiledD [OF heap_invD(5) [OF I]]
  let ?b = "base s" and ?h = "hptr s" and ?z = "hsize s"
  have so: "sorted_wrt (<) (?b # ys)" using gap_less [OF D(2)] .
  have lo: "lo \<le> bp" "?b < bp" using T(1) [of bp] bp D(8) by auto
  obtain us vs where y: "ys = us @ vs" and u: "\<forall>x\<in>set us. x < bp" and v: "\<forall>x\<in>set vs. bp < x"
    using below_above [of ys bp] so bp D(6) by auto
  define p where "p = last (?b # us)"
  obtain ws where w: "?b # us = ws @ [p]" using append_butlast_last_id [of "?b # us"] unfolding p_def by (metis list.distinct(1))
  have fb: "pdec (bp + 8) = bp" using T(3) [of bp] bp D(10) by (intro pdec_small) simp
  have find: "free_find s bp (freep s) = Some p"
    using D(1,3) so lo(2) u v unfolding p_def by (intro find_place) (simp_all add: y)
  have l0: "links ?h (ws @ p # vs @ [?b])" using D(1) w y by (metis append.assoc append_Cons append_Nil)
  have lw: "links ?h (ws @ [p])" and lv: "links ?h (p # vs @ [?b])" using l0 links_split [of ?h ws p "vs @ [?b]"] by blast+
  have B: "set ys \<union> L = set us \<union> set vs \<union> insert bp (L - {bp})" using bp y by auto
  have dv: "set vs \<inter> (set us \<union> (L - {bp})) = {}" using so D(6) y by (auto simp: sorted_wrt_append)
  have sv: "sorted_wrt (gap ?z) vs" "sorted_wrt (gap ?z) (?b # us)" using D(2) y by (auto simp: sorted_wrt_append)
  define R where "R \<longleftrightarrow> bp + 8 * ?z bp = ?h p"
  define z1 where "z1 = (if R then ?z(bp := ?z bp + ?z (?h p)) else ?z)"
  define h1 where "h1 = ?h(bp := if R then ?h (?h p) else ?h p)"
  obtain vs1 where v1: "links h1 (bp # vs1 @ [?b])" "sorted_wrt (gap z1) (bp # vs1)" "set vs1 \<subseteq> set vs"
    and T1: "tiled lo (brk s) z1 (set us \<union> set vs1 \<union> insert bp (L - {bp}))"
    using link_right [OF lv sv(1) lo(2) v D(5) [unfolded B] dv] unfolding z1_def h1_def R_def by blast
  have ub: "\<forall>x\<in>set (?b # us). x < bp" using u lo by simp
  have wb: "bp \<notin> set ws" using ub unfolding w by auto
  have lw1: "links h1 (ws @ [p])" using lw links_upd [OF wb] by (simp add: h1_def)
  have su: "sorted_wrt (gap z1) (?b # us)"
    using sv(2) by (rule sorted_wrt_mono_rel [rotated]) (use ub in \<open>auto simp: gap_def z1_def\<close>)
  have z1b: "z1 ?b = 0" using D(4) lo by (simp add: z1_def)
  define M where "M \<longleftrightarrow> p + 8 * z1 p = bp"
  define z2 where "z2 = (if M then z1(p := z1 p + z1 bp) else z1)"
  define h2 where "h2 = h1(p := if M then h1 bp else bp)"
  obtain ys' where y': "links h2 (?b # ys' @ [?b])" "sorted_wrt (gap z2) (?b # ys')" "p \<in> set (?b # ys')"
    and T2: "tiled lo (brk s) z2 (set ys' \<union> (L - {bp}))" and sub: "set ys' \<subseteq> insert bp (set us \<union> set vs1)"
    and z2b: "z2 ?b = 0" and big: "\<exists>x\<in>set ys'. z1 bp \<le> z2 x"
    using link_left [OF lw1 v1(1) w su v1(2) ub T1 _ z1b] unfolding z2_def h2_def M_def by blast
  define s' where "s' = s\<lparr>hsize := z2, hptr := h2, freep := p\<rparr>"
  have "?b < bp" "p < bp" using lo ub unfolding w by auto
  have pw: "p = ?b \<or> p \<in> set us" using w by (metis in_set_conv_decomp set_ConsD)
  have z: "bp + 8 * ?z bp \<le> brk s" using T(3) [of bp] bp by simp
  have uR: "uadd (?z bp) (?z (?h p)) = ?z bp + ?z (?h p)" if R
  proof -
    have "?h p \<in> set vs" using lv that lo z unfolding R_def by (cases vs) auto
    then have "?h p + 8 * ?z (?h p) \<le> brk s" using T(3) y by simp
    then show ?thesis using that D(10) unfolding R_def uadd_def by simp
  qed
  have "padd bp (?z bp) = bp + 8 * ?z bp" using z D(10) by (intro padd_small) simp
  then have s1: "(if padd bp (?z bp) = ?h p
      then s\<lparr>hsize := ?z(bp := uadd (?z bp) (?z (?h p))), hptr := ?h(bp := ?h (?h p))\<rparr> else s\<lparr>hptr := ?h(bp := ?h p)\<rparr>)
    = s\<lparr>hsize := z1, hptr := h1\<rparr>" using uR by (simp add: R_def z1_def h1_def)
  have zp: "p + 8 * z1 p \<le> brk s" using pw
  proof
    assume "p = ?b"
    then show ?thesis using z1b lo z by simp
  qed (use tiledD(3) [OF T1, of p] in simp)
  then have pp: "padd p (z1 p) = p + 8 * z1 p" using D(10) by (intro padd_small) simp
  have uM: "uadd (z1 p) (z1 bp) = z1 p + z1 bp" if M
    using that tiledD(3) [OF T1, of bp] D(10) unfolding M_def uadd_def by simp
  have run: "free (bp + 8) s = Some s'"
    unfolding free_def Let_def fb find bind.bind_lunit s1 using pp uM by (simp add: M_def z2_def h2_def s'_def)
  have dis: "set ys' \<inter> (L - {bp}) = {}" using sub v1(3) D(6) y by auto
  have "heap_inv lo s' ys' (L - {bp})" using y' T2 dis z2b D(7-11) by (simp add: heap_inv_def s'_def)
  moreover have "p \<notin> L" using pw D(6,8) y T(1) [of ?b] by auto
  then have "\<forall>a\<in>L - {bp}. z2 a = ?z a" by (auto simp: z2_def z1_def)
  moreover have "?z bp \<le> z1 bp" by (simp add: z1_def)
  then have "\<exists>x\<in>set ys'. ?z bp \<le> z2 x" using big le_trans by blast
  ultimately show ?thesis using run by (intro exI [of _ s'] exI [of _ ys']) (simp add: s'_def)
qed

subsection \<open>Taking a block\<close>

lemma heap_inv_pos: "heap_inv lo s ys L \<Longrightarrow> x \<in> set (base s # ys) \<Longrightarrow> 0 < x"
  using heap_invD(5,7,8) [of lo s ys L] tiledD(1) [of lo "brk s" "hsize s" "set ys \<union> L" x] by auto

lemma heap_inv_distinct: "heap_inv lo s ys L \<Longrightarrow> distinct (base s # ys)"
  using gap_less [OF heap_invD(2)] strict_sorted_iff by metis

text \<open>What the success of \<^verbatim>\<open>malloc\<close> for \<open>n\<close> units means: a new live block of that size.\<close>

definition new_block :: "nat \<Rightarrow> heap_st \<Rightarrow> heap_st \<Rightarrow> nat set \<Rightarrow> nat \<Rightarrow> nat \<Rightarrow> bool" where
  "new_block lo s s' L n r \<longleftrightarrow> (\<exists>a ys'. r = a + 8 \<and> a \<notin> L \<and> heap_inv lo s' ys' (insert a L) \<and> hsize s' a = n
     \<and> (\<forall>x\<in>L. hsize s' x = hsize s x) \<and> base s' = base s \<and> brklim s' = brklim s)"

lemma take_whole:
  assumes I: "heap_inv lo s ys L" and x: "x \<in> set (base s # ys)" "hptr s x = q" and q: "q \<in> set ys"
  shows "new_block lo s (s\<lparr>hptr := (hptr s)(x := hptr s q), freep := x\<rparr>) L (hsize s q) (q + 8)"
proof -
  note D = heap_invD [OF I]
  let ?b = "base s" and ?h = "hptr s"
  have di: "distinct (?b # ys)" using heap_inv_distinct [OF I] .
  obtain as cs where a: "?b # ys = as @ x # cs" using x(1) by (meson in_set_conv_decomp)
  have l: "links ?h (as @ x # cs @ [?b])" using D(1) a by (metis append.assoc append_Cons)
  then have "links ?h (x # cs @ [?b])" using links_split by blast
  moreover have "q \<noteq> ?b" using q di by auto
  ultimately obtain bs where c: "cs = q # bs" using x(2) by (cases cs) auto
  obtain ys' where y': "?b # ys' = as @ x # bs" using a by (cases as) auto
  have lq: "links ?h (as @ [x])" "links ?h (q # bs @ [?b])"
    using l c links_split [of ?h as x "q # bs @ [?b]"] by auto
  have dx: "x \<notin> set as" "x \<notin> set (q # bs)" using di unfolding a c by auto
  have "links (?h(x := ?h q)) (x # bs @ [?b])" using lq(2) dx links_upd [of x bs ?h _ ?b] by (cases bs) auto
  moreover have "links (?h(x := ?h q)) (as @ [x])" using lq(1) links_upd [OF dx(1)] by simp
  ultimately have "links (?h(x := ?h q)) (as @ x # bs @ [?b])" using links_split by blast
  moreover have "?b # ys' @ [?b] = as @ x # bs @ [?b]" using y' by (metis append.assoc append_Cons)
  ultimately have lk: "links (?h(x := ?h q)) (?b # ys' @ [?b])" by (simp only:)
  have so: "sorted_wrt (gap (hsize s)) (?b # ys')" using D(2) unfolding y' a c by (simp add: sorted_wrt_append)
  have sy: "set ys = insert q (set ys')" "q \<notin> set ys'"
  proof -
    have "insert ?b (set ys) = insert q (insert ?b (set ys'))" using a y' c by (metis Un_insert_right list.simps(15) set_append insert_commute)
    moreover have dq: "q \<notin> set (as @ x # bs)" using di unfolding a c by auto
    moreover have "distinct (?b # ys')" using di unfolding y' a c by auto
    ultimately show "set ys = insert q (set ys')"
      using di \<open>q \<noteq> ?b\<close> insert_ident [of ?b "set ys" "insert q (set ys')"] by (simp add: insert_commute)
    show "q \<notin> set ys'" using dq y' by (metis list.set_intros(2))
  qed
  have "x \<in> set (?b # ys')" unfolding y' by simp
  moreover have "set ys \<union> L = set ys' \<union> insert q L" "set ys' \<inter> insert q L = {}" using sy D(6) by auto
  ultimately have "heap_inv lo (s\<lparr>hptr := ?h(x := ?h q), freep := x\<rparr>) ys' (insert q L)"
    using lk so D(4,5,7-11) by (simp add: heap_inv_def)
  moreover have "q \<notin> L" using q D(6) by auto
  ultimately show ?thesis unfolding new_block_def by (intro exI [of _ q] exI [of _ ys']) simp
qed

lemma take_part:
  assumes I: "heap_inv lo s ys L" and x: "x \<in> set (base s # ys)" and q: "q \<in> set ys" "0 < n" "n < hsize s q"
  shows "new_block lo s (s\<lparr>hsize := (hsize s)(q := hsize s q - n, q + 8 * (hsize s q - n) := n), freep := x\<rparr>) L n (q + 8 * (hsize s q - n) + 8)"
proof -
  note D = heap_invD [OF I]
  define k where "k = hsize s q - n"
  define a where "a = q + 8 * k"
  define z where "z = (hsize s)(q := k, a := n)"
  have "q \<in> set ys \<union> L" using q by simp
  note S = tiled_split [OF D(5) this q(2,3), folded k_def, folded a_def, folded z_def]
  have na: "a \<notin> set ys" "a \<notin> L" using S(1) by auto
  have ql: "q \<notin> L" using q D(6) by auto
  have bq: "base s \<noteq> q" "base s \<noteq> a" using heap_inv_distinct [OF I] q tiledD(1) [OF D(5), of q] D(8) by (auto simp: a_def)
  have "gap z u v" if "gap (hsize s) u v" "u \<in> set (base s # ys)" for u v
    using that bq na q by (auto simp: gap_def z_def k_def)
  then have "sorted_wrt (gap z) (base s # ys)" using D(2) sorted_wrt_mono_rel [of "base s # ys" "gap (hsize s)" "gap z"] by blast
  moreover have "insert a (set ys \<union> L) = set ys \<union> insert a L" by simp
  ultimately have "heap_inv lo (s\<lparr>hsize := z, freep := x\<rparr>) ys (insert a L)"
    using D(1,4,6-11) S(2) x bq na unfolding heap_inv_def by (simp add: z_def)
  moreover have "\<forall>y\<in>L. z y = hsize s y" using na ql by (auto simp: z_def)
  ultimately show ?thesis unfolding new_block_def k_def [symmetric] a_def [symmetric] z_def [symmetric]
    using na(2) by (intro exI [of _ a] exI [of _ ys]) (simp add: z_def)
qed

lemma take_block:
  assumes I: "heap_inv lo s ys L" and x: "x \<in> set (base s # ys)" "hptr s x = q" and q: "q \<in> set ys" "0 < n" "n \<le> hsize s q"
  shows "\<exists>r s'. malloc_loop n x q s = Some (r, s') \<and> new_block lo s s' L n r \<and> brk s' = brk s"
proof -
  have "q + 8 * hsize s q \<le> brk s" using tiledD(3) [OF heap_invD(5) [OF I], of q] q(1) by simp
  then have lt: "q + 8 * hsize s q < 2147483648" using heap_invD(10) [OF I] by simp
  show ?thesis
  proof (cases "hsize s q = n")
    case True
    have "padd q 1 = q + 8" using lt q(2) True by (simp add: padd_small)
    then show ?thesis using take_whole [OF I x q(1)] True by (subst malloc_loop.simps) simp
  next
    case False
    then have n: "n < hsize s q" using q by simp
    define k where "k = hsize s q - n"
    have pd: "padd q k = q + 8 * k" "padd (q + 8 * k) 1 = q + 8 * k + 8"
      using lt n q(2) unfolding k_def by (auto intro!: padd_small simp: padd_small)
    show ?thesis using take_part [OF I x(1) q(1,2) n] pd n unfolding k_def by (subst malloc_loop.simps) (simp add: Let_def)
  qed
qed

lemma walk_on:
  assumes "links (hptr s) (x # us @ [q])" "\<forall>u\<in>set us. hsize s u < n \<and> u \<noteq> freep s"
  shows "malloc_loop n x (hptr s x) s = malloc_loop n (last (x # us)) q s"
  using assms
proof (induction us arbitrary: x)
  case (Cons u us)
  have "malloc_loop n x u s = malloc_loop n u (hptr s u) s" using Cons.prems by (subst malloc_loop.simps) simp
  then show ?case using Cons by auto
qed simp

text \<open>The walk from \<^verbatim>\<open>freep\<close> visits every block of the list and \<^verbatim>\<open>freep\<close> itself last.\<close>

lemma walk_order:
  assumes I: "heap_inv lo s ys L"
  shows "\<exists>zs. links (hptr s) (freep s # zs @ [freep s]) \<and> set (zs @ [freep s]) = set (base s # ys) \<and> distinct (zs @ [freep s])"
proof -
  note D = heap_invD [OF I]
  let ?b = "base s" and ?f = "freep s"
  obtain as bs where a: "?b # ys = as @ ?f # bs" using D(3) by (meson in_set_conv_decomp)
  have "links (hptr s) (as @ ?f # bs @ [?b])" using D(1) a by (metis append.assoc append_Cons)
  then have l: "links (hptr s) (as @ [?f])" "links (hptr s) (?f # bs @ [?b])" using links_split by blast+
  have "links (hptr s) (?f # bs @ as @ [?f])"
  proof (cases as)
    case Nil
    then show ?thesis using l a by simp
  next
    case (Cons c cs)
    then have c: "as = ?b # cs" using a by simp
    show ?thesis using l links_split [of "hptr s" "?f # bs" ?b "cs @ [?f]"] by (simp add: c)
  qed
  moreover have "set ((bs @ as) @ [?f]) = set (?b # ys)" unfolding a by auto
  moreover have "distinct ((bs @ as) @ [?f])" using heap_inv_distinct [OF I] unfolding a by auto
  ultimately show ?thesis by (intro exI [of _ "bs @ as"]) simp
qed

lemma loop_hit:
  assumes I: "heap_inv lo s ys L" and n: "0 < n" "\<exists>x\<in>set ys. n \<le> hsize s x"
  shows "\<exists>r s'. malloc_loop n (freep s) (hptr s (freep s)) s = Some (r, s') \<and> new_block lo s s' L n r \<and> brk s' = brk s"
proof -
  let ?f = "freep s"
  obtain zs where z: "links (hptr s) (?f # zs @ [?f])" "set (zs @ [?f]) = set (base s # ys)" "distinct (zs @ [?f])"
    using walk_order [OF I] by blast
  have "\<exists>x\<in>set (zs @ [?f]). n \<le> hsize s x" using n(2) unfolding z(2) by auto
  from split_list_first_prop [OF this]
  obtain us q ws where q: "zs @ [?f] = us @ q # ws" "n \<le> hsize s q" "\<forall>u\<in>set us. \<not> n \<le> hsize s u"
    by blast
  have e: "?f # zs @ [?f] = (?f # us) @ q # ws" using q(1) by simp
  have l: "links (hptr s) (?f # us @ [q])" using z(1) unfolding e by (subst (asm) links_split) simp
  have "last (us @ q # ws) = ?f" using q(1) by (metis last_snoc)
  then have last: "?f \<in> set (q # ws)" using last_in_set [of "q # ws"] by simp
  then have "?f \<notin> set us" using z(3) unfolding q(1) by auto
  then have "malloc_loop n ?f (hptr s ?f) s = malloc_loop n (last (?f # us)) q s" using l q(3) by (intro walk_on) auto
  moreover have "q \<in> set (base s # ys)" unfolding z(2) [symmetric] q(1) by simp
  then have "q \<in> set ys" using q(2) n(1) heap_invD(4) [OF I] by auto
  moreover have "last (?f # us) \<in> set (base s # ys)"
  proof -
    have "set (?f # us) \<subseteq> set (zs @ [?f])" unfolding q(1) using last by auto
    then show ?thesis using z(2) last_in_set [of "?f # us"] by auto
  qed
  moreover have "hptr s (last (?f # us)) = q"
  proof -
    have "?f # us @ [q] = butlast (?f # us) @ last (?f # us) # [q]" using append_butlast_last_id [of "?f # us"] by simp
    then have "links (hptr s) (last (?f # us) # [q])" using l links_split by metis
    then show ?thesis by simp
  qed
  ultimately show ?thesis using take_block [OF I] q(2) n(1) by simp
qed

lemma loop_miss:
  assumes I: "heap_inv lo s ys L" and n: "0 < n" "\<forall>x\<in>set ys. hsize s x < n"
  shows "malloc_loop n (freep s) (hptr s (freep s)) s =
    Option.bind (morecore n s) (\<lambda>(p', s'). if p' = 0 then Some (0, s') else malloc_loop n p' (hptr s' p') s')"
proof -
  let ?f = "freep s"
  obtain zs where z: "links (hptr s) (?f # zs @ [?f])" "set (zs @ [?f]) = set (base s # ys)" "distinct (zs @ [?f])"
    using walk_order [OF I] by blast
  have small: "hsize s u < n" if "u \<in> set (zs @ [?f])" for u using that n heap_invD(4) [OF I] unfolding z(2) by auto
  have "malloc_loop n ?f (hptr s ?f) s = malloc_loop n (last (?f # zs)) ?f s" using z small by (intro walk_on) auto
  also have "\<dots> = Option.bind (morecore n s) (\<lambda>(p', s'). if p' = 0 then Some (0, s') else malloc_loop n p' (hptr s' p') s')"
    using small [of ?f] by (subst malloc_loop.simps) simp
  finally show ?thesis .
qed

subsection \<open>More memory\<close>

lemma grow_heap:
  assumes I: "heap_inv lo s ys L" and n: "0 < n" "brk s + 8 * n \<le> brklim s"
  shows "brk s \<notin> L" "heap_inv lo (s\<lparr>brk := brk s + 8 * n, hsize := (hsize s)(brk s := n)\<rparr>) ys (insert (brk s) L)"
proof -
  note D = heap_invD [OF I]
  note G = tiled_grow [OF D(5) n(1) D(9)]
  show "brk s \<notin> L" using G(1) by simp
  have nb: "brk s \<notin> set (base s # ys)" using G(1) D(8,9) by auto
  have "gap ((hsize s)(brk s := n)) u v" if "gap (hsize s) u v" "u \<in> set (base s # ys)" for u v
    using that nb by (auto simp: gap_def)
  then have "sorted_wrt (gap ((hsize s)(brk s := n))) (base s # ys)"
    using D(2) sorted_wrt_mono_rel [of "base s # ys" "gap (hsize s)"] by blast
  then show "heap_inv lo (s\<lparr>brk := brk s + 8 * n, hsize := (hsize s)(brk s := n)\<rparr>) ys (insert (brk s) L)"
    using D(1,3,4,6-11) G n nb unfolding heap_inv_def by simp
qed

lemma morecore_ok:
  assumes I: "heap_inv lo s ys L" and n: "0 < n" "8 * n < 2147483648"
  defines "nu \<equiv> max 4096 n"
  shows "if brklim s < brk s + 8 * nu then morecore n s = Some (0, s)
    else \<exists>s' ys'. morecore n s = Some (freep s', s') \<and> freep s' \<noteq> 0 \<and> heap_inv lo s' ys' L \<and> (\<forall>a\<in>L. hsize s' a = hsize s a)
      \<and> base s' = base s \<and> brklim s' = brklim s \<and> (\<exists>x\<in>set ys'. n \<le> hsize s' x)"
proof -
  note D = heap_invD [OF I]
  have nu: "(if n < 4096 then 4096 else n) = nu" "0 < nu" "8 * nu < 2147483648" using n by (auto simp: nu_def)
  have bytes: "nu * 8 mod 4294967296 = 8 * nu" using nu(3) by simp
  have sb: "sbrk (8 * int nu) s = (if brk s + 8 * nu \<le> brklim s then (brk s, s\<lparr>brk := brk s + 8 * nu\<rparr>) else (4294967295, s))"
    using nu(2,3) D(10) unfolding sbrk_def Let_def by (auto simp: nat_add_distrib nat_mod_distrib)
  show ?thesis
  proof (cases "brk s + 8 * nu \<le> brklim s")
    case True
    define s1 where "s1 = s\<lparr>brk := brk s + 8 * nu, hsize := (hsize s)(brk s := nu)\<rparr>"
    note G = grow_heap [OF I nu(2) True, folded s1_def]
    obtain s' ys' where f: "free (brk s + 8) s1 = Some s'" "heap_inv lo s' ys' (insert (brk s) L - {brk s})"
      and k: "\<forall>a\<in>insert (brk s) L - {brk s}. hsize s' a = hsize s1 a" "brklim s' = brklim s1" "base s' = base s1" "\<exists>x\<in>set ys'. hsize s1 (brk s) \<le> hsize s' x"
      using free_block [OF G(2), of "brk s"] by blast
    have L: "insert (brk s) L - {brk s} = L" using G(1) by auto
    have p: "padd (brk s) 1 = brk s + 8" "brk s \<noteq> 4294967295" using D(10) by (auto simp: padd_small)
    have "morecore n s = Some (freep s', s')"
      using f(1) p nu(3) True unfolding morecore_def Let_def nu(1) bytes by (simp add: sb s1_def)
    moreover have "freep s' \<noteq> 0" using heap_inv_pos [OF f(2) heap_invD(3) [OF f(2)]] by simp
    moreover have "\<forall>a\<in>L. hsize s' a = hsize s a" using k(1) G(1) by (auto simp: s1_def)
    moreover have "\<exists>x\<in>set ys'. n \<le> hsize s' x" using k(4) by (auto simp: s1_def nu_def)
    ultimately show ?thesis using f(2) k(2,3) True unfolding L by (auto simp: s1_def)
  next
    case False
    then show ?thesis using nu(3) unfolding morecore_def Let_def nu(1) bytes by (simp add: sb)
  qed
qed

subsection \<open>malloc\<close>

lemma units_small: "nbytes \<le> 2147483632 \<Longrightarrow> 0 < units nbytes \<and> nbytes + 8 \<le> 8 * units nbytes \<and> 8 * units nbytes < 2147483648"
  by (simp add: units_def) linarith

lemma loop_spec:
  assumes I: "heap_inv lo s ys L" and n: "0 < n" "8 * n < 2147483648"
  shows "\<exists>r s'. malloc_loop n (freep s) (hptr s (freep s)) s = Some (r, s') \<and>
    (new_block lo s s' L n r \<or> r = 0 \<and> s' = s \<and> brklim s < brk s + 8 * max 4096 n)"
proof (cases "\<exists>x\<in>set ys. n \<le> hsize s x")
  case True
  then show ?thesis using loop_hit [OF I n(1)] by blast
next
  case False
  then have m: "malloc_loop n (freep s) (hptr s (freep s)) s =
    Option.bind (morecore n s) (\<lambda>(p', s'). if p' = 0 then Some (0, s') else malloc_loop n p' (hptr s' p') s')"
    using I n(1) by (intro loop_miss) auto
  show ?thesis
  proof (cases "brklim s < brk s + 8 * max 4096 n")
    case True
    then show ?thesis using morecore_ok [OF I n] m by simp
  next
    case False
    then obtain s1 ys1 where s1: "morecore n s = Some (freep s1, s1)" "freep s1 \<noteq> 0" "heap_inv lo s1 ys1 L" "\<forall>a\<in>L. hsize s1 a = hsize s a"
      "base s1 = base s" "brklim s1 = brklim s" "\<exists>x\<in>set ys1. n \<le> hsize s1 x"
      using morecore_ok [OF I n] by auto
    obtain r s' where "malloc_loop n (freep s1) (hptr s1 (freep s1)) s1 = Some (r, s')" "new_block lo s1 s' L n r"
      using loop_hit [OF s1(3) n(1) s1(7)] by blast
    moreover from this(2) have "new_block lo s s' L n r" using s1(4-6) unfolding new_block_def by auto
    ultimately show ?thesis using m s1(1,2) by auto
  qed
qed

lemma fresh_heap:
  assumes "0 < base s" "base s + 8 \<le> brk s" "brk s < 2147483648" "brklim s < 2147483648"
  shows "heap_inv (brk s) (s\<lparr>hptr := (hptr s)(base s := base s), freep := base s, hsize := (hsize s)(base s := 0)\<rparr>) [] {}"
  using assms by (simp add: heap_inv_def tiled_def)

section \<open>Programs that allocate\<close>

text \<open>
  A run of a program on the allocator: calls of \<^verbatim>\<open>malloc\<close>, calls of \<^verbatim>\<open>free\<close> on a pointer that \<^verbatim>\<open>malloc\<close> gave and
  that was not freed since, and changes of the memory the kernel has left.  The live pointers are kept
  with the sizes asked for.
\<close>

inductive um_step :: "heap_st \<times> (nat \<times> nat) list \<Rightarrow> heap_st \<times> (nat \<times> nat) list \<Rightarrow> bool" where
  um_malloc: "n \<le> 2147483632 \<Longrightarrow> malloc n s = Some (r, s') \<Longrightarrow> um_step (s, live) (s', if r = 0 then live else (r, n) # live)"
| um_free: "(r, n) \<in> set live \<Longrightarrow> free r s = Some s' \<Longrightarrow> um_step (s, live) (s', filter (\<lambda>b. fst b \<noteq> r) live)"
| um_kernel: "l < 2147483648 \<Longrightarrow> um_step (s, live) (s\<lparr>brklim := l\<rparr>, live)"

text \<open>The start of a process: no list yet, and the break right above the program and its stack.\<close>

definition um_start :: "nat \<Rightarrow> heap_st \<times> (nat \<times> nat) list \<Rightarrow> bool" where
  "um_start lo x \<longleftrightarrow> (case x of (s, live) \<Rightarrow> freep s = 0 \<and> live = [] \<and> brk s = lo \<and> 0 < base s \<and> base s + 8 \<le> lo
     \<and> lo < 2147483648 \<and> brklim s < 2147483648)"

definition blocks :: "(nat \<times> nat) list \<Rightarrow> nat set" where
  "blocks live = (\<lambda>b. fst b - 8) ` set live"

definition um_inv :: "nat \<Rightarrow> heap_st \<times> (nat \<times> nat) list \<Rightarrow> bool" where
  "um_inv lo x \<longleftrightarrow> um_start lo x \<or> (case x of (s, live) \<Rightarrow> (\<exists>ys. heap_inv lo s ys (blocks live)) \<and> distinct (map fst live)
     \<and> (\<forall>b\<in>set live. 8 \<le> fst b \<and> snd b + 8 \<le> 8 * hsize s (fst b - 8)))"

lemma um_ready:
  assumes "um_inv lo (s, live)"
  shows "\<exists>s1 ys. heap_inv lo s1 ys (blocks live) \<and> (\<forall>n. malloc n s = malloc_loop (units n) (freep s1) (hptr s1 (freep s1)) s1)
    \<and> (\<forall>a\<in>blocks live. hsize s1 a = hsize s a) \<and> brk s1 = brk s \<and> brklim s1 = brklim s
    \<and> distinct (map fst live) \<and> (\<forall>b\<in>set live. 8 \<le> fst b \<and> snd b + 8 \<le> 8 * hsize s (fst b - 8))"
proof (cases "um_start lo (s, live)")
  case True
  define s1 where "s1 = s\<lparr>hptr := (hptr s)(base s := base s), freep := base s, hsize := (hsize s)(base s := 0)\<rparr>"
  have "heap_inv lo s1 [] {}" using True fresh_heap [of s] by (auto simp: um_start_def s1_def)
  moreover have "malloc n s = malloc_loop (units n) (freep s1) (hptr s1 (freep s1)) s1" for n
    using True by (simp add: um_start_def malloc_def s1_def Let_def)
  ultimately show ?thesis using True by (intro exI [of _ s1] exI [of _ "[]"]) (simp add: um_start_def blocks_def s1_def)
next
  case False
  then obtain ys where I: "heap_inv lo s ys (blocks live)" using assms by (auto simp: um_inv_def)
  moreover have "freep s \<noteq> 0" using heap_inv_pos [OF I heap_invD(3) [OF I]] by simp
  then have "malloc n s = malloc_loop (units n) (freep s) (hptr s (freep s)) s" for n by (simp add: malloc_def Let_def)
  ultimately show ?thesis using assms False by (intro exI [of _ s] exI [of _ ys]) (simp add: um_inv_def)
qed

lemma malloc_spec:
  assumes I: "um_inv lo (s, live)" and n: "n \<le> 2147483632"
  shows "\<exists>r s'. malloc n s = Some (r, s') \<and> um_inv lo (s', if r = 0 then live else (r, n) # live)
    \<and> (r = 0 \<longrightarrow> brklim s < brk s + 8 * max 4096 (units n))"
proof -
  obtain s1 ys where R: "heap_inv lo s1 ys (blocks live)" "malloc n s = malloc_loop (units n) (freep s1) (hptr s1 (freep s1)) s1"
    and k: "\<forall>a\<in>blocks live. hsize s1 a = hsize s a" "brk s1 = brk s" "brklim s1 = brklim s"
    and d: "distinct (map fst live)" "\<forall>b\<in>set live. 8 \<le> fst b \<and> snd b + 8 \<le> 8 * hsize s (fst b - 8)"
    using um_ready [OF I] by blast
  have u: "0 < units n" "n + 8 \<le> 8 * units n" "8 * units n < 2147483648" using units_small [OF n] by simp_all
  have ks: "\<forall>b\<in>set live. hsize s1 (fst b - 8) = hsize s (fst b - 8)" using k(1) by (simp add: blocks_def)
  obtain r s' where r: "malloc n s = Some (r, s')"
    and c: "new_block lo s1 s' (blocks live) (units n) r \<or> r = 0 \<and> s' = s1 \<and> brklim s1 < brk s1 + 8 * max 4096 (units n)"
    using loop_spec [OF R(1) u(1,3)] unfolding R(2) by blast
  from c show ?thesis
  proof
    assume "new_block lo s1 s' (blocks live) (units n) r"
    then obtain a ys' where a: "r = a + 8" "a \<notin> blocks live" "heap_inv lo s' ys' (insert a (blocks live))" "hsize s' a = units n"
      "\<forall>x\<in>blocks live. hsize s' x = hsize s1 x" unfolding new_block_def by blast
    have "r \<notin> fst ` set live" using a(1,2) d(2) by (force simp: blocks_def)
    moreover have "\<forall>b\<in>set live. hsize s' (fst b - 8) = hsize s (fst b - 8)" using a(5) ks by (simp add: blocks_def)
    moreover have "blocks ((r, n) # live) = insert a (blocks live)" by (simp add: blocks_def a(1))
    ultimately have "um_inv lo (s', (r, n) # live)" using a d u(2) by (auto simp: um_inv_def)
    then show ?thesis using r a(1) by auto
  next
    assume "r = 0 \<and> s' = s1 \<and> brklim s1 < brk s1 + 8 * max 4096 (units n)"
    moreover have "um_inv lo (s1, live)" using R(1) d ks by (auto simp: um_inv_def)
    ultimately show ?thesis using r k by auto
  qed
qed

lemma free_spec:
  assumes I: "um_inv lo (s, live)" and b: "(r, n) \<in> set live"
  shows "\<exists>s'. free r s = Some s' \<and> um_inv lo (s', filter (\<lambda>b. fst b \<noteq> r) live)"
proof -
  have "\<not> um_start lo (s, live)" using b by (auto simp: um_start_def)
  then obtain ys where H: "heap_inv lo s ys (blocks live)" and d: "distinct (map fst live)"
    and sz: "\<forall>b\<in>set live. 8 \<le> fst b \<and> snd b + 8 \<le> 8 * hsize s (fst b - 8)" using I by (auto simp: um_inv_def)
  have "r - 8 \<in> blocks live" and r8: "r - 8 + 8 = r" using b sz by (force simp: blocks_def)+
  then obtain s' ys' where f: "free r s = Some s'" "heap_inv lo s' ys' (blocks live - {r - 8})" "\<forall>a\<in>blocks live - {r - 8}. hsize s' a = hsize s a"
    using free_block [OF H, of "r - 8"] by auto
  let ?l = "filter (\<lambda>b. fst b \<noteq> r) live"
  have ne: "fst b - 8 \<noteq> r - 8" if "b \<in> set ?l" for b using that sz r8 by auto
  have bl: "blocks ?l = blocks live - {r - 8}"
  proof
    show "blocks ?l \<subseteq> blocks live - {r - 8}" using ne by (auto simp: blocks_def)
    show "blocks live - {r - 8} \<subseteq> blocks ?l" by (auto simp: blocks_def)
  qed
  have "8 \<le> fst b \<and> snd b + 8 \<le> 8 * hsize s' (fst b - 8)" if "b \<in> set ?l" for b
    using f(3) ne [OF that] sz that by (auto simp: blocks_def)
  moreover have "distinct (map fst ?l)" using d by (simp add: distinct_map_filter)
  ultimately have "um_inv lo (s', ?l)" using f(2) unfolding bl [symmetric] by (auto simp: um_inv_def)
  then show ?thesis using f(1) by blast
qed

interpretation um: transition_system "um_start lo" um_step "um_inv lo" for lo
proof
  show "um_inv lo x" if "um_start lo x" for x using that by (simp add: um_inv_def)
  fix x y assume I: "um_inv lo x" and st: "um_step x y"
  from st show "um_inv lo y"
  proof cases
    case (um_malloc n s r s' live)
    then show ?thesis using malloc_spec [of lo s live n] I by auto
  next
    case (um_free r n live s s')
    then show ?thesis using free_spec [of lo s live r n] I by auto
  next
    case (um_kernel l s live)
    then show ?thesis using I by (auto simp: um_inv_def um_start_def heap_inv_def)
  qed
qed

lemma sorted_wrt_pair: "sorted_wrt P xs \<Longrightarrow> x \<in> set xs \<Longrightarrow> y \<in> set xs \<Longrightarrow> x = y \<or> P x y \<or> P y x"
  by (induction xs) auto

text \<open>When every block is free again, they have all been merged into one.\<close>

lemma one_block:
  assumes I: "heap_inv lo s ys {}" and lt: "lo < brk s"
  shows "\<exists>x\<in>set ys. 8 * hsize s x = brk s - lo"
proof -
  note D = heap_invD [OF I]
  have T: "tiled lo (brk s) (hsize s) (set ys)" using D(5) by simp
  have cov: "\<exists>a\<in>set ys. a \<le> x \<and> x < a + 8 * hsize s a" if "lo \<le> x" "x < brk s" for x using tiledD(5) [OF T that] .
  have sep: "a + 8 * hsize s a < b" if "a \<in> set ys" "b \<in> set ys" "a < b" for a b
    using sorted_wrt_pair [of "gap (hsize s)" ys a b] D(2) that by (auto simp: gap_def)
  obtain a where "a \<in> set ys" "a \<le> lo" using cov [of lo] lt by auto
  then have lo: "lo \<in> set ys" using tiledD(1) [OF T] by (metis le_antisym)
  have "\<not> lo + 8 * hsize s lo < brk s"
  proof
    assume e: "lo + 8 * hsize s lo < brk s"
    then obtain c where c: "c \<in> set ys" "c \<le> lo + 8 * hsize s lo" "lo + 8 * hsize s lo < c + 8 * hsize s c"
      using cov [of "lo + 8 * hsize s lo"] by auto
    then have "lo < c" using tiledD(1) [OF T c(1)] by (cases "lo = c") auto
    then show False using sep [OF lo c(1)] c(2) by simp
  qed
  then show ?thesis using lo tiledD(3) [OF T lo] by (intro bexI [of _ lo]) simp_all
qed

lemma malloc_reuses:
  assumes I: "um_inv lo (s, [])" and n: "8 * units n \<le> brk s - lo"
  shows "\<exists>r s'. malloc n s = Some (r, s') \<and> r \<noteq> 0 \<and> brk s' = brk s"
proof -
  obtain s1 ys where R: "heap_inv lo s1 ys {}" "malloc n s = malloc_loop (units n) (freep s1) (hptr s1 (freep s1)) s1" and k: "brk s1 = brk s"
    using um_ready [OF I] by (auto simp: blocks_def)
  have u: "0 < units n" by (simp add: units_def)
  then have "lo < brk s1" using n k by linarith
  then obtain x where "x \<in> set ys" "8 * hsize s1 x = brk s - lo" using one_block [OF R(1)] k by auto
  then have "\<exists>x\<in>set ys. units n \<le> hsize s1 x" using n by (intro bexI [of _ x]) linarith
  from loop_hit [OF R(1) u this] show ?thesis using R(2) k by (auto simp: new_block_def)
qed

text \<open>
  C4.  Whatever a program does with \<^verbatim>\<open>malloc\<close> and \<^verbatim>\<open>free\<close>, and however the kernel's memory changes meanwhile:
  every live block lies in the heap, and the bytes of two live blocks, headers included, never
  overlap; \<^verbatim>\<open>free\<close> of a live pointer returns; \<^verbatim>\<open>malloc\<close> of any size up to 2147483632 returns, and
  returns the null pointer only when the kernel refuses to grow the process; and when everything has
  been freed, the whole heap is one block again, so that any request that fits in it succeeds without
  growing the process.
\<close>

theorem malloc_free_safe:
  assumes "reach (um_start lo) um_step (s, live)"
  shows "(\<forall>(r, n)\<in>set live. lo + 8 \<le> r \<and> r + n \<le> brk s)
    \<and> (\<forall>(r, n)\<in>set live. \<forall>(q, m)\<in>set live. r < q \<longrightarrow> r + n + 8 \<le> q) \<and> distinct (map fst live)
    \<and> (\<forall>(r, n)\<in>set live. \<exists>s'. free r s = Some s')
    \<and> (\<forall>n \<le> 2147483632. \<exists>r s'. malloc n s = Some (r, s') \<and> (r = 0 \<longrightarrow> brklim s < brk s + 8 * max 4096 (units n)))
    \<and> (live = [] \<longrightarrow> (\<forall>n. 8 * units n \<le> brk s - lo \<longrightarrow> (\<exists>r s'. malloc n s = Some (r, s') \<and> r \<noteq> 0 \<and> brk s' = brk s)))"
proof -
  have I: "um_inv lo (s, live)" by (rule um.reach_inv [OF assms])
  obtain s1 ys where R: "heap_inv lo s1 ys (blocks live)" and k: "\<forall>a\<in>blocks live. hsize s1 a = hsize s a" "brk s1 = brk s"
    and d: "distinct (map fst live)" "\<forall>b\<in>set live. 8 \<le> fst b \<and> snd b + 8 \<le> 8 * hsize s (fst b - 8)"
    using um_ready [OF I] by blast
  note T = tiledD [OF heap_invD(5) [OF R]]
  have b: "r - 8 \<in> blocks live" "8 \<le> r" "n + 8 \<le> 8 * hsize s1 (r - 8)" if "(r, n) \<in> set live" for r n
    using that d(2) k(1) by (force simp: blocks_def)+
  have "lo + 8 \<le> r" "r + n \<le> brk s" if "(r, n) \<in> set live" for r n
    using T(1,3) [of "r - 8"] b [OF that] k(2) by auto
  moreover have "r + n + 8 \<le> q" if "(r, n) \<in> set live" "(q, m) \<in> set live" "r < q" for r n q m
  proof -
    have "r - 8 + 8 * hsize s1 (r - 8) \<le> q - 8" using T(4) [of "r - 8" "q - 8"] b [OF that(1)] b(1,2) [OF that(2)] that(3) by simp
    then show ?thesis using b(2,3) [OF that(1)] that(3) by linarith
  qed
  ultimately show ?thesis using d(1) malloc_spec [OF I] free_spec [OF I] malloc_reuses [of lo s] I by blast
qed

definition small_heap :: heap_st where
  "small_heap = \<lparr>hptr = \<lambda>_. 0, hsize = \<lambda>_. 0, base = 0x900, freep = 0, brk = 0x4000, brklim = 0x100000\<rparr>"

lemma small_heap_mallocs:
  "\<exists>s s'. malloc 100 small_heap = Some (49048, s) \<and> malloc 50 s = Some (48984, s')"
  by (simp add: malloc_def small_heap_def Let_def units_def malloc_loop.simps [of _ 2304] morecore_def sbrk_def free_def
      padd_def pdec_def uadd_def free_find.simps [of _ _ 2304] malloc_loop.simps [of _ _ 16384])

theorem malloc_free_safe_witness:
  "\<exists>s. reach (um_start 0x4000) um_step (s, [(48984, 50), (49048, 100)]) \<and> 49048 + 100 \<le> brk s \<and> (\<exists>s'. free 48984 s = Some s')"
proof -
  obtain s s' where m: "malloc 100 small_heap = Some (49048, s)" "malloc 50 s = Some (48984, s')" using small_heap_mallocs by blast
  have "reach (um_start 0x4000) um_step (small_heap, [])" by (rule reach_init) (simp add: um_start_def small_heap_def)
  moreover have "um_step (small_heap, []) (s, [(49048, 100)])" using um_malloc [OF _ m(1), of "[]"] by simp
  moreover have "um_step (s, [(49048, 100)]) (s', [(48984, 50), (49048, 100)])" using um_malloc [OF _ m(2), of "[(49048, 100)]"] by simp
  ultimately have r: "reach (um_start 0x4000) um_step (s', [(48984, 50), (49048, 100)])" using reach_step by metis
  then show ?thesis using malloc_free_safe [OF r] by (intro exI [of _ s']) simp
qed

text \<open>
  The count of units wraps: for the largest request \<^verbatim>\<open>malloc\<close> looks for a single unit, the header
  alone, and gives a pointer that is not null to no bytes at all.
\<close>

lemma malloc_wraps: "\<exists>s. malloc 0xFFFFFFFF small_heap = Some (49152, s) \<and> brk s = 49152"
  by (simp add: malloc_def small_heap_def Let_def units_def malloc_loop.simps [of _ 2304] morecore_def sbrk_def free_def
      padd_def pdec_def uadd_def free_find.simps [of _ _ 2304] malloc_loop.simps [of _ _ 16384])

end
