(* ===== verification/Content.thy ===== *)
theory Content
  imports Fs
begin

text \<open>
  What the inodes contain.  The bytes of a file are read off the blocks that a reader of the
  buffer cache sees (\<open>bview\<close>), through the addresses of its inode; \<open>fbyte\<close> and \<open>fbytes\<close> are that
  abstract file.  The lemmas show that \<^verbatim>\<open>bmap\<close> and \<^verbatim>\<open>readi\<close> of \<^verbatim>\<open>fs.c\<close> implement it: on a file whose
  blocks are allocated, with no buffer in use, they return its bytes and leave disk, cache contents
  and inodes alone.
\<close>

section \<open>The abstract file\<close>

definition faddr :: "(nat \<Rightarrow> block) \<Rightarrow> nat list \<Rightarrow> nat \<Rightarrow> nat" where
  "faddr V as bn = (if bn < NDIRECT then as ! bn else get32 (V (as ! NDIRECT)) (4 * (bn - NDIRECT)))"

definition fbyte :: "(nat \<Rightarrow> block) \<Rightarrow> nat list \<Rightarrow> nat \<Rightarrow> u8" where
  "fbyte V as k = V (faddr V as (k div BSIZE)) ! (k mod BSIZE)"

definition fbytes :: "(nat \<Rightarrow> block) \<Rightarrow> nat list \<Rightarrow> nat \<Rightarrow> u8 list" where
  "fbytes V as n = map (fbyte V as) [0..<n]"

text \<open>The blocks of the first \<open>n\<close> bytes are allocated, on a disk of \<open>ds\<close> blocks of \<^verbatim>\<open>BSIZE\<close> bytes.\<close>

definition mapped :: "(nat \<Rightarrow> block) \<Rightarrow> nat \<Rightarrow> nat list \<Rightarrow> nat \<Rightarrow> bool" where
  "mapped V ds as n \<longleftrightarrow> n \<le> MAXFILE * BSIZE \<and> (\<forall>b<ds. length (V b) = BSIZE)
     \<and> (\<forall>bn. bn * BSIZE < n \<longrightarrow> 0 < faddr V as bn \<and> faddr V as bn < ds)
     \<and> (NDIRECT * BSIZE < n \<longrightarrow> 0 < as ! NDIRECT \<and> as ! NDIRECT < ds)"

lemma mapped_agree:
  assumes M: "mapped V ds as n" and V: "\<forall>b<ds. V' b = V b"
  shows "mapped V' ds as n" "fbytes V' as n = fbytes V as n"
proof -
  have f: "faddr V' as k = faddr V as k" if "k * BSIZE < n" for k
  proof (cases "k < NDIRECT")
    case False
    then have "NDIRECT * BSIZE < n" using that by simp
    then show ?thesis using M V by (simp add: mapped_def faddr_def)
  qed (simp add: faddr_def)
  then show "mapped V' ds as n" using M V by (simp add: mapped_def)
  have "fbyte V' as k = fbyte V as k" if "k < n" for k
  proof -
    have "k div BSIZE * BSIZE < n" using that div_mult_mod_eq [of k BSIZE] by linarith
    then show ?thesis using f [of "k div BSIZE"] M V by (simp add: fbyte_def mapped_def)
  qed
  then show "fbytes V' as n = fbytes V as n" by (simp add: fbytes_def)
qed

section \<open>Reading a block\<close>

definition idle :: "'a fs_st_scheme \<Rightarrow> bool" where
  "idle s \<longleftrightarrow> quiet s \<and> card (dirty_blocks s) < NBUF"

definition kept :: "'a fs_st_scheme \<Rightarrow> 'a fs_st_scheme \<Rightarrow> bool" where
  "kept s s' \<longleftrightarrow> idle s' \<and> bview s' = bview s \<and> disk s' = disk s \<and> dwrites s' = dwrites s \<and> dirty_blocks s' = dirty_blocks s
     \<and> disksize s' = disksize s \<and> inodes s' = inodes s \<and> fs_sb s' = fs_sb s"

lemma kept_refl: "idle s \<Longrightarrow> kept s s"
  by (simp add: kept_def)

lemma kept_trans: "kept s t \<Longrightarrow> kept t u \<Longrightarrow> kept s u"
  by (simp add: kept_def)

lemma bio_frame_fs:
  fixes s :: "'a fs_st_scheme"
  assumes "bio_frame s s'"
  shows "inodes s' = inodes s" "fs_sb s' = fs_sb s"
proof -
  note e = assms [unfolded bio_frame_def, THEN conjunct2]
  show "inodes s' = inodes s" "fs_sb s' = fs_sb s" by (subst e, simp)+
qed

lemma bnd_gets: "bnd (gets f) k s = k (f s) s"
  by (simp add: bnd_def gets_def)

lemma read_block:
  fixes s :: "'a fs_st_scheme"
  assumes q: "idle s" "n < disksize s" and M: "\<And>b. M b (bview s n) = seqp (brelse b) m"
    and Q: "\<And>s'. kept s s' \<Longrightarrow> wp m Q s'"
  shows "wp (bnd (bread 1 n) (\<lambda>b. bnd (get_data b) (M b))) Q s"
  unfolding wp_bnd
proof (rule wp_mono [OF bc.rd_first], goal_cases)
  case (6 b s1)
  then have s1: "bio_inv s1" "running s1" "bio_frame s s1" "disk s1 = disk s" "dwrites s1 = dwrites s"
    "hold s1 b n (bview s n) (n \<in> dirty_blocks s)" "locked_bufs s1 = {b}" "bview s1 = bview s" "dirty_blocks s1 = dirty_blocks s"
    by simp_all
  have ok: "n \<in> dirty_blocks s \<or> bview s n = disk s1 n"
    using bc.quiet_view [of s n] q(1) s1(4) by (auto simp: idle_def quiet_def)
  have "wp (brelse b) (\<lambda>_. wp m Q) s1"
  proof (rule wp_mono [OF bc.rel_spec [OF s1(1,2,6) ok]], elim conjE)
    fix s2
    assume s2: "bio_inv s2" "bio_frame s1 s2" "disk s2 = disk s1" "dwrites s2 = dwrites s1" "locked_bufs s2 = locked_bufs s1 - {b}"
      "bview s2 = bview s1" "dirty_blocks s2 = dirty_blocks s1"
    have "running s2" using bio_frame_running [OF s2(2) s1(2)] by simp
    then have "kept s s2"
      using s1 s2 q bio_frame_fs [OF s1(3)] bio_frame_fs [OF s2(2)] bio_frame_sel(2) [OF s1(3)] bio_frame_sel(2) [OF s2(2)]
      by (simp add: kept_def idle_def quiet_def)
    then show "wp m Q s2" by (rule Q)
  qed
  then have "wp (M b (bview s n)) Q s1" unfolding M wp_seqp .
  then show ?case by (intro wp_mono [OF bc.get_spec [OF s1(6)]]) simp
qed (use q in \<open>simp_all add: idle_def quiet_def\<close>)

section \<open>Locking an inode\<close>

interpretation ilk: sleeplock_cell "get_inodelock ip" "upd_inodelock ip" "\<lambda>s. ip < length (inodes s)" "ChanInodeLock ip" for ip
  by unfold_locales (simp_all add: get_inodelock_def upd_inodelock_def upd_inode_def)

text \<open>The cache does not see the inode table.\<close>

lemma upd_inode_bio:
  fixes s :: "'a fs_st_scheme"
  shows "bio_inv (upd_inode ip f s) = bio_inv s" "running (upd_inode ip f s) = running s" "locked_bufs (upd_inode ip f s) = locked_bufs s"
    "dirty_blocks (upd_inode ip f s) = dirty_blocks s" "bview (upd_inode ip f s) = bview s" "hold (upd_inode ip f s) = hold s"
    "disk (upd_inode ip f s) = disk s" "dwrites (upd_inode ip f s) = dwrites s" "disksize (upd_inode ip f s) = disksize s"
    "fs_sb (upd_inode ip f s) = fs_sb s" "inodes (upd_inode ip f s) = (inodes s)[ip := f (inodes s ! ip)]" "curproc (upd_inode ip f s) = curproc s"
  by (simp_all add: upd_inode_def bio_inv_def running_def locked_bufs_def dirty_blocks_def bview_def hold_def held_buf_def curpid_def cached_def ring_def fun_eq_iff cong: option.case_cong)

lemma idle_upd_inode: "idle (upd_inode ip f s) = idle s"
  by (simp add: idle_def quiet_def upd_inode_bio)

lemma read_block_upd:
  fixes s :: "'a fs_st_scheme"
  assumes q: "idle s" "n < disksize s" and M: "\<And>b. M b (bview s n) = seqp (modify (upd_inode ip f)) (seqp (brelse b) m)"
    and Q: "\<And>s'. kept (upd_inode ip f s) s' \<Longrightarrow> wp m Q s'"
  shows "wp (bnd (bread 1 n) (\<lambda>b. bnd (get_data b) (M b))) Q s"
  unfolding wp_bnd
proof (rule wp_mono [OF bc.rd_first], goal_cases)
  case (6 b s1)
  then have s1: "bio_inv s1" "running s1" "bio_frame s s1" "disk s1 = disk s" "dwrites s1 = dwrites s"
    "hold s1 b n (bview s n) (n \<in> dirty_blocks s)" "locked_bufs s1 = {b}" "bview s1 = bview s" "dirty_blocks s1 = dirty_blocks s"
    by simp_all
  let ?u = "upd_inode ip f s1"
  have ok: "n \<in> dirty_blocks s \<or> bview s n = disk ?u n"
    using bc.quiet_view [of s n] q(1) s1(4) by (auto simp: idle_def quiet_def upd_inode_bio)
  have u: "bio_inv ?u" "running ?u" "hold ?u b n (bview s n) (n \<in> dirty_blocks s)" using s1 by (simp_all add: upd_inode_bio)
  have "wp (brelse b) (\<lambda>_. wp m Q) ?u"
  proof (rule wp_mono [OF bc.rel_spec [OF u ok]], elim conjE)
    fix s2
    assume s2: "bio_inv s2" "bio_frame ?u s2" "disk s2 = disk ?u" "dwrites s2 = dwrites ?u" "locked_bufs s2 = locked_bufs ?u - {b}"
      "bview s2 = bview ?u" "dirty_blocks s2 = dirty_blocks ?u"
    have "running s2" using bio_frame_running [OF s2(2) u(2)] by simp
    then have "kept (upd_inode ip f s) s2"
      using s1 s2 q bio_frame_fs [OF s1(3)] bio_frame_fs [OF s2(2)] bio_frame_sel(2) [OF s1(3)] bio_frame_sel(2) [OF s2(2)]
      by (simp add: kept_def idle_def quiet_def upd_inode_bio)
    then show "wp m Q s2" by (rule Q)
  qed
  then have "wp (M b (bview s n)) Q s1" unfolding M by (simp add: prog_simps)
  then show ?case by (intro wp_mono [OF bc.get_spec [OF s1(6)]]) simp
qed (use q in \<open>simp_all add: idle_def quiet_def\<close>)

text \<open>The state in which an inode has been locked and read from disk.\<close>

definition loaded :: "'a fs_st_scheme \<Rightarrow> nat \<Rightarrow> dinode \<Rightarrow> 'a fs_st_scheme \<Rightarrow> bool" where
  "loaded s ip di s' \<longleftrightarrow> idle s' \<and> bview s' = bview s \<and> disk s' = disk s \<and> dwrites s' = dwrites s \<and> disksize s' = disksize s
     \<and> length (inodes s') = length (inodes s) \<and> (\<forall>j. j \<noteq> ip \<longrightarrow> inodes s' ! j = inodes s ! j)
     \<and> sl_locked (i_lock (inodes s' ! ip)) \<and> i_valid (inodes s' ! ip) \<and> disk_copy (inodes s' ! ip) = di \<and> i_dev (inodes s' ! ip) = i_dev (inodes s ! ip)"

lemma ilock_loads:
  fixes s :: "'a fs_st_scheme"
  assumes q: "idle s" and ip: "ip < length (inodes s)" and x: "1 \<le> i_ref (inodes s ! ip)" "\<not> sl_locked (i_lock (inodes s ! ip))"
    "\<not> i_valid (inodes s ! ip)" "i_dev (inodes s ! ip) = 1" and b: "IBLOCK (i_inum (inodes s ! ip)) (fs_sb s) < disksize s"
  defines "di \<equiv> get_dinode (bview s (IBLOCK (i_inum (inodes s ! ip)) (fs_sb s))) (dip (i_inum (inodes s ! ip)))"
  assumes t: "d_type di \<noteq> 0"
  shows "wp (ilock (Some ip)) (\<lambda>_ s'. loaded s ip di s') s"
proof -
  define l :: "sleeplock \<Rightarrow> sleeplock" where "l = (\<lambda>l. l\<lparr>sl_locked := True, sl_pid := curpid s\<rparr>)"
  define s1 where "s1 = upd_inodelock ip l s"
  have s1: "s1 = upd_inode ip (\<lambda>x. x\<lparr>i_lock := l (i_lock x)\<rparr>) s" by (simp add: s1_def upd_inodelock_def)
  obtain p where "curproc s = Some p" using q by (auto simp: idle_def quiet_def running_def split: option.splits)
  then have acq: "acquiresleep (get_inodelock ip) (upd_inodelock ip) (ChanInodeLock ip) s = Ret () s1"
    using ilk.acquire_free [OF ip] x(2) by (simp add: get_inodelock_def s1_def l_def)
  have i1: "inodes s1 ! ip = (inodes s ! ip)\<lparr>i_lock := l (i_lock (inodes s ! ip))\<rparr>" "fs_sb s1 = fs_sb s" "bview s1 = bview s" "disksize s1 = disksize s"
    using ip by (simp_all add: s1 upd_inode_bio)
  have q1: "idle s1" using q by (simp add: s1 idle_upd_inode)
  let ?blk = "IBLOCK (i_inum (inodes s ! ip)) (fs_sb s)" and ?f = "\<lambda>x. x\<lparr>i_type := d_type di, i_major := d_major di, i_minor := d_minor di,
                i_nlink := d_nlink di, i_size := d_size di, i_addrs := d_addrs di\<rparr>"
  let ?m = "seqp (modify (upd_inode ip (\<lambda>x. x\<lparr>i_valid := True\<rparr>))) (if d_type di = 0 then panic ''ilock: no type'' else ret ())"
  let ?M = "\<lambda>bp d. let di = get_dinode d (dip (i_inum (inodes s ! ip))) in
        seqp (modify (upd_inode ip (\<lambda>x. x\<lparr>i_type := d_type di, i_major := d_major di, i_minor := d_minor di,
                i_nlink := d_nlink di, i_size := d_size di, i_addrs := d_addrs di\<rparr>)))
        (seqp (brelse bp)
        (seqp (modify (upd_inode ip (\<lambda>x. x\<lparr>i_valid := True\<rparr>)))
         (if d_type di = 0 then panic ''ilock: no type'' else ret ())))"
  have M: "?M b (bview s1 ?blk) = seqp (modify (upd_inode ip ?f)) (seqp (brelse b) ?m)" for b by (simp add: Let_def di_def i1(3))
  have "wp (bnd (bread 1 ?blk) (\<lambda>b. bnd (get_data b) (?M b))) (\<lambda>_ s'. loaded s ip di s') s1"
  proof (rule read_block_upd [where M = ?M, OF q1 _ M])
    show "?blk < disksize s1" using b i1(4) by simp
    fix s2 assume k: "kept (upd_inode ip ?f s1) s2"
    show "wp ?m (\<lambda>_ s'. loaded s ip di s') s2" using k t ip q
      by (auto simp: prog_simps loaded_def kept_def idle_upd_inode upd_inode_bio s1 disk_copy_def l_def)
  qed
  moreover have "ilock (Some ip) s = bnd (bread 1 ?blk) (\<lambda>b. bnd (get_data b) (?M b)) s1"
    using x i1 acq by (simp add: ilock_def bnd_gets seqp_def bnd_def [of "acquiresleep _ _ _"] whenp_def)
  ultimately show ?thesis by (simp add: wp_def)
qed

section \<open>bmap and readi\<close>

lemma bmap_reads:
  fixes s :: "'a fs_st_scheme"
  assumes q: "idle s" and d: "i_dev (inodes s ! ip) = 1"
    and m: "mapped (bview s) (disksize s) (i_addrs (inodes s ! ip)) n" "bn * BSIZE < n"
  shows "wp (bmap ip bn) (\<lambda>a s'. a = faddr (bview s) (i_addrs (inodes s ! ip)) bn \<and> kept s s') s"
proof -
  let ?as = "i_addrs (inodes s ! ip)" and ?V = "bview s"
  have a: "0 < faddr ?V ?as bn" "n \<le> MAXFILE * BSIZE" using m by (simp_all add: mapped_def)
  show ?thesis
  proof (cases "bn < NDIRECT")
    case True
    then show ?thesis using a kept_refl [OF q] by (simp add: bmap_def faddr_def prog_simps)
  next
    case False
    then have i: "NDIRECT * BSIZE < n" "bn - NDIRECT < NINDIRECT" using m(2) a(2) by auto
    then have ind: "0 < ?as ! NDIRECT" "?as ! NDIRECT < disksize s" using m(1) by (simp_all add: mapped_def)
    have v: "get32 (?V (?as ! NDIRECT)) (4 * (bn - NDIRECT)) \<noteq> 0" using a(1) False by (simp add: faddr_def)
    let ?M = "\<lambda>bp a. bnd (if get32 a (4 * (bn - NDIRECT)) = 0 then
              bnd (balloc (i_dev (inodes s ! ip))) (\<lambda>addr. seqp (set_data bp (put32 a (4 * (bn - NDIRECT)) addr)) (seqp (log_write bp) (ret addr)))
            else ret (get32 a (4 * (bn - NDIRECT)))) (\<lambda>addr. seqp (brelse bp) (ret addr))"
    have M: "?M b (?V (?as ! NDIRECT)) = seqp (brelse b) (ret (get32 (?V (?as ! NDIRECT)) (4 * (bn - NDIRECT))))" for b
      using v by simp
    have "bmap ip bn s = bnd (bread 1 (?as ! NDIRECT)) (\<lambda>b. bnd (get_data b) (?M b)) s"
      using False i(2) ind(1) d by (simp add: bmap_def bnd_gets)
    then have "wp (bmap ip bn) Q s = wp (bnd (bread 1 (?as ! NDIRECT)) (\<lambda>b. bnd (get_data b) (?M b))) Q s" for Q
      by (simp add: wp_def)
    then show ?thesis using False by (simp only:) (rule read_block [where M = ?M, OF q ind(2) M], simp add: prog_simps faddr_def)
  qed
qed

lemma block_bytes:
  assumes "mapped V ds as n" "off < n" "m \<le> BSIZE - off mod BSIZE"
  shows "get_bytes (V (faddr V as (off div BSIZE))) (off mod BSIZE) m = map (fbyte V as) [off..<off + m]"
proof (rule nth_equalityI)
  have lt: "off div BSIZE * BSIZE < n" using assms(2) div_mult_mod_eq [of off BSIZE] by linarith
  have "faddr V as (off div BSIZE) < ds" using assms(1) lt by (simp add: mapped_def)
  then have l: "length (V (faddr V as (off div BSIZE))) = BSIZE" using assms(1) by (simp add: mapped_def)
  have mm: "off mod BSIZE + m \<le> BSIZE" using assms(3) mod_less_divisor [of BSIZE off] by linarith
  then show "length (get_bytes (V (faddr V as (off div BSIZE))) (off mod BSIZE) m) = length (map (fbyte V as) [off..<off + m])"
    using l by (simp add: length_get_bytes)
  fix i assume "i < length (get_bytes (V (faddr V as (off div BSIZE))) (off mod BSIZE) m)"
  then have i: "i < m" using l mm by (simp add: length_get_bytes)
  have e: "off + i = off mod BSIZE + i + off div BSIZE * BSIZE" using div_mult_mod_eq [of off BSIZE] by linarith
  have r: "off mod BSIZE + i < BSIZE" using i mm by linarith
  have dv: "(off + i) div BSIZE = off div BSIZE" using e r mult_Suc_right [of BSIZE "off div BSIZE"] by (intro div_nat_eqI) linarith+
  moreover have "(off + i) mod BSIZE = off mod BSIZE + i" using e dv div_mult_mod_eq [of "off + i" BSIZE] by linarith
  ultimately show "get_bytes (V (faddr V as (off div BSIZE))) (off mod BSIZE) m ! i = map (fbyte V as) [off..<off + m] ! i"
    using i l mm by (simp add: nth_get_bytes fbyte_def)
qed

lemma readi_loop_reads:
  fixes s :: "'a fs_st_scheme"
  assumes "idle s" "i_dev (inodes s ! ip) = 1" "mapped (bview s) (disksize s) (i_addrs (inodes s ! ip)) sz" "off + n \<le> sz"
  shows "wp (readi_loop ip off n) (\<lambda>bs s'. bs = map (fbyte (bview s) (i_addrs (inodes s ! ip))) [off..<off + n] \<and> kept s s') s"
  using assms
proof (induction n arbitrary: off s rule: less_induct)
  case (less n)
  let ?as = "i_addrs (inodes s ! ip)" and ?V = "bview s"
  show ?case
  proof (cases "n = 0")
    case True
    then show ?thesis using kept_refl [OF less.prems(1)] by (subst readi_loop.simps) (simp add: prog_simps)
  next
    case False
    define m where "m = min n (BSIZE - off mod BSIZE)"
    have m: "0 < m" "m \<le> n" "m \<le> BSIZE - off mod BSIZE" using False mod_less_divisor [of BSIZE off] by (auto simp: m_def)
    have lt: "off div BSIZE * BSIZE < sz" using less.prems(4) False div_mult_mod_eq [of off BSIZE] by linarith
    let ?a = "faddr ?V ?as (off div BSIZE)"
    have gb: "get_bytes (?V ?a) (off mod BSIZE) m = map (fbyte ?V ?as) [off..<off + m]"
      using block_bytes [OF less.prems(3) _ m(3)] less.prems(4) False by simp
    have ap: "map (fbyte ?V ?as) [off..<off + m] @ map (fbyte ?V ?as) [off + m..<off + n] = map (fbyte ?V ?as) [off..<off + n]"
      using m(2) upt_add_eq_append [of off "off + m" "n - m"] by (simp add: map_append [symmetric] del: map_append)
    show ?thesis unfolding readi_loop.simps [of ip off n] m_def [symmetric] Let_def using False
    proof (simp only: if_False, unfold wp_bnd [of "bmap _ _"], intro wp_mono [OF bmap_reads [OF less.prems(1-3) lt]], elim conjE)
      fix a s1
      assume a: "a = ?a" and k: "kept s s1"
      have q1: "idle s1" "i_dev (inodes s1 ! ip) = 1" "bview s1 = ?V" "inodes s1 = inodes s" "disksize s1 = disksize s"
        using k less.prems(2) by (auto simp: kept_def)
      have a1: "?a < disksize s1" using less.prems(3) lt q1 by (simp add: mapped_def)
      show "wp (bnd (gets (\<lambda>s. i_dev (inodes s ! ip))) (\<lambda>dev. bnd (bread dev a) (\<lambda>bp. bnd (get_data bp) (\<lambda>d. seqp (brelse bp)
          (bnd (readi_loop ip (off + m) (n - m)) (\<lambda>rest. ret (get_bytes d (off mod BSIZE) m @ rest)))))))
        (\<lambda>bs s'. bs = map (fbyte ?V ?as) [off..<off + n] \<and> kept s s') s1"
        unfolding wp_bnd [of "gets _"] wp_gets q1(2) a
      proof (rule read_block [OF q1(1) a1 refl], unfold wp_bnd)
        fix s2
        assume k2: "kept s1 s2"
        have q2: "idle s2" "i_dev (inodes s2 ! ip) = 1" "bview s2 = ?V" "inodes s2 = inodes s" "disksize s2 = disksize s"
          using k2 q1 by (auto simp: kept_def)
        have "wp (readi_loop ip (off + m) (n - m)) (\<lambda>bs s'. bs = map (fbyte ?V ?as) [off + m..<off + m + (n - m)] \<and> kept s2 s') s2"
          using less.IH [of "n - m" s2 "off + m"] m less.prems(3,4) False q2 by simp
        then show "wp (readi_loop ip (off + m) (n - m)) (\<lambda>rest. wp (ret (get_bytes (bview s1 ?a) (off mod BSIZE) m @ rest))
            (\<lambda>bs s'. bs = map (fbyte ?V ?as) [off..<off + n] \<and> kept s s')) s2"
          by (rule wp_mono) (use gb ap m(2) kept_trans [OF kept_trans [OF k k2]] q1(3) in \<open>auto simp: prog_simps\<close>)
      qed
    qed
  qed
qed

lemma readi_spec:
  fixes s :: "'a fs_st_scheme"
  assumes q: "idle s" and x: "i_dev (inodes s ! ip) = 1" "i_type (inodes s ! ip) \<noteq> T_DEV"
    and m: "mapped (bview s) (disksize s) (i_addrs (inodes s ! ip)) (i_size (inodes s ! ip))" and n: "n < 2147483648"
  defines "size0 \<equiv> i_size (inodes s ! ip)"
  shows "wp (readi devsw ip off n) (\<lambda>(r, bs) s'. kept s s' \<and>
    (if off \<le> size0 then r = int (min n (size0 - off)) \<and>
         bs = take n (drop off (fbytes (bview s) (i_addrs (inodes s ! ip)) size0))
     else r = -1)) s"
proof (cases "off \<le> size0")
  case True
  define k where "k = min n (size0 - off)"
  have sz: "size0 \<le> 71680" using m by (simp add: mapped_def size0_def)
  have k: "(if off + n > size0 then size0 - off else n) = k" "off + k \<le> size0" using True by (auto simp: k_def)
  have w: "\<not> (off + n) mod 4294967296 < off" using n True sz by simp
  have b: "map (fbyte V as) [off..<off + k] = take n (drop off (fbytes V as size0))" for V as
    using True by (simp add: fbytes_def drop_map take_map k_def min_def)
  show ?thesis
    unfolding readi_def wp_bnd [of "gets _"] wp_gets Let_def
    using x(2) True w k(1) readi_loop_reads [OF q x(1) m k(2) [unfolded size0_def]]
    by (auto simp: size0_def [symmetric] prog_simps k_def [symmetric] b elim!: wp_mono)
next
  case False
  then show ?thesis using x(2) kept_refl [OF q] by (simp add: readi_def size0_def prog_simps)
qed

text \<open>
  C13.  \<^verbatim>\<open>readi\<close> on a file whose blocks are allocated, with no buffer in use, returns the number of bytes
  from \<^verbatim>\<open>off\<close> up to \<^verbatim>\<open>n\<close> or the end of the file and exactly those bytes of the abstract file, whether they
  lie in direct or indirect blocks and wherever the blocks are cached; it changes neither the disk,
  nor what readers of the cache see, nor the inodes.  An offset past the end gives -1.
\<close>

theorem readi_returns_file_bytes:
  fixes s :: "'a fs_st_scheme"
  assumes q: "idle s" and x: "i_dev (inodes s ! ip) = 1" "i_type (inodes s ! ip) \<noteq> T_DEV"
    and m: "mapped (bview s) (disksize s) (i_addrs (inodes s ! ip)) (i_size (inodes s ! ip))" and n: "n < 2147483648"
  defines "size0 \<equiv> i_size (inodes s ! ip)"
  shows "wp (readi devsw ip off n) (\<lambda>(r, bs) s'. kept s s' \<and>
    (if off \<le> size0 then r = int (min n (size0 - off)) \<and>
         bs = take n (drop off (fbytes (bview s) (i_addrs (inodes s ! ip)) size0))
     else r = -1)) s"
  unfolding size0_def by (rule readi_spec [OF q x m n])

text \<open>A file of 100 bytes in block 40, which the cache holds newer than the disk.\<close>

definition demo_fs :: fs_st where
  "demo_fs = boot_fs\<lparr>inodes := [zero_inode\<lparr>i_dev := 1, i_type := T_FILE, i_size := 100, i_addrs := 40 # replicate 12 0\<rparr>]\<rparr>"

lemma demo_fs_sel:
  "bufs demo_fs = bufs demo_log" "disk demo_fs = disk demo_log" "bprev demo_fs = bprev demo_log" "bnext demo_fs = bnext demo_log"
  "ptable demo_fs = ptable demo_log" "curproc demo_fs = curproc demo_log" "disksize demo_fs = 1000"
  "inodes demo_fs = [zero_inode\<lparr>i_dev := 1, i_type := T_FILE, i_size := 100, i_addrs := 40 # replicate 12 0\<rparr>]"
  by (simp_all add: demo_fs_def boot_fs_def log_st.defs fs_st.defs demo_log_sel)

lemma demo_fs_view: "bview demo_fs = bview demo_log" "dirty_blocks demo_fs = {40}"
proof -
  show "bview demo_fs = bview demo_log" unfolding bview_def fun_eq_iff demo_fs_sel by simp
  have "cached demo_fs n b \<longleftrightarrow> n = 40 \<and> b = 0" for n b
    using demo_cached [of n b] by (simp add: cached_def demo_fs_sel)
  then show "dirty_blocks demo_fs = {40}" by (simp add: dirty_blocks_def demo_fs_sel) (simp add: demo_log_sel)
qed

lemma demo_fs_idle: "idle demo_fs"
proof -
  have "quiet demo_fs" using demo_quiet
    unfolding quiet_def bio_inv_def ring_def running_def locked_bufs_def demo_fs_sel .
  then show ?thesis by (simp add: idle_def demo_fs_view)
qed

theorem readi_returns_file_bytes_witness:
  "wp (readi \<lparr>dv_read = \<lambda>_. None, dv_write = \<lambda>_. None\<rparr> 0 50 200) (\<lambda>(r, bs) s'. r = 50 \<and> bs = replicate 50 7) demo_fs"
proof -
  have len: "length (bview demo_log b) = 512" for b
    by (auto simp: bview_def demo_log_sel nth_list_update zero_buf_def split: option.splits dest!: find_upt_SomeD)
  have 0: "128 * bn < 25 \<longleftrightarrow> bn = 0" for bn :: nat by (cases bn) simp_all
  have "mapped (bview demo_fs) (disksize demo_fs) (i_addrs (inodes demo_fs ! 0)) (i_size (inodes demo_fs ! 0))"
    unfolding mapped_def demo_fs_sel demo_fs_view using len by (auto simp: faddr_def 0)
  note R = readi_returns_file_bytes [OF demo_fs_idle _ _ this, of 200 "\<lparr>dv_read = \<lambda>_. None, dv_write = \<lambda>_. None\<rparr>" 50]
  have "fbytes (bview demo_log) (40 # replicate 12 0) 100 = replicate 100 7"
    by (rule nth_equalityI) (simp_all add: fbytes_def fbyte_def faddr_def demo_log_inv(2))
  then show ?thesis using R by (simp add: demo_fs_sel demo_fs_view) (erule wp_mono, auto)
qed

end
