(* ===== verification/Mkfs.thy ===== *)
theory Mkfs
  imports Content
begin

text \<open>
  \<^verbatim>\<open>mkfs.c\<close>, the program of the build that lays out the file system image.  The image is the list of
  its sectors; a write past its end makes it longer, the gap being zeroes, and a read past its end
  is the failing \<^verbatim>\<open>read\<close> that ends the program.  Calls of the host on the image file do not fail
  otherwise.  A failing \<^verbatim>\<open>assert\<close> and \<^verbatim>\<open>exit(1)\<close> are panics.  The static variables are the state.  The
  host is little-endian, so that the bytes \<^verbatim>\<open>xint\<close> and \<^verbatim>\<open>xshort\<close> store read as the number they make.
  The names of \<^verbatim>\<open>balloc\<close> and \<^verbatim>\<open>ialloc\<close> are those of \<^verbatim>\<open>fs.c\<close> too; here they have the prefix \<open>mk_\<close>.

  The lemmas show that \<^verbatim>\<open>iappend\<close> appends to the abstract file of its inode and touches no other, and
  takes exactly the blocks the new size needs.
\<close>

record img_st =
  img :: "block list"
  m_sb :: superblock
  freeinode :: nat
  freeblock :: nat

section \<open>Sectors and inodes\<close>

definition xshort :: "nat \<Rightarrow> nat" where
  "xshort x = get16 (put16 (replicate 2 0) 0 x) 0"

definition xint :: "nat \<Rightarrow> nat" where
  "xint x = get32 (put32 (replicate 4 0) 0 x) 0"

text \<open>The sector that starts at the offset \<^verbatim>\<open>sec * BSIZE\<close>, a product of \<^verbatim>\<open>uint\<close>.\<close>

definition sector :: "nat \<Rightarrow> nat" where
  "sector sec = sec * BSIZE mod 4294967296 div BSIZE"

definition wsect :: "nat \<Rightarrow> block \<Rightarrow> (img_st, unit) prog" where
  "wsect sec buf =
     modify (\<lambda>s. s\<lparr>img := (let n = sector sec in
       if n < length (img s) then (img s)[n := buf]
       else img s @ replicate (n - length (img s)) (replicate BSIZE 0) @ [buf])\<rparr>)"

definition rsect :: "nat \<Rightarrow> (img_st, block) prog" where
  "rsect sec =
     bnd (gets img) (\<lambda>i.
     if sector sec < length i then ret (i ! sector sec) else panic ''read'')"

definition winode :: "nat \<Rightarrow> dinode \<Rightarrow> (img_st, unit) prog" where
  "winode inum ip =
     bnd (gets m_sb) (\<lambda>sb.
     bnd (rsect (IBLOCK inum sb)) (\<lambda>buf.
     wsect (IBLOCK inum sb) (put_dinode buf (dip inum) ip)))"

definition rinode :: "nat \<Rightarrow> (img_st, dinode) prog" where
  "rinode inum =
     bnd (gets m_sb) (\<lambda>sb.
     bnd (rsect (IBLOCK inum sb)) (\<lambda>buf.
     ret (get_dinode buf (dip inum))))"

definition mk_ialloc :: "int \<Rightarrow> (img_st, nat) prog" where
  "mk_ialloc type =
     bnd (gets freeinode) (\<lambda>inum.
     seqp (modify (\<lambda>s. s\<lparr>freeinode := inum + 1\<rparr>))
     (seqp (winode inum \<lparr>d_type = to_short (xshort (of_short type)), d_major = 0, d_minor = 0, d_nlink = to_short (xshort 1),
                         d_size = xint 0, d_addrs = replicate 13 0\<rparr>)
      (ret inum)))"

definition mk_balloc :: "nat \<Rightarrow> (img_st, unit) prog" where
  "mk_balloc used =
     (if \<not> used < BSIZE * 8 then panic ''assert''
      else
        bnd (gets m_sb) (\<lambda>sb.
        wsect (sb_bmapstart sb)
          (fold (\<lambda>i buf. buf[i div 8 := buf ! (i div 8) OR bit_mask i]) [0..<used] (replicate BSIZE 0))))"

section \<open>Appending to a file\<close>

definition next_block :: "(img_st, nat) prog" where
  "next_block =
     bnd (gets freeblock) (\<lambda>b.
     seqp (modify (\<lambda>s. s\<lparr>freeblock := b + 1\<rparr>))
      (ret b))"

text \<open>The address of block \<open>fbn\<close> of the file, which is allocated when there is none.\<close>

definition append_block :: "dinode \<Rightarrow> nat \<Rightarrow> (img_st, dinode \<times> nat) prog" where
  "append_block din fbn =
     (if fbn < NDIRECT then
        bnd (if xint (d_addrs din ! fbn) = 0
             then bnd next_block (\<lambda>b. ret (din\<lparr>d_addrs := (d_addrs din)[fbn := xint b]\<rparr>))
             else ret din) (\<lambda>din.
        ret (din, xint (d_addrs din ! fbn)))
      else
        bnd (if xint (d_addrs din ! NDIRECT) = 0
             then bnd next_block (\<lambda>b. ret (din\<lparr>d_addrs := (d_addrs din)[NDIRECT := xint b]\<rparr>))
             else ret din) (\<lambda>din.
        bnd (rsect (xint (d_addrs din ! NDIRECT))) (\<lambda>indirect.
        bnd (if get32 indirect (4 * (fbn - NDIRECT)) = 0
             then bnd next_block (\<lambda>b.
                  let indirect = put32 indirect (4 * (fbn - NDIRECT)) (xint b) in
                  seqp (wsect (xint (d_addrs din ! NDIRECT)) indirect)
                   (ret indirect))
             else ret indirect) (\<lambda>indirect.
        ret (din, xint (get32 indirect (4 * (fbn - NDIRECT))))))))"

function iappend_loop :: "dinode \<Rightarrow> nat \<Rightarrow> u8 list \<Rightarrow> (img_st, dinode \<times> nat) prog" where
  "iappend_loop din off p =
     (if p = [] then ret (din, off)
      else
        let fbn = off div BSIZE; n1 = min (length p) ((fbn + 1) * BSIZE - off) in
        if \<not> fbn < MAXFILE then panic ''assert''
        else
          bnd (append_block din fbn) (\<lambda>(din, x).
          bnd (rsect x) (\<lambda>buf.
          seqp (wsect x (put_bytes buf (off - fbn * BSIZE) (take n1 p)))
           (iappend_loop din (off + n1) (drop n1 p)))))"
  by auto
termination
  by (relation "measure (\<lambda>(din, off, p). length p)") (auto simp: min_def dividend_less_div_times)

declare iappend_loop.simps [simp del]

definition iappend :: "nat \<Rightarrow> u8 list \<Rightarrow> (img_st, unit) prog" where
  "iappend inum p =
     bnd (rinode inum) (\<lambda>din.
     bnd (iappend_loop din (xint (d_size din)) p) (\<lambda>(din, off).
     winode inum (din\<lparr>d_size := xint off\<rparr>)))"

section \<open>The program\<close>

definition put_sb :: "superblock \<Rightarrow> block" where
  "put_sb sb =
     fold (\<lambda>(p, v) d. put32 d p v)
       [(0, sb_size sb), (4, sb_nblocks sb), (8, sb_ninodes sb), (12, sb_nlog sb), (16, sb_logstart sb),
        (20, sb_inodestart sb), (24, sb_bmapstart sb)]
       (replicate BSIZE 0)"

text \<open>A directory entry with its name cut to \<^verbatim>\<open>DIRSIZ\<close> and padded with zeroes.\<close>

definition mk_dirent :: "nat \<Rightarrow> u8 list \<Rightarrow> u8 list" where
  "mk_dirent inum name = put_dirent \<lparr>de_inum = xshort inum, de_name = take DIRSIZ (name @ replicate DIRSIZ 0)\<rparr>"

text \<open>A file of the command line: its name and what the reads of it return, or \<open>None\<close> when it does not open.\<close>

definition add_file :: "nat \<Rightarrow> u8 list \<times> u8 list list option \<Rightarrow> (img_st, unit) prog" where
  "add_file rootino f =
     (if SLASH \<in> set (fst f) then panic ''assert''
      else case snd f of
        None \<Rightarrow> panic ''open''
      | Some chunks \<Rightarrow>
          let name = (if fst f \<noteq> [] \<and> hd (fst f) = 95 then tl (fst f) else fst f) in
          bnd (mk_ialloc T_FILE) (\<lambda>inum.
          seqp (iappend rootino (mk_dirent inum name))
           (forp chunks (\<lambda>buf. iappend inum buf))))"

definition mkfs_main :: "(u8 list \<times> u8 list list option) list \<Rightarrow> (img_st, unit) prog" where
  "mkfs_main files =
     (let nbitmap = FSSIZE div (BSIZE * 8) + 1; ninodeblocks = 200 div IPB + 1; nlog = LOGSIZE;
          nmeta = 2 + nlog + ninodeblocks + nbitmap; nblocks = FSSIZE - nmeta;
          sb = \<lparr>sb_size = xint FSSIZE, sb_nblocks = xint nblocks, sb_ninodes = xint 200, sb_nlog = xint nlog,
                sb_logstart = xint 2, sb_inodestart = xint (2 + nlog), sb_bmapstart = xint (2 + nlog + ninodeblocks)\<rparr> in
      seqp (modify (\<lambda>s. s\<lparr>m_sb := sb, freeblock := nmeta\<rparr>))
      (seqp (forp [0..<FSSIZE] (\<lambda>i. wsect i (replicate BSIZE 0)))
      (seqp (wsect 1 (put_sb sb))
      (bnd (mk_ialloc T_DIR) (\<lambda>rootino.
       if rootino \<noteq> ROOTINO then panic ''assert''
       else
         seqp (iappend rootino (mk_dirent rootino [46]))
         (seqp (iappend rootino (mk_dirent rootino [46, 46]))
         (seqp (forp files (add_file rootino))
         (bnd (rinode rootino) (\<lambda>din.
          seqp (winode rootino (din\<lparr>d_size := xint ((xint (d_size din) div BSIZE + 1) * BSIZE)\<rparr>))
          (bnd (gets freeblock) mk_balloc))))))))))"

section \<open>Images\<close>

lemma xint_small [simp]: "x < 4294967296 \<Longrightarrow> xint x = x"
  by (simp add: xint_def get32_put32)

lemma sector_small [simp]: "sec < 1000 \<Longrightarrow> sector sec = sec"
  by (simp add: sector_def)

text \<open>Blocks that a file of \<open>off\<close> bytes has, and the blocks it owns: those and the indirect block.\<close>

definition nblk :: "nat \<Rightarrow> nat" where
  "nblk off = (off + 511) div BSIZE"

definition cnt :: "nat \<Rightarrow> nat" where
  "cnt nb = nb + (if NDIRECT < nb then 1 else 0)"

definition owned :: "(nat \<Rightarrow> block) \<Rightarrow> nat list \<Rightarrow> nat \<Rightarrow> nat list" where
  "owned V as nb = map (faddr V as) [0..<nb] @ (if NDIRECT < nb then [as ! NDIRECT] else [])"

text \<open>The addresses of a file of \<open>nb\<close> blocks: its blocks are distinct and below \<open>fb\<close>, and every other address is zero.\<close>

definition blocks_ok :: "(nat \<Rightarrow> block) \<Rightarrow> nat \<Rightarrow> nat list \<Rightarrow> nat \<Rightarrow> bool" where
  "blocks_ok V fb as nb \<longleftrightarrow> nb \<le> MAXFILE \<and> length as = 13 \<and> distinct (owned V as nb) \<and> (\<forall>b\<in>set (owned V as nb). 59 \<le> b \<and> b < fb)
     \<and> (\<forall>k<NDIRECT. nb \<le> k \<longrightarrow> as ! k = 0) \<and> (nb \<le> NDIRECT \<longrightarrow> as ! NDIRECT = 0)
     \<and> (NDIRECT < nb \<longrightarrow> (\<forall>k<NINDIRECT. nb \<le> k + NDIRECT \<longrightarrow> get32 (V (as ! NDIRECT)) (4 * k) = 0))"

definition img_ok :: "img_st \<Rightarrow> bool" where
  "img_ok s \<longleftrightarrow> length (img s) = FSSIZE \<and> (\<forall>b<FSSIZE. length (img s ! b) = BSIZE) \<and> 59 \<le> freeblock s \<and> freeblock s \<le> FSSIZE
     \<and> (\<forall>b. freeblock s \<le> b \<and> b < FSSIZE \<longrightarrow> img s ! b = replicate BSIZE 0)"

definition vw :: "img_st \<Rightarrow> nat \<Rightarrow> block" where
  "vw s n = img s ! n"

lemma blocks_okD:
  assumes "blocks_ok V fb as nb"
  shows "nb \<le> MAXFILE" "length as = 13" "distinct (owned V as nb)" "b \<in> set (owned V as nb) \<Longrightarrow> 59 \<le> b \<and> b < fb"
    "k < NDIRECT \<Longrightarrow> nb \<le> k \<Longrightarrow> as ! k = 0" "nb \<le> NDIRECT \<Longrightarrow> as ! NDIRECT = 0"
    "NDIRECT < nb \<Longrightarrow> k < NINDIRECT \<Longrightarrow> nb \<le> k + NDIRECT \<Longrightarrow> get32 (V (as ! NDIRECT)) (4 * k) = 0"
  using assms unfolding blocks_ok_def by blast+

lemma ownedI: "k < nb \<Longrightarrow> faddr V as k \<in> set (owned V as nb)" "NDIRECT < nb \<Longrightarrow> as ! NDIRECT \<in> set (owned V as nb)"
  by (auto simp: owned_def)

lemma owned_ind: "distinct (owned V as nb) \<Longrightarrow> k < nb \<Longrightarrow> NDIRECT < nb \<Longrightarrow> faddr V as k \<noteq> as ! NDIRECT"
  by (force simp: owned_def)

lemma owned_inj: "distinct (owned V as nb) \<Longrightarrow> j < k \<Longrightarrow> k < nb \<Longrightarrow> faddr V as j \<noteq> faddr V as k"
proof -
  assume d: "distinct (owned V as nb)" and k: "j < k" "k < nb"
  from d have "inj_on (faddr V as) {0..<nb}" by (simp add: owned_def distinct_map)
  then show ?thesis using k by (auto dest: inj_onD)
qed

lemma get32_zero: "get32 (replicate BSIZE 0) (4 * k) = 0" if "k < NINDIRECT"
  using that by (simp add: get32_def get16_def)

text \<open>The three ways to allocate the next block.\<close>

lemma blocks_direct:
  assumes "blocks_ok V fb as n" "n < NDIRECT" "59 \<le> fb"
  shows "blocks_ok V (fb + 1) (as[n := fb]) (Suc n)" "faddr V (as[n := fb]) n = fb"
    "\<forall>k<n. faddr V (as[n := fb]) k = faddr V as k" "set (owned V (as[n := fb]) (Suc n)) = insert fb (set (owned V as n))"
proof -
  note D = blocks_okD [OF assms(1)]
  show f: "faddr V (as[n := fb]) n = fb" "\<forall>k<n. faddr V (as[n := fb]) k = faddr V as k" using assms(2) D(2) by (auto simp: faddr_def)
  have o: "owned V (as[n := fb]) (Suc n) = owned V as n @ [fb]" using f assms(2) by (simp add: owned_def)
  then show "set (owned V (as[n := fb]) (Suc n)) = insert fb (set (owned V as n))" by simp
  have "fb \<notin> set (owned V as n)" using D(4) [of fb] by auto
  moreover have "\<forall>b\<in>set (owned V as n). 59 \<le> b \<and> b < fb + 1" using D(4) by (metis less_SucI Suc_eq_plus1)
  ultimately show "blocks_ok V (fb + 1) (as[n := fb]) (Suc n)"
    unfolding blocks_ok_def o using D(1-3,5,6) assms(2,3) by auto
qed

lemma blocks_indirect_first:
  assumes "blocks_ok V fb as NDIRECT" "59 \<le> fb" "fb + 1 < FSSIZE"
  defines "V' \<equiv> V(fb := put32 (replicate BSIZE 0) 0 (fb + 1))"
  shows "blocks_ok V' (fb + 2) (as[NDIRECT := fb]) 13" "faddr V' (as[NDIRECT := fb]) NDIRECT = fb + 1"
    "\<forall>k<NDIRECT. faddr V' (as[NDIRECT := fb]) k = faddr V as k"
    "set (owned V' (as[NDIRECT := fb]) 13) = insert fb (insert (fb + 1) (set (owned V as NDIRECT)))"
proof -
  note D = blocks_okD [OF assms(1)]
  show f: "faddr V' (as[NDIRECT := fb]) NDIRECT = fb + 1" "\<forall>k<NDIRECT. faddr V' (as[NDIRECT := fb]) k = faddr V as k"
    using assms(3) D(2) by (auto simp: faddr_def V'_def get32_put32)
  have u: "[0..<13] = [0..<12] @ [12]" by (simp add: upt_rec)
  have "map (faddr V' (as[NDIRECT := fb])) [0..<12] = map (faddr V as) [0..<12]" using f(2) by simp
  then have o: "owned V' (as[NDIRECT := fb]) 13 = owned V as NDIRECT @ [fb + 1, fb]"
    unfolding owned_def u using f(1) D(2) by simp
  then show "set (owned V' (as[NDIRECT := fb]) 13) = insert fb (insert (fb + 1) (set (owned V as NDIRECT)))" by auto
  have "fb \<notin> set (owned V as NDIRECT)" "fb + 1 \<notin> set (owned V as NDIRECT)" using D(4) [of fb] D(4) [of "fb + 1"] by auto
  moreover have "\<forall>b\<in>set (owned V as NDIRECT). 59 \<le> b \<and> b < fb + 2" using D(4) by (metis trans_less_add1)
  moreover have "get32 (V' fb) (4 * k) = 0" if "k < NINDIRECT" "13 \<le> k + 12" for k
    using that get32_zero [of k] by (simp add: V'_def get32_put32_other)
  ultimately show "blocks_ok V' (fb + 2) (as[NDIRECT := fb]) 13"
    unfolding blocks_ok_def o using D(2,3) assms(2) by (auto simp: distinct_append)
qed

lemma blocks_indirect:
  assumes "blocks_ok V fb as n" "NDIRECT < n" "n < MAXFILE" "59 \<le> fb" "fb < FSSIZE" "length (V (as ! NDIRECT)) = BSIZE"
  defines "V' \<equiv> V(as ! NDIRECT := put32 (V (as ! NDIRECT)) (4 * (n - NDIRECT)) fb)"
  shows "blocks_ok V' (fb + 1) as (Suc n)" "faddr V' as n = fb" "\<forall>k<n. faddr V' as k = faddr V as k"
    "set (owned V' as (Suc n)) = insert fb (set (owned V as n))"
proof -
  note D = blocks_okD [OF assms(1)]
  show f: "faddr V' as n = fb" using assms(2,3,5,6) by (simp add: faddr_def V'_def get32_put32)
  show g: "\<forall>k<n. faddr V' as k = faddr V as k"
  proof (intro allI impI)
    fix k assume k: "k < n"
    have "get32 (put32 (V (as ! NDIRECT)) (4 * (n - NDIRECT)) fb) (4 * (k - NDIRECT)) = get32 (V (as ! NDIRECT)) (4 * (k - NDIRECT))" if "\<not> k < NDIRECT"
      by (rule get32_put32_other) (use that k in linarith)
    then show "faddr V' as k = faddr V as k" by (simp add: faddr_def V'_def)
  qed
  have o: "owned V' as (Suc n) = map (faddr V as) [0..<n] @ [fb, as ! NDIRECT]"
    using f g assms(2) by (simp add: owned_def)
  have o': "owned V as n = map (faddr V as) [0..<n] @ [as ! NDIRECT]" using assms(2) by (simp add: owned_def)
  show "set (owned V' as (Suc n)) = insert fb (set (owned V as n))" unfolding o o' by auto
  have "fb \<notin> set (owned V as n)" using D(4) [of fb] by auto
  moreover have "\<forall>b\<in>set (owned V as n). 59 \<le> b \<and> b < fb + 1" using D(4) by (metis less_SucI Suc_eq_plus1)
  moreover have "get32 (V' (as ! NDIRECT)) (4 * k) = 0" if "k < NINDIRECT" "Suc n \<le> k + NDIRECT" for k
  proof -
    have "get32 (put32 (V (as ! NDIRECT)) (4 * (n - NDIRECT)) fb) (4 * k) = get32 (V (as ! NDIRECT)) (4 * k)"
      by (rule get32_put32_other) (use that assms(2) in linarith)
    then show ?thesis using that D(7) [of k] assms(2) by (simp add: V'_def)
  qed
  ultimately show "blocks_ok V' (fb + 1) as (Suc n)"
    unfolding blocks_ok_def o using D(2,3) assms(2-4) o' by (auto simp: distinct_append)
qed

subsection \<open>One block\<close>

text \<open>What allocating up to block \<open>fbn\<close> makes of an image and the addresses of a file.\<close>

definition allocated :: "img_st \<Rightarrow> nat list \<Rightarrow> nat \<Rightarrow> img_st \<Rightarrow> nat list \<Rightarrow> nat \<Rightarrow> bool" where
  "allocated s as nb s' as' nb' \<longleftrightarrow> img_ok s' \<and> blocks_ok (vw s') (freeblock s') as' nb'
     \<and> freeblock s' + cnt nb = freeblock s + cnt nb' \<and> (\<forall>k<nb. faddr (vw s') as' k = faddr (vw s) as k)
     \<and> (\<forall>b<freeblock s. b \<notin> {x. NDIRECT < nb \<and> x = as ! NDIRECT} \<longrightarrow> img s' ! b = img s ! b)
     \<and> set (owned (vw s') as' nb') \<subseteq> set (owned (vw s) as nb) \<union> {freeblock s..<freeblock s'}
     \<and> m_sb s' = m_sb s \<and> freeinode s' = freeinode s"

lemma img_okD:
  assumes "img_ok s"
  shows "length (img s) = FSSIZE" "b < FSSIZE \<Longrightarrow> length (img s ! b) = BSIZE" "59 \<le> freeblock s" "freeblock s \<le> FSSIZE"
    "freeblock s \<le> b \<Longrightarrow> b < FSSIZE \<Longrightarrow> img s ! b = replicate BSIZE 0"
  using assms by (simp_all add: img_ok_def)

lemma next_block_run: "next_block s = Ret (freeblock s) (s\<lparr>freeblock := freeblock s + 1\<rparr>)"
  by (simp add: next_block_def prog_defs)

lemma rsect_run: "img_ok s \<Longrightarrow> b < FSSIZE \<Longrightarrow> rsect b s = Ret (img s ! b) s"
  by (simp add: rsect_def img_ok_def prog_defs)

lemma wsect_run: "img_ok s \<Longrightarrow> b < FSSIZE \<Longrightarrow> wsect b d s = Ret () (s\<lparr>img := (img s)[b := d]\<rparr>)"
  by (simp add: wsect_def img_ok_def prog_defs)

lemma vw_upd: "b < length (img s) \<Longrightarrow> vw (s\<lparr>img := (img s)[b := d], freeblock := n\<rparr>) = (vw s)(b := d)"
  by (auto simp: fun_eq_iff nth_list_update vw_def)

lemma img_ok_grow: "img_ok s \<Longrightarrow> freeblock s + k \<le> FSSIZE \<Longrightarrow> img_ok (s\<lparr>freeblock := freeblock s + k\<rparr>)"
  by (simp add: img_ok_def)

lemma img_ok_upd: "img_ok s \<Longrightarrow> b < freeblock s \<Longrightarrow> length d = BSIZE \<Longrightarrow> img_ok (s\<lparr>img := (img s)[b := d]\<rparr>)"
  by (auto simp: img_ok_def nth_list_update)

lemma append_block_old:
  assumes I: "img_ok s" and B: "blocks_ok (vw s) (freeblock s) (d_addrs din) (Suc fbn)"
  shows "append_block din fbn s = Ret (din, faddr (vw s) (d_addrs din) fbn) s"
proof -
  note D = blocks_okD [OF B] and M = img_okD [OF I]
  have f: "59 \<le> faddr (vw s) (d_addrs din) fbn" "faddr (vw s) (d_addrs din) fbn < FSSIZE" using D(4) [OF ownedI(1), of fbn] M(4) by auto
  show ?thesis
  proof (cases "fbn < NDIRECT")
    case True
    then show ?thesis using f by (simp add: append_block_def faddr_def prog_defs)
  next
    case False
    then have i: "59 \<le> d_addrs din ! NDIRECT" "d_addrs din ! NDIRECT < FSSIZE" using D(4) [OF ownedI(2)] M(4) by auto
    then show ?thesis using False f rsect_run [OF I i(2)] by (simp add: append_block_def faddr_def prog_defs vw_def)
  qed
qed

lemma append_block_direct:
  assumes I: "img_ok s" and B: "blocks_ok (vw s) (freeblock s) (d_addrs din) n" and n: "n < NDIRECT" "freeblock s < FSSIZE"
  defines "s' \<equiv> s\<lparr>freeblock := freeblock s + 1\<rparr>" and "din' \<equiv> din\<lparr>d_addrs := (d_addrs din)[n := freeblock s]\<rparr>"
  shows "append_block din n s = Ret (din', freeblock s) s'" "allocated s (d_addrs din) n s' (d_addrs din') (Suc n)"
    "faddr (vw s') (d_addrs din') n = freeblock s"
proof -
  note D = blocks_okD [OF B] and M = img_okD [OF I]
  note G = blocks_direct [OF B n(1) M(3)]
  have vw': "vw s' = vw s" by (simp add: s'_def vw_def fun_eq_iff)
  show "append_block din n s = Ret (din', freeblock s) s'"
    using D(2) D(5) [of n] n by (simp add: append_block_def next_block_run prog_defs s'_def din'_def)
  show "faddr (vw s') (d_addrs din') n = freeblock s" using G(2) vw' by (simp add: din'_def)
  show "allocated s (d_addrs din) n s' (d_addrs din') (Suc n)"
    using G img_ok_grow [OF I, of 1] n vw' by (auto simp: allocated_def s'_def din'_def cnt_def)
qed

lemma append_block_first:
  assumes I: "img_ok s" and B: "blocks_ok (vw s) (freeblock s) (d_addrs din) NDIRECT" and n: "freeblock s + 1 < FSSIZE"
  defines "s' \<equiv> s\<lparr>img := (img s)[freeblock s := put32 (replicate BSIZE 0) 0 (freeblock s + 1)], freeblock := freeblock s + 2\<rparr>"
    and "din' \<equiv> din\<lparr>d_addrs := (d_addrs din)[NDIRECT := freeblock s]\<rparr>"
  shows "append_block din NDIRECT s = Ret (din', freeblock s + 1) s'" "allocated s (d_addrs din) NDIRECT s' (d_addrs din') (Suc NDIRECT)"
    "faddr (vw s') (d_addrs din') NDIRECT = freeblock s + 1"
proof -
  note D = blocks_okD [OF B] and M = img_okD [OF I]
  note G = blocks_indirect_first [OF B M(3) n]
  have vw': "vw s' = (vw s)(freeblock s := put32 (replicate BSIZE 0) 0 (freeblock s + 1))" unfolding s'_def using n M(1) by (intro vw_upd) simp
  have z: "img s ! freeblock s = replicate BSIZE 0" using M(5) n by simp
  have z0: "get32 (replicate BSIZE 0) 0 = 0" using get32_zero [of 0] by simp
  show "append_block din NDIRECT s = Ret (din', freeblock s + 1) s'"
    using D(2,6) n M(1) z z0
    by (simp add: append_block_def next_block_run rsect_def wsect_def prog_defs s'_def din'_def get32_put32 Let_def One_nat_def)
  show "faddr (vw s') (d_addrs din') NDIRECT = freeblock s + 1" using G(2) unfolding vw' by (simp add: din'_def)
  have "img_ok s'" using I n unfolding img_ok_def s'_def by (auto simp: nth_list_update)
  moreover have "img s' ! b = img s ! b" if "b < freeblock s" for b using that by (simp add: s'_def)
  moreover have "freeblock s' = freeblock s + 2" "m_sb s' = m_sb s" "freeinode s' = freeinode s" "Suc NDIRECT = 13" by (simp_all add: s'_def)
  ultimately show "allocated s (d_addrs din) NDIRECT s' (d_addrs din') (Suc NDIRECT)"
    using G unfolding allocated_def vw' by (auto simp: din'_def cnt_def)
qed

lemma append_block_indirect:
  assumes I: "img_ok s" and B: "blocks_ok (vw s) (freeblock s) (d_addrs din) n" and n: "NDIRECT < n" "n < MAXFILE" "freeblock s < FSSIZE"
  defines "ind \<equiv> d_addrs din ! NDIRECT"
  defines "s' \<equiv> s\<lparr>img := (img s)[ind := put32 (img s ! ind) (4 * (n - NDIRECT)) (freeblock s)], freeblock := freeblock s + 1\<rparr>"
  shows "append_block din n s = Ret (din, freeblock s) s'" "allocated s (d_addrs din) n s' (d_addrs din) (Suc n)"
    "faddr (vw s') (d_addrs din) n = freeblock s"
proof -
  note D = blocks_okD [OF B] and M = img_okD [OF I]
  have i: "59 \<le> ind" "ind < freeblock s" "ind < FSSIZE" using D(4) [OF ownedI(2) [OF n(1)]] M(4) by (auto simp: ind_def)
  have l: "length (vw s (d_addrs din ! NDIRECT)) = BSIZE" using M(2) i(3) by (simp add: ind_def vw_def)
  note G = blocks_indirect [OF B n(1,2) M(3) n(3) l, folded ind_def, unfolded vw_def [of s ind]]
  have vw': "vw s' = (vw s)(ind := put32 (img s ! ind) (4 * (n - NDIRECT)) (freeblock s))" unfolding s'_def using i(3) M(1) by (intro vw_upd) simp
  have z: "get32 (img s ! ind) (4 * (n - NDIRECT)) = 0" using D(7) [of "n - NDIRECT"] n by (simp add: ind_def vw_def)
  show "append_block din n s = Ret (din, freeblock s) s'"
    using n i M(1) z l [folded ind_def] by (simp add: vw_def append_block_def next_block_run rsect_def wsect_def prog_defs s'_def ind_def [symmetric] get32_put32 Let_def)
  show "faddr (vw s') (d_addrs din) n = freeblock s" using G(2) unfolding vw' by simp
  have "img_ok s'" using I n(3) i l unfolding img_ok_def s'_def by (auto simp: nth_list_update vw_def ind_def)
  moreover have "img s' ! b = img s ! b" if "b \<noteq> ind" for b using that by (simp add: s'_def)
  moreover have "freeblock s' = freeblock s + 1" "m_sb s' = m_sb s" "freeinode s' = freeinode s" by (simp_all add: s'_def)
  ultimately show "allocated s (d_addrs din) n s' (d_addrs din) (Suc n)"
    using G n unfolding allocated_def vw' by (auto simp: cnt_def ind_def)
qed

lemma append_block_spec:
  assumes I: "img_ok s" and B: "blocks_ok (vw s) (freeblock s) (d_addrs din) nb" and n: "nb = fbn \<or> nb = Suc fbn" "fbn < MAXFILE"
    and room: "freeblock s + cnt (Suc fbn) \<le> FSSIZE + cnt nb"
  shows "\<exists>as' s'. append_block din fbn s = Ret (din\<lparr>d_addrs := as'\<rparr>, faddr (vw s') as' fbn) s' \<and> allocated s (d_addrs din) nb s' as' (Suc fbn)"
proof (cases "nb = Suc fbn")
  case True
  then show ?thesis using append_block_old [OF I] B I
    by (intro exI [of _ "d_addrs din"] exI [of _ s]) (simp add: allocated_def)
next
  case False
  then have nb: "nb = fbn" using n by simp
  consider "fbn < NDIRECT" | "fbn = NDIRECT" | "NDIRECT < fbn" by linarith
  then show ?thesis
  proof cases
    case 1
    then have "freeblock s < FSSIZE" using room nb by (simp add: cnt_def)
    from append_block_direct [OF I B [unfolded nb] 1 this] show ?thesis unfolding nb by (intro exI) (auto intro: conjI)
  next
    case 2
    then have "freeblock s + 1 < FSSIZE" using room nb by (simp add: cnt_def)
    from append_block_first [OF I B [unfolded nb 2] this] show ?thesis unfolding nb 2 by (intro exI) (auto intro: conjI)
  next
    case 3
    then have "freeblock s < FSSIZE" using room nb by (simp add: cnt_def)
    from append_block_indirect [OF I B [unfolded nb] 3 n(2) this] show ?thesis
      unfolding nb by (intro exI [of _ "d_addrs din"] exI) (auto intro: conjI)
  qed
qed

text \<open>Writing to a data block of the file keeps its addresses.\<close>

lemma write_block:
  assumes I: "img_ok s" and B: "blocks_ok (vw s) (freeblock s) as nb" and k: "k < nb" and d: "length d = BSIZE"
  defines "x \<equiv> faddr (vw s) as k"
  defines "s' \<equiv> s\<lparr>img := (img s)[x := d]\<rparr>"
  shows "img_ok s'" "faddr (vw s') as j = faddr (vw s) as j \<or> nb \<le> j" "blocks_ok (vw s') (freeblock s) as nb" "owned (vw s') as nb = owned (vw s) as nb"
    "vw s' = (vw s)(x := d)"
proof -
  note D = blocks_okD [OF B] and M = img_okD [OF I]
  have x: "59 \<le> x" "x < freeblock s" using D(4) [OF ownedI(1) [OF k]] by (auto simp: x_def)
  show "img_ok s'" unfolding s'_def by (rule img_ok_upd [OF I x(2) d])
  show vw': "vw s' = (vw s)(x := d)" unfolding s'_def using x M(1,4) by (auto simp: fun_eq_iff nth_list_update vw_def)
  have ind: "as ! NDIRECT \<noteq> x" if "NDIRECT < nb"
    using owned_ind [OF D(3) k that] by (simp add: x_def)
  have f: "faddr (vw s') as j = faddr (vw s) as j" if "j < nb" for j
    using that ind unfolding faddr_def vw' by simp
  then show "faddr (vw s') as j = faddr (vw s) as j \<or> nb \<le> j" by auto
  show o: "owned (vw s') as nb = owned (vw s) as nb" using f by (simp add: owned_def)
  show "blocks_ok (vw s') (freeblock s) as nb" using D ind unfolding blocks_ok_def o by (auto simp: vw')
qed

lemma block_rest: "(off div BSIZE + 1) * BSIZE - off = BSIZE - off mod BSIZE" "off - off div BSIZE * BSIZE = off mod BSIZE"
proof -
  have "(q + 1) * BSIZE - (q * BSIZE + r) = BSIZE - r" for q r by simp
  from this [of "off div BSIZE" "off mod BSIZE"] show "(off div BSIZE + 1) * BSIZE - off = BSIZE - off mod BSIZE"
    by (simp only: div_mult_mod_eq)
qed (rule minus_div_mult_eq_mod)

lemma nblk_step:
  assumes "0 < n1" "n1 \<le> (off div BSIZE + 1) * BSIZE - off"
  shows "nblk (off + n1) = Suc (off div BSIZE)" "nblk off = off div BSIZE \<or> nblk off = Suc (off div BSIZE)"
    "nblk off \<le> off div BSIZE \<Longrightarrow> off mod BSIZE = 0"
proof -
  define q where "q = off div BSIZE"
  define r where "r = off mod BSIZE"
  have o: "off = q * BSIZE + r" "r < BSIZE" unfolding q_def r_def by simp_all
  have n: "n1 + r \<le> BSIZE" using assms(2) mod_less_divisor [of BSIZE off] unfolding block_rest r_def by linarith
  have S: "BSIZE * Suc k = k * BSIZE + BSIZE" for k by simp
  have n0: "nblk off = (if r = 0 then q else Suc q)"
    unfolding nblk_def by (rule div_nat_eqI; cases "r = 0") (use o S [of q] S [of "Suc q"] in \<open>simp_all\<close>)
  show "nblk (off + n1) = Suc (off div BSIZE)" unfolding nblk_def q_def [symmetric]
    by (rule div_nat_eqI) (use o n assms(1) in simp_all)
  show "nblk off = off div BSIZE \<or> nblk off = Suc (off div BSIZE)" using n0 by (auto simp: q_def)
  show "off mod BSIZE = 0" if "nblk off \<le> off div BSIZE" using n0 that by (simp add: q_def r_def split: if_splits)
qed

subsection \<open>The loop\<close>

definition appended :: "img_st \<Rightarrow> nat list \<Rightarrow> nat \<Rightarrow> u8 list \<Rightarrow> img_st \<Rightarrow> nat list \<Rightarrow> bool" where
  "appended s as off p s' as' \<longleftrightarrow> img_ok s' \<and> blocks_ok (vw s') (freeblock s') as' (nblk (off + length p))
     \<and> fbytes (vw s') as' (off + length p) = fbytes (vw s) as off @ p
     \<and> freeblock s' + cnt (nblk off) = freeblock s + cnt (nblk (off + length p))
     \<and> (\<forall>b<freeblock s. b \<notin> set (owned (vw s) as (nblk off)) \<longrightarrow> img s' ! b = img s ! b)
     \<and> set (owned (vw s') as' (nblk (off + length p))) \<subseteq> set (owned (vw s) as (nblk off)) \<union> {freeblock s..<freeblock s'}
     \<and> m_sb s' = m_sb s \<and> freeinode s' = freeinode s"

lemma appended_grows: "appended s as off p s' as' \<Longrightarrow> freeblock s \<le> freeblock s'"
proof -
  assume "appended s as off p s' as'"
  then have "freeblock s' + cnt (nblk off) = freeblock s + cnt (nblk (off + length p))" by (simp add: appended_def)
  moreover have "nblk off \<le> nblk (off + length p)" unfolding nblk_def by (intro div_le_mono) simp
  then have "cnt (nblk off) \<le> cnt (nblk (off + length p))" by (auto simp: cnt_def)
  ultimately show ?thesis by linarith
qed

lemma appended_trans:
  assumes A: "appended s as off p s1 as1" "appended s1 as1 (off + length p) q s2 as2"
  shows "appended s as off (p @ q) s2 as2"
proof -
  note g = appended_grows [OF A(1)] appended_grows [OF A(2)]
  have "img s2 ! b = img s ! b" if "b < freeblock s" "b \<notin> set (owned (vw s) as (nblk off))" for b
  proof -
    have "b \<notin> set (owned (vw s1) as1 (nblk (off + length p)))" using A(1) that by (auto simp: appended_def)
    then show ?thesis using A that g by (simp add: appended_def)
  qed
  moreover have "set (owned (vw s2) as2 (nblk (off + length p + length q))) \<subseteq> set (owned (vw s) as (nblk off)) \<union> {freeblock s..<freeblock s2}"
  proof -
    have 1: "set (owned (vw s2) as2 (nblk (off + length p + length q))) \<subseteq> set (owned (vw s1) as1 (nblk (off + length p))) \<union> {freeblock s1..<freeblock s2}"
      and 2: "set (owned (vw s1) as1 (nblk (off + length p))) \<subseteq> set (owned (vw s) as (nblk off)) \<union> {freeblock s..<freeblock s1}"
      using A by (simp_all add: appended_def)
    have "{freeblock s..<freeblock s1} \<union> {freeblock s1..<freeblock s2} = {freeblock s..<freeblock s2}" using g by (simp add: ivl_disj_un)
    then show ?thesis using 1 2 by blast
  qed
  ultimately show ?thesis using A by (simp add: appended_def add.assoc)
qed

lemma append_bytes:
  assumes I: "img_ok s" and B: "blocks_ok (vw s) (freeblock s) as (nblk off)" and A: "allocated s as (nblk off) s1 as1 (Suc (off div BSIZE))"
    and n1: "0 < length q" "length q \<le> (off div BSIZE + 1) * BSIZE - off"
  defines "x \<equiv> faddr (vw s1) as1 (off div BSIZE)"
  defines "d \<equiv> put_bytes (img s1 ! x) (off - off div BSIZE * BSIZE) q"
  defines "s2 \<equiv> s1\<lparr>img := (img s1)[x := d]\<rparr>"
  shows "appended s as off q s2 as1" "x < FSSIZE" "img_ok s1"
proof -
  let ?f = "off div BSIZE"
  define r where "r = off mod BSIZE"
  have r: "off - ?f * BSIZE = r" "r < BSIZE" "r + length q \<le> BSIZE" "off = ?f * BSIZE + r"
    using n1(2) mod_less_divisor [of BSIZE off] unfolding r_def block_rest by simp_all
  note N = nblk_step [OF n1]
  have A': "img_ok s1" "blocks_ok (vw s1) (freeblock s1) as1 (Suc ?f)" "\<forall>k<nblk off. faddr (vw s1) as1 k = faddr (vw s) as k"
    "\<forall>b<freeblock s. b \<notin> {x. NDIRECT < nblk off \<and> x = as ! NDIRECT} \<longrightarrow> img s1 ! b = img s ! b"
    "set (owned (vw s1) as1 (Suc ?f)) \<subseteq> set (owned (vw s) as (nblk off)) \<union> {freeblock s..<freeblock s1}"
    "freeblock s1 + cnt (nblk off) = freeblock s + cnt (Suc ?f)" "m_sb s1 = m_sb s" "freeinode s1 = freeinode s"
    using A by (simp_all add: allocated_def)
  note D = blocks_okD [OF B] and D1 = blocks_okD [OF A'(2)]
  have xo: "x \<in> set (owned (vw s1) as1 (Suc ?f))" unfolding x_def by (rule ownedI) simp
  then have x: "x < freeblock s1" using D1(4) by blast
  then show xl: "x < FSSIZE" and "img_ok s1" using img_okD(4) [OF A'(1)] A'(1) by auto
  have lx: "length (img s1 ! x) = BSIZE" using img_okD(2) [OF A'(1)] xl by simp
  have ld: "length d = BSIZE" unfolding d_def r(1) using lx r(3) by (simp add: length_put_bytes)
  note W = write_block [OF A'(1,2) lessI ld, folded x_def, folded s2_def]
  have fa: "faddr (vw s2) as1 j = faddr (vw s1) as1 j" if "j \<le> ?f" for j using W(2) [of j] that by auto
  have old: "img s2 ! faddr (vw s1) as1 j = img s ! faddr (vw s) as j" if j: "j < ?f" for j
  proof -
    have jn: "j < nblk off" using N(2) j by auto
    have e: "faddr (vw s1) as1 j = faddr (vw s) as j" using A'(3) jn by simp
    have "faddr (vw s) as j \<noteq> as ! NDIRECT" if "NDIRECT < nblk off"
      using owned_ind [OF D(3) jn that] .
    moreover have "faddr (vw s) as j < freeblock s" using D(4) [OF ownedI(1) [OF jn]] by simp
    ultimately have "img s1 ! faddr (vw s) as j = img s ! faddr (vw s) as j" using A'(4) by auto
    moreover have "faddr (vw s1) as1 j \<noteq> x" unfolding x_def using owned_inj [OF D1(3) j] by simp
    ultimately show ?thesis using e by (simp add: s2_def)
  qed
  have cur: "img s1 ! x = img s ! faddr (vw s) as ?f" if "0 < r"
  proof -
    have jn: "?f < nblk off" using N(2,3) that by (auto simp: r_def)
    have e: "x = faddr (vw s) as ?f" using A'(3) jn by (simp add: x_def)
    have "faddr (vw s) as ?f \<noteq> as ! NDIRECT" if "NDIRECT < nblk off"
      using owned_ind [OF D(3) jn that] .
    moreover have "faddr (vw s) as ?f < freeblock s" using D(4) [OF ownedI(1) [OF jn]] by simp
    ultimately show ?thesis using A'(4) e by auto
  qed
  have dn: "d ! i = (if r \<le> i \<and> i < r + length q then q ! (i - r) else img s1 ! x ! i)" if "i < BSIZE" for i
    using nth_put_bytes [of r q "img s1 ! x" i] lx r(3) that unfolding d_def r(1) by simp
  have sx: "img s2 ! x = d" using xl img_okD(1) [OF A'(1)] by (simp add: s2_def)
  have byte: "fbyte (vw s2) as1 k = (fbytes (vw s) as off @ q) ! k" if k: "k < off + length q" for k
  proof -
    have kd: "k = k div BSIZE * BSIZE + k mod BSIZE" "k mod BSIZE < BSIZE" by simp_all
    have lf: "length (fbytes (vw s) as off) = off" by (simp add: fbytes_def)
    consider "k < off" "k div BSIZE < ?f" | "k < off" "k div BSIZE = ?f" | "off \<le> k"
      using div_le_mono [of k off BSIZE] by linarith
    then show ?thesis
    proof cases
      case 1
      then have "fbyte (vw s2) as1 k = fbyte (vw s) as k" using fa [of "k div BSIZE"] old [of "k div BSIZE"] by (simp add: fbyte_def vw_def)
      then show ?thesis using 1(1) by (simp add: nth_append lf) (simp add: fbytes_def)
    next
      case 2
      have kr: "k mod BSIZE < r" using 2 kd(1) r(4) by linarith
      have "fbyte (vw s2) as1 k = d ! (k mod BSIZE)" using fa [of ?f] sx 2(2) by (simp add: fbyte_def vw_def x_def)
      also have "\<dots> = fbyte (vw s) as k" using dn [OF kd(2)] cur kr 2(2) by (simp add: fbyte_def vw_def)
      finally show ?thesis using 2(1) by (simp add: nth_append lf) (simp add: fbytes_def)
    next
      case 3
      have S: "BSIZE * Suc ?f = ?f * BSIZE + BSIZE" by simp
      have kf: "k div BSIZE = ?f" by (rule div_nat_eqI) (use 3 k r(2-4) S in linarith)+
      then have km: "k mod BSIZE = r + (k - off)" using kd(1) r(4) 3 by linarith
      have "fbyte (vw s2) as1 k = d ! (k mod BSIZE)" using fa [of ?f] sx kf by (simp add: fbyte_def vw_def x_def)
      also have "\<dots> = q ! (k - off)"
      proof -
        have "r \<le> k mod BSIZE" "k mod BSIZE < r + length q" "k mod BSIZE - r = k - off" using km 3 k by linarith+
        then show ?thesis using dn [OF kd(2)] by simp
      qed
      finally show ?thesis using 3 by (simp add: nth_append lf)
    qed
  qed
  have "fbytes (vw s2) as1 (off + length q) = fbytes (vw s) as off @ q"
    by (rule nth_equalityI) (use byte in \<open>simp_all add: fbytes_def\<close>)
  moreover have "img s2 ! b = img s ! b" if "b < freeblock s" "b \<notin> set (owned (vw s) as (nblk off))" for b
  proof -
    have "b \<noteq> x" using xo A'(5) that by auto
    then have "img s2 ! b = img s1 ! b" by (simp add: s2_def)
    then show ?thesis using A'(4) that ownedI(2) [of "nblk off" as "vw s"] by auto
  qed
  ultimately show "appended s as off q s2 as1" unfolding appended_def N(1)
    using W(1,3,4) A'(5-8) by (simp add: s2_def)
qed

lemma appended_Nil: "img_ok s \<Longrightarrow> blocks_ok (vw s) (freeblock s) as (nblk off) \<Longrightarrow> appended s as off [] s as"
  by (simp add: appended_def)

lemma cnt_mono: "a \<le> b \<Longrightarrow> cnt a \<le> cnt b"
  by (auto simp: cnt_def)

lemma nblk_mono: "a \<le> b \<Longrightarrow> nblk a \<le> nblk b"
  unfolding nblk_def by (intro div_le_mono) simp

lemma iappend_loop_spec:
  assumes "img_ok s" "blocks_ok (vw s) (freeblock s) (d_addrs din) (nblk off)" "off + length p \<le> MAXFILE * BSIZE"
    "freeblock s + cnt (nblk (off + length p)) \<le> FSSIZE + cnt (nblk off)"
  shows "\<exists>as' s'. iappend_loop din off p s = Ret (din\<lparr>d_addrs := as'\<rparr>, off + length p) s' \<and> appended s (d_addrs din) off p s' as'"
  using assms
proof (induction p arbitrary: din off s rule: length_induct)
  case (1 p)
  show ?case
  proof (cases "p = []")
    case True
    then show ?thesis using appended_Nil [OF 1(2,3)]
      by (intro exI [of _ "d_addrs din"] exI [of _ s]) (simp add: iappend_loop.simps [of din off "[]"] ret_def)
  next
    case False
    define f where "f = off div BSIZE"
    define n1 where "n1 = min (length p) ((f + 1) * BSIZE - off)"
    have pos: "0 < (f + 1) * BSIZE - off" unfolding f_def block_rest by simp
    have n1: "0 < length (take n1 p)" "length (take n1 p) \<le> (off div BSIZE + 1) * BSIZE - off" "length (take n1 p) = n1" "n1 \<le> length p"
      using False pos by (auto simp: n1_def f_def)
    note N = nblk_step [OF n1(1,2)]
    have "off < MAXFILE * BSIZE" using 1(4) False by (cases p) auto
    then have fl: "f < MAXFILE" unfolding f_def by (simp add: less_mult_imp_div_less)
    have le: "Suc f \<le> nblk (off + length p)" using nblk_mono [of "off + n1" "off + length p"] N(1) n1(3,4) by (simp add: f_def)
    then have room: "freeblock s + cnt (Suc f) \<le> FSSIZE + cnt (nblk off)" using 1(5) cnt_mono [OF le] by linarith
    obtain as1 s1 where a: "append_block din f s = Ret (din\<lparr>d_addrs := as1\<rparr>, faddr (vw s1) as1 f) s1" "allocated s (d_addrs din) (nblk off) s1 as1 (Suc f)"
      using append_block_spec [OF 1(2,3) N(2) [folded f_def] fl room] by blast
    define x where "x = faddr (vw s1) as1 f"
    define s2 where "s2 = s1\<lparr>img := (img s1)[x := put_bytes (img s1 ! x) (off - f * BSIZE) (take n1 p)]\<rparr>"
    note P = append_bytes [OF 1(2,3) a(2) [unfolded f_def] n1(1,2), folded f_def, folded x_def, folded s2_def]
    have wr: "wsect x (put_bytes (img s1 ! x) (off - f * BSIZE) (take n1 p)) s1 = Ret () s2"
      using wsect_run [OF P(3,2)] by (simp add: s2_def)
    have run: "iappend_loop din off p s = iappend_loop (din\<lparr>d_addrs := as1\<rparr>) (off + n1) (drop n1 p) s2"
      using False fl a(1) wr rsect_run [OF P(3,2)] unfolding iappend_loop.simps [of din off p] Let_def f_def [symmetric] n1_def [symmetric]
      by (simp add: bnd_def seqp_def x_def [symmetric])
    have P1: "img_ok s2" "blocks_ok (vw s2) (freeblock s2) as1 (nblk (off + n1))" "freeblock s2 + cnt (nblk off) = freeblock s + cnt (nblk (off + n1))"
      using P(1) n1(3) by (simp_all add: appended_def)
    have "length (drop n1 p) < length p" "off + n1 + length (drop n1 p) = off + length p" using n1 by auto
    then obtain as' s' where r: "iappend_loop (din\<lparr>d_addrs := as1\<rparr>) (off + n1) (drop n1 p) s2 = Ret (din\<lparr>d_addrs := as'\<rparr>, off + length p) s'"
      "appended s2 as1 (off + n1) (drop n1 p) s' as'"
      using 1(1) [rule_format, of "drop n1 p" s2 "din\<lparr>d_addrs := as1\<rparr>" "off + n1"] P1 1(4,5) by auto
    have "appended s (d_addrs din) off (take n1 p @ drop n1 p) s' as'"
      by (rule appended_trans [OF P(1)]) (use r(2) n1(3) in simp)
    then have "appended s (d_addrs din) off p s' as'" by (simp only: append_take_drop_id)
    then show ?thesis using run r(1) by auto
  qed
qed

section \<open>Files\<close>

definition dino :: "img_st \<Rightarrow> nat \<Rightarrow> dinode" where
  "dino s i = get_dinode (img s ! (i div IPB + 32)) (dip i)"

definition content :: "img_st \<Rightarrow> nat \<Rightarrow> u8 list" where
  "content s i = fbytes (vw s) (d_addrs (dino s i)) (d_size (dino s i))"

abbreviation fblocks :: "img_st \<Rightarrow> nat \<Rightarrow> nat list" where
  "fblocks s i \<equiv> owned (vw s) (d_addrs (dino s i)) (nblk (d_size (dino s i)))"

text \<open>
  The image while the program runs: every inode given out describes a file of at most \<^verbatim>\<open>MAXFILE\<close> blocks,
  no two files share a block, and what is past \<^verbatim>\<open>freeblock\<close> is zero.
\<close>

definition mk_inv :: "img_st \<Rightarrow> bool" where
  "mk_inv s \<longleftrightarrow> img_ok s \<and> sb_inodestart (m_sb s) = 32 \<and> 1 \<le> freeinode s \<and> freeinode s \<le> 200
     \<and> (\<forall>i. 1 \<le> i \<and> i < freeinode s \<longrightarrow> d_size (dino s i) \<le> MAXFILE * BSIZE \<and> blocks_ok (vw s) (freeblock s) (d_addrs (dino s i)) (nblk (d_size (dino s i))))
     \<and> (\<forall>i j. 1 \<le> i \<and> i < j \<and> j < freeinode s \<longrightarrow> set (fblocks s i) \<inter> set (fblocks s j) = {})"

lemma blocks_agree:
  assumes B: "blocks_ok V fb as nb" and V: "\<forall>b\<in>set (owned V as nb). V' b = V b" and fb: "fb \<le> fb'"
  shows "k < nb \<Longrightarrow> faddr V' as k = faddr V as k" "owned V' as nb = owned V as nb" "blocks_ok V' fb' as nb"
    "nblk n \<le> nb \<Longrightarrow> fbytes V' as n = fbytes V as n"
proof -
  note D = blocks_okD [OF B]
  have ind: "V' (as ! NDIRECT) = V (as ! NDIRECT)" if "NDIRECT < nb" using V ownedI(2) [OF that] by blast
  have f: "faddr V' as k = faddr V as k" if "k < nb" for k using ind that by (auto simp: faddr_def)
  then show "k < nb \<Longrightarrow> faddr V' as k = faddr V as k" by blast
  show o: "owned V' as nb = owned V as nb" using f by (simp add: owned_def)
  have "59 \<le> b \<and> b < fb'" if "b \<in> set (owned V as nb)" for b using D(4) [OF that] fb by simp
  then show "blocks_ok V' fb' as nb" using D(1-3,5-7) ind unfolding blocks_ok_def o by auto
  show "fbytes V' as n = fbytes V as n" if "nblk n \<le> nb"
  proof -
    have "fbyte V' as k = fbyte V as k" if k: "k < n" for k
    proof -
      have "k div BSIZE < nblk n" using div_le_mono [of "k + BSIZE" "n + 511" BSIZE] k by (simp add: nblk_def)
      then have "k div BSIZE < nb" using \<open>nblk n \<le> nb\<close> by simp
      then show ?thesis using f V ownedI(1) by (simp add: fbyte_def)
    qed
    then show ?thesis by (simp add: fbytes_def)
  qed
qed

lemma to_short_range: "-32768 \<le> to_short (get16 d p) \<and> to_short (get16 d p) < 32768"
  using get16_lt [of d p] by (auto simp: to_short_def)

lemma dinode_ok_get: "dinode_ok (get_dinode d p)"
  using to_short_range [of d] get32_lt [of d] by (simp add: dinode_ok_def get_dinode_def)

lemma iblock_small: "mk_inv s \<Longrightarrow> i < 200 \<Longrightarrow> IBLOCK i (m_sb s) = i div IPB + 32 \<and> i div IPB + 32 < 58"
  using div_le_mono [of i 199 8] by (simp add: mk_inv_def IBLOCK_def)

lemma dip_le: "dip i + 64 \<le> BSIZE"
  using mod_less_divisor [of IPB i] by (simp add: dip_def)

text \<open>Writing an inode changes that inode alone.\<close>

lemma dino_upd:
  assumes "img_ok s" "i < 200" "j < 200" "dinode_ok d"
  shows "dino (s\<lparr>img := (img s)[i div IPB + 32 := put_dinode (img s ! (i div IPB + 32)) (dip i) d]\<rparr>) j = (if j = i then d else dino s j)"
proof -
  have b: "i div IPB + 32 < FSSIZE" "j div IPB + 32 < FSSIZE" using assms(2,3) div_le_mono [of i 199 8] div_le_mono [of j 199 8] by simp_all
  have l: "length (img s) = FSSIZE" "length (img s ! (i div IPB + 32)) = BSIZE" using img_okD [OF assms(1)] b by simp_all
  show ?thesis
  proof (cases "j div IPB = i div IPB \<and> j \<noteq> i")
    case True
    then have "j mod IPB \<noteq> i mod IPB" by (metis div_mult_mod_eq)
    then have "dip j + 64 \<le> dip i \<or> dip i + 64 \<le> dip j" unfolding dip_def by linarith
    then have "get_dinode (put_dinode (img s ! (i div IPB + 32)) (dip i) d) (dip j) = get_dinode (img s ! (i div IPB + 32)) (dip j)"
      using l(2) dip_le [of j] by (intro get_dinode_cong put_dinode_other) auto
    then show ?thesis using True l(1) b by (simp add: dino_def)
  next
    case False
    then show ?thesis using l b get_put_dinode [OF assms(4)] dip_le [of i] by (auto simp: dino_def)
  qed
qed

lemma winode_run:
  assumes "mk_inv s" "i < 200"
  shows "winode i d s = Ret () (s\<lparr>img := (img s)[i div IPB + 32 := put_dinode (img s ! (i div IPB + 32)) (dip i) d]\<rparr>)"
  using iblock_small [OF assms] assms(1) rsect_run [of s] wsect_run [of s] by (simp add: winode_def prog_defs mk_inv_def)

lemma rinode_run: "mk_inv s \<Longrightarrow> i < 200 \<Longrightarrow> rinode i s = Ret (dino s i) s"
  using iblock_small [of s i] rsect_run [of s] by (simp add: rinode_def prog_defs mk_inv_def dino_def)

lemma mk_invD:
  assumes "mk_inv s"
  shows "img_ok s" "sb_inodestart (m_sb s) = 32" "1 \<le> freeinode s" "freeinode s \<le> 200"
    "1 \<le> i \<Longrightarrow> i < freeinode s \<Longrightarrow> d_size (dino s i) \<le> MAXFILE * BSIZE"
    "1 \<le> i \<Longrightarrow> i < freeinode s \<Longrightarrow> blocks_ok (vw s) (freeblock s) (d_addrs (dino s i)) (nblk (d_size (dino s i)))"
    "1 \<le> i \<Longrightarrow> 1 \<le> j \<Longrightarrow> i < freeinode s \<Longrightarrow> j < freeinode s \<Longrightarrow> i \<noteq> j \<Longrightarrow> set (fblocks s i) \<inter> set (fblocks s j) = {}"
proof -
  show "set (fblocks s i) \<inter> set (fblocks s j) = {}" if "1 \<le> i" "1 \<le> j" "i < freeinode s" "j < freeinode s" "i \<noteq> j"
  proof (cases "i < j")
    case False
    then have "set (fblocks s j) \<inter> set (fblocks s i) = {}" using assms that unfolding mk_inv_def by (metis linorder_neqE_nat)
    then show ?thesis by (simp only: Int_commute)
  qed (use assms that in \<open>simp add: mk_inv_def\<close>)
qed (use assms in \<open>simp_all add: mk_inv_def\<close>)

lemma addrs_small:
  assumes B: "blocks_ok V fb as nb" and fb: "fb \<le> FSSIZE" and a: "a \<in> set as"
  shows "a < 4294967296"
proof -
  note D = blocks_okD [OF B]
  obtain k where k: "k < 13" "as ! k = a" using a D(2) by (metis in_set_conv_nth)
  have "as ! k = 0 \<or> as ! k \<in> set (owned V as nb)"
  proof (cases "k < 12")
    case True
    then show ?thesis using ownedI(1) [of k nb V as] D(5) [of k] by (cases "k < nb") (auto simp: faddr_def)
  next
    case False
    then have "k = 12" using k(1) by simp
    then show ?thesis using ownedI(2) [of nb as V] D(6) by (cases "12 < nb") auto
  qed
  then show ?thesis using D(4) [of a] fb k(2) by auto
qed

text \<open>Inode sectors are none of the blocks of a file.\<close>

lemma inode_sector_free:
  assumes "blocks_ok V fb as nb" "i < 200"
  shows "i div IPB + 32 \<notin> set (owned V as nb)" "i div IPB + 32 < 59"
  using blocks_okD(4) [OF assms(1), of "i div IPB + 32"] assms(2) div_le_mono [of i 199 8] by auto

text \<open>
  An image in which one inode has been given new contents: \<open>s1\<close> is the image after the blocks were
  written, and the inode is written last.
\<close>

lemma inode_commit:
  assumes I: "mk_inv s" and i: "1 \<le> i" "i < freeinode s"
    and A: "appended s (d_addrs (dino s i)) (d_size (dino s i)) p s1 as1" and sz: "d_size (dino s i) + length p \<le> MAXFILE * BSIZE"
  defines "d \<equiv> (dino s i)\<lparr>d_addrs := as1, d_size := d_size (dino s i) + length p\<rparr>"
  defines "s' \<equiv> s1\<lparr>img := (img s1)[i div IPB + 32 := put_dinode (img s1 ! (i div IPB + 32)) (dip i) d]\<rparr>"
  shows "mk_inv s'" "dino s' i = d" "content s' i = content s i @ p"
    "1 \<le> j \<Longrightarrow> j < freeinode s \<Longrightarrow> j \<noteq> i \<Longrightarrow> dino s' j = dino s j \<and> content s' j = content s j"
    "b < 32 \<Longrightarrow> img s' ! b = img s ! b"
proof -
  note D = mk_invD [OF I]
  let ?nb = "nblk (d_size (dino s i))" and ?nb' = "nblk (d_size (dino s i) + length p)"
  have A': "img_ok s1" "blocks_ok (vw s1) (freeblock s1) as1 ?nb'" "fbytes (vw s1) as1 (d_size (dino s i) + length p) = content s i @ p"
    "\<forall>b<freeblock s. b \<notin> set (fblocks s i) \<longrightarrow> img s1 ! b = img s ! b"
    "set (owned (vw s1) as1 ?nb') \<subseteq> set (fblocks s i) \<union> {freeblock s..<freeblock s1}" "m_sb s1 = m_sb s" "freeinode s1 = freeinode s"
    using A by (simp_all add: appended_def content_def)
  have g: "freeblock s \<le> freeblock s1" by (rule appended_grows [OF A])
  have i2: "i < 200" using i D(4) by simp
  have fs: "59 \<le> freeblock s" using img_okD(3) [OF D(1)] .
  have same: "dino s1 j = dino s j" if "j < 200" for j
    using A'(4) inode_sector_free [OF D(6) [OF i] that] fs by (simp add: dino_def)
  have dk: "dinode_ok d"
    using dinode_ok_get [of "img s ! (i div IPB + 32)" "dip i"] addrs_small [OF A'(2) img_okD(4) [OF A'(1)]] blocks_okD(2) [OF A'(2)] sz
    unfolding dino_def [symmetric] dinode_ok_def d_def by simp
  have di: "dino s' j = (if j = i then d else dino s j)" if "j < 200" for j
    using dino_upd [OF A'(1) i2 that dk] same [OF that] by (simp add: s'_def)
  show "dino s' i = d" using di [OF i2] by simp
  have V: "vw s' b = vw s1 b" if "b \<noteq> i div IPB + 32" for b using that by (simp add: vw_def s'_def)
  have Vi: "\<forall>b\<in>set (owned (vw s1) as1 ?nb'). vw s' b = vw s1 b" using V inode_sector_free(1) [OF A'(2) i2] by metis
  have f': "freeblock s' = freeblock s1" by (simp add: s'_def)
  note Gi = blocks_agree [OF A'(2) Vi, of "freeblock s'"]
  show c: "content s' i = content s i @ p" using Gi(4) f' A'(3) di [OF i2] by (simp add: content_def d_def)
  have oth: "dino s' j = dino s j" "blocks_ok (vw s') (freeblock s') (d_addrs (dino s j)) (nblk (d_size (dino s j)))"
    "fblocks s' j = fblocks s j" "content s' j = content s j" if j: "1 \<le> j" "j < freeinode s" "j \<noteq> i" for j
  proof -
    have j2: "j < 200" using j D(4) by simp
    show dj: "dino s' j = dino s j" using di [OF j2] j by simp
    note B = D(6) [OF j(1,2)]
    have "vw s' b = vw s b" if b: "b \<in> set (fblocks s j)" for b
    proof -
      have "b < freeblock s" using blocks_okD(4) [OF B b] by simp
      moreover have "b \<notin> set (fblocks s i)" using D(7) [OF i(1) j(1) i(2) j(2)] j(3) b by auto
      ultimately have "img s1 ! b = img s ! b" using A'(4) by simp
      moreover have "b \<noteq> i div IPB + 32" using inode_sector_free(1) [OF B i2] b by auto
      ultimately show ?thesis using V by (simp add: vw_def)
    qed
    note G = blocks_agree [OF B, of "vw s'" "freeblock s'", OF _ g [folded f']]
    show "blocks_ok (vw s') (freeblock s') (d_addrs (dino s j)) (nblk (d_size (dino s j)))" "fblocks s' j = fblocks s j" "content s' j = content s j"
      using G(2-4) \<open>\<And>b. b \<in> set (fblocks s j) \<Longrightarrow> vw s' b = vw s b\<close> dj by (simp_all add: content_def)
  qed
  then show "1 \<le> j \<Longrightarrow> j < freeinode s \<Longrightarrow> j \<noteq> i \<Longrightarrow> dino s' j = dino s j \<and> content s' j = content s j" by blast
  show "img s' ! b = img s ! b" if b: "b < 32"
  proof -
    have "b \<notin> set (fblocks s i)" using blocks_okD(4) [OF D(6) [OF i], of b] b by auto
    then show ?thesis using A'(4) fs b by (simp add: s'_def)
  qed
  have fi: "set (fblocks s' i) \<subseteq> set (fblocks s i) \<union> {freeblock s..<freeblock s1}"
    using A'(5) Gi(2) f' di [OF i2] by (simp add: d_def)
  have ij: "set (fblocks s' i) \<inter> set (fblocks s' j) = {}" if j: "1 \<le> j" "j < freeinode s" "j \<noteq> i" for j
  proof -
    have "set (fblocks s i) \<inter> set (fblocks s j) = {}" using D(7) [OF i(1) j(1) i(2) j(2)] j(3) by simp
    moreover have "\<forall>b\<in>set (fblocks s j). b < freeblock s" using blocks_okD(4) [OF D(6) [OF j(1,2)]] by simp
    ultimately show ?thesis using fi oth(3) [OF j] by fastforce
  qed
  have "img_ok s'" unfolding s'_def
    using inode_sector_free(2) [OF A'(2) i2] img_okD(3) [OF A'(1)] img_okD(2) [OF A'(1)] by (intro img_ok_upd [OF A'(1)]) simp_all
  moreover have "d_size (dino s' j) \<le> MAXFILE * BSIZE \<and> blocks_ok (vw s') (freeblock s') (d_addrs (dino s' j)) (nblk (d_size (dino s' j)))"
    if "1 \<le> j" "j < freeinode s" for j
    using oth [OF that] D(5) [OF that] Gi(3) f' di [OF i2] sz by (cases "j = i") (simp_all add: d_def)
  moreover have "set (fblocks s' j) \<inter> set (fblocks s' k) = {}" if "1 \<le> j" "j < k" "k < freeinode s" for j k
    using ij [of k] ij [of j] oth(3) [of j] oth(3) [of k] D(7) [of j k] that by (cases "j = i"; cases "k = i") auto
  ultimately show "mk_inv s'" using D(2-4) A'(6,7) by (simp add: mk_inv_def s'_def)
qed

lemma len_content: "length (content s i) = d_size (dino s i)"
  by (simp add: content_def fbytes_def)

text \<open>What an operation leaves of the other files.\<close>

definition others_kept :: "nat set \<Rightarrow> img_st \<Rightarrow> img_st \<Rightarrow> bool" where
  "others_kept X s s' \<longleftrightarrow> (\<forall>b<32. img s' ! b = img s ! b) \<and> (\<forall>j. 1 \<le> j \<and> j < freeinode s \<and> j \<notin> X \<longrightarrow> dino s' j = dino s j \<and> content s' j = content s j)"

abbreviation need :: "nat \<Rightarrow> nat" where
  "need n \<equiv> cnt (nblk n)"

lemma iappend_spec:
  assumes I: "mk_inv s" and i: "1 \<le> i" "i < freeinode s" and sz: "length (content s i) + length p \<le> MAXFILE * BSIZE"
    and room: "freeblock s + need (length (content s i) + length p) \<le> FSSIZE + need (length (content s i))"
  shows "\<exists>s'. iappend i p s = Ret () s' \<and> mk_inv s' \<and> content s' i = content s i @ p \<and> d_type (dino s' i) = d_type (dino s i)
    \<and> others_kept {i} s s' \<and> freeinode s' = freeinode s \<and> m_sb s' = m_sb s
    \<and> freeblock s' + need (length (content s i)) = freeblock s + need (length (content s i) + length p)"
proof -
  note D = mk_invD [OF I]
  have i2: "i < 200" using i D(4) by simp
  let ?d = "dino s i"
  obtain as1 s1 where r: "iappend_loop ?d (d_size ?d) p s = Ret (?d\<lparr>d_addrs := as1\<rparr>, d_size ?d + length p) s1"
    and A: "appended s (d_addrs ?d) (d_size ?d) p s1 as1"
    using iappend_loop_spec [OF D(1) D(6) [OF i], of p] sz room by (auto simp: len_content)
  define d where "d = ?d\<lparr>d_addrs := as1, d_size := d_size ?d + length p\<rparr>"
  define s' where "s' = s1\<lparr>img := (img s1)[i div IPB + 32 := put_dinode (img s1 ! (i div IPB + 32)) (dip i) d]\<rparr>"
  note C = inode_commit [OF I i A sz [unfolded len_content], folded d_def, folded s'_def]
  have "img_ok s1" "m_sb s1 = m_sb s" "freeinode s1 = freeinode s" and fb: "freeblock s1 + need (d_size ?d) = freeblock s + need (d_size ?d + length p)"
    using A by (simp_all add: appended_def)
  moreover have "i div IPB + 32 < FSSIZE" using div_le_mono [of i 199 8] i2 by simp
  ultimately have "winode i d s1 = Ret () s'"
    using D(2) rsect_run [of s1] wsect_run [of s1] by (simp add: winode_def prog_defs IBLOCK_def s'_def)
  moreover have "d_size ?d + length p < 4294967296" using sz by (simp add: len_content)
  ultimately have "iappend i p s = Ret () s'"
    using r rinode_run [OF I i2] by (simp add: iappend_def bnd_def d_def)
  moreover have "others_kept {i} s s'" using C(4,5) by (simp add: others_kept_def)
  moreover have "freeinode s' = freeinode s" "m_sb s' = m_sb s" "freeblock s' = freeblock s1"
    using \<open>m_sb s1 = m_sb s\<close> \<open>freeinode s1 = freeinode s\<close> by (simp_all add: s'_def)
  ultimately show ?thesis using C(1-3) fb by (intro exI [of _ s']) (simp add: len_content d_def)
qed

lemma xshort_small: "x < 65536 \<Longrightarrow> xshort x = x"
  by (simp add: xshort_def get16_put16)

lemma ialloc_spec:
  assumes I: "mk_inv s" and f: "freeinode s < 200" and ty: "0 \<le> ty" "ty < 32768"
  shows "\<exists>s'. mk_ialloc ty s = Ret (freeinode s) s' \<and> mk_inv s' \<and> content s' (freeinode s) = [] \<and> d_type (dino s' (freeinode s)) = ty
    \<and> others_kept {freeinode s} s s' \<and> freeinode s' = freeinode s + 1 \<and> freeblock s' = freeblock s \<and> m_sb s' = m_sb s"
proof -
  note D = mk_invD [OF I]
  let ?i = "freeinode s"
  define d where "d = \<lparr>d_type = ty, d_major = 0, d_minor = 0, d_nlink = 1, d_size = 0, d_addrs = replicate 13 0\<rparr>"
  define s0 where "s0 = s\<lparr>freeinode := ?i + 1\<rparr>"
  define s' where "s' = s0\<lparr>img := (img s)[?i div IPB + 32 := put_dinode (img s ! (?i div IPB + 32)) (dip ?i) d]\<rparr>"
  have i0: "img_ok s0" "img s0 = img s" using D(1) by (simp_all add: s0_def img_ok_def)
  have "of_short ty < 65536" by (rule of_short_lt)
  then have "to_short (xshort (of_short ty)) = ty" using ty by (simp add: xshort_small to_short_of_short)
  moreover have "to_short (xshort 1) = 1" by (simp add: xshort_small to_short_def)
  moreover have b: "?i div IPB + 32 < 58" using div_le_mono [of ?i 199 8] f by simp
  ultimately have run: "mk_ialloc ty s = Ret ?i s'"
    using D(2) rsect_run [OF i0(1)] wsect_run [OF i0(1)] i0(2)
    by (simp add: mk_ialloc_def winode_def prog_defs IBLOCK_def s'_def d_def s0_def)
  have dk: "dinode_ok d" using ty by (simp add: dinode_ok_def d_def)
  have di: "dino s' j = (if j = ?i then d else dino s j)" if "j < 200" for j
    using dino_upd [OF i0(1) f that dk] i0(2) by (simp add: s'_def dino_def)
  have V: "vw s' x = vw s x" if "x \<noteq> ?i div IPB + 32" for x using that by (simp add: vw_def s'_def)
  have fb: "freeblock s' = freeblock s" by (simp add: s'_def s0_def)
  have oth: "dino s' j = dino s j" "blocks_ok (vw s') (freeblock s') (d_addrs (dino s j)) (nblk (d_size (dino s j)))"
    "fblocks s' j = fblocks s j" "content s' j = content s j" if j: "1 \<le> j" "j < ?i" for j
  proof -
    show dj: "dino s' j = dino s j" using di [of j] j f by simp
    note B = D(6) [OF j]
    have "\<forall>b\<in>set (fblocks s j). vw s' b = vw s b" using V inode_sector_free(1) [OF B f] by metis
    from blocks_agree [OF B this, of "freeblock s'"] fb dj
    show "blocks_ok (vw s') (freeblock s') (d_addrs (dino s j)) (nblk (d_size (dino s j)))" "fblocks s' j = fblocks s j" "content s' j = content s j"
      by (simp_all add: content_def)
  qed
  have dn: "dino s' ?i = d" using di [OF f] by simp
  have e: "fblocks s' ?i = []" "blocks_ok (vw s') (freeblock s') (d_addrs d) (nblk (d_size d))"
    by (simp_all add: dn d_def owned_def nblk_def blocks_ok_def)
  have "img_ok s'"
  proof -
    have "img_ok (s0\<lparr>img := (img s0)[?i div IPB + 32 := put_dinode (img s ! (?i div IPB + 32)) (dip ?i) d]\<rparr>)"
      using b img_okD(2,3) [OF i0(1)] i0(2) by (intro img_ok_upd [OF i0(1)]) simp_all
    then show ?thesis by (simp add: s'_def i0(2))
  qed
  moreover have fi: "freeinode s' = ?i + 1" by (simp add: s'_def s0_def)
  moreover have "d_size (dino s' j) \<le> MAXFILE * BSIZE \<and> blocks_ok (vw s') (freeblock s') (d_addrs (dino s' j)) (nblk (d_size (dino s' j)))"
    if "1 \<le> j" "j < ?i + 1" for j
    using oth [of j] D(5) [of j] that e(2) dn by (cases "j = ?i") (simp_all add: d_def)
  moreover have "set (fblocks s' j) \<inter> set (fblocks s' k) = {}" if "1 \<le> j" "j < k" "k < ?i + 1" for j k
    using oth(3) [of j] oth(3) [of k] D(7) [of j k] e(1) that by (cases "k = ?i") auto
  ultimately have "mk_inv s'" using D(2,3) f by (simp add: mk_inv_def s'_def s0_def)
  moreover have "content s' ?i = []" by (simp add: content_def dn d_def fbytes_def)
  moreover have "others_kept {?i} s s'" using oth by (simp add: others_kept_def s'_def)
  ultimately show ?thesis using run fi fb dn by (intro exI [of _ s']) (simp add: d_def s'_def s0_def)
qed

lemma others_kept_trans:
  "others_kept X s t \<Longrightarrow> others_kept Y t u \<Longrightarrow> freeinode s \<le> freeinode t \<Longrightarrow> others_kept (X \<union> Y) s u"
  by (simp add: others_kept_def)

lemma others_kept_weaken: "others_kept X s t \<Longrightarrow> X \<inter> {1..<freeinode s} \<subseteq> Y \<Longrightarrow> others_kept Y s t"
  by (auto simp: others_kept_def)

lemma others_keptD: "others_kept X s t \<Longrightarrow> 1 \<le> j \<Longrightarrow> j < freeinode s \<Longrightarrow> j \<notin> X \<Longrightarrow> content t j = content s j \<and> dino t j = dino s j"
  by (simp add: others_kept_def)

lemma need_mono: "a \<le> b \<Longrightarrow> need a \<le> need b"
  by (intro cnt_mono nblk_mono)

lemma appends_spec:
  assumes "mk_inv s" "1 \<le> i" "i < freeinode s" "length (content s i) + length (concat cs) \<le> MAXFILE * BSIZE"
    "freeblock s + need (length (content s i) + length (concat cs)) \<le> FSSIZE + need (length (content s i))"
  shows "\<exists>s'. forp cs (\<lambda>c. iappend i c) s = Ret () s' \<and> mk_inv s' \<and> content s' i = content s i @ concat cs \<and> d_type (dino s' i) = d_type (dino s i)
    \<and> others_kept {i} s s' \<and> freeinode s' = freeinode s \<and> m_sb s' = m_sb s
    \<and> freeblock s' + need (length (content s i)) = freeblock s + need (length (content s i) + length (concat cs))"
  using assms
proof (induction cs arbitrary: s)
  case Nil
  then show ?case by (auto simp: ret_def others_kept_def)
next
  case (Cons c cs)
  let ?n = "length (content s i)"
  have "need (?n + length c) \<le> need (?n + length (concat (c # cs)))" by (rule need_mono) simp
  then obtain s1 where s1: "iappend i c s = Ret () s1" "mk_inv s1" "content s1 i = content s i @ c" "d_type (dino s1 i) = d_type (dino s i)"
    "others_kept {i} s s1" "freeinode s1 = freeinode s" "m_sb s1 = m_sb s" "freeblock s1 + need ?n = freeblock s + need (?n + length c)"
    using iappend_spec [OF Cons.prems(1-3), of c] Cons.prems(4,5) by auto
  have l: "length (content s1 i) = ?n + length c" using s1(3) by simp
  have pre: "i < freeinode s1" "length (content s1 i) + length (concat cs) \<le> MAXFILE * BSIZE"
    "freeblock s1 + need (length (content s1 i) + length (concat cs)) \<le> FSSIZE + need (length (content s1 i))"
    using Cons.prems s1(6,8) by (simp_all add: l add.assoc)
  from Cons.IH [OF s1(2) Cons.prems(2) pre]
  obtain s2 where s2: "forp cs (\<lambda>c. iappend i c) s1 = Ret () s2" "mk_inv s2" "content s2 i = content s1 i @ concat cs" "d_type (dino s2 i) = d_type (dino s1 i)"
    "others_kept {i} s1 s2" "freeinode s2 = freeinode s1" "m_sb s2 = m_sb s1"
    "freeblock s2 + need (length (content s1 i)) = freeblock s1 + need (length (content s1 i) + length (concat cs))"
    by blast
  have "others_kept {i} s s2" using others_kept_trans [OF s1(5) s2(5)] s1(6) by simp
  moreover have "freeblock s2 + need ?n = freeblock s + need (?n + length (concat (c # cs)))"
    using s2(8) s1(8) unfolding l by (simp add: add.assoc)
  ultimately show ?case using s1 s2 by (intro exI [of _ s2]) (simp add: bnd_def)
qed

section \<open>The image\<close>

definition fname :: "u8 list \<Rightarrow> u8 list" where
  "fname nm = (if nm \<noteq> [] \<and> hd nm = 95 then tl nm else nm)"

definition fdata :: "u8 list \<times> u8 list list option \<Rightarrow> u8 list" where
  "fdata f = (case snd f of None \<Rightarrow> [] | Some cs \<Rightarrow> concat cs)"

text \<open>The directory entries of the files, numbered from \<open>i\<close>, and the blocks they take.\<close>

fun entries :: "nat \<Rightarrow> (u8 list \<times> u8 list list option) list \<Rightarrow> u8 list" where
  "entries i [] = []"
| "entries i (f # fs) = mk_dirent i (fname (fst f)) @ entries (i + 1) fs"

definition file_good :: "u8 list \<times> u8 list list option \<Rightarrow> bool" where
  "file_good f \<longleftrightarrow> SLASH \<notin> set (fst f) \<and> snd f \<noteq> None \<and> length (fdata f) \<le> MAXFILE * BSIZE"

lemma len_mk_dirent: "length (mk_dirent i nm) = 16"
  by (simp add: mk_dirent_def put_dirent_def)

lemma len_entries: "length (entries i fs) = 16 * length fs"
  by (induction fs arbitrary: i) (simp_all add: len_mk_dirent)

lemma add_file_spec:
  assumes I: "mk_inv s" and n: "1 < freeinode s" "freeinode s < 200" and g: "file_good f"
    and r: "length (content s 1) + 16 \<le> MAXFILE * BSIZE"
    and room: "freeblock s + need (length (content s 1) + 16) + need (length (fdata f)) \<le> FSSIZE + need (length (content s 1))"
  defines "i \<equiv> freeinode s"
  shows "\<exists>s'. add_file 1 f s = Ret () s' \<and> mk_inv s' \<and> content s' i = fdata f \<and> d_type (dino s' i) = T_FILE
    \<and> content s' 1 = content s 1 @ mk_dirent i (fname (fst f)) \<and> d_type (dino s' 1) = d_type (dino s 1)
    \<and> others_kept {1, i} s s' \<and> freeinode s' = i + 1 \<and> m_sb s' = m_sb s
    \<and> freeblock s' + need (length (content s 1)) = freeblock s + need (length (content s 1) + 16) + need (length (fdata f))"
proof -
  obtain cs where cs: "snd f = Some cs" "fdata f = concat cs" and sl: "SLASH \<notin> set (fst f)" and len: "length (concat cs) \<le> MAXFILE * BSIZE"
    using g by (auto simp: file_good_def fdata_def split: option.splits)
  obtain s1 where s1: "mk_ialloc T_FILE s = Ret i s1" "mk_inv s1" "content s1 i = []" "d_type (dino s1 i) = T_FILE" "others_kept {i} s s1"
    "freeinode s1 = i + 1" "freeblock s1 = freeblock s" "m_sb s1 = m_sb s"
    using ialloc_spec [OF I n(2), of T_FILE] unfolding i_def by auto
  have c1: "content s1 1 = content s 1" "dino s1 1 = dino s 1" using others_keptD [OF s1(5), of 1] n(1) by (simp_all add: i_def)
  have n1: "1 < i" using n(1) by (simp add: i_def)
  let ?e = "mk_dirent i (fname (fst f))" and ?n = "length (content s 1)"
  obtain s2 where s2: "iappend 1 ?e s1 = Ret () s2" "mk_inv s2" "content s2 1 = content s 1 @ ?e" "d_type (dino s2 1) = d_type (dino s 1)" "others_kept {1} s1 s2"
    "freeinode s2 = i + 1" "m_sb s2 = m_sb s" "freeblock s2 + need ?n = freeblock s + need (?n + 16)"
    using iappend_spec [OF s1(2), of 1 ?e] s1 c1 n1 r room by (auto simp: len_mk_dirent)
  have c2: "content s2 i = []" "dino s2 i = dino s1 i" using others_keptD [OF s2(5), of i] n1 s1(3,6) by simp_all
  have z: "need 0 = 0" by (simp add: cnt_def nblk_def)
  obtain s3 where s3: "forp cs (\<lambda>c. iappend i c) s2 = Ret () s3" "mk_inv s3" "content s3 i = concat cs" "d_type (dino s3 i) = T_FILE" "others_kept {i} s2 s3"
    "freeinode s3 = i + 1" "m_sb s3 = m_sb s" "freeblock s3 = freeblock s2 + need (length (concat cs))"
    using appends_spec [OF s2(2), of i cs] s2(6-8) c2 s1(4) n1 len room z cs(2) by auto
  have c3: "content s3 1 = content s2 1" "dino s3 1 = dino s2 1" using others_keptD [OF s3(5), of 1] n1 s2(6) by simp_all
  have "others_kept ({i} \<union> {1} \<union> {i}) s s3"
    using others_kept_trans [OF others_kept_trans [OF s1(5) s2(5)] s3(5)] s1(6) s2(6) by (simp add: i_def)
  then have ok: "others_kept {1, i} s s3" by (rule others_kept_weaken) auto
  have "add_file 1 f s = Ret () s3"
    using s1(1) s2(1) s3(1) sl cs(1) by (simp add: add_file_def fname_def bnd_def seqp_def)
  then show ?thesis using s2 s3 c3 ok cs(2) by (intro exI [of _ s3]) simp
qed

definition all_need :: "(u8 list \<times> u8 list list option) list \<Rightarrow> nat" where
  "all_need fs = sum_list (map (\<lambda>f. need (length (fdata f))) fs)"

lemma add_files_spec:
  assumes "mk_inv s" "1 < freeinode s" "freeinode s + length fs \<le> 200" "\<forall>f\<in>set fs. file_good f"
    "length (content s 1) + 16 * length fs \<le> MAXFILE * BSIZE"
    "freeblock s + need (length (content s 1) + 16 * length fs) + all_need fs \<le> FSSIZE + need (length (content s 1))"
  shows "\<exists>s'. forp fs (add_file 1) s = Ret () s' \<and> mk_inv s'
    \<and> (\<forall>k<length fs. content s' (freeinode s + k) = fdata (fs ! k) \<and> d_type (dino s' (freeinode s + k)) = T_FILE)
    \<and> content s' 1 = content s 1 @ entries (freeinode s) fs \<and> d_type (dino s' 1) = d_type (dino s 1)
    \<and> others_kept {1} s s' \<and> freeinode s' = freeinode s + length fs \<and> m_sb s' = m_sb s
    \<and> freeblock s' + need (length (content s 1)) = freeblock s + need (length (content s 1) + 16 * length fs) + all_need fs"
  using assms
proof (induction fs arbitrary: s)
  case Nil
  then show ?case by (auto simp: ret_def others_kept_def all_need_def)
next
  case (Cons f fs)
  let ?n = "length (content s 1)" and ?i = "freeinode s"
  have nd: "need (?n + 16) \<le> need (?n + 16 * length (f # fs))" by (rule need_mono) simp
  have af: "all_need (f # fs) = need (length (fdata f)) + all_need fs" by (simp add: all_need_def)
  have pre: "?i < 200" "file_good f" "?n + 16 \<le> MAXFILE * BSIZE" "freeblock s + need (?n + 16) + need (length (fdata f)) \<le> FSSIZE + need ?n"
    using Cons.prems nd af by simp_all
  obtain s1 where s1: "add_file 1 f s = Ret () s1" "mk_inv s1" "content s1 ?i = fdata f" "d_type (dino s1 ?i) = T_FILE"
    "content s1 1 = content s 1 @ mk_dirent ?i (fname (fst f))" "d_type (dino s1 1) = d_type (dino s 1)" "others_kept {1, ?i} s s1"
    "freeinode s1 = ?i + 1" "m_sb s1 = m_sb s" "freeblock s1 + need ?n = freeblock s + need (?n + 16) + need (length (fdata f))"
    using add_file_spec [OF Cons.prems(1,2) pre] by blast
  have l: "length (content s1 1) = ?n + 16" using s1(5) by (simp add: len_mk_dirent)
  have e: "?n + 16 + 16 * length fs = ?n + 16 * length (f # fs)" by simp
  have pre1: "1 < freeinode s1" "freeinode s1 + length fs \<le> 200" "\<forall>f\<in>set fs. file_good f" "length (content s1 1) + 16 * length fs \<le> MAXFILE * BSIZE"
    "freeblock s1 + need (length (content s1 1) + 16 * length fs) + all_need fs \<le> FSSIZE + need (length (content s1 1))"
    using Cons.prems s1(8,10) af unfolding l e by simp_all
  obtain s2 where s2: "forp fs (add_file 1) s1 = Ret () s2" "mk_inv s2"
    "\<forall>k<length fs. content s2 (?i + 1 + k) = fdata (fs ! k) \<and> d_type (dino s2 (?i + 1 + k)) = T_FILE"
    "content s2 1 = content s1 1 @ entries (?i + 1) fs" "d_type (dino s2 1) = d_type (dino s1 1)" "others_kept {1} s1 s2"
    "freeinode s2 = ?i + 1 + length fs" "m_sb s2 = m_sb s1"
    "freeblock s2 + need (?n + 16) = freeblock s1 + need (?n + 16 * length (f # fs)) + all_need fs"
    using Cons.IH [OF s1(2) pre1] unfolding l e s1(8) by blast
  have "content s2 (?i + k) = fdata ((f # fs) ! k) \<and> d_type (dino s2 (?i + k)) = T_FILE" if "k < length (f # fs)" for k
  proof (cases k)
    case 0
    then show ?thesis using others_keptD [OF s2(6), of ?i] s1(3,4,8) Cons.prems(2) by simp
  next
    case (Suc m)
    then show ?thesis using s2(3) that by (simp add: One_nat_def)
  qed
  moreover have "others_kept ({1, ?i} \<union> {1}) s s2" by (rule others_kept_trans [OF s1(7) s2(6)]) (simp add: s1(8))
  then have "others_kept {1} s s2" by (rule others_kept_weaken) auto
  moreover have "freeblock s2 + need ?n = freeblock s + need (?n + 16 * length (f # fs)) + all_need (f # fs)"
    using s2(9) s1(10) af by simp
  ultimately show ?case using s1 s2 by (intro exI [of _ s2]) (simp add: bnd_def)
qed

lemma blocks_mapped:
  assumes B: "blocks_ok V fb as (nblk n)" and d: "fb \<le> ds" "n \<le> MAXFILE * BSIZE" "\<forall>b<ds. length (V b) = BSIZE"
  shows "mapped V ds as n"
proof -
  have k: "k < nblk n" if "k * BSIZE < n" for k
    using div_le_mono [of "k * BSIZE + BSIZE" "n + 511" BSIZE] that by (simp add: nblk_def)
  have "0 < faddr V as k \<and> faddr V as k < ds" if "k * BSIZE < n" for k
    using blocks_okD(4) [OF B ownedI(1) [OF k [OF that]]] d(1) by simp
  moreover have "0 < as ! NDIRECT \<and> as ! NDIRECT < ds" if "NDIRECT * BSIZE < n"
    using blocks_okD(4) [OF B ownedI(2) [OF k [OF that]]] d(1) by simp
  ultimately show ?thesis using d(2,3) by (simp add: mapped_def)
qed

subsection \<open>The bitmap\<close>

lemma bit_mask_bit: "bit (bit_mask i) j \<longleftrightarrow> j = i mod 8" if "j < 8"
  using that by (auto simp: bit_mask_def bit_exp_iff possible_bit_word)

lemma bitmap_bits:
  assumes "used \<le> 4096" "b < 4096"
  shows "bit (fold (\<lambda>i buf. buf[i div 8 := buf ! (i div 8) OR bit_mask i]) [0..<used] (replicate BSIZE 0) ! (b div 8)) (b mod 8) \<longleftrightarrow> b < used"
    and "length (fold (\<lambda>i buf. buf[i div 8 := buf ! (i div 8) OR bit_mask i]) [0..<used] (replicate BSIZE 0)) = BSIZE"
proof -
  have b8: "b div 8 < BSIZE" using assms(2) by (simp add: less_mult_imp_div_less)
  let ?f = "\<lambda>i buf. buf[i div 8 := buf ! (i div 8) OR bit_mask i]"
  have "length (fold ?f [0..<n] (replicate BSIZE 0)) = BSIZE \<and> (bit (fold ?f [0..<n] (replicate BSIZE 0) ! (b div 8)) (b mod 8) \<longleftrightarrow> b < n)" if "n \<le> used" for n
    using that
  proof (induction n)
    case 0
    then show ?case using b8 by simp
  next
    case (Suc n)
    have "b = n" if "b div 8 = n div 8" "b mod 8 = n mod 8" using that by (metis div_mult_mod_eq)
    then show ?case using Suc b8 bit_mask_bit [of "b mod 8" n]
      by (cases "b div 8 = n div 8") (auto simp: bit_or_iff less_Suc_eq)
  qed
  then show "bit (fold ?f [0..<used] (replicate BSIZE 0) ! (b div 8)) (b mod 8) \<longleftrightarrow> b < used"
    "length (fold ?f [0..<used] (replicate BSIZE 0)) = BSIZE" by simp_all
qed

lemma bit_mask_test: "w AND bit_mask b = 0 \<longleftrightarrow> \<not> bit w (b mod 8)"
  unfolding bit_mask_def using bit_iff_and_push_bit_not_eq_0 [of w "b mod 8"] by simp

subsection \<open>The blank image\<close>

definition mkfs_sb :: superblock where
  "mkfs_sb = \<lparr>sb_size = 1000, sb_nblocks = 941, sb_ninodes = 200, sb_nlog = 30, sb_logstart = 2, sb_inodestart = 32, sb_bmapstart = 58\<rparr>"

lemma decode_put_sb: "decode_sb (put_sb mkfs_sb) = mkfs_sb"
  by (simp add: decode_sb_def put_sb_def mkfs_sb_def get32_put32 get32_put32_other)

lemma zero_image:
  assumes "img s = []"
  shows "forp [0..<FSSIZE] (\<lambda>i. wsect i (replicate BSIZE 0)) s = Ret () (s\<lparr>img := replicate FSSIZE (replicate BSIZE 0)\<rparr>)"
proof -
  have "wp (forp [0..<FSSIZE] (\<lambda>i. wsect i (replicate BSIZE 0))) (\<lambda>_ s'. s' = s\<lparr>img := replicate FSSIZE (replicate BSIZE 0)\<rparr>) s"
    by (rule wp_for_upt [where I = "\<lambda>k s'. s' = s\<lparr>img := replicate k (replicate BSIZE 0)\<rparr>"])
      (use assms in \<open>auto simp: wsect_def prog_simps replicate_append_same\<close>)
  then show ?thesis by (auto elim!: wpE)
qed

lemma blank_inv:
  assumes "freeinode s = 1"
  shows "mk_inv (s\<lparr>m_sb := mkfs_sb, freeblock := 59, img := (replicate FSSIZE (replicate BSIZE 0))[1 := put_sb mkfs_sb]\<rparr>)"
  using assms by (auto simp: mk_inv_def img_ok_def mkfs_sb_def put_sb_def nth_list_update)

lemma seqp_Ret: "m s = Ret x s1 \<Longrightarrow> seqp m n s = n s1"
  by (simp add: seqp_def bnd_def)

lemma mkfs_consts:
  "2 + LOGSIZE + (200 div IPB + 1) + (FSSIZE div (BSIZE * 8) + 1) = 59"
  "\<lparr>sb_size = xint FSSIZE, sb_nblocks = xint (FSSIZE - 59), sb_ninodes = xint 200, sb_nlog = xint LOGSIZE,
     sb_logstart = xint 2, sb_inodestart = xint (2 + LOGSIZE), sb_bmapstart = xint (2 + LOGSIZE + (200 div IPB + 1))\<rparr> = mkfs_sb"
  by (simp_all add: mkfs_sb_def One_nat_def)

text \<open>The image before the last two sectors are written, with the root directory and all files in it.\<close>

lemma mkfs_files:
  assumes s: "img s = []" "freeinode s = 1" and g: "\<forall>f\<in>set fs. file_good f" "length fs \<le> 198"
    and room: "59 + need (32 + 16 * length fs) + all_need fs \<le> FSSIZE"
  defines "s0 \<equiv> s\<lparr>m_sb := mkfs_sb, freeblock := 59, img := (replicate FSSIZE (replicate BSIZE 0))[1 := put_sb mkfs_sb]\<rparr>"
  shows "\<exists>s1 s2 s3 s'. mk_ialloc T_DIR s0 = Ret 1 s1 \<and> iappend 1 (mk_dirent 1 [46]) s1 = Ret () s2 \<and> iappend 1 (mk_dirent 1 [46, 46]) s2 = Ret () s3
    \<and> forp fs (add_file 1) s3 = Ret () s' \<and> mk_inv s' \<and> m_sb s' = mkfs_sb \<and> freeinode s' = length fs + 2 \<and> img s' ! 1 = put_sb mkfs_sb
    \<and> (\<forall>k<length fs. content s' (k + 2) = fdata (fs ! k) \<and> d_type (dino s' (k + 2)) = T_FILE)
    \<and> content s' 1 = mk_dirent 1 [46] @ mk_dirent 1 [46, 46] @ entries 2 fs \<and> d_type (dino s' 1) = T_DIR
    \<and> freeblock s' = 59 + need (32 + 16 * length fs) + all_need fs"
proof -
  have I0: "mk_inv s0" unfolding s0_def by (rule blank_inv [OF s(2)])
  have f0: "freeinode s0 = 1" "m_sb s0 = mkfs_sb" "freeblock s0 = 59" "img s0 ! 1 = put_sb mkfs_sb" by (simp_all add: s0_def s)
  obtain s1 where s1: "mk_ialloc T_DIR s0 = Ret 1 s1" "mk_inv s1" "content s1 1 = []" "d_type (dino s1 1) = T_DIR" "others_kept {1} s0 s1"
    "freeinode s1 = 2" "freeblock s1 = 59" "m_sb s1 = mkfs_sb"
    using ialloc_spec [OF I0, of T_DIR] unfolding f0 by auto
  have n: "need 0 = 0" "need 16 = 1" "need 32 = 1" by (simp_all add: cnt_def nblk_def One_nat_def)
  have l1: "length (content s1 1) = 0" using s1(3) by simp
  obtain s2 where s2: "iappend 1 (mk_dirent 1 [46]) s1 = Ret () s2" "mk_inv s2" "content s2 1 = mk_dirent 1 [46]" "d_type (dino s2 1) = T_DIR"
    "others_kept {1} s1 s2" "freeinode s2 = 2" "m_sb s2 = mkfs_sb" "freeblock s2 = 60"
    using iappend_spec [OF s1(2), of 1 "mk_dirent 1 [46]"] s1(3,4,6-8) n by (auto simp: len_mk_dirent l1)
  have l2: "length (content s2 1) = 16" using s2(3) by (simp add: len_mk_dirent)
  obtain s3 where s3: "iappend 1 (mk_dirent 1 [46, 46]) s2 = Ret () s3" "mk_inv s3" "content s3 1 = mk_dirent 1 [46] @ mk_dirent 1 [46, 46]"
    "d_type (dino s3 1) = T_DIR" "others_kept {1} s2 s3" "freeinode s3 = 2" "m_sb s3 = mkfs_sb" "freeblock s3 = 60"
    using iappend_spec [OF s2(2), of 1 "mk_dirent 1 [46, 46]"] s2(3,4,6-8) n by (auto simp: len_mk_dirent l2)
  have l3: "length (content s3 1) = 32" using s3(3) by (simp add: len_mk_dirent)
  obtain s' where s': "forp fs (add_file 1) s3 = Ret () s'" "mk_inv s'"
    "\<forall>k<length fs. content s' (2 + k) = fdata (fs ! k) \<and> d_type (dino s' (2 + k)) = T_FILE"
    "content s' 1 = content s3 1 @ entries 2 fs" "d_type (dino s' 1) = T_DIR" "others_kept {1} s3 s'"
    "freeinode s' = 2 + length fs" "m_sb s' = mkfs_sb" "freeblock s' + 1 = 60 + need (32 + 16 * length fs) + all_need fs"
    using add_files_spec [OF s3(2), of fs] s3(4,6-8) g room n unfolding l3 by auto
  have "img s' ! 1 = put_sb mkfs_sb"
    using s1(5) s2(5) s3(5) s'(6) f0(4) by (simp add: others_kept_def)
  then show ?thesis using s1(1) s2(1) s3(1) s' s3(3) by (intro exI [of _ s1] exI [of _ s2] exI [of _ s3] exI [of _ s']) (simp add: add.commute)
qed

text \<open>Writing the root inode and the bitmap.\<close>

lemma mkfs_finish:
  assumes I: "mk_inv s" and sb: "m_sb s = mkfs_sb" and d: "dinode_ok d" and i: "1 < freeinode s"
  defines "bm \<equiv> fold (\<lambda>i buf. buf[i div 8 := buf ! (i div 8) OR bit_mask i]) [0..<freeblock s] (replicate BSIZE 0)"
  shows "\<exists>s'. seqp (winode 1 d) (bnd (gets freeblock) mk_balloc) s = Ret () s' \<and> freeblock s' = freeblock s \<and> freeinode s' = freeinode s
    \<and> img s' ! 1 = img s ! 1 \<and> img s' ! 58 = bm \<and> dino s' 1 = d \<and> (\<forall>b. 59 \<le> b \<longrightarrow> img s' ! b = img s ! b)
    \<and> (\<forall>b<FSSIZE. length (img s' ! b) = BSIZE) \<and> (\<forall>j<200. j \<noteq> 1 \<longrightarrow> dino s' j = dino s j)"
proof -
  note D = mk_invD [OF I] and M = img_okD [OF mk_invD(1) [OF I]]
  define s1 where "s1 = s\<lparr>img := (img s)[1 div IPB + 32 := put_dinode (img s ! (1 div IPB + 32)) (dip 1) d]\<rparr>"
  define s' where "s' = s1\<lparr>img := (img s1)[58 := bm]\<rparr>"
  have w: "winode 1 d s = Ret () s1" using winode_run [OF I, of 1 d] by (simp add: s1_def)
  have o1: "img_ok s1" unfolding s1_def using M by (intro img_ok_upd [OF D(1)]) simp_all
  have lb: "length bm = BSIZE" unfolding bm_def using bitmap_bits(2) [of "freeblock s" 0] M(4) by simp
  have f1: "freeblock s1 = freeblock s" "m_sb s1 = mkfs_sb" by (simp_all add: s1_def sb)
  have b: "bnd (gets freeblock) mk_balloc s1 = Ret () s'"
    using M(4) f1 wsect_run [OF o1, of 58] by (simp add: mk_balloc_def prog_defs mkfs_sb_def bm_def s'_def)
  have dj: "dino s' j = (if j = 1 then d else dino s j)" if "j < 200" for j
    using dino_upd [OF D(1) _ that d, of 1] div_le_mono [of j 199 8] that by (simp add: s'_def dino_def s1_def)
  have o': "img_ok s'" unfolding s'_def using M(3) f1 lb by (intro img_ok_upd [OF o1]) simp_all
  have "length (img s1) = FSSIZE" using img_okD(1) [OF o1] .
  then have "img s' ! 58 = bm" by (simp add: s'_def)
  moreover have "img s' ! x = img s ! x" if "59 \<le> x \<or> x = 1" for x using that by (auto simp: s'_def s1_def)
  moreover have "seqp (winode 1 d) (bnd (gets freeblock) mk_balloc) s = Ret () s'"
    using w b by (simp add: seqp_def bnd_def [of "winode _ _"])
  moreover have "freeblock s' = freeblock s" "freeinode s' = freeinode s" by (simp_all add: s'_def s1_def)
  ultimately show ?thesis using dj img_okD(2) [OF o'] by (intro exI [of _ s']) simp
qed

lemma mkfs_image:
  assumes "img s = []" "freeinode s = 1" "\<forall>f\<in>set fs. file_good f" "length fs \<le> 198"
    and "59 + need (32 + 16 * length fs) + all_need fs \<le> FSSIZE"
  shows "\<exists>s'. mkfs_main fs s = Ret () s' \<and> decode_sb (img s' ! 1) = mkfs_sb
    \<and> (\<forall>k<length fs. d_type (dino s' (k + 2)) = T_FILE \<and> content s' (k + 2) = fdata (fs ! k)
          \<and> mapped (vw s') FSSIZE (d_addrs (dino s' (k + 2))) (d_size (dino s' (k + 2))))
    \<and> d_type (dino s' 1) = T_DIR \<and> d_size (dino s' 1) = ((32 + 16 * length fs) div BSIZE + 1) * BSIZE
    \<and> fbytes (vw s') (d_addrs (dino s' 1)) (32 + 16 * length fs) = mk_dirent 1 [46] @ mk_dirent 1 [46, 46] @ entries 2 fs
    \<and> freeblock s' = 59 + need (32 + 16 * length fs) + all_need fs
    \<and> (\<forall>b<FSSIZE. img s' ! 58 ! (b div 8) AND bit_mask b = 0 \<longleftrightarrow> freeblock s' \<le> b)"
proof -
  let ?n = "32 + 16 * length fs"
  define s0 where "s0 = s\<lparr>m_sb := mkfs_sb, freeblock := 59, img := (replicate FSSIZE (replicate BSIZE 0))[1 := put_sb mkfs_sb]\<rparr>"
  obtain s1 s2 s3 t where r: "mk_ialloc T_DIR s0 = Ret 1 s1" "iappend 1 (mk_dirent 1 [46]) s1 = Ret () s2" "iappend 1 (mk_dirent 1 [46, 46]) s2 = Ret () s3"
    "forp fs (add_file 1) s3 = Ret () t" and t: "mk_inv t" "m_sb t = mkfs_sb" "freeinode t = length fs + 2" "img t ! 1 = put_sb mkfs_sb"
    "\<forall>k<length fs. content t (k + 2) = fdata (fs ! k) \<and> d_type (dino t (k + 2)) = T_FILE"
    "content t 1 = mk_dirent 1 [46] @ mk_dirent 1 [46, 46] @ entries 2 fs" "d_type (dino t 1) = T_DIR"
    "freeblock t = 59 + need ?n + all_need fs"
    using mkfs_files [OF assms] unfolding s0_def by blast
  note D = mk_invD [OF t(1)]
  have l: "d_size (dino t 1) = ?n" using len_content [of t 1] t(6) by (simp add: len_mk_dirent len_entries)
  define d where "d = (dino t 1)\<lparr>d_size := (?n div BSIZE + 1) * BSIZE\<rparr>"
  have "?n div BSIZE \<le> 3200 div BSIZE" using assms(4) by (intro div_le_mono) simp
  then have nd: "?n div BSIZE \<le> 6" by simp
  have dk: "dinode_ok d" using dinode_ok_get [of "img t ! (1 div IPB + 32)" "dip 1"] nd by (simp add: dinode_ok_def d_def dino_def)
  obtain s' where f: "seqp (winode 1 d) (bnd (gets freeblock) mk_balloc) t = Ret () s'" "freeblock s' = freeblock t" "img s' ! 1 = img t ! 1"
    "img s' ! 58 = fold (\<lambda>i buf. buf[i div 8 := buf ! (i div 8) OR bit_mask i]) [0..<freeblock t] (replicate BSIZE 0)"
    "dino s' 1 = d" "\<forall>b. 59 \<le> b \<longrightarrow> img s' ! b = img t ! b" "\<forall>b<FSSIZE. length (img s' ! b) = BSIZE" "\<forall>j<200. j \<noteq> 1 \<longrightarrow> dino s' j = dino t j"
    using mkfs_finish [OF t(1,2) dk] t(3) by auto
  have run: "mkfs_main fs s = Ret () s'"
  proof -
    have w: "wsect 1 (put_sb mkfs_sb) (s\<lparr>m_sb := mkfs_sb, freeblock := 59, img := replicate FSSIZE (replicate BSIZE 0)\<rparr>) = Ret () s0"
      by (simp add: wsect_def modify_def s0_def)
    have x: "xint (d_size (dino t 1)) = ?n" using l assms(4) by simp
    have y: "xint ((?n div BSIZE + 1) * BSIZE) = (?n div BSIZE + 1) * BSIZE" using nd by (intro xint_small) simp
    have i1: "rinode 1 t = Ret (dino t 1) t" by (rule rinode_run [OF t(1)]) simp
    have m: "modify (\<lambda>s. s\<lparr>m_sb := mkfs_sb, freeblock := 59\<rparr>) s = Ret () (s\<lparr>m_sb := mkfs_sb, freeblock := 59\<rparr>)" by (simp add: modify_def)
    have z: "forp [0..<FSSIZE] (\<lambda>i. wsect i (replicate BSIZE 0)) (s\<lparr>m_sb := mkfs_sb, freeblock := 59\<rparr>)
      = Ret () (s\<lparr>m_sb := mkfs_sb, freeblock := 59, img := replicate FSSIZE (replicate BSIZE 0)\<rparr>)"
      using zero_image [of "s\<lparr>m_sb := mkfs_sb, freeblock := 59\<rparr>"] assms(1) by simp
    have "mkfs_main fs s = seqp (winode 1 ((dino t 1)\<lparr>d_size := (?n div BSIZE + 1) * BSIZE\<rparr>)) (bnd (gets freeblock) mk_balloc) t"
      unfolding mkfs_main_def Let_def mkfs_consts
      by (simp only: seqp_Ret [where m = "modify _", OF m] seqp_Ret [where m = "forp _ _", OF z] seqp_Ret [where m = "wsect _ _", OF w]
          bnd_Ret [where m = "mk_ialloc _", OF r(1)] seqp_Ret [where m = "iappend _ _", OF r(2)] seqp_Ret [where m = "iappend _ _", OF r(3)]
          seqp_Ret [where m = "forp _ _", OF r(4)] bnd_Ret [where m = "rinode _", OF i1] x y simp_thms if_False)
    then show ?thesis using f(1) by (simp add: d_def)
  qed
  have agree: "\<forall>b\<in>set (fblocks t i). vw s' b = vw t b" if "1 \<le> i" "i < freeinode t" for i
    using f(6) blocks_okD(4) [OF D(6) [OF that]] by (auto simp: vw_def)
  note G = blocks_agree [OF D(6) agree, of _ "freeblock s'"]
  have files: "d_type (dino s' (k + 2)) = T_FILE \<and> content s' (k + 2) = fdata (fs ! k)
      \<and> mapped (vw s') FSSIZE (d_addrs (dino s' (k + 2))) (d_size (dino s' (k + 2)))" if k: "k < length fs" for k
  proof -
    have i: "1 \<le> k + 2" "k + 2 < freeinode t" using k t(3) by auto
    have e: "dino s' (k + 2) = dino t (k + 2)" using f(8) k assms(4) by simp
    have "content s' (k + 2) = content t (k + 2)" using G(4) [OF i i] f(2) e by (simp add: content_def)
    moreover have "mapped (vw s') FSSIZE (d_addrs (dino t (k + 2))) (d_size (dino t (k + 2)))"
      using f(2,7) D(5) [OF i] img_okD(4) [OF D(1)] by (intro blocks_mapped [OF G(3) [OF i i]]) (simp_all add: vw_def [of s'])
    ultimately show ?thesis using t(5) k e by simp
  qed
  have r1: "1 \<le> (1 :: nat)" "1 < freeinode t" using t(3) by simp_all
  have root: "fbytes (vw s') (d_addrs (dino s' 1)) ?n = mk_dirent 1 [46] @ mk_dirent 1 [46, 46] @ entries 2 fs"
    using blocks_agree(4) [OF D(6) [OF r1] agree [OF r1], of "freeblock s'" ?n] t(6) f(2,5) l by (simp add: content_def d_def)
  have bm: "img s' ! 58 ! (b div 8) AND bit_mask b = 0 \<longleftrightarrow> freeblock s' \<le> b" if "b < FSSIZE" for b
    unfolding bit_mask_test f(2,4) using bitmap_bits(1) [of "freeblock t" b] that img_okD(4) [OF D(1)] by auto
  show ?thesis using run files root bm f(2,3,5) t(4,7,8) decode_put_sb by (intro exI [of _ s']) (simp add: d_def)
qed

text \<open>
  C8.  \<^verbatim>\<open>mkfs\<close> on files that open, have no slash in their names and fit on the disk returns, and leaves an
  image that is what the kernel expects.  Sector 1 decodes to the super block.  The file number
  \<open>k\<close> of the command line is inode \<open>k + 2\<close>, a regular file whose blocks are allocated and whose bytes are
  those read from the host.  Inode 1 is the root directory, whose bytes are the entries \<^verbatim>\<open>.\<close>, \<^verbatim>\<open>..\<close> and one
  per file with the inode of that file, its size rounded up to more than the entries.  The bitmap in
  sector 58 marks exactly the blocks below the first free one, and exactly as many blocks are taken
  as the sizes need.
\<close>

theorem mkfs_builds_image:
  assumes "img s = []" "freeinode s = 1" "\<forall>f\<in>set fs. file_good f" "length fs \<le> 198"
    and "59 + need (32 + 16 * length fs) + all_need fs \<le> FSSIZE"
  shows "\<exists>s'. mkfs_main fs s = Ret () s' \<and> decode_sb (img s' ! 1) = mkfs_sb
    \<and> (\<forall>k<length fs. d_type (dino s' (k + 2)) = T_FILE \<and> content s' (k + 2) = fdata (fs ! k)
          \<and> mapped (vw s') FSSIZE (d_addrs (dino s' (k + 2))) (d_size (dino s' (k + 2))))
    \<and> d_type (dino s' 1) = T_DIR \<and> d_size (dino s' 1) = ((32 + 16 * length fs) div BSIZE + 1) * BSIZE
    \<and> fbytes (vw s') (d_addrs (dino s' 1)) (32 + 16 * length fs) = mk_dirent 1 [46] @ mk_dirent 1 [46, 46] @ entries 2 fs
    \<and> freeblock s' = 59 + need (32 + 16 * length fs) + all_need fs
    \<and> (\<forall>b<FSSIZE. img s' ! 58 ! (b div 8) AND bit_mask b = 0 \<longleftrightarrow> freeblock s' \<le> b)"
  by (rule mkfs_image [OF assms])

definition empty_image :: img_st where
  "empty_image = \<lparr>img = [], m_sb = mkfs_sb, freeinode = 1, freeblock = 0\<rparr>"

text \<open>The file \<^verbatim>\<open>_cat\<close> read in two pieces, and an empty file.\<close>

definition two_files :: "(u8 list \<times> u8 list list option) list" where
  "two_files = [([95, 99, 97, 116], Some [[1, 2, 3], [4]]), ([82], Some [])]"

theorem mkfs_builds_image_witness:
  "\<exists>s'. mkfs_main two_files empty_image = Ret () s' \<and> content s' 2 = [1, 2, 3, 4] \<and> content s' 3 = [] \<and> freeblock s' = 61"
proof -
  have e: "img empty_image = []" "freeinode empty_image = 1" by (simp_all add: empty_image_def)
  have g: "\<forall>f\<in>set two_files. file_good f" "length two_files = 2" by (simp_all add: two_files_def file_good_def fdata_def)
  have n: "need (32 + 16 * length two_files) = 1" "all_need two_files = 1"
    by (simp_all add: g(2)) (simp_all add: two_files_def all_need_def fdata_def cnt_def nblk_def)
  have f: "fdata (two_files ! 0) = [1, 2, 3, 4]" "fdata (two_files ! 1) = []" by (simp_all add: two_files_def fdata_def)
  obtain s' where s': "mkfs_main two_files empty_image = Ret () s'" "freeblock s' = 61"
    and c: "\<forall>k<2. content s' (k + 2) = fdata (two_files ! k)"
    using mkfs_builds_image [OF e g(1)] n g(2) by auto
  show ?thesis using s' c [rule_format, of 0] c [rule_format, of 1] f by (intro exI [of _ s']) (simp add: numeral_2_eq_2 numeral_3_eq_3)
qed

end
