(* ===== verification/Spec2Isabelle.thy ===== *)
theory Spec2Isabelle
  imports Kbd Ide Grep Runcmd Umalloc Mkfs
begin

text \<open>
  A verification library for the xv6 of this repository: the kernel, the file system image its
  build makes, and the user programs with logic of their own.  The source is under
  \<^verbatim>\<open>src/xv6-core\<close>; files are named without that prefix here.

  \<^bold>\<open>The program.\<close>  At the bottom the kernel owns memory: \<^verbatim>\<open>kalloc.c\<close> hands out pages, \<^verbatim>\<open>vm.c\<close> builds address
  spaces from them.  \<^verbatim>\<open>proc.c\<close> keeps the process table and the scheduler, with \<^verbatim>\<open>sleep\<close> and \<^verbatim>\<open>wakeup\<close> for the
  processes that wait, and \<^verbatim>\<open>spinlock.c\<close> and \<^verbatim>\<open>sleeplock.c\<close> the locks.  The disk side is a stack: the driver
  (\<^verbatim>\<open>ide.c\<close> or \<^verbatim>\<open>memide.c\<close>), the buffer cache \<^verbatim>\<open>bio.c\<close>, the redo log \<^verbatim>\<open>log.c\<close>, the inodes, directories and path
  names of \<^verbatim>\<open>fs.c\<close>, and the open files and pipes of \<^verbatim>\<open>file.c\<close> and \<^verbatim>\<open>pipe.c\<close>.  \<^verbatim>\<open>trap.c\<close> and \<^verbatim>\<open>syscall.c\<close> let processes
  in, to the calls of \<^verbatim>\<open>sysproc.c\<close>, \<^verbatim>\<open>sysfile.c\<close> and \<^verbatim>\<open>exec.c\<close>.  The console, keyboard and serial line are devices
  beside the file system.  This repository adds system calls for six semaphores and for the largest
  prime factor, and programs in which five philosophers dine.  \<^verbatim>\<open>mkfs.c\<close> builds the first disk on the host.

  \<^bold>\<open>The model.\<close>  A C function is a program \<open>'s \<Rightarrow> ('a, 's) outcome\<close> of theory Prelude: it returns a value
  and a new state, panics with the message of the code, goes to sleep on a channel, or spins forever.
  The state is a chain of records, each component adding its fields: memory (\<open>mem_st\<close>), processes,
  semaphores, buffers and disk, log, inodes, pipes, open files, life cycle, ticks and traps, console.  A
  function of a lower component is polymorphic in the rest of the chain, so that higher ones call it
  as it stands.  \<open>wp\<close> is total correctness (the program returns, in a state with the property) and \<open>wlp\<close> partial
  correctness (whatever it returns has the property); \<open>prog_simps\<close> and \<open>prog_defs\<close> collect the rules.  Machine integers are words where they
  may wrap; a pointer into a table is an index, and into memory an address.  A section under one
  kernel lock is one step.  Where interleavings matter there is a step relation, and the locale
  \<open>transition_system\<close> takes an invariant to all reachable states.

  \<^bold>\<open>Theories and what their lemmas show.\<close>

  \<^item> Prelude, Mmu, Strings, Bytes: the programs and their rules; \<^verbatim>\<open>types.h\<close>, \<^verbatim>\<open>param.h\<close>, \<^verbatim>\<open>memlayout.h\<close>, \<^verbatim>\<open>mmu.h\<close>; \<^verbatim>\<open>string.c\<close>
    and the string functions of \<^verbatim>\<open>ulib.c\<close>; integers in the bytes of a block.
  \<^item> Kalloc (\<^verbatim>\<open>kalloc.c\<close>): the free list in the free pages themselves.  Pages are neither lost nor given out
    twice; the initialisation frees each page once.  The locale \<open>page_pool\<close> is what clients rely on.
  \<^item> Vm, Paging, Uvm, Kvm (\<^verbatim>\<open>vm.c\<close>): Vm has the code.  Paging proves \<^verbatim>\<open>walkpgdir\<close> and \<^verbatim>\<open>mappages\<close> for the entry the
    hardware finds; Uvm the growth and shrinking of an address space; Kvm \<^verbatim>\<open>freevm\<close>, \<^verbatim>\<open>setupkvm\<close> and the copy
    for \<^verbatim>\<open>fork\<close>, with every failure path giving the pages back.
  \<^item> Proc, Lifecycle (\<^verbatim>\<open>proc.c\<close>, \<^verbatim>\<open>proc.h\<close>): process slots, pids, scheduling of every runnable process,
    \<^verbatim>\<open>sleep\<close>, \<^verbatim>\<open>wakeup\<close>, \<^verbatim>\<open>kill\<close>, and the hand-over of children at \<^verbatim>\<open>exit\<close>.  Lifecycle has
    the definitions of \<^verbatim>\<open>userinit\<close>, \<^verbatim>\<open>fork\<close>, \<^verbatim>\<open>exit\<close>, \<^verbatim>\<open>wait\<close> and \<^verbatim>\<open>growproc\<close>, which also use memory and files.
  \<^item> Spinlock (\<^verbatim>\<open>spinlock.c\<close>): mutual exclusion over the interleavings of the atomic actions of several
    CPUs, and the nesting of \<^verbatim>\<open>pushcli\<close> and \<^verbatim>\<open>popcli\<close>.  Sleeplock (\<^verbatim>\<open>sleeplock.c\<close>): the locale \<open>sleeplock_cell\<close>, for a
    lock embedded in some structure; buffers and inodes interpret it.
  \<^item> Sem (end of \<^verbatim>\<open>proc.c\<close>, \<^verbatim>\<open>philosopher.c\<close>, \<^verbatim>\<open>philosophers.c\<close>): the semaphore calls and the dinner, which never
    deadlocks and never lets neighbours eat together; \<^verbatim>\<open>flpf\<close>.
  \<^item> Bio (\<^verbatim>\<open>bio.c\<close>, \<^verbatim>\<open>memide.c\<close>): the ring of buffers as the code links it, its replacement order, and the locale
    \<open>block_cache\<close>, which reduces the cache to \<open>bview\<close>, the contents of a block as readers see it.
  \<^item> Ide (\<^verbatim>\<open>ide.c\<close>): the interrupt-driven queue does the requests in order, as the memory disk would.
  \<^item> Log (\<^verbatim>\<open>log.c\<close>): a crash at any block write of a commit, or of the recovery, leaves a disk that recovers
    all of the transaction or nothing; reservation of log space.
  \<^item> Fs, Content (\<^verbatim>\<open>fs.c\<close>): Fs has the code and lemmas on the inode cache, the encoding of inodes and path names;
    Content the bytes of a file behind its inode, and that \<^verbatim>\<open>readi\<close> returns them.
  \<^item> Pipe, File (\<^verbatim>\<open>pipe.c\<close>, \<^verbatim>\<open>file.c\<close>): a pipe is a bounded queue; reference counts of open files.
  \<^item> Sysarg, Exec, Sysproc, Sysfile, Trap (\<^verbatim>\<open>syscall.c\<close>, \<^verbatim>\<open>exec.c\<close>, \<^verbatim>\<open>sysproc.c\<close>, \<^verbatim>\<open>sysfile.c\<close>, \<^verbatim>\<open>trap.c\<close>): the system calls.
    Sysarg proves that arguments are checked against the address space of the caller; the other four
    are definitions only.
  \<^item> Console, Kbd (\<^verbatim>\<open>console.c\<close>, \<^verbatim>\<open>uart.c\<close>, \<^verbatim>\<open>kbd.c\<close>): line editing, screen, formatted output, scan codes;
    definitions only.
  \<^item> Umalloc (\<^verbatim>\<open>umalloc.c\<close>): the circular free list of the user allocator; blocks never overlap, the walks
    end, freed neighbours merge.
  \<^item> Sh, Runcmd (\<^verbatim>\<open>sh.c\<close>): the parser returns on every line and inverts printing; a command starts its
    programs with the right descriptors.  Grep (\<^verbatim>\<open>grep.c\<close>): the matcher decides its regular language.
  \<^item> Mkfs (\<^verbatim>\<open>mkfs.c\<close>): the image holds the files, the root directory and the bitmap.  This theory connects
    it to the kernel: what \<^verbatim>\<open>mkfs\<close> wrote is what \<^verbatim>\<open>readi\<close> returns.

  \<^bold>\<open>Loops and bounds.\<close>  Most loops are structural or have a termination proof.  The scans of the buffer
  ring get 31 rounds, one more than there are buffers, and the search for the end of the disk queue as
  many as there are buffers; the invariants show that this is enough, and a loop cut short would be
  \<open>Spin\<close>.  The parsers of the shell get \<open>4 * length b + 4\<close> units of fuel for a line \<open>b\<close>, proved never to run
  out.  The walks of C strings, of \<^verbatim>\<open>flpf\<close> and of the free list in Umalloc are partial functions with the value
  \<open>None\<close> for a loop that does not end; that they end is proved, for \<^verbatim>\<open>flpf\<close> on every argument and for the free list
  in every reachable state.

  \<^bold>\<open>Parameters.\<close>  The schedule, the interrupts and their order, the status bytes of the disk, the characters
  typed, what reads of host files return, and the memory left for \<^verbatim>\<open>sbrk\<close> are arguments or parts of the state
  that theorems quantify over.  A crash keeps a prefix of the block writes.

  \<^bold>\<open>Not modelled.\<close>  The boot code and the assembly (\<^verbatim>\<open>bootasm.S\<close>, \<^verbatim>\<open>bootmain.c\<close>, \<^verbatim>\<open>entry.S\<close>, \<^verbatim>\<open>swtch.S\<close>, \<^verbatim>\<open>trapasm.S\<close>) and \<^verbatim>\<open>main.c\<close>:
  they move registers and call the initialisations.  The interrupt controllers and the search for
  processors (\<^verbatim>\<open>lapic.c\<close>, \<^verbatim>\<open>ioapic.c\<close>, \<^verbatim>\<open>picirq.c\<close>, \<^verbatim>\<open>mp.c\<close>) and the segment and interrupt tables: device state.  The
  test programs, and the small user programs that make a few system calls and print.  \<^verbatim>\<open>printf.c\<close>, whose
  conversions are those of \<^verbatim>\<open>cprintf\<close> in Console.  The TLB and reordering of memory accesses: a store is seen
  at once.
\<close>

section \<open>From the build to the kernel\<close>

text \<open>A kernel that has the image as its disk: it has read the super block, and no block of it is changed yet.\<close>

definition boots_from :: "img_st \<Rightarrow> 'a fs_st_scheme \<Rightarrow> bool" where
  "boots_from s t \<longleftrightarrow> idle t \<and> disksize t = FSSIZE \<and> fs_sb t = decode_sb (img s ! 1) \<and> (\<forall>b<FSSIZE. bview t b = img s ! b)"

text \<open>
  C2.  A kernel that boots from an image built by \<^verbatim>\<open>mkfs\<close> reads the files that went into it: for an
  inode cache entry of the file number \<open>k\<close>, not read yet and not locked, \<^verbatim>\<open>ilock\<close> followed by
  \<^verbatim>\<open>readi\<close> neither sleeps nor panics and returns the bytes of that file from the offset on, whatever its
  size; an offset past the end gives -1; and the disk is seen as before.
\<close>

theorem kernel_reads_mkfs_files:
  fixes t :: "'a fs_st_scheme"
  assumes m: "img s = []" "freeinode s = 1" "\<forall>f\<in>set fs. file_good f" "length fs \<le> 198"
      "59 + need (32 + 16 * length fs) + all_need fs \<le> FSSIZE" "mkfs_main fs s = Ret () s'"
    and t: "boots_from s' t" and k: "k < length fs" and ip: "ip < length (inodes t)"
    and x: "1 \<le> i_ref (inodes t ! ip)" "\<not> sl_locked (i_lock (inodes t ! ip))" "\<not> i_valid (inodes t ! ip)"
      "i_dev (inodes t ! ip) = 1" "i_inum (inodes t ! ip) = k + 2" and n: "n < 2147483648"
  shows "wp (seqp (ilock (Some ip)) (readi devsw ip off n)) (\<lambda>(r, bs) u. bview u = bview t \<and>
    (if off \<le> length (fdata (fs ! k)) then r = int (min n (length (fdata (fs ! k)) - off)) \<and> bs = take n (drop off (fdata (fs ! k)))
     else r = -1)) t"
proof -
  let ?d = "dino s' (k + 2)"
  have I: "decode_sb (img s' ! 1) = mkfs_sb" "d_type ?d = T_FILE" "content s' (k + 2) = fdata (fs ! k)"
    "mapped (vw s') FSSIZE (d_addrs ?d) (d_size ?d)"
    using mkfs_image [OF m(1-5)] m(6) k by auto
  have T: "idle t" "disksize t = FSSIZE" "fs_sb t = mkfs_sb" "\<forall>b<FSSIZE. bview t b = vw s' b"
    using t I(1) by (simp_all add: boots_from_def vw_def)
  have blk: "IBLOCK (k + 2) mkfs_sb = (k + 2) div IPB + 32" "(k + 2) div IPB + 32 < FSSIZE"
    using div_le_mono [of "k + 2" 199 8] k m(4) by (simp_all add: IBLOCK_def mkfs_sb_def)
  have di: "get_dinode (bview t (IBLOCK (k + 2) mkfs_sb)) (dip (k + 2)) = ?d"
    using T(4) blk by (simp add: dino_def vw_def)
  note A = mapped_agree [OF I(4) T(4)]
  have len: "d_size ?d = length (fdata (fs ! k))" using len_content [of s' "k + 2"] I(3) by simp
  show ?thesis unfolding wp_seqp
  proof (rule wp_mono [OF ilock_loads [OF T(1) ip x(1-4)]])
    fix u
    assume u: "loaded t ip (get_dinode (bview t (IBLOCK (i_inum (inodes t ! ip)) (fs_sb t))) (dip (i_inum (inodes t ! ip)))) u"
    have y: "disk_copy (inodes u ! ip) = ?d" "idle u" "i_dev (inodes u ! ip) = 1" "bview u = bview t" "disksize u = FSSIZE"
      using u x T di by (simp_all add: loaded_def)
    have z: "i_addrs (inodes u ! ip) = d_addrs ?d" "i_size (inodes u ! ip) = d_size ?d" "i_type (inodes u ! ip) = T_FILE"
      using I(2) unfolding y(1) [symmetric] by (simp_all add: disk_copy_def)
    have b: "fbytes (bview t) (d_addrs ?d) (d_size ?d) = fdata (fs ! k)" using A(2) I(3) by (simp add: content_def)
    show "wp (readi devsw ip off n) (\<lambda>(r, bs) u. bview u = bview t \<and>
      (if off \<le> length (fdata (fs ! k)) then r = int (min n (length (fdata (fs ! k)) - off)) \<and> bs = take n (drop off (fdata (fs ! k)))
       else r = -1)) u"
      by (rule wp_mono [OF readi_spec [OF y(2,3)]])
        (use z y A(1) b len n in \<open>auto simp: kept_def split: if_splits\<close>)
  qed (use T x di blk I(2) in simp_all)
qed

text \<open>The image of two small files as the disk of a kernel whose cache is empty, with an entry for the first file.\<close>

definition fresh_kernel :: "img_st \<Rightarrow> fs_st" where
  "fresh_kernel s = demo_fs\<lparr>bufs := replicate NBUF zero_buf, disk := (\<lambda>b. img s ! b), fs_sb := decode_sb (img s ! 1),
     inodes := [zero_inode\<lparr>i_ref := 1, i_dev := 1, i_inum := 2\<rparr>]\<rparr>"

lemma fresh_kernel_boots: "boots_from s (fresh_kernel s)"
proof -
  let ?t = "fresh_kernel s"
  have sel: "bufs ?t = replicate NBUF zero_buf" "disk ?t = (\<lambda>b. img s ! b)" "bprev ?t = bprev demo_log" "bnext ?t = bnext demo_log"
    "ptable ?t = ptable demo_log" "curproc ?t = curproc demo_log" "disksize ?t = FSSIZE" "fs_sb ?t = decode_sb (img s ! 1)"
    by (simp_all add: fresh_kernel_def demo_fs_sel)
  have nth: "bufs ?t ! b = zero_buf" if "b < NBUF" for b using that by (simp add: sel)
  have v: "bview ?t n = img s ! n" for n
    using nth by (auto simp: bview_def sel(2) zero_buf_def split: option.splits dest!: find_upt_SomeD)
  have r: "(\<exists>xs. ring demo_log xs) \<and> running demo_log" using demo_quiet by (simp add: quiet_def bio_inv_def)
  have "bio_inv ?t" using r nth unfolding bio_inv_def ring_def sel(3,4) by (simp add: sel(1) buf_ok_def zero_buf_def)
  moreover have "running ?t" using r unfolding running_def sel by simp
  moreover have "locked_bufs ?t = {}" using nth by (auto simp: locked_bufs_def zero_buf_def)
  moreover have "dirty_blocks ?t = {}" using nth by (auto simp: dirty_blocks_def cached_def zero_buf_def)
  ultimately show ?thesis using v sel(7,8) by (simp add: boots_from_def idle_def quiet_def)
qed

theorem kernel_reads_mkfs_files_witness:
  "\<exists>s'. mkfs_main two_files empty_image = Ret () s' \<and>
    wp (seqp (ilock (Some 0)) (readi \<lparr>dv_read = \<lambda>_. None, dv_write = \<lambda>_. None\<rparr> 0 1 100)) (\<lambda>(r, bs) u. r = 3 \<and> bs = [2, 3, 4]) (fresh_kernel s')"
proof -
  have e: "img empty_image = []" "freeinode empty_image = 1" by (simp_all add: empty_image_def)
  have g: "\<forall>f\<in>set two_files. file_good f" "length two_files \<le> 198" by (simp_all add: two_files_def file_good_def fdata_def)
  have room: "59 + need (32 + 16 * length two_files) + all_need two_files \<le> FSSIZE"
    by (simp add: two_files_def all_need_def fdata_def cnt_def nblk_def)
  obtain s' where m: "mkfs_main two_files empty_image = Ret () s'" using mkfs_image [OF e g room] by blast
  have f: "0 < length two_files" "fdata (two_files ! 0) = [1, 2, 3, 4]" by (simp_all add: two_files_def fdata_def)
  have x: "inodes (fresh_kernel s') = [zero_inode\<lparr>i_ref := 1, i_dev := 1, i_inum := 2\<rparr>]" by (simp add: fresh_kernel_def)
  have "wp (seqp (ilock (Some 0)) (readi \<lparr>dv_read = \<lambda>_. None, dv_write = \<lambda>_. None\<rparr> 0 1 100)) (\<lambda>(r, bs) u. r = 3 \<and> bs = [2, 3, 4]) (fresh_kernel s')"
    by (rule wp_mono [OF kernel_reads_mkfs_files [OF e g room m fresh_kernel_boots f(1), of 0 100]]) (auto simp: x f(2) zero_inode_def)
  then show ?thesis using m by blast
qed

end
